(* ===== verification/PyBase.thy ===== *)
theory PyBase
  imports Main "HOL-Library.AList" "HOL-Library.Sublist" "HOL-Library.Multiset"
begin

text \<open>
  The prelude of the development: what the modelled Python code uses of the language and
  its standard library. It holds the exception classes and the result type, a world-passing
  monad for code that mutates state and may raise, the string operations (\<open>split\<close>,
  \<open>join\<close>, \<open>replace\<close>, \<open>startswith\<close>, \<open>int\<close>), insertion-ordered
  dictionaries as association lists, and the lemmas on them that the components share.
  Strings are lists of 8-bit characters, so code points above 255 are outside the model.
\<close>

named_theorems wp_simps \<open>weakest preconditions of the world-passing monad\<close>
named_theorems dict_simps \<open>lookups after dictionary updates\<close>

section \<open>Results and exceptions\<close>

datatype exc =
    KeyError | IndexError | ValueError | RuntimeError | AssertionError | AttributeError
  | TypeError | NotImplementedError | OSError | ParamNotFound | TestError | TestAbortError
  | ShellCmdError | ZeroDivisionError | OutOfFuel
  | ParserError | LexerError | MissingIncludeError
  | DiscontinuousPath | UnfinishedPath | NoParentLeft | NoChildLeft

text \<open>
  \<open>OutOfFuel\<close> is no exception of the program: it marks a loop that was cut off, and the
  components that use fuel prove how much of it is enough. The last four are the assertion
  errors of the graph traversal and the runtime errors of its pick functions, kept apart from
  other errors of the same class.
\<close>

type_synonym 'a res = "exc + 'a"

definition bindE :: "'a res \<Rightarrow> ('a \<Rightarrow> 'b res) \<Rightarrow> 'b res" where
  "bindE r f = (case r of Inl e \<Rightarrow> Inl e | Inr x \<Rightarrow> f x)"

lemma bindE_simps [simp]: "bindE (Inl e) f = Inl e" "bindE (Inr x) f = f x"
  by (simp_all add: bindE_def)

lemma bindE_Inr_iff: "bindE r f = Inr y \<longleftrightarrow> (\<exists>x. r = Inr x \<and> f x = Inr y)"
  by (cases r) simp_all

definition of_option :: "exc \<Rightarrow> 'a option \<Rightarrow> 'a res" where
  "of_option e v = (case v of None \<Rightarrow> Inl e | Some x \<Rightarrow> Inr x)"

lemma of_option_simps [simp]: "of_option e None = Inl e" "of_option e (Some x) = Inr x"
  by (simp_all add: of_option_def)

text \<open>Indexing a list or a string by a non-negative index raises past the end.\<close>

definition index_nth :: "'a list \<Rightarrow> nat \<Rightarrow> 'a res" where
  "index_nth xs i = (if i < length xs then Inr (xs ! i) else Inl IndexError)"

lemma index_nth_simps [simp]:
  "index_nth [] i = Inl IndexError"
  "index_nth (x # xs) 0 = Inr x"
  "index_nth (x # xs) (Suc i) = index_nth xs i"
  by (simp_all add: index_nth_def)

lemma index_nth_Inr [simp]: "index_nth xs i = Inr x \<longleftrightarrow> i < length xs \<and> xs ! i = x"
  by (auto simp: index_nth_def)

section \<open>World-passing code that may raise\<close>

text \<open>
  A computation takes the world and returns a result and the world after it. An exception
  keeps the changes made before it was raised, as in Python.
\<close>

type_synonym ('w, 'a) io = "'w \<Rightarrow> 'a res \<times> 'w"

definition retM :: "'a \<Rightarrow> ('w, 'a) io" where
  "retM x w = (Inr x, w)"

definition raiseM :: "exc \<Rightarrow> ('w, 'a) io" where
  "raiseM e w = (Inl e, w)"

definition liftM :: "'a res \<Rightarrow> ('w, 'a) io" where
  "liftM r w = (r, w)"

definition getM :: "('w \<Rightarrow> 'a) \<Rightarrow> ('w, 'a) io" where
  "getM f w = (Inr (f w), w)"

definition modifyM :: "('w \<Rightarrow> 'w) \<Rightarrow> ('w, unit) io" where
  "modifyM f w = (Inr (), f w)"

definition bindM :: "('w, 'a) io \<Rightarrow> ('a \<Rightarrow> ('w, 'b) io) \<Rightarrow> ('w, 'b) io" where
  "bindM m f w = (case m w of (Inl e, w') \<Rightarrow> (Inl e, w') | (Inr x, w') \<Rightarrow> f x w')"

definition thenM :: "('w, unit) io \<Rightarrow> ('w, 'b) io \<Rightarrow> ('w, 'b) io" where
  "thenM m n = bindM m (\<lambda>_. n)"

lemma io_run:
  "retM x w = (Inr x, w)"
  "raiseM e w = (Inl e, w)"
  "liftM r w = (r, w)"
  "getM f w = (Inr (f w), w)"
  "modifyM h w = (Inr (), h w)"
  by (simp_all add: retM_def raiseM_def liftM_def getM_def modifyM_def)

lemma bindM_ret [simp]: "bindM (retM x) f = f x" "bindM m retM = m"
  by (auto simp: bindM_def io_run fun_eq_iff split: prod.splits sum.splits)

lemma bindM_raise [simp]: "bindM (raiseM e) f = raiseM e"
  by (auto simp: bindM_def io_run fun_eq_iff)

lemma bindM_lift [simp]: "bindM (liftM (Inr x)) f = f x" "bindM (liftM (Inl e)) f = raiseM e"
  by (auto simp: bindM_def io_run fun_eq_iff)

lemma bindM_assoc: "bindM (bindM m f) g = bindM m (\<lambda>x. bindM (f x) g)"
  by (auto simp: bindM_def fun_eq_iff split: prod.splits sum.splits)

lemma bindM_Inr: "m w = (Inr x, w') \<Longrightarrow> bindM m f w = f x w'"
  by (simp add: bindM_def)

lemma bindM_Inl: "m w = (Inl e, w') \<Longrightarrow> bindM m f w = (Inl e, w')"
  by (simp add: bindM_def)

lemma bindM_eq_Inr:
  "bindM m f w = (Inr y, w') \<longleftrightarrow> (\<exists>x v. m w = (Inr x, v) \<and> f x v = (Inr y, w'))"
  by (auto simp: bindM_def split: prod.splits sum.splits)

lemma io_eq_Inr:
  "retM x w = (Inr y, w') \<longleftrightarrow> y = x \<and> w' = w"
  "raiseM e w = (Inr y, w') \<longleftrightarrow> False"
  "liftM r w = (Inr y, w') \<longleftrightarrow> r = Inr y \<and> w' = w"
  "getM f w = (Inr y, w') \<longleftrightarrow> y = f w \<and> w' = w"
  by (auto simp: io_run)

lemma bindM_fails:
  "(\<And>y v. \<exists>e. fst (f y v) = Inl e) \<Longrightarrow> \<exists>e. fst (bindM m f w) = Inl e"
  by (cases "m w"; cases "fst (m w)") (auto simp: bindM_def)

lemma thenM_Inr: "m w = (Inr u, w') \<Longrightarrow> thenM m n w = n w'"
  by (simp add: thenM_def bindM_def)

lemma thenM_Inl: "m w = (Inl e, w') \<Longrightarrow> thenM m n w = (Inl e, w')"
  by (simp add: thenM_def bindM_def)

lemma thenM_ret [simp]: "thenM (retM u) m = m"
  by (simp add: thenM_def)

text \<open>A \<open>for\<close> loop over a list; the first exception ends it.\<close>

primrec forM :: "('a \<Rightarrow> ('w, unit) io) \<Rightarrow> 'a list \<Rightarrow> ('w, unit) io" where
  "forM f [] = retM ()"
| "forM f (x # xs) = thenM (f x) (forM f xs)"

text \<open>A \<open>for\<close> loop whose body may return from the enclosing function with a value.\<close>

primrec for_return :: "('a \<Rightarrow> ('w, 'b option) io) \<Rightarrow> 'a list \<Rightarrow> ('w, 'b option) io" where
  "for_return f [] = retM None"
| "for_return f (x # xs) =
     bindM (f x) (\<lambda>r. case r of Some y \<Rightarrow> retM (Some y) | None \<Rightarrow> for_return f xs)"

text \<open>
  Weakest preconditions: \<open>wpM m E Q w\<close> holds when \<open>m\<close>, started in \<open>w\<close>, either
  raises in a way \<open>E\<close> allows or returns as \<open>Q\<close> says.
\<close>

definition wpM :: "('w, 'a) io \<Rightarrow> (exc \<Rightarrow> 'w \<Rightarrow> bool) \<Rightarrow> ('a \<Rightarrow> 'w \<Rightarrow> bool) \<Rightarrow> 'w \<Rightarrow> bool" where
  "wpM m E Q w = (case m w of (Inl e, w') \<Rightarrow> E e w' | (Inr x, w') \<Rightarrow> Q x w')"

lemma wpM_ret [wp_simps]: "wpM (retM x) E Q w = Q x w"
  by (simp add: wpM_def io_run)

lemma wpM_raise [wp_simps]: "wpM (raiseM e) E Q w = E e w"
  by (simp add: wpM_def io_run)

lemma wpM_lift [wp_simps]:
  "wpM (liftM r) E Q w = (case r of Inl e \<Rightarrow> E e w | Inr x \<Rightarrow> Q x w)"
  by (simp add: wpM_def io_run split: sum.splits)

lemma wpM_get [wp_simps]: "wpM (getM f) E Q w = Q (f w) w"
  by (simp add: wpM_def io_run)

lemma wpM_modify [wp_simps]: "wpM (modifyM f) E Q w = Q () (f w)"
  by (simp add: wpM_def io_run)

lemma wpM_bind [wp_simps]: "wpM (bindM m f) E Q w = wpM m E (\<lambda>x. wpM (f x) E Q) w"
  by (auto simp: wpM_def bindM_def split: prod.splits sum.splits)

lemma wpM_then [wp_simps]: "wpM (thenM m n) E Q w = wpM m E (\<lambda>_. wpM n E Q) w"
  by (simp add: thenM_def wpM_bind)

lemma wpM_if [wp_simps]: "wpM (if b then m else n) E Q w = (if b then wpM m E Q w else wpM n E Q w)"
  by simp

lemma wpM_mono:
  assumes "wpM m E Q w" and "\<And>e v. E e v \<Longrightarrow> E' e v" and "\<And>x v. Q x v \<Longrightarrow> Q' x v"
  shows "wpM m E' Q' w"
  using assms by (auto simp: wpM_def split: prod.splits sum.splits)

lemma wpM_bind_Inr: "m w = (Inr x, w') \<Longrightarrow> wpM (bindM m f) E Q w = wpM (f x) E Q w'"
  by (simp add: wpM_def bindM_def)

lemma wpM_bind_Inl: "m w = (Inl e, w') \<Longrightarrow> wpM (bindM m f) E Q w = E e w'"
  by (simp add: wpM_def bindM_def)

lemma wpM_bind_InrI: "m w = (Inr x, w') \<Longrightarrow> wpM (f x) E Q w' \<Longrightarrow> wpM (bindM m f) E Q w"
  by (simp add: wpM_bind_Inr)

lemma wpM_conj:
  "wpM m E Q w \<Longrightarrow> wpM m E' Q' w \<Longrightarrow>
   wpM m (\<lambda>e v. E e v \<and> E' e v) (\<lambda>x v. Q x v \<and> Q' x v) w"
  by (auto simp: wpM_def split: prod.splits sum.splits)

text \<open>A state predicate that every iteration keeps holds after the loop, raised or not.\<close>

lemma wpM_forM:
  assumes "\<And>x v. x \<in> set xs \<Longrightarrow> I v \<Longrightarrow> wpM (f x) E (\<lambda>_. I) v" and "I w"
  shows "wpM (forM f xs) E (\<lambda>_. I) w"
  using assms
proof (induction xs arbitrary: w)
  case Nil
  then show ?case by (simp add: wp_simps)
next
  case (Cons x xs)
  have "wpM (f x) E (\<lambda>_. I) w" using Cons.prems by simp
  then have "wpM (f x) E (\<lambda>_. wpM (forM f xs) E (\<lambda>_. I)) w"
    by (rule wpM_mono) (use Cons in auto)
  then show ?case by (simp add: wp_simps)
qed

text \<open>Computations that cannot be cut off: their loops end without fuel.\<close>

named_theorems uncut_intros \<open>computations that never run out of fuel\<close>

definition uncut :: "('w, 'a) io \<Rightarrow> bool" where
  "uncut m \<longleftrightarrow> (\<forall>w. fst (m w) \<noteq> Inl OutOfFuel)"

lemma uncut_ret [uncut_intros]: "uncut (retM x)"
  by (simp add: uncut_def io_run)

lemma uncut_raise [uncut_intros]: "e \<noteq> OutOfFuel \<Longrightarrow> uncut (raiseM e)"
  by (simp add: uncut_def io_run)

lemma uncut_lift [uncut_intros]: "r \<noteq> Inl OutOfFuel \<Longrightarrow> uncut (liftM r)"
  by (simp add: uncut_def io_run)

lemma uncut_get [uncut_intros]: "uncut (getM f)"
  by (simp add: uncut_def io_run)

lemma uncut_modify [uncut_intros]: "uncut (modifyM f)"
  by (simp add: uncut_def io_run)

lemma uncut_bind [uncut_intros]: "uncut m \<Longrightarrow> (\<And>x. uncut (f x)) \<Longrightarrow> uncut (bindM m f)"
proof -
  assume m: "uncut m" and f: "\<And>x. uncut (f x)"
  have "fst (bindM m f w) \<noteq> Inl OutOfFuel" for w
  proof (cases "m w")
    case (Pair r v)
    then show ?thesis using m [unfolded uncut_def, rule_format, of w] f [unfolded uncut_def]
      by (cases r) (auto simp: bindM_def)
  qed
  then show ?thesis by (simp add: uncut_def)
qed

lemma uncut_then [uncut_intros]: "uncut m \<Longrightarrow> uncut n \<Longrightarrow> uncut (thenM m n)"
  unfolding thenM_def by (rule uncut_bind)

lemma uncut_if [uncut_intros]: "(b \<Longrightarrow> uncut m) \<Longrightarrow> (\<not> b \<Longrightarrow> uncut n) \<Longrightarrow> uncut (if b then m else n)"
  by simp

lemma uncut_forM [uncut_intros]: "(\<And>x. uncut (f x)) \<Longrightarrow> uncut (forM f xs)"
  by (induction xs) (simp_all add: uncut_intros)

lemma bindE_uncut:
  "r \<noteq> Inl OutOfFuel \<Longrightarrow> (\<And>x. f x \<noteq> Inl OutOfFuel) \<Longrightarrow> bindE r f \<noteq> Inl OutOfFuel"
  by (cases r) auto

text \<open>Computations that keep a property of the world, whether they raise or not.\<close>

named_theorems keeps_intros \<open>computations that keep a property of the world\<close>

definition keeps :: "('w \<Rightarrow> bool) \<Rightarrow> ('w, 'a) io \<Rightarrow> bool" where
  "keeps I m \<longleftrightarrow> (\<forall>w. I w \<longrightarrow> I (snd (m w)))"

lemma keepsD: "keeps I m \<Longrightarrow> I w \<Longrightarrow> m w = (r, w') \<Longrightarrow> I w'"
  unfolding keeps_def by (metis snd_conv)

lemma keeps_pure [keeps_intros]:
  "keeps I (retM x)" "keeps I (raiseM e)" "keeps I (liftM r)" "keeps I (getM f)"
  by (simp_all add: keeps_def io_run)

lemma keeps_bind [keeps_intros]: "keeps I m \<Longrightarrow> (\<And>x. keeps I (f x)) \<Longrightarrow> keeps I (bindM m f)"
proof -
  assume m: "keeps I m" and f: "\<And>x. keeps I (f x)"
  have "I (snd (bindM m f w))" if "I w" for w
  proof (cases "m w")
    case (Pair r v)
    then have "I v" using m that by (metis keepsD)
    then show ?thesis using Pair f [unfolded keeps_def] by (cases r) (simp_all add: bindM_def)
  qed
  then show ?thesis by (simp add: keeps_def)
qed

lemma keeps_lift_bind [keeps_intros]:
  "(\<And>x. r = Inr x \<Longrightarrow> keeps I (f x)) \<Longrightarrow> keeps I (bindM (liftM r) f)"
  by (cases r) (simp_all add: keeps_pure)

lemma keeps_then [keeps_intros]: "keeps I m \<Longrightarrow> keeps I n \<Longrightarrow> keeps I (thenM m n)"
  unfolding thenM_def by (rule keeps_bind)

lemma keeps_if [keeps_intros]: "(b \<Longrightarrow> keeps I m) \<Longrightarrow> (\<not> b \<Longrightarrow> keeps I n) \<Longrightarrow> keeps I (if b then m else n)"
  by simp

lemma keeps_forM: "(\<And>x. x \<in> set xs \<Longrightarrow> keeps I (f x)) \<Longrightarrow> keeps I (forM f xs)"
  by (induction xs) (simp_all add: keeps_intros)

lemma keeps_for_return:
  "(\<And>x. x \<in> set xs \<Longrightarrow> keeps I (f x)) \<Longrightarrow> keeps I (for_return f xs)"
proof (induction xs)
  case (Cons x xs)
  then have "keeps I (f x)" "keeps I (for_return f xs)" by simp_all
  then show ?case
    by (auto intro!: keeps_bind keeps_pure split: option.split)
qed (simp add: keeps_pure)

section \<open>Strings\<close>

definition is_ws :: "char \<Rightarrow> bool" where
  "is_ws c \<longleftrightarrow> c \<in> set [CHR 0x09, CHR 0x0A, CHR 0x0B, CHR 0x0C, CHR 0x0D, CHR 0x1C, CHR 0x1D,
     CHR 0x1E, CHR 0x1F, CHR '' '', CHR 0x85, CHR 0xA0]"

text \<open>\<open>s.split()\<close>: the maximal runs of non-blank characters.\<close>

fun words_acc :: "string \<Rightarrow> string \<Rightarrow> string list" where
  "words_acc acc [] = (if acc = [] then [] else [rev acc])"
| "words_acc acc (c # cs) =
     (if is_ws c then (if acc = [] then words_acc [] cs else rev acc # words_acc [] cs)
      else words_acc (c # acc) cs)"

definition split_ws :: "string \<Rightarrow> string list" where
  "split_ws s = words_acc [] s"

text \<open>\<open>s.split(c)\<close> for a one-character separator.\<close>

fun split_on :: "char \<Rightarrow> string \<Rightarrow> string list" where
  "split_on c [] = [[]]"
| "split_on c (x # xs) =
     (if x = c then [] # split_on c xs
      else (case split_on c xs of [] \<Rightarrow> [[x]] | y # ys \<Rightarrow> (x # y) # ys))"

text \<open>\<open>sep.join(xs)\<close>.\<close>

fun join :: "string \<Rightarrow> string list \<Rightarrow> string" where
  "join sep [] = []"
| "join sep [x] = x"
| "join sep (x # y # ys) = x @ sep @ join sep (y # ys)"

text \<open>\<open>s.split(sep)[0]\<close> for a non-empty separator: what precedes its first occurrence.\<close>

fun before_first :: "string \<Rightarrow> string \<Rightarrow> string" where
  "before_first sep [] = []"
| "before_first sep (c # cs) = (if prefix sep (c # cs) then [] else c # before_first sep cs)"

text \<open>\<open>s.replace(old, new)\<close> for a non-empty \<open>old\<close>.\<close>

function replace_all :: "string \<Rightarrow> string \<Rightarrow> string \<Rightarrow> string" where
  "replace_all old new [] = []"
| "replace_all old new (c # cs) =
     (if old \<noteq> [] \<and> prefix old (c # cs)
      then new @ replace_all old new (drop (length old - 1) cs)
      else c # replace_all old new cs)"
  by pat_completeness auto
termination
  by (relation "measure (\<lambda>(old, new, s). length s)") auto

text \<open>\<open>s.replace(old, new, 1)\<close>.\<close>

fun replace_first :: "string \<Rightarrow> string \<Rightarrow> string \<Rightarrow> string" where
  "replace_first old new [] = (if old = [] then new else [])"
| "replace_first old new (c # cs) =
     (if prefix old (c # cs) then new @ drop (length old) (c # cs)
      else c # replace_first old new cs)"

text \<open>\<open>s.strip()\<close>.\<close>

definition strip_ws :: "string \<Rightarrow> string" where
  "strip_ws s = rev (dropWhile is_ws (rev (dropWhile is_ws s)))"

definition startswith :: "string \<Rightarrow> string \<Rightarrow> bool" where
  "startswith s p \<longleftrightarrow> prefix p s"

definition endswith :: "string \<Rightarrow> string \<Rightarrow> bool" where
  "endswith s p \<longleftrightarrow> suffix p s"

definition str_in :: "string \<Rightarrow> string \<Rightarrow> bool" where
  "str_in p s \<longleftrightarrow> sublist p s"

text \<open>The order of strings, character by character.\<close>

fun str_less :: "string \<Rightarrow> string \<Rightarrow> bool" where
  "str_less [] ys \<longleftrightarrow> ys \<noteq> []"
| "str_less (x # xs) [] \<longleftrightarrow> False"
| "str_less (x # xs) (y # ys) \<longleftrightarrow>
     (of_char x :: nat) < of_char y \<or> x = y \<and> str_less xs ys"

lemma str_less_Nil [simp]: "\<not> str_less s []"
  by (cases s) simp_all

lemma str_less_irrefl [simp]: "\<not> str_less s s"
  by (induction s) auto

lemma str_less_asym: "str_less s t \<Longrightarrow> \<not> str_less t s"
  by (induction s t rule: str_less.induct) auto

lemma str_less_trans: "str_less s t \<Longrightarrow> str_less t u \<Longrightarrow> str_less s u"
proof (induction s t arbitrary: u rule: str_less.induct)
  case (1 ys)
  then show ?case by (cases ys; cases u) auto
next
  case (2 x xs)
  then show ?case by simp
next
  case (3 x xs y ys)
  then show ?case by (cases u) auto
qed

lemma str_less_total: "s \<noteq> t \<Longrightarrow> str_less s t \<or> str_less t s"
proof (induction s t rule: str_less.induct)
  case (3 x xs y ys)
  then show ?case
    by (cases "(of_char x :: nat)" "(of_char y :: nat)" rule: linorder_cases) auto
qed auto

lemma words_acc_word: "w \<in> set (words_acc acc s) \<Longrightarrow> (\<forall>c \<in> set acc. \<not> is_ws c) \<Longrightarrow>
    w \<noteq> [] \<and> (\<forall>c \<in> set w. \<not> is_ws c)"
proof (induction s arbitrary: acc)
  case Nil
  then show ?case by (cases "acc = []") simp_all
next
  case (Cons c cs)
  show ?case
  proof (cases "is_ws c")
    case True
    then have "w = rev acc \<and> acc \<noteq> [] \<or> w \<in> set (words_acc [] cs)"
      using Cons.prems(1) by (cases "acc = []") simp_all
    then show ?thesis using Cons.IH [of "[]"] Cons.prems(2) by fastforce
  next
    case False
    then have "w \<in> set (words_acc (c # acc) cs)" using Cons.prems(1) by simp
    moreover have "\<forall>d \<in> set (c # acc). \<not> is_ws d" using False Cons.prems(2) by simp
    ultimately show ?thesis by (rule Cons.IH)
  qed
qed

lemma split_ws_word: "w \<in> set (split_ws s) \<Longrightarrow> w \<noteq> [] \<and> (\<forall>c \<in> set w. \<not> is_ws c)"
  unfolding split_ws_def by (drule words_acc_word) auto

lemma words_acc_no_ws:
  "(\<forall>c \<in> set s. \<not> is_ws c) \<Longrightarrow> words_acc acc s = (if rev acc @ s = [] then [] else [rev acc @ s])"
  by (induction s arbitrary: acc) simp_all

lemma split_ws_no_ws: "(\<forall>c \<in> set s. \<not> is_ws c) \<Longrightarrow> split_ws s = (if s = [] then [] else [s])"
  by (simp add: split_ws_def words_acc_no_ws)

lemma words_acc_append_ws:
  "(\<forall>c \<in> set s. \<not> is_ws c) \<Longrightarrow> is_ws b \<Longrightarrow>
   words_acc acc (s @ b # t) = (if rev acc @ s = [] then [] else [rev acc @ s]) @ words_acc [] t"
  by (induction s arbitrary: acc) auto

lemma is_ws_blank [simp]: "is_ws (CHR '' '')"
  by (simp add: is_ws_def)

text \<open>Joining words by blanks and splitting the line gives them back.\<close>

lemma split_ws_join:
  "(\<And>w. w \<in> set ws \<Longrightarrow> w \<noteq> [] \<and> (\<forall>c \<in> set w. \<not> is_ws c)) \<Longrightarrow> split_ws (join '' '' ws) = ws"
proof (induction "'' ''" ws rule: join.induct)
  case 1
  then show ?case by (simp add: split_ws_def)
next
  case (2 x)
  then show ?case by (simp add: split_ws_no_ws)
next
  case (3 x y ys)
  have x: "\<forall>c \<in> set x. \<not> is_ws c" "x \<noteq> []"
    using "3.prems" by auto
  have "split_ws (join '' '' (y # ys)) = y # ys"
    by (rule "3.hyps") (use "3.prems" in auto)
  with x show ?case
    by (simp add: split_ws_def words_acc_append_ws)
qed

lemma split_on_nonempty [simp]: "split_on c s \<noteq> []"
  by (cases s) (auto split: list.splits)

lemma join_split_on: "join [c] (split_on c s) = s"
proof (induction s)
  case (Cons x xs)
  then show ?case by (cases "split_on c xs" rule: list.exhaust; cases "tl (split_on c xs)") auto
qed simp

lemma split_on_part: "p \<in> set (split_on c s) \<Longrightarrow> c \<notin> set p"
proof (induction s arbitrary: p)
  case (Cons x xs)
  then show ?case by (cases "split_on c xs") (auto split: if_splits)
qed simp

lemma split_on_no_sep: "c \<notin> set s \<Longrightarrow> split_on c s = [s]"
  by (induction s) auto

lemma split_on_append_sep:
  "c \<notin> set s \<Longrightarrow> split_on c (s @ c # t) = s # split_on c t"
  by (induction s) auto

lemma split_on_join:
  "ps \<noteq> [] \<Longrightarrow> (\<And>p. p \<in> set ps \<Longrightarrow> c \<notin> set p) \<Longrightarrow> split_on c (join [c] ps) = ps"
proof (induction "[c]" ps rule: join.induct)
  case (3 x y ys)
  then show ?case by (simp add: split_on_append_sep)
qed (auto simp: split_on_no_sep)

lemma before_first_prefix: "prefix (before_first sep s) s"
  by (induction s) auto

lemma before_first_no_sep:
  "sep \<noteq> [] \<Longrightarrow> \<not> sublist sep (before_first sep s)"
proof (induction s)
  case (Cons c cs)
  show ?case
  proof (cases "prefix sep (c # cs)")
    case False
    have "\<not> prefix sep (c # before_first sep cs)"
    proof
      assume "prefix sep (c # before_first sep cs)"
      moreover have "prefix (c # before_first sep cs) (c # cs)"
        by (simp add: before_first_prefix)
      ultimately show False using False prefix_order.trans by blast
    qed
    with Cons False show ?thesis by (auto simp: sublist_Cons_right)
  qed (use Cons in simp)
qed simp

lemma before_first_append:
  "sep \<noteq> [] \<Longrightarrow> \<not> sublist sep (s @ butlast sep) \<Longrightarrow> before_first sep (s @ sep) = s"
proof (induction s)
  case Nil
  then show ?case by (cases sep) auto
next
  case (Cons c cs)
  have no: "\<not> sublist sep (cs @ butlast sep)"
    using Cons.prems by (auto simp: sublist_Cons_right)
  have "\<not> prefix sep (c # cs @ sep)"
  proof
    assume a: "prefix sep (c # cs @ sep)"
    have "length sep \<le> length (c # cs @ butlast sep)" by simp
    moreover have "prefix (c # cs @ butlast sep) (c # cs @ sep)"
      by (simp add: butlast_conv_take take_is_prefix)
    ultimately have "prefix sep (c # cs @ butlast sep)"
      using a prefix_length_prefix by blast
    then show False using Cons.prems by (auto simp: sublist_Cons_right)
  qed
  with Cons no show ?case by simp
qed

section \<open>Numbers and strings\<close>

definition digit_char :: "nat \<Rightarrow> char" where
  "digit_char n = char_of (48 + n)"

fun show_nat :: "nat \<Rightarrow> string" where
  "show_nat n = (if n < 10 then [digit_char n] else show_nat (n div 10) @ [digit_char (n mod 10)])"

declare show_nat.simps [simp del]

definition show_int :: "int \<Rightarrow> string" where
  "show_int i = (if i < 0 then CHR ''-'' # show_nat (nat (- i)) else show_nat (nat i))"

text \<open>\<open>s.isdigit()\<close> on ASCII strings.\<close>

definition is_digit :: "char \<Rightarrow> bool" where
  "is_digit c \<longleftrightarrow> 48 \<le> (of_char c :: nat) \<and> (of_char c :: nat) \<le> 57"

definition str_isdigit :: "string \<Rightarrow> bool" where
  "str_isdigit s \<longleftrightarrow> s \<noteq> [] \<and> (\<forall>c \<in> set s. is_digit c)"

text \<open>The value of a character as a digit in some base up to 36.\<close>

definition digit_val :: "char \<Rightarrow> nat option" where
  "digit_val c = (let n = of_char c :: nat in
     if 48 \<le> n \<and> n \<le> 57 then Some (n - 48)
     else if 97 \<le> n \<and> n \<le> 122 then Some (n - 87)
     else if 65 \<le> n \<and> n \<le> 90 then Some (n - 55)
     else None)"

text \<open>
  Digits of a literal: single underscores may stand between digits. The flag says whether
  the previous character was a digit.
\<close>

fun read_digits :: "nat \<Rightarrow> bool \<Rightarrow> nat \<Rightarrow> string \<Rightarrow> nat option" where
  "read_digits base prev acc [] = (if prev then Some acc else None)"
| "read_digits base prev acc (c # cs) =
     (if c = CHR ''_'' then (if prev then read_digits base False acc cs else None)
      else case digit_val c of
        None \<Rightarrow> None
      | Some d \<Rightarrow> if d < base then read_digits base True (acc * base + d) cs else None)"

definition split_sign :: "string \<Rightarrow> int \<times> string" where
  "split_sign s = (case s of
     [] \<Rightarrow> (1, [])
   | c # cs \<Rightarrow> if c = CHR ''-'' then (-1, cs) else if c = CHR ''+'' then (1, cs) else (1, s))"

text \<open>\<open>int(s)\<close> for a string.\<close>

definition py_int :: "string \<Rightarrow> int res" where
  "py_int s = (let (sg, ds) = split_sign (strip_ws s) in
     case read_digits 10 False 0 ds of
       None \<Rightarrow> Inl ValueError | Some n \<Rightarrow> Inr (sg * int n))"

text \<open>
  \<open>int(s, 0)\<close>: the base is taken from the prefix; a decimal literal may not have leading
  zeros unless it is zero.
\<close>

definition read_based :: "nat \<Rightarrow> string \<Rightarrow> nat option" where
  "read_based base ds = (case ds of
     [] \<Rightarrow> None
   | c # cs \<Rightarrow> if c = CHR ''_'' then read_digits base False 0 cs else read_digits base False 0 ds)"

definition py_int0 :: "string \<Rightarrow> int res" where
  "py_int0 s = (let (sg, ds) = split_sign (strip_ws s);
       p = take 2 ds; r = drop 2 ds;
       v = (if p \<in> {''0x'', ''0X''} then read_based 16 r
            else if p \<in> {''0o'', ''0O''} then read_based 8 r
            else if p \<in> {''0b'', ''0B''} then read_based 2 r
            else (case read_digits 10 False 0 ds of
                None \<Rightarrow> None
              | Some n \<Rightarrow> if n \<noteq> 0 \<and> take 1 ds = ''0'' then None else Some n))
     in case v of None \<Rightarrow> Inl ValueError | Some n \<Rightarrow> Inr (sg * int n))"

lemma of_char_digit_char [simp]: "n < 10 \<Longrightarrow> (of_char (digit_char n) :: nat) = 48 + n"
  by (simp add: digit_char_def)

lemma digit_val_digit_char [simp]: "n < 10 \<Longrightarrow> digit_val (digit_char n) = Some n"
  by (simp add: digit_val_def)

lemma is_digit_digit_char [simp]: "n < 10 \<Longrightarrow> is_digit (digit_char n)"
  by (simp add: is_digit_def)

lemma is_digit_char_range: "is_digit c \<Longrightarrow> c \<noteq> CHR ''_'' \<and> c \<noteq> CHR ''-'' \<and> c \<noteq> CHR ''+'' \<and> \<not> is_ws c"
  by (auto simp: is_digit_def is_ws_def)

lemma show_nat_digits: "c \<in> set (show_nat n) \<Longrightarrow> is_digit c"
proof (induction n rule: show_nat.induct)
  case (1 n)
  then show ?case by (subst (asm) show_nat.simps) (auto split: if_splits)
qed

lemma show_nat_nonempty [simp]: "show_nat n \<noteq> []"
  by (subst show_nat.simps) simp

lemma read_digits_app:
  "\<forall>c \<in> set s. is_digit c \<Longrightarrow> s \<noteq> [] \<Longrightarrow> read_digits b p a s = Some m \<Longrightarrow>
   read_digits b p a (s @ t) = read_digits b True m t"
proof (induction s arbitrary: p a)
  case (Cons c s)
  then show ?case
    by (cases s) (auto simp: is_digit_char_range split: option.splits if_splits)
qed simp

lemma read_digits_show_nat: "read_digits 10 False 0 (show_nat n) = Some n"
proof (induction n rule: show_nat.induct)
  case (1 n)
  have und: "digit_char m \<noteq> CHR ''_''" if "m < 10" for m
    using is_digit_char_range is_digit_digit_char that by blast
  show ?case
  proof (cases "n < 10")
    case True
    then show ?thesis using und by (subst show_nat.simps) simp
  next
    case False
    have "read_digits 10 False 0 (show_nat (n div 10) @ [digit_char (n mod 10)])
        = read_digits 10 True (n div 10) [digit_char (n mod 10)]"
      using 1 False by (intro read_digits_app) (auto dest: show_nat_digits)
    then show ?thesis
      using False und [of "n mod 10"] by (subst show_nat.simps) simp
  qed
qed

lemma dropWhile_no: "(\<forall>c \<in> set s. \<not> P c) \<Longrightarrow> dropWhile P s = s"
  by (cases s) auto

lemma strip_ws_digits: "(\<forall>c \<in> set s. \<not> is_ws c) \<Longrightarrow> strip_ws s = s"
  by (simp add: strip_ws_def dropWhile_no)

lemma show_nat_split_sign: "split_sign (show_nat n) = (1, show_nat n)"
proof -
  obtain c cs where s: "show_nat n = c # cs" by (cases "show_nat n") auto
  then have "is_digit c" using show_nat_digits [of c n] by simp
  then show ?thesis using s is_digit_char_range [of c] by (simp add: split_sign_def)
qed

text \<open>Reading back what was shown.\<close>

lemma py_int_show_nat: "py_int (show_nat n) = Inr (int n)"
proof -
  have "strip_ws (show_nat n) = show_nat n"
    by (rule strip_ws_digits) (auto dest!: show_nat_digits is_digit_char_range)
  then show ?thesis
    by (simp add: py_int_def show_nat_split_sign read_digits_show_nat)
qed

section \<open>Dictionaries\<close>

text \<open>
  A dictionary is an association list in insertion order: \<open>AList.update\<close> overwrites in
  place or appends, as a Python dictionary does; \<open>map_of\<close> looks up.
\<close>

type_synonym ('k, 'v) dict = "('k \<times> 'v) list"

definition dict_set :: "'k \<Rightarrow> 'v \<Rightarrow> ('k, 'v) dict \<Rightarrow> ('k, 'v) dict" where
  "dict_set k v d = AList.update k v d"

definition dict_get :: "('k, 'v) dict \<Rightarrow> 'k \<Rightarrow> 'v \<Rightarrow> 'v" where
  "dict_get d k v = (case map_of d k of None \<Rightarrow> v | Some x \<Rightarrow> x)"

definition dict_keys :: "('k, 'v) dict \<Rightarrow> 'k list" where
  "dict_keys d = map fst d"

definition dict_has :: "('k, 'v) dict \<Rightarrow> 'k \<Rightarrow> bool" where
  "dict_has d k \<longleftrightarrow> map_of d k \<noteq> None"

definition dict_del :: "'k \<Rightarrow> ('k, 'v) dict \<Rightarrow> ('k, 'v) dict" where
  "dict_del k d = AList.delete k d"

definition dict_update :: "('k, 'v) dict \<Rightarrow> ('k, 'v) dict \<Rightarrow> ('k, 'v) dict" where
  "dict_update d e = fold (\<lambda>(k, v). dict_set k v) e d"

lemma map_of_dict_set [simp, dict_simps]:
  "map_of (dict_set k v d) k' = (if k' = k then Some v else map_of d k')"
  by (simp add: dict_set_def update_conv)

lemma dict_get_set [simp, dict_simps]:
  "dict_get (dict_set k v d) k' x = (if k' = k then v else dict_get d k' x)"
  by (simp add: dict_get_def)

lemma dict_has_set [simp, dict_simps]: "dict_has (dict_set k v d) k' \<longleftrightarrow> k' = k \<or> dict_has d k'"
  by (simp add: dict_has_def)

lemma map_of_dict_del [simp, dict_simps]:
  "map_of (dict_del k d) k' = (if k' = k then None else map_of d k')"
  by (simp add: dict_del_def delete_conv)

lemma dict_has_iff: "dict_has d k \<longleftrightarrow> k \<in> set (dict_keys d)"
  by (simp add: dict_has_def dict_keys_def map_of_eq_None_iff)

lemma distinct_dict_set [simp]: "distinct (dict_keys d) \<Longrightarrow> distinct (dict_keys (dict_set k v d))"
  by (simp add: dict_set_def dict_keys_def distinct_update)

lemma dict_set_keys: "dict_keys (dict_set k v d) = (if dict_has d k then dict_keys d else dict_keys d @ [k])"
  by (simp add: dict_set_def dict_keys_def dict_has_def update_keys map_of_eq_None_iff)

text \<open>\<open>list({}.fromkeys(xs).keys())\<close>: the distinct elements, first occurrences in order.\<close>

definition fromkeys :: "'a list \<Rightarrow> ('a, unit) dict" where
  "fromkeys xs = fold (\<lambda>x. dict_set x ()) xs []"

fun dedup :: "'a list \<Rightarrow> 'a list" where
  "dedup [] = []"
| "dedup (x # xs) = x # filter (\<lambda>y. y \<noteq> x) (dedup xs)"

lemma set_dedup [simp]: "set (dedup xs) = set xs"
  by (induction xs) auto

lemma distinct_dedup [simp]: "distinct (dedup xs)"
  by (induction xs) auto

lemma dedup_distinct: "distinct xs \<Longrightarrow> dedup xs = xs"
  by (induction xs) (auto intro: filter_True)

lemma dedup_append: "dedup (xs @ ys) = dedup xs @ filter (\<lambda>y. y \<notin> set xs) (dedup ys)"
  by (induction xs) (auto intro: filter_cong)

lemma fromkeys_append: "dict_keys (fromkeys (xs @ [x]))
    = (if x \<in> set (dict_keys (fromkeys xs)) then dict_keys (fromkeys xs)
       else dict_keys (fromkeys xs) @ [x])"
  by (simp add: fromkeys_def dict_set_keys dict_has_iff)

lemma keys_fromkeys: "dict_keys (fromkeys xs) = dedup xs"
proof (induction xs rule: rev_induct)
  case Nil
  then show ?case by (simp add: fromkeys_def dict_keys_def)
next
  case (snoc x xs)
  then show ?case by (simp add: fromkeys_append dedup_append)
qed

text \<open>\<open>xs.index(x)\<close> for an element of the list.\<close>

fun list_index :: "'a list \<Rightarrow> 'a \<Rightarrow> nat" where
  "list_index [] x = 0"
| "list_index (y # ys) x = (if x = y then 0 else Suc (list_index ys x))"

lemma list_index_append:
  "list_index (xs @ ys) x = (if x \<in> set xs then list_index xs x else length xs + list_index ys x)"
  by (induction xs) auto

lemma sorted_index_dedup: "sorted (map (list_index xs) (dedup xs))"
proof (induction xs)
  case (Cons x xs)
  let ?ys = "filter (\<lambda>y. y \<noteq> x) (dedup xs)"
  have eq: "map (list_index (x # xs)) ?ys = map Suc (map (list_index xs) ?ys)"
    by simp
  have "sorted (map (list_index xs) ?ys)"
    using Cons sorted_filter by blast
  moreover have "sorted (map Suc ns) = sorted ns" for ns
    by (induction ns) auto
  ultimately have "sorted (map (list_index (x # xs)) ?ys)"
    unfolding eq by blast
  moreover have "map (list_index (x # xs)) (dedup (x # xs)) = 0 # map (list_index (x # xs)) ?ys"
    by simp
  ultimately show ?case by (simp only: sorted_simps) simp
qed simp

lemma sort_index_dedup: "sort_key (list_index xs) (dedup xs) = dedup xs"
  by (intro sort_key_id_if_sorted sorted_index_dedup)

end
