(* ===== verification/Params.thy ===== *)
theory Params
  imports PyBase
begin

text \<open>
  Model of \<open>virttest/utils_params.py\<close>: the parameter dictionary that every component
  reads its configuration from. A \<open>Params\<close> is a dictionary of strings to strings in
  insertion order; the suffix lookup (\<open>object_params\<close>), the object lists and the typed
  getters are one definition each. Values that are not strings (the internal
  \<open>_name_map_file\<close> dictionaries) and the float target type are not modelled; the class
  lock around the copy has no effect on a single call.
\<close>

type_synonym params = "(string, string) dict"

section \<open>Reading and writing\<close>

definition p_getitem :: "params \<Rightarrow> string \<Rightarrow> string res" where
  "p_getitem p key = of_option ParamNotFound (map_of p key)"

definition p_get :: "params \<Rightarrow> string \<Rightarrow> string option" where
  "p_get p key = (case p_getitem p key of Inr v \<Rightarrow> Some v | Inl _ \<Rightarrow> None)"

definition p_get_or :: "params \<Rightarrow> string \<Rightarrow> string \<Rightarrow> string" where
  "p_get_or p key dflt = (case p_get p key of Some v \<Rightarrow> v | None \<Rightarrow> dflt)"

definition p_set :: "string \<Rightarrow> string \<Rightarrow> params \<Rightarrow> params" where
  "p_set key v p = dict_set key v p"

definition p_setdefault :: "params \<Rightarrow> string \<Rightarrow> string \<Rightarrow> string \<times> params" where
  "p_setdefault p key failobj =
     (let p' = (if dict_has p key then p else p_set key failobj p)
      in (p_get_or p' key failobj, p'))"

text \<open>Python truth of \<open>params.get(key)\<close>: present and not the empty string.\<close>

definition p_true :: "params \<Rightarrow> string \<Rightarrow> bool" where
  "p_true p key \<longleftrightarrow> (case p_get p key of Some v \<Rightarrow> v \<noteq> [] | None \<Rightarrow> False)"

lemma p_getitem_simps: "p_getitem p k = (case map_of p k of None \<Rightarrow> Inl ParamNotFound | Some v \<Rightarrow> Inr v)"
  by (simp add: p_getitem_def of_option_def)

lemma p_get_map_of [simp]: "p_get p k = map_of p k"
  by (simp add: p_get_def p_getitem_simps split: option.splits)

lemma p_getitem_Inr: "p_getitem p k = Inr v \<longleftrightarrow> map_of p k = Some v"
  by (simp add: p_getitem_simps split: option.splits)

lemma map_of_p_set [simp, dict_simps]:
  "map_of (p_set k v p) k' = (if k' = k then Some v else map_of p k')"
  by (simp add: p_set_def)

lemma p_getitem_set [simp, dict_simps]:
  "p_getitem (p_set k v p) k' = (if k' = k then Inr v else p_getitem p k')"
  by (simp add: p_getitem_simps)

lemma p_get_or_set [simp, dict_simps]:
  "p_get_or (p_set k v p) k' d = (if k' = k then v else p_get_or p k' d)"
  by (simp add: p_get_or_def)

lemma p_true_set [simp, dict_simps]:
  "p_true (p_set k v p) k' = (if k' = k then v \<noteq> [] else p_true p k')"
  by (simp add: p_true_def)

section \<open>Objects\<close>

definition objects :: "params \<Rightarrow> string \<Rightarrow> string list" where
  "objects p key =
     (let lst = split_ws (p_get_or p key []);
          objs = dict_keys (fromkeys lst)
      in sort_key (list_index lst) objs)"

lemma objects_dedup: "objects p key = dedup (split_ws (p_get_or p key []))"
  by (simp add: objects_def keys_fromkeys sort_index_dedup Let_def)

lemma distinct_objects [simp]: "distinct (objects p key)"
  by (simp add: objects_dedup)

lemma objects_word: "x \<in> set (objects p key) \<Longrightarrow> x \<noteq> [] \<and> (\<forall>c \<in> set x. \<not> is_ws c)"
  by (auto simp: objects_dedup dest: split_ws_word)

lemma objects_p_set_word:
  "x \<noteq> [] \<Longrightarrow> \<forall>c \<in> set x. \<not> is_ws c \<Longrightarrow> objects (p_set k x p) k = [x]"
  by (simp add: objects_dedup split_ws_no_ws)

lemma objects_p_set_other: "k' \<noteq> k \<Longrightarrow> objects (p_set k x p) k' = objects p k'"
  by (simp add: objects_dedup)

text \<open>
  \<open>object_params\<close>: every key that ends with the suffix also defines the key cut at the
  first occurrence of the suffix; the suffixed keys themselves stay.
\<close>

definition obj_suffix :: "string \<Rightarrow> string" where
  "obj_suffix obj_name = ''_'' @ obj_name"

definition object_params_step :: "string \<Rightarrow> string \<Rightarrow> params \<Rightarrow> params" where
  "object_params_step sfx key new_dict =
     (if endswith key sfx
      then (case map_of new_dict key of
              Some v \<Rightarrow> p_set (before_first sfx key) v new_dict
            | None \<Rightarrow> new_dict)
      else new_dict)"

definition object_params :: "params \<Rightarrow> string \<Rightarrow> params" where
  "object_params p obj_name =
     fold (object_params_step (obj_suffix obj_name)) (dict_keys p) p"

definition object_counts :: "params \<Rightarrow> string \<Rightarrow> string \<Rightarrow> (string \<times> string option) list res" where
  "object_counts p count_key base_name =
     bindE (case p_get p count_key of None \<Rightarrow> Inr 1 | Some s \<Rightarrow> py_int s) (\<lambda>count.
       Inr (map (\<lambda>number. let key = base_name @ show_nat number in (key, p_get p key))
              [1..<nat count + 1]))"

definition copy_from_keys :: "params \<Rightarrow> string list \<Rightarrow> params" where
  "copy_from_keys p keys =
     fold (\<lambda>key new_dict. if p_true p key then p_set key (p_get_or p key []) new_dict else new_dict)
       keys []"

section \<open>Typed getters\<close>

definition get_boolean :: "params \<Rightarrow> string \<Rightarrow> bool \<Rightarrow> bool res" where
  "get_boolean p key dflt =
     (let value = p_get_or p key (if dflt then ''yes'' else ''no'') in
      if value \<in> set [''yes'', ''on'', ''true''] then Inr True
      else if value \<in> set [''no'', ''off'', ''false''] then Inr False
      else Inl ValueError)"

definition get_numeric :: "params \<Rightarrow> string \<Rightarrow> int \<Rightarrow> int res" where
  "get_numeric p key dflt =
     (case p_get p key of None \<Rightarrow> Inr dflt | Some value \<Rightarrow> py_int0 value)"

text \<open>The delimiter \<open>None\<close> splits on blanks, another one on that character.\<close>

definition get_list :: "params \<Rightarrow> string \<Rightarrow> string \<Rightarrow> char option \<Rightarrow> string list" where
  "get_list p key dflt delimiter =
     (let param_string = p_get_or p key dflt in
      if param_string = [] then []
      else (case delimiter of None \<Rightarrow> split_ws param_string | Some c \<Rightarrow> split_on c param_string))"

fun find_char :: "char \<Rightarrow> string \<Rightarrow> nat option" where
  "find_char c [] = None"
| "find_char c (x # xs) = (if x = c then Some 0 else map_option Suc (find_char c xs))"

primrec dict_entries :: "string list \<Rightarrow> (string, string) dict \<Rightarrow> (string, string) dict res" where
  "dict_entries [] result = Inr result"
| "dict_entries (entry # es) result =
     (case find_char (CHR ''='') entry of
        None \<Rightarrow> Inl ValueError
      | Some i \<Rightarrow>
          dict_entries es (dict_set (strip_ws (take i entry)) (strip_ws (drop (i + 1) entry)) result))"

definition get_dict :: "params \<Rightarrow> string \<Rightarrow> string \<Rightarrow> char option \<Rightarrow> (string, string) dict res" where
  "get_dict p key dflt delimiter = dict_entries (get_list p key dflt delimiter) []"

definition drop_dict_internals :: "params \<Rightarrow> params" where
  "drop_dict_internals p = filter (\<lambda>(key, value). \<not> startswith key ''_'') p"

section \<open>The suffix lookup\<close>

lemma obj_suffix_nonempty [simp]: "obj_suffix n \<noteq> []"
  by (simp add: obj_suffix_def)

lemma endswith_sublist: "endswith key sfx \<Longrightarrow> sublist sfx key"
  by (simp add: endswith_def suffix_imp_sublist)

lemma step_other:
  "sublist sfx k \<Longrightarrow> sfx \<noteq> [] \<Longrightarrow> map_of (object_params_step sfx key d) k = map_of d k"
  using before_first_no_sep [of sfx key]
  by (auto simp: object_params_step_def split: option.splits)

lemma fold_step_suffixed:
  "sublist sfx k \<Longrightarrow> sfx \<noteq> [] \<Longrightarrow> map_of (fold (object_params_step sfx) ks d) k = map_of d k"
  by (induction ks arbitrary: d) (simp_all add: step_other)

text \<open>Keys that hold the suffix keep their value.\<close>

lemma object_params_suffixed:
  "sublist (obj_suffix n) k \<Longrightarrow> map_of (object_params p n) k = map_of p k"
  by (simp add: object_params_def fold_step_suffixed)

text \<open>
  The value of a key without the suffix: the last key, in insertion order, that is cut to it,
  and the old value when there is none.
\<close>

definition suffix_sources :: "string \<Rightarrow> string list \<Rightarrow> string \<Rightarrow> string list" where
  "suffix_sources sfx ks k = filter (\<lambda>key. endswith key sfx \<and> before_first sfx key = k) ks"

lemma fold_step_lookup:
  assumes "sfx \<noteq> []" and "\<not> sublist sfx k" and "\<And>key. key \<in> set ks \<Longrightarrow> map_of d key \<noteq> None"
  shows "map_of (fold (object_params_step sfx) ks d) k =
    (if suffix_sources sfx ks k = [] then map_of d k else map_of d (last (suffix_sources sfx ks k)))"
  using assms
proof (induction ks arbitrary: d)
  case Nil
  then show ?case by (simp add: suffix_sources_def)
next
  case (Cons key ks)
  let ?d = "object_params_step sfx key d"
  have has: "map_of ?d key' \<noteq> None" if "map_of d key' \<noteq> None" for key'
    using that by (auto simp: object_params_step_def split: option.splits)
  have IH: "map_of (fold (object_params_step sfx) ks ?d) k =
    (if suffix_sources sfx ks k = [] then map_of ?d k else map_of ?d (last (suffix_sources sfx ks k)))"
    using Cons.prems has by (intro Cons.IH) auto
  have src: "sublist sfx s" if "s \<in> set (suffix_sources sfx ks' k)" for s ks'
    using that by (auto simp: suffix_sources_def endswith_sublist)
  show ?case
  proof (cases "suffix_sources sfx ks k = []")
    case True
    moreover have "map_of ?d k = (if endswith key sfx \<and> before_first sfx key = k
        then map_of d key else map_of d k)"
    proof -
      obtain v where "map_of d key = Some v"
        using Cons.prems(3) [of key] by auto
      then show ?thesis by (simp add: object_params_step_def)
    qed
    ultimately show ?thesis
      using IH by (auto simp: suffix_sources_def)
  next
    case False
    then have "map_of ?d (last (suffix_sources sfx ks k)) = map_of d (last (suffix_sources sfx ks k))"
      using src [of "last (suffix_sources sfx ks k)" ks] Cons.prems by (simp add: step_other)
    then show ?thesis
      using IH False by (simp add: suffix_sources_def)
  qed
qed

lemma object_params_lookup:
  assumes "\<not> sublist (obj_suffix n) k"
  shows "map_of (object_params p n) k =
    (let srcs = suffix_sources (obj_suffix n) (dict_keys p) k
     in if srcs = [] then map_of p k else map_of p (last srcs))"
  unfolding object_params_def Let_def
  by (rule fold_step_lookup) (use assms in \<open>auto simp: dict_keys_def map_of_eq_None_iff\<close>)

lemma object_params_unchanged:
  assumes "\<And>key. key \<in> set (dict_keys p) \<Longrightarrow> \<not> endswith key (obj_suffix n)"
  shows "object_params p n = p"
proof -
  have "fold (object_params_step (obj_suffix n)) ks d = d"
    if "\<forall>key \<in> set ks. \<not> endswith key (obj_suffix n)" for ks d
    using that by (induction ks) (simp_all add: object_params_step_def)
  then show ?thesis using assms by (simp add: object_params_def)
qed

text \<open>Cutting a key that ends with the suffix and holds it nowhere else removes the suffix.\<close>

lemma before_first_suffixed:
  "\<not> sublist (obj_suffix n) (k @ ''_'' @ butlast n) \<Longrightarrow> n \<noteq> [] \<Longrightarrow>
   before_first (obj_suffix n) (k @ obj_suffix n) = k"
  by (rule before_first_append) (simp_all add: obj_suffix_def)

lemma distinct_object_params: "distinct (dict_keys p) \<Longrightarrow> distinct (dict_keys (object_params p n))"
proof -
  have "distinct (dict_keys (fold (object_params_step sfx) ks d))" if "distinct (dict_keys d)"
    for sfx ks d
    using that
    by (induction ks arbitrary: d)
      (simp_all add: object_params_step_def p_set_def split: option.splits)
  then show "distinct (dict_keys p) \<Longrightarrow> distinct (dict_keys (object_params p n))"
    by (simp add: object_params_def)
qed

text \<open>A value set under the suffixed name of an object is what the object reads.\<close>

lemma object_params_reads_suffixed:
  assumes k: "\<not> sublist (obj_suffix n) (k @ ''_'' @ butlast n)" and n: "n \<noteq> []"
    and d: "distinct (dict_keys p)"
    and only: "suffix_sources (obj_suffix n) (dict_keys p) k = [k @ obj_suffix n]"
  shows "map_of (object_params p n) k = map_of p (k @ obj_suffix n)"
proof -
  have "\<not> sublist (obj_suffix n) k"
    using k sublist_append by (metis append.assoc sublist_appendI sublist_order.dual_order.trans)
  then show ?thesis using only by (simp add: object_params_lookup)
qed

text \<open>Every value of the result is a value of the input.\<close>

lemma object_params_ran:
  assumes "map_of (object_params p n) k = Some v"
  shows "\<exists>key. map_of p key = Some v"
proof (cases "sublist (obj_suffix n) k")
  case True
  then show ?thesis using assms by (auto simp: object_params_suffixed)
next
  case False
  then show ?thesis using assms by (auto simp: object_params_lookup Let_def split: if_splits)
qed

section \<open>Lists and dictionaries of parameters\<close>

lemma get_boolean_set:
  "get_boolean (p_set k ''yes'' p) k d = Inr True" "get_boolean (p_set k ''no'' p) k d = Inr False"
  by (simp_all add: get_boolean_def Let_def)

lemma get_boolean_absent: "map_of p k = None \<Longrightarrow> get_boolean p k d = Inr d"
  by (simp add: get_boolean_def p_get_or_def Let_def)

lemma get_numeric_absent: "map_of p k = None \<Longrightarrow> get_numeric p k d = Inr d"
  by (simp add: get_numeric_def)

lemma map_of_drop_internals:
  "map_of (drop_dict_internals p) k = (if startswith k ''_'' then None else map_of p k)"
  by (induction p) (auto simp: drop_dict_internals_def)


section \<open>Properties\<close>

text \<open>
  What an object reads: a key that holds the object's suffix is read as it is; any other
  key has the value of the last suffixed key, in insertion order, that is cut to it at the
  first occurrence of the suffix, and its own value when there is none.
\<close>

theorem object_params_value:
  "p_get (object_params p n) k =
    (let sources = filter (\<lambda>key. endswith key (''_'' @ n) \<and> before_first (''_'' @ n) key = k) (dict_keys p)
     in if sublist (''_'' @ n) k \<or> sources = [] then p_get p k else p_get p (last sources))"
  using object_params_lookup [of n k p] object_params_suffixed [of n k p]
  by (cases "sublist (''_'' @ n) k") (simp_all add: obj_suffix_def suffix_sources_def Let_def)

text \<open>
  The objects listed under a key are its words without repetition, in the order of their
  first occurrence.
\<close>

theorem objects_first_occurrences:
  "set (objects p key) = set (split_ws (p_get_or p key [])) \<and> distinct (objects p key)
    \<and> sorted (map (list_index (split_ws (p_get_or p key []))) (objects p key))"
  by (simp add: objects_dedup sorted_index_dedup)

lemma find_char_append: "c \<notin> set s \<Longrightarrow> find_char c (s @ c # t) = Some (length s)"
  by (induction s) auto

lemma dict_entries_pairs:
  assumes "\<And>n v. (n, v) \<in> set kvs \<Longrightarrow>
      (\<forall>c \<in> set (n @ v). \<not> is_ws c) \<and> CHR ''='' \<notin> set n"
    and "distinct (map fst (d @ kvs))"
  shows "dict_entries (map (\<lambda>(n, v). n @ ''='' @ v) kvs) d = Inr (d @ kvs)"
  using assms
proof (induction kvs arbitrary: d)
  case (Cons kv kvs)
  obtain n v where kv: "kv = (n, v)" by (cases kv)
  have ws: "\<forall>c \<in> set n. \<not> is_ws c" "\<forall>c \<in> set v. \<not> is_ws c" and eq: "CHR ''='' \<notin> set n"
    using Cons.prems(1) [of n v] by (auto simp: kv)
  have new: "n \<notin> set (map fst d)" using Cons.prems(2) by (auto simp: kv)
  then have "dict_set n v d = d @ [(n, v)]"
    unfolding dict_set_def by (induction d) auto
  moreover have "dict_entries (map (\<lambda>(n, v). n @ ''='' @ v) kvs) (d @ [(n, v)]) = Inr ((d @ [(n, v)]) @ kvs)"
    by (rule Cons.IH) (use Cons.prems in \<open>auto simp: kv\<close>)
  ultimately show ?case
    using find_char_append [OF eq, of v] by (simp add: kv strip_ws_digits ws)
qed simp

text \<open>
  A dictionary written as \<open>name=value\<close> words is read back as written, in order, when
  the names are distinct and free of blanks and equality signs and the values free of blanks.
\<close>

theorem get_dict_roundtrip:
  assumes "\<And>n v. (n, v) \<in> set kvs \<Longrightarrow> (\<forall>c \<in> set (n @ v). \<not> is_ws c) \<and> CHR ''='' \<notin> set n"
    and "distinct (map fst kvs)"
  shows "get_dict (p_set key (join '' '' (map (\<lambda>(n, v). n @ ''='' @ v) kvs)) p) key dflt None = Inr kvs"
proof -
  let ?ws = "map (\<lambda>(n, v). n @ ''='' @ v) kvs"
  have "split_ws (join '' '' ?ws) = ?ws"
    by (rule split_ws_join) (use assms(1) in \<open>fastforce simp: is_ws_def\<close>)
  moreover have "join sep (x # xs) = [] \<Longrightarrow> x = []" for sep x xs
    by (cases xs) auto
  then have "join '' '' ?ws = [] \<longleftrightarrow> ?ws = []"
    by (cases kvs) (auto split: prod.splits)
  ultimately have "get_list (p_set key (join '' '' ?ws) p) key dflt None = ?ws"
    by (auto simp: get_list_def Let_def)
  then show ?thesis
    using dict_entries_pairs [of kvs "[]"] assms by (simp add: get_dict_def)
qed

lemma get_dict_roundtrip_witness:
  "get_dict (p_set ''check_opts'' (join '' '' (map (\<lambda>(n, v). n @ ''='' @ v)
      [(''soft_boot'', ''yes''), (''mode'', ''a=b'')])) []) ''check_opts'' [] None
    = Inr [(''soft_boot'', ''yes''), (''mode'', ''a=b'')]"
  by (rule get_dict_roundtrip) (auto simp: is_ws_def)

end
