(* ===== verification/FileSys.thy ===== *)
theory FileSys
  imports PyBase
begin

text \<open>
  The calls of \<open>os\<close>, \<open>os.path\<close> and \<open>shutil\<close> that the state pool makes, over an
  explicit file system: a dictionary from paths to files, directories and symbolic links.
  Paths are compared as strings (the code builds all of them by \<open>os.path.join\<close>); a link is
  followed when it is the last component of a path. The root and the working directory always
  exist.
\<close>

datatype 'c node = File 'c | Dir | Link string

type_synonym 'c fs = "(string, 'c node) dict"

section \<open>Paths\<close>

definition path_join :: "string \<Rightarrow> string \<Rightarrow> string" where
  "path_join a b = (if startswith b ''/'' then b
     else if a = [] \<or> endswith a ''/'' then a @ b else a @ ''/'' @ b)"

definition is_slash :: "char \<Rightarrow> bool" where
  "is_slash c \<longleftrightarrow> c = CHR ''/''"

definition basename :: "string \<Rightarrow> string" where
  "basename p = rev (takeWhile (\<lambda>c. \<not> is_slash c) (rev p))"

definition dirname :: "string \<Rightarrow> string" where
  "dirname p = (let head = rev (dropWhile (\<lambda>c. \<not> is_slash c) (rev p)) in
     if head \<noteq> [] \<and> (\<exists>c \<in> set head. \<not> is_slash c) then rev (dropWhile is_slash (rev head)) else head)"

definition path_isabs :: "string \<Rightarrow> bool" where
  "path_isabs p \<longleftrightarrow> startswith p ''/''"

text \<open>The directories on the way to a path, the path last.\<close>

fun ancestors_acc :: "string \<Rightarrow> string \<Rightarrow> string list" where
  "ancestors_acc acc [] = (if acc = [] then [] else [rev acc])"
| "ancestors_acc acc (c # cs) =
     (if is_slash c \<and> (\<exists>d \<in> set acc. \<not> is_slash d)
      then rev acc # ancestors_acc (c # acc) cs else ancestors_acc (c # acc) cs)"

definition ancestors :: "string \<Rightarrow> string list" where
  "ancestors p = ancestors_acc [] p"

section \<open>Queries\<close>

text \<open>Following links; at most as many as there are entries.\<close>

fun resolve_n :: "nat \<Rightarrow> 'c fs \<Rightarrow> string \<Rightarrow> string" where
  "resolve_n 0 fs p = p"
| "resolve_n (Suc n) fs p = (case map_of fs p of Some (Link t) \<Rightarrow> resolve_n n fs t | _ \<Rightarrow> p)"

definition realpath :: "'c fs \<Rightarrow> string \<Rightarrow> string" where
  "realpath fs p = resolve_n (length fs) fs p"

definition node_at :: "'c fs \<Rightarrow> string \<Rightarrow> 'c node option" where
  "node_at fs p = (if p = [] then None else let r = realpath fs p in
     case map_of fs r of
       Some (Link t) \<Rightarrow> None
     | Some n \<Rightarrow> Some n
     | None \<Rightarrow> if r = ''/'' then Some Dir else None)"

definition path_exists :: "'c fs \<Rightarrow> string \<Rightarrow> bool" where
  "path_exists fs p \<longleftrightarrow> node_at fs p \<noteq> None"

definition path_islink :: "'c fs \<Rightarrow> string \<Rightarrow> bool" where
  "path_islink fs p \<longleftrightarrow> (case map_of fs p of Some (Link t) \<Rightarrow> True | _ \<Rightarrow> False)"

text \<open>The content a reader of the path gets.\<close>

definition read_file :: "'c fs \<Rightarrow> string \<Rightarrow> 'c res" where
  "read_file fs p = (case node_at fs p of Some (File c) \<Rightarrow> Inr c | _ \<Rightarrow> Inl OSError)"

text \<open>\<open>os.listdir\<close>: the names of the entries right below a directory.\<close>

definition listdir :: "'c fs \<Rightarrow> string \<Rightarrow> string list res" where
  "listdir fs p = (case node_at fs p of
     Some Dir \<Rightarrow>
       Inr (map basename (filter (\<lambda>q. q = path_join (realpath fs p) (basename q) \<and> basename q \<noteq> [])
              (dict_keys fs)))
   | _ \<Rightarrow> Inl OSError)"

section \<open>Changes\<close>

text \<open>Opening a path for writing needs its directory and writes through a link.\<close>

definition parent_ok :: "'c fs \<Rightarrow> string \<Rightarrow> bool" where
  "parent_ok fs p \<longleftrightarrow> dirname p = [] \<or> node_at fs (dirname p) = Some Dir"

definition write_file :: "string \<Rightarrow> 'c \<Rightarrow> 'c fs \<Rightarrow> 'c fs res" where
  "write_file p c fs = (let r = realpath fs p in
     if p = [] \<or> \<not> parent_ok fs r \<or> node_at fs r = Some Dir \<or> path_islink fs r then Inl OSError
     else Inr (dict_set r (File c) fs))"

definition unlink :: "string \<Rightarrow> 'c fs \<Rightarrow> 'c fs res" where
  "unlink p fs = (case map_of fs p of
     Some (File c) \<Rightarrow> Inr (dict_del p fs)
   | Some (Link t) \<Rightarrow> Inr (dict_del p fs)
   | _ \<Rightarrow> Inl OSError)"

definition symlink :: "string \<Rightarrow> string \<Rightarrow> 'c fs \<Rightarrow> 'c fs res" where
  "symlink target p fs =
     (if p = [] \<or> target = [] \<or> dict_has fs p \<or> \<not> parent_ok fs p then Inl OSError
      else Inr (dict_set p (Link target) fs))"

definition rmdir :: "string \<Rightarrow> 'c fs \<Rightarrow> 'c fs res" where
  "rmdir p fs = (if map_of fs p = Some Dir \<and> listdir fs p = Inr [] then Inr (dict_del p fs) else Inl OSError)"

text \<open>\<open>shutil.copy\<close>: into a directory under the name of the source, else onto the path.\<close>

definition copy_file :: "string \<Rightarrow> string \<Rightarrow> 'c fs \<Rightarrow> 'c fs res" where
  "copy_file src dst fs =
     bindE (read_file fs src) (\<lambda>c.
       let dst' = (if node_at fs dst = Some Dir then path_join dst (basename src) else dst) in
       if realpath fs src = realpath fs dst' then Inl OSError else write_file dst' c fs)"

primrec makedirs_each :: "string list \<Rightarrow> 'c fs \<Rightarrow> 'c fs res" where
  "makedirs_each [] fs = Inr fs"
| "makedirs_each (p # ps) fs =
     (case node_at fs p of
        Some Dir \<Rightarrow> makedirs_each ps fs
      | Some (File c) \<Rightarrow> Inl OSError
      | _ \<Rightarrow> if dict_has fs p then Inl OSError else makedirs_each ps (dict_set p Dir fs))"

text \<open>\<open>os.makedirs(p, exist_ok=True)\<close>.\<close>

definition makedirs :: "string \<Rightarrow> 'c fs \<Rightarrow> 'c fs res" where
  "makedirs p fs = (if p = [] then Inl OSError else makedirs_each (ancestors p) fs)"

section \<open>Lemmas\<close>

lemma resolve_n_no_link:
  "(\<And>t. map_of fs p \<noteq> Some (Link t)) \<Longrightarrow> resolve_n n fs p = p"
  by (cases n) (auto split: option.splits node.splits)

lemma realpath_no_link: "\<not> path_islink fs p \<Longrightarrow> realpath fs p = p"
  unfolding realpath_def by (rule resolve_n_no_link) (auto simp: path_islink_def)

lemma node_at_no_link:
  "\<not> path_islink fs p \<Longrightarrow> p \<noteq> [] \<Longrightarrow> p \<noteq> ''/'' \<Longrightarrow> node_at fs p = map_of fs p"
  by (auto simp: node_at_def realpath_no_link path_islink_def split: option.splits node.splits)

lemma node_at_File_realpath: "node_at fs p = Some (File c) \<Longrightarrow> map_of fs (realpath fs p) = Some (File c)"
  by (auto simp: node_at_def Let_def split: option.splits node.splits if_splits)

lemma map_of_File_node_at: "map_of fs p = Some (File c) \<Longrightarrow> p \<noteq> [] \<Longrightarrow> node_at fs p = Some (File c)"
  by (auto simp: node_at_def realpath_no_link path_islink_def)

lemma path_exists_File: "map_of fs p = Some (File c) \<Longrightarrow> p \<noteq> [] \<Longrightarrow> path_exists fs p"
  by (simp add: path_exists_def map_of_File_node_at)

lemma unlink_result: "unlink p fs = Inr fs' \<Longrightarrow> map_of fs' q = (if q = p then None else map_of fs q)"
  by (auto simp: unlink_def split: option.splits node.splits)

lemma write_file_result:
  "write_file p c fs = Inr fs' \<Longrightarrow> fs' = dict_set (realpath fs p) (File c) fs"
  by (auto simp: write_file_def Let_def split: if_splits)

lemma makedirs_each_Cons:
  "makedirs_each (p # ps) fs = Inr fs' \<Longrightarrow>
   makedirs_each ps fs = Inr fs' \<or> map_of fs p = None \<and> makedirs_each ps (dict_set p Dir fs) = Inr fs'"
  by (auto split: option.splits node.splits if_splits simp: dict_has_def)

lemma makedirs_each_keeps:
  "makedirs_each ps fs = Inr fs' \<Longrightarrow> map_of fs q = Some n \<Longrightarrow> map_of fs' q = Some n"
proof (induction ps arbitrary: fs)
  case (Cons p ps)
  from makedirs_each_Cons [OF Cons.prems(1)] show ?case
    using Cons.prems(2) Cons.IH [of fs] Cons.IH [of "dict_set p Dir fs"] by (cases "q = p") auto
qed simp

lemma makedirs_each_only_dirs:
  "makedirs_each ps fs = Inr fs' \<Longrightarrow> map_of fs' q = Some n \<Longrightarrow> map_of fs q = Some n \<or> n = Dir"
proof (induction ps arbitrary: fs)
  case (Cons p ps)
  from makedirs_each_Cons [OF Cons.prems(1)] show ?case
    using Cons.prems(2) Cons.IH [of fs] Cons.IH [of "dict_set p Dir fs"] by (auto split: if_splits)
qed simp

lemma makedirs_keeps:
  "makedirs p fs = Inr fs' \<Longrightarrow> map_of fs q = Some n \<Longrightarrow> map_of fs' q = Some n"
  by (auto simp: makedirs_def dest: makedirs_each_keeps split: if_splits)

lemma makedirs_only_dirs:
  "makedirs p fs = Inr fs' \<Longrightarrow> map_of fs' q = Some n \<Longrightarrow> map_of fs q = Some n \<or> n = Dir"
  by (auto simp: makedirs_def dest: makedirs_each_only_dirs split: if_splits)

text \<open>A path joined to a directory has that directory name and that base name.\<close>

lemma basename_join:
  "CHR ''/'' \<notin> set n \<Longrightarrow> basename (d @ CHR ''/'' # n) = n"
proof -
  assume "CHR ''/'' \<notin> set n"
  then have "\<forall>c \<in> set (rev n). \<not> is_slash c" by (auto simp: is_slash_def)
  then have "takeWhile (\<lambda>c. \<not> is_slash c) (rev n @ CHR ''/'' # rev d)
      = rev n @ takeWhile (\<lambda>c. \<not> is_slash c) (CHR ''/'' # rev d)"
    by (intro takeWhile_append2) simp
  also have "\<dots> = rev n" by (simp add: is_slash_def)
  finally have "takeWhile (\<lambda>c. \<not> is_slash c) (rev n @ CHR ''/'' # rev d) = rev n" .
  then show ?thesis by (simp add: basename_def)
qed

text \<open>Resolving a path after a write through it.\<close>

lemma resolve_n_more:
  "\<not> path_islink fs (resolve_n n fs p) \<Longrightarrow> n \<le> m \<Longrightarrow> resolve_n m fs p = resolve_n n fs p"
proof (induction n arbitrary: m p)
  case 0
  then have "resolve_n m fs p = p" by (intro resolve_n_no_link) (auto simp: path_islink_def)
  then show ?case by simp
next
  case (Suc n)
  show ?case
  proof (cases "path_islink fs p")
    case True
    then obtain t k where t: "map_of fs p = Some (Link t)" and m: "m = Suc k"
      using Suc.prems(2) by (cases m) (auto simp: path_islink_def split: option.splits node.splits)
    have "resolve_n k fs t = resolve_n n fs t"
      by (rule Suc.IH) (use Suc.prems t m in simp_all)
    then show ?thesis using t m by simp
  next
    case False
    then have "resolve_n k fs p = p" for k
      by (intro resolve_n_no_link) (auto simp: path_islink_def)
    then show ?thesis by metis
  qed
qed

lemma resolve_n_set_file:
  "\<not> path_islink fs r \<Longrightarrow> resolve_n n (dict_set r (File c) fs) p = resolve_n n fs p"
proof (induction n arbitrary: p)
  case (Suc n)
  then show ?case
    by (cases "p = r") (auto simp: path_islink_def split: option.splits node.splits)
qed simp

lemma length_dict_set: "length fs \<le> length (dict_set r nd fs)"
proof -
  have "length (AList.update r nd fs) = (if r \<in> fst ` set fs then length fs else Suc (length fs))"
    by (induction fs) auto
  then show ?thesis by (simp add: dict_set_def)
qed

lemma realpath_set_file:
  assumes "\<not> path_islink fs r" and "\<not> path_islink fs (realpath fs p)"
  shows "realpath (dict_set r (File c) fs) p = realpath fs p"
proof -
  have "realpath (dict_set r (File c) fs) p = resolve_n (length (dict_set r (File c) fs)) fs p"
    using assms by (simp add: realpath_def resolve_n_set_file)
  also have "\<dots> = resolve_n (length fs) fs p"
    using assms(2) length_dict_set [of fs r "File c"]
    by (intro resolve_n_more) (simp_all add: realpath_def)
  finally show ?thesis by (simp add: realpath_def)
qed

text \<open>What is read back after writing a file: the new content there, the old one elsewhere.\<close>

lemma write_file_nonempty: "write_file p c fs = Inr fs' \<Longrightarrow> p \<noteq> []"
  by (auto simp: write_file_def Let_def split: if_splits)

lemma node_at_nonempty: "node_at fs p = Some n \<Longrightarrow> p \<noteq> []"
  by (auto simp: node_at_def)

lemma read_write_file:
  assumes "write_file p c fs = Inr fs'"
  shows "node_at fs' p = Some (File c)"
proof -
  let ?r = "realpath fs p"
  have nl: "\<not> path_islink fs ?r"
    using assms by (auto simp: write_file_def Let_def split: if_splits)
  have fs': "fs' = dict_set ?r (File c) fs"
    using write_file_result [OF assms] .
  have "realpath fs' p = ?r"
    unfolding fs' by (rule realpath_set_file) (use nl in auto)
  then show ?thesis using write_file_nonempty [OF assms] by (simp add: node_at_def fs')
qed

lemma node_at_write_file_other:
  assumes "write_file p c fs = Inr fs'" and "node_at fs q = Some (File d)"
    and "realpath fs q \<noteq> realpath fs p"
  shows "node_at fs' q = Some (File d)"
proof -
  let ?r = "realpath fs p"
  have nl: "\<not> path_islink fs ?r"
    using assms by (auto simp: write_file_def Let_def split: if_splits)
  have fs': "fs' = dict_set ?r (File c) fs"
    using write_file_result [OF assms(1)] .
  have q: "map_of fs (realpath fs q) = Some (File d)"
    using assms(2) by (rule node_at_File_realpath)
  have "realpath fs' q = realpath fs q"
    unfolding fs' by (rule realpath_set_file) (use nl q in \<open>auto simp: path_islink_def\<close>)
  then show ?thesis using q assms(3) node_at_nonempty [OF assms(2)] by (simp add: node_at_def fs')
qed

text \<open>A copy that succeeds onto a path that is no directory leaves both with the same content.\<close>

lemma copy_file_same:
  assumes "copy_file src dst fs = Inr fs'" and "node_at fs dst \<noteq> Some Dir"
  shows "\<exists>c. node_at fs' src = Some (File c) \<and> node_at fs' dst = Some (File c)"
proof -
  obtain c where c: "node_at fs src = Some (File c)" and w: "write_file dst c fs = Inr fs'"
    and ne: "realpath fs src \<noteq> realpath fs dst"
    using assms by (auto simp: copy_file_def read_file_def bindE_Inr_iff Let_def
        split: option.splits node.splits if_splits)
  show ?thesis
    using read_write_file [OF w] node_at_write_file_other [OF w c ne] by blast
qed

text \<open>Creating directories makes no links and touches only the path and its ancestors.\<close>

lemma makedirs_no_link: "makedirs p fs = Inr fs' \<Longrightarrow> \<not> path_islink fs q \<Longrightarrow> \<not> path_islink fs' q"
  using makedirs_only_dirs [of p fs fs' q] by (auto simp: path_islink_def split: option.splits node.splits)

lemma makedirs_each_new:
  "makedirs_each ps fs = Inr fs' \<Longrightarrow> map_of fs' q = Some n \<Longrightarrow> map_of fs q = None \<Longrightarrow> q \<in> set ps"
proof (induction ps arbitrary: fs)
  case (Cons p ps)
  from makedirs_each_Cons [OF Cons.prems(1)] show ?case
    using Cons.prems(2,3) Cons.IH [of fs] Cons.IH [of "dict_set p Dir fs"] by (cases "q = p") auto
qed simp

lemma ancestors_acc_length:
  "q \<in> set (ancestors_acc acc s) \<Longrightarrow> length q \<le> length acc + length s"
  by (induction acc s rule: ancestors_acc.induct) (auto split: if_splits)

lemma makedirs_new_length:
  "makedirs p fs = Inr fs' \<Longrightarrow> map_of fs' q = Some n \<Longrightarrow> map_of fs q = None \<Longrightarrow> length q \<le> length p"
  using makedirs_each_new [of "ancestors p" fs fs' q n] ancestors_acc_length [of q "[]" p]
  by (auto simp: makedirs_def ancestors_def split: if_splits)

lemma length_dirname: "length (dirname p) + length (basename p) \<le> length p"
proof -
  let ?h = "rev (dropWhile (\<lambda>c. \<not> is_slash c) (rev p))"
  have "length (dropWhile is_slash (rev ?h)) \<le> length ?h"
    using length_dropWhile_le [of is_slash "rev ?h"] by simp
  then have "length (dirname p) \<le> length ?h"
    by (simp add: dirname_def Let_def)
  moreover have "length ?h + length (basename p) = length p"
    using arg_cong [OF takeWhile_dropWhile_id [of "\<lambda>c. \<not> is_slash c" "rev p"], of length]
    by (simp add: basename_def del: takeWhile_dropWhile_id)
  ultimately show ?thesis by simp
qed

lemma write_file_no_link: "write_file p c fs = Inr fs' \<Longrightarrow> \<not> path_islink fs q \<Longrightarrow> \<not> path_islink fs' q"
  by (cases "q = realpath fs p") (auto dest!: write_file_result simp: path_islink_def)

lemma copy_file_no_link: "copy_file a b fs = Inr fs' \<Longrightarrow> \<not> path_islink fs q \<Longrightarrow> \<not> path_islink fs' q"
  by (auto simp: copy_file_def bindE_Inr_iff Let_def write_file_no_link split: if_splits)

lemma old_links:
  "makedirs p fs = Inr fs' \<Longrightarrow> path_islink fs' q \<Longrightarrow> path_islink fs q"
  "write_file p c fs = Inr fs' \<Longrightarrow> path_islink fs' q \<Longrightarrow> path_islink fs q"
  "copy_file a b fs = Inr fs' \<Longrightarrow> path_islink fs' q \<Longrightarrow> path_islink fs q"
  by (metis makedirs_no_link, metis write_file_no_link, metis copy_file_no_link)

end
