(* ===== verification/Pool.thy ===== *)
theory Pool
  imports Params FileSys
begin

text \<open>
  Model of the transfer layer of \<open>virttest/states/pool.py\<close>: the class \<open>TransferOps\<close>
  (list, compare, download, upload and delete of local, remote and linked pool paths) and the
  file lock \<open>image_lock\<close> around the local transfers. The world is the local file system and
  the hosts with a cached session. What is not in the repository is a field of \<open>ext\<close>: the
  hash of \<open>avocado.utils.crypto\<close>, the outcome of the lock attempts and the calls of the
  \<open>aexpect\<close> remote sessions.
\<close>

section \<open>The world and the external calls\<close>

record 'c world =
  w_local :: "'c fs"
  w_sessions :: "string list"

record 'c ext =
  x_empty :: 'c
  x_hash :: "'c \<Rightarrow> string"
  x_lock_busy :: "string \<Rightarrow> nat \<Rightarrow> bool"
  x_remote_status :: "string \<Rightarrow> string \<Rightarrow> ('c world, int \<times> string) io"
  x_remote_hash :: "string \<Rightarrow> string \<Rightarrow> ('c world, string) io"
  x_copy_from :: "params \<Rightarrow> string \<Rightarrow> string \<Rightarrow> ('c world, unit) io"
  x_copy_to :: "params \<Rightarrow> string \<Rightarrow> string \<Rightarrow> ('c world, unit) io"
  x_remote_cmd :: "string \<Rightarrow> string \<Rightarrow> ('c world, unit) io"
  x_backing :: "params \<Rightarrow> string \<Rightarrow> ('c world, string) io"

definition fsM :: "('c fs \<Rightarrow> 'c fs res) \<Rightarrow> ('c world, unit) io" where
  "fsM f w = (case f (w_local w) of
     Inl e \<Rightarrow> (Inl e, w) | Inr fs' \<Rightarrow> (Inr (), w\<lparr>w_local := fs'\<rparr>))"

definition fs_read :: "('c fs \<Rightarrow> 'a res) \<Rightarrow> ('c world, 'a) io" where
  "fs_read f w = (f (w_local w), w)"

definition fs_test :: "('c fs \<Rightarrow> 'a) \<Rightarrow> ('c world, 'a) io" where
  "fs_test f = getM (\<lambda>w. f (w_local w))"

lemma wpM_fsM [wp_simps]:
  "wpM (fsM f) E Q w =
    (case f (w_local w) of Inl e \<Rightarrow> E e w | Inr fs' \<Rightarrow> Q () (w\<lparr>w_local := fs'\<rparr>))"
  by (simp add: wpM_def fsM_def split: sum.splits)

lemma wpM_fs_read [wp_simps]:
  "wpM (fs_read f) E Q w = (case f (w_local w) of Inl e \<Rightarrow> E e w | Inr x \<Rightarrow> Q x w)"
  by (simp add: wpM_def fs_read_def split: sum.splits)

lemma wpM_fs_test [wp_simps]: "wpM (fs_test f) E Q w = Q (f (w_local w)) w"
  by (simp add: fs_test_def wp_simps)

section \<open>The lock\<close>

definition SKIP_LOCKS :: bool where
  "SKIP_LOCKS = False"

definition lock_file :: "string \<Rightarrow> string" where
  "lock_file resource_path = resource_path @ ''.lock''"

text \<open>
  \<open>with image_lock(resource_path, timeout)\<close> around a body: the lock file is opened for
  writing, which creates it, and one attempt is made for each second of the timeout.
\<close>

definition image_lock ::
    "'c ext \<Rightarrow> string \<Rightarrow> int \<Rightarrow> ('c world, 'a) io \<Rightarrow> ('c world, 'a) io" where
  "image_lock x resource_path timeout body =
     (if SKIP_LOCKS then body
      else
        let lockfile = lock_file resource_path in
        thenM (fsM (makedirs (dirname lockfile)))
        (thenM (fsM (write_file lockfile (x_empty x)))
        (if list_ex (\<lambda>i. \<not> x_lock_busy x lockfile i) [0..<nat timeout] then body
         else raiseM RuntimeError)))"

section \<open>Sessions and pool paths\<close>

definition session_keys :: "string list" where
  "session_keys = [''nets_shell_client'', ''nets_shell_host'', ''nets_shell_port'',
     ''nets_username'', ''nets_password'', ''nets_shell_prompt'']"

primrec need_keys :: "params \<Rightarrow> string list \<Rightarrow> unit res" where
  "need_keys params [] = Inr ()"
| "need_keys params (k # ks) = bindE (p_getitem params k) (\<lambda>_. need_keys params ks)"

definition get_session :: "string \<Rightarrow> params \<Rightarrow> ('c world, unit) io" where
  "get_session host params =
     bindM (getM (\<lambda>w. host \<in> set (w_sessions w))) (\<lambda>cached.
       if cached then retM ()
       else thenM (liftM (need_keys params session_keys))
              (modifyM (\<lambda>w. w\<lparr>w_sessions := host # w_sessions w\<rparr>)))"

text \<open>\<open>hosts, path = pool_path.split(":")\<close>.\<close>

definition split_pool :: "string \<Rightarrow> (string \<times> string) res" where
  "split_pool pool_path = (case split_on (CHR '':'') pool_path of
     [hosts, path] \<Rightarrow> Inr (hosts, path) | _ \<Rightarrow> Inl ValueError)"

definition update_timeout :: "params \<Rightarrow> int res" where
  "update_timeout params = get_numeric params ''update_pool_timeout'' 300"

section \<open>Local transfers\<close>

definition list_local :: "string \<Rightarrow> params \<Rightarrow> ('c world, string list) io" where
  "list_local pool_path params =
     bindM (fs_test (\<lambda>fs. path_exists fs pool_path)) (\<lambda>e.
       if \<not> e then retM [] else fs_read (\<lambda>fs. listdir fs pool_path))"

text \<open>The hash of a file, and the empty string for a missing one.\<close>

definition file_hash :: "'c ext \<Rightarrow> string \<Rightarrow> ('c world, string) io" where
  "file_hash x path =
     bindM (fs_test (\<lambda>fs. path_exists fs path)) (\<lambda>e.
       if e then bindM (fs_read (\<lambda>fs. read_file fs path)) (\<lambda>c. retM (x_hash x c)) else retM [])"

definition compare_local :: "'c ext \<Rightarrow> string \<Rightarrow> string \<Rightarrow> params \<Rightarrow> ('c world, bool) io" where
  "compare_local x cache_path pool_path params =
     bindM (file_hash x cache_path) (\<lambda>local_hash.
     bindM (file_hash x pool_path) (\<lambda>remote_hash. retM (local_hash = remote_hash)))"

definition download_local :: "'c ext \<Rightarrow> string \<Rightarrow> string \<Rightarrow> params \<Rightarrow> ('c world, unit) io" where
  "download_local x cache_path pool_path params =
     thenM (fsM (makedirs (dirname cache_path)))
     (bindM (liftM (update_timeout params)) (\<lambda>timeout.
      image_lock x pool_path timeout
       (bindM (compare_local x cache_path pool_path params) (\<lambda>same.
          if same then retM () else fsM (copy_file pool_path cache_path)))))"

definition upload_local :: "'c ext \<Rightarrow> string \<Rightarrow> string \<Rightarrow> params \<Rightarrow> ('c world, unit) io" where
  "upload_local x cache_path pool_path params =
     bindM (liftM (update_timeout params)) (\<lambda>timeout.
      image_lock x pool_path timeout
       (bindM (compare_local x cache_path pool_path params) (\<lambda>same.
          if same then retM ()
          else thenM (fsM (makedirs (dirname pool_path))) (fsM (copy_file cache_path pool_path)))))"

definition delete_local :: "'c ext \<Rightarrow> string \<Rightarrow> params \<Rightarrow> ('c world, unit) io" where
  "delete_local x pool_path params =
     bindM (liftM (update_timeout params)) (\<lambda>timeout.
      image_lock x pool_path timeout (fsM (unlink pool_path)))"

section \<open>Remote transfers\<close>

definition list_remote :: "'c ext \<Rightarrow> string \<Rightarrow> params \<Rightarrow> ('c world, string list) io" where
  "list_remote x pool_path params =
     bindM (liftM (split_pool pool_path)) (\<lambda>(host, path).
     thenM (get_session host params)
     (bindM (x_remote_status x host (''ls '' @ path)) (\<lambda>(status, output).
        retM (if status \<noteq> 0 then [] else split_ws output))))"

definition compare_remote :: "'c ext \<Rightarrow> string \<Rightarrow> string \<Rightarrow> params \<Rightarrow> ('c world, bool) io" where
  "compare_remote x cache_path pool_path params =
     bindM (file_hash x cache_path) (\<lambda>local_hash.
     bindM (liftM (split_pool pool_path)) (\<lambda>(host, path).
     thenM (get_session host params)
     (bindM (x_remote_hash x host path) (\<lambda>remote_hash. retM (local_hash = remote_hash)))))"

definition transfer_keys :: "string list" where
  "transfer_keys = [''nets_shell_host'', ''nets_file_transfer_client'', ''nets_username'',
     ''nets_password'', ''nets_file_transfer_port'']"

definition download_remote :: "'c ext \<Rightarrow> string \<Rightarrow> string \<Rightarrow> params \<Rightarrow> ('c world, unit) io" where
  "download_remote x cache_path pool_path params =
     thenM (fsM (makedirs (dirname cache_path)))
     (bindM (liftM (split_pool pool_path)) (\<lambda>(host, path).
      bindM (compare_remote x cache_path pool_path params) (\<lambda>same.
        if same then retM ()
        else thenM (liftM (need_keys params transfer_keys))
             (bindM (liftM (update_timeout params)) (\<lambda>_. x_copy_from x params path cache_path)))))"

definition upload_remote :: "'c ext \<Rightarrow> string \<Rightarrow> string \<Rightarrow> params \<Rightarrow> ('c world, unit) io" where
  "upload_remote x cache_path pool_path params =
     bindM (liftM (split_pool pool_path)) (\<lambda>(host, path).
      bindM (compare_remote x cache_path pool_path params) (\<lambda>same.
        if same then retM ()
        else thenM (liftM (need_keys params transfer_keys))
             (bindM (liftM (update_timeout params)) (\<lambda>_. x_copy_to x params cache_path path))))"

definition delete_remote :: "'c ext \<Rightarrow> string \<Rightarrow> params \<Rightarrow> ('c world, unit) io" where
  "delete_remote x pool_path params =
     bindM (liftM (split_pool pool_path)) (\<lambda>(host, path).
     thenM (liftM (need_keys params session_keys)) (x_remote_cmd x host (''rm '' @ path)))"

section \<open>Linked transfers\<close>

definition compare_link :: "'c ext \<Rightarrow> string \<Rightarrow> string \<Rightarrow> params \<Rightarrow> ('c world, bool) io" where
  "compare_link x cache_path pool_path params =
     bindM (fs_test (\<lambda>fs. path_islink fs cache_path)) (\<lambda>l.
       if l then fs_test (\<lambda>fs. realpath fs cache_path = pool_path)
       else compare_local x cache_path pool_path params)"

definition list_link :: "string \<Rightarrow> params \<Rightarrow> ('c world, string list) io" where
  "list_link pool_path params = list_local pool_path params"

definition download_link :: "'c ext \<Rightarrow> string \<Rightarrow> string \<Rightarrow> params \<Rightarrow> ('c world, unit) io" where
  "download_link x cache_path pool_path params =
     thenM (fsM (makedirs (dirname cache_path)))
     (bindM (liftM (update_timeout params)) (\<lambda>timeout.
      image_lock x pool_path timeout
       (bindM (compare_link x cache_path pool_path params) (\<lambda>same.
          if same then retM ()
          else bindM (fs_test (\<lambda>fs. \<not> path_islink fs cache_path \<and> path_exists fs cache_path)) (\<lambda>data.
            if data then raiseM RuntimeError
            else bindM (fs_test (\<lambda>fs. path_islink fs cache_path)) (\<lambda>l.
              thenM (if l then fsM (unlink cache_path) else retM ())
                (fsM (symlink pool_path cache_path))))))))"

definition upload_link :: "'c ext \<Rightarrow> string \<Rightarrow> string \<Rightarrow> params \<Rightarrow> ('c world, unit) io" where
  "upload_link x cache_path pool_path params =
     bindM (fs_test (\<lambda>fs. path_islink fs cache_path)) (\<lambda>l.
       if l then raiseM ValueError else upload_local x cache_path pool_path params)"

definition delete_link :: "'c ext \<Rightarrow> string \<Rightarrow> params \<Rightarrow> ('c world, unit) io" where
  "delete_link x pool_path params = delete_local x pool_path params"

section \<open>Dispatch on the pool path\<close>

datatype place = Remote | Linked string | Local string

definition place_of :: "string \<Rightarrow> string \<Rightarrow> place" where
  "place_of hosts path =
     (if hosts \<noteq> [] then Remote
      else if str_in '';'' path then Linked (replace_all '';'' [] path)
      else Local path)"

definition ops_list_paths :: "'c ext \<Rightarrow> string \<Rightarrow> params \<Rightarrow> ('c world, string list) io" where
  "ops_list_paths x pool_path params =
     bindM (liftM (split_pool pool_path)) (\<lambda>(hosts, path). case place_of hosts path of
       Remote \<Rightarrow> list_remote x pool_path params
     | Linked p \<Rightarrow> list_link p params
     | Local p \<Rightarrow> list_local p params)"

definition ops_compare :: "'c ext \<Rightarrow> string \<Rightarrow> string \<Rightarrow> params \<Rightarrow> ('c world, bool) io" where
  "ops_compare x cache_path pool_path params =
     bindM (liftM (split_pool pool_path)) (\<lambda>(hosts, path). case place_of hosts path of
       Remote \<Rightarrow> compare_remote x cache_path pool_path params
     | Linked p \<Rightarrow> compare_link x cache_path p params
     | Local p \<Rightarrow> compare_local x cache_path p params)"

definition ops_download :: "'c ext \<Rightarrow> string \<Rightarrow> string \<Rightarrow> params \<Rightarrow> ('c world, unit) io" where
  "ops_download x cache_path pool_path params =
     bindM (liftM (split_pool pool_path)) (\<lambda>(hosts, path). case place_of hosts path of
       Remote \<Rightarrow> download_remote x cache_path pool_path params
     | Linked p \<Rightarrow> download_link x cache_path p params
     | Local p \<Rightarrow> download_local x cache_path p params)"

definition ops_upload :: "'c ext \<Rightarrow> string \<Rightarrow> string \<Rightarrow> params \<Rightarrow> ('c world, unit) io" where
  "ops_upload x cache_path pool_path params =
     bindM (liftM (split_pool pool_path)) (\<lambda>(hosts, path). case place_of hosts path of
       Remote \<Rightarrow> upload_remote x cache_path pool_path params
     | Linked p \<Rightarrow> upload_link x cache_path p params
     | Local p \<Rightarrow> upload_local x cache_path p params)"

definition ops_delete :: "'c ext \<Rightarrow> string \<Rightarrow> params \<Rightarrow> ('c world, unit) io" where
  "ops_delete x pool_path params =
     bindM (liftM (split_pool pool_path)) (\<lambda>(hosts, path). case place_of hosts path of
       Remote \<Rightarrow> delete_remote x pool_path params
     | Linked p \<Rightarrow> delete_link x p params
     | Local p \<Rightarrow> delete_local x p params)"

section \<open>Properties of the transfers\<close>

text \<open>Comparing reads files only.\<close>

lemma file_hash_run:
  "file_hash x p w =
    (if path_exists (w_local w) p then bindE (read_file (w_local w) p) (\<lambda>c. Inr (x_hash x c)) else Inr [], w)"
  by (auto simp: file_hash_def bindM_def fs_test_def fs_read_def io_run bindE_def split: sum.splits)

lemma compare_local_run:
  "compare_local x c p q w =
    (bindE (fst (file_hash x c w)) (\<lambda>h. bindE (fst (file_hash x p w)) (\<lambda>h'. Inr (h = h'))), w)"
  by (auto simp: compare_local_def bindM_def io_run bindE_def file_hash_run split: sum.splits)

lemma wpM_compare_local:
  "(\<And>e. E e w) \<Longrightarrow> (\<And>b. Q b w) \<Longrightarrow> wpM (compare_local x c p q) E Q w"
  by (simp add: wpM_def compare_local_run split: sum.split)

lemma compare_link_run:
  "compare_link x c p q w =
    (if path_islink (w_local w) c then (Inr (realpath (w_local w) c = p), w)
     else compare_local x c p q w)"
  by (simp add: compare_link_def bindM_def fs_test_def io_run)

lemma compare_local_same_file:
  assumes "node_at (w_local w) c = Some (File d)" and "node_at (w_local w) p = Some (File d)"
    and "c \<noteq> []" and "p \<noteq> []"
  shows "compare_local x c p q w = (Inr True, w)"
  using assms by (simp add: compare_local_run file_hash_run path_exists_def read_file_def)

lemma compare_local_refl: "compare_local x p p q w = (Inr b, w) \<Longrightarrow> b"
  by (auto simp: compare_local_run bindE_Inr_iff)

lemma compare_local_not_dir:
  "compare_local x c p q w = (Inr b, w) \<Longrightarrow> c \<noteq> [] \<Longrightarrow> node_at (w_local w) c \<noteq> Some Dir"
  "compare_local x c p q w = (Inr b, w) \<Longrightarrow> p \<noteq> [] \<Longrightarrow> node_at (w_local w) p \<noteq> Some Dir"
  by (auto simp: compare_local_run file_hash_run path_exists_def read_file_def bindE_Inr_iff
      split: if_splits)

text \<open>What holds when the body of a lock starts: a state the lock may have reached.\<close>

lemma wpM_image_lock:
  assumes "\<And>fs1 fs2. makedirs (dirname (lock_file p)) (w_local w) = Inr fs1 \<Longrightarrow>
      write_file (lock_file p) (x_empty x) fs1 = Inr fs2 \<Longrightarrow>
      wpM body (\<lambda>_ _. True) Q (w\<lparr>w_local := fs2\<rparr>)"
  shows "wpM (image_lock x p t body) (\<lambda>_ _. True) Q w"
  using assms by (simp add: image_lock_def SKIP_LOCKS_def Let_def wp_simps split: sum.split)

lemma dirname_lock: "makedirs (dirname (lock_file p)) fs = Inr fs' \<Longrightarrow> p \<noteq> []"
  by (cases p) (auto simp: lock_file_def dirname_def makedirs_def is_slash_def)

text \<open>A pool path that names a file and is no symbolic link.\<close>

definition plain_pool :: "string \<Rightarrow> 'c world \<Rightarrow> bool" where
  "plain_pool p w \<longleftrightarrow> basename p \<noteq> [] \<and> \<not> path_islink (w_local w) p"

lemma plain_pool_lock:
  assumes "plain_pool p w" and "makedirs d (w_local w) = Inr fs1" and "write_file l c fs1 = Inr fs2"
  shows "plain_pool p (w\<lparr>w_local := fs2\<rparr>)"
  using assms by (simp add: plain_pool_def makedirs_no_link write_file_no_link)

lemma download_local_same:
  "wpM (download_local x c p q) (\<lambda>_ _. True) (\<lambda>_ w'. compare_local x c p q w' = (Inr True, w')) w"
proof -
  have body: "wpM (bindM (compare_local x c p q) (\<lambda>same.
        if same then retM () else fsM (copy_file p c))) (\<lambda>_ _. True)
      (\<lambda>_ w'. compare_local x c p q w' = (Inr True, w')) v"
    if "c \<noteq> []" "p \<noteq> []" for v
  proof (cases "fst (compare_local x c p q v)")
    case (Inl e)
    then have "compare_local x c p q v = (Inl e, v)" by (simp add: compare_local_run)
    then show ?thesis by (simp add: wpM_bind_Inl)
  next
    case (Inr b)
    then have run: "compare_local x c p q v = (Inr b, v)"
      by (simp add: compare_local_run)
    show ?thesis
    proof (cases b)
      case True
      then show ?thesis
        using run by - (rule wpM_bind_InrI, assumption, simp add: wp_simps)
    next
      case False
      have "compare_local x c p q (v\<lparr>w_local := fs'\<rparr>) = (Inr True, v\<lparr>w_local := fs'\<rparr>)"
        if "copy_file p c (w_local v) = Inr fs'" for fs'
        using copy_file_same [OF that compare_local_not_dir(1) [OF run \<open>c \<noteq> []\<close>]] \<open>c \<noteq> []\<close> \<open>p \<noteq> []\<close>
        by (auto intro: compare_local_same_file)
      then show ?thesis using False
        by - (rule wpM_bind_InrI, rule run, simp add: wp_simps split: sum.split)
    qed
  qed
  have "c \<noteq> []" if "makedirs (dirname c) fs = Inr fs'" for fs fs'
    using that by (auto simp: dirname_def makedirs_def)
  then show ?thesis
    by (auto simp: download_local_def wp_simps split: sum.splits intro!: wpM_image_lock body
        dest: dirname_lock)
qed

lemma dirname_not_dir_after:
  assumes "makedirs (dirname p) fs = Inr fs'" and "node_at fs p \<noteq> Some Dir"
    and "basename p \<noteq> []" and "\<not> path_islink fs p"
  shows "node_at fs' p \<noteq> Some Dir"
proof
  assume dir: "node_at fs' p = Some Dir"
  have nl: "\<not> path_islink fs' p" using assms makedirs_no_link by blast
  have p: "p \<noteq> []" "p \<noteq> ''/''"
    using assms(3) by (auto simp: basename_def is_slash_def)
  then have "map_of fs' p = Some Dir" and "map_of fs p \<noteq> Some Dir"
    using dir assms(2,4) nl by (simp_all add: node_at_no_link)
  moreover from this have "map_of fs p = None"
    using makedirs_keeps [OF assms(1)] by (cases "map_of fs p") auto
  ultimately have "length p \<le> length (dirname p)"
    using makedirs_new_length [OF assms(1)] by blast
  then show False using length_dirname [of p] assms(3) by (cases "basename p") auto
qed

lemma upload_local_same:
  assumes "plain_pool p w"
  shows "wpM (upload_local x c p q) (\<lambda>_ _. True) (\<lambda>_ w'. compare_local x c p q w' = (Inr True, w')) w"
proof -
  have body: "wpM (bindM (compare_local x c p q) (\<lambda>same. if same then retM ()
        else thenM (fsM (makedirs (dirname p))) (fsM (copy_file c p)))) (\<lambda>_ _. True)
      (\<lambda>_ w'. compare_local x c p q w' = (Inr True, w')) v"
    if "p \<noteq> []" "plain_pool p v" for v
  proof (cases "fst (compare_local x c p q v)")
    case (Inl e)
    then have "compare_local x c p q v = (Inl e, v)" by (simp add: compare_local_run)
    then show ?thesis by (simp add: wpM_bind_Inl)
  next
    case (Inr b)
    then have run: "compare_local x c p q v = (Inr b, v)"
      by (simp add: compare_local_run)
    show ?thesis
    proof (cases b)
      case True
      then show ?thesis
        using run by - (rule wpM_bind_InrI, assumption, simp add: wp_simps)
    next
      case False
      have "compare_local x c p q (v\<lparr>w_local := fs2\<rparr>) = (Inr True, v\<lparr>w_local := fs2\<rparr>)"
        if m: "makedirs (dirname p) (w_local v) = Inr fs1" and cp: "copy_file c p fs1 = Inr fs2" for fs1 fs2
      proof -
        have "node_at fs1 p \<noteq> Some Dir"
          using dirname_not_dir_after [OF m compare_local_not_dir(2) [OF run \<open>p \<noteq> []\<close>]] \<open>plain_pool p v\<close>
          by (simp add: plain_pool_def)
        then obtain d where "node_at fs2 c = Some (File d)" "node_at fs2 p = Some (File d)"
          using copy_file_same [OF cp] by blast
        moreover from this have "c \<noteq> []" by (simp add: node_at_nonempty)
        ultimately show ?thesis using \<open>p \<noteq> []\<close> by (auto intro: compare_local_same_file)
      qed
      then show ?thesis using False
        by - (rule wpM_bind_InrI, rule run, simp add: wp_simps split: sum.split)
    qed
  qed
  show ?thesis
    by (auto simp: upload_local_def wp_simps split: sum.splits intro!: wpM_image_lock body
        dest: dirname_lock intro: plain_pool_lock [OF assms])
qed

lemma realpath_fresh_link:
  assumes "\<not> path_islink fs p" and "c \<noteq> p"
  shows "realpath (dict_set c (Link p) fs) c = p"
proof -
  let ?fs = "dict_set c (Link p) fs"
  obtain n where n: "length ?fs = Suc n"
    using map_of_dict_set [of c "Link p" fs c] by (cases ?fs) auto
  have "resolve_n n ?fs p = p"
    by (rule resolve_n_no_link) (use assms in \<open>auto simp: path_islink_def\<close>)
  then show ?thesis using n by (simp add: realpath_def)
qed

lemma download_link_same:
  assumes "plain_pool p w"
  shows "wpM (download_link x c p q) (\<lambda>_ _. True) (\<lambda>_ w'. compare_link x c p q w' = (Inr True, w')) w"
proof -
  let ?Q = "\<lambda>_ w'. compare_link x c p q w' = (Inr True, w')"
  let ?relink = "bindM (fs_test (\<lambda>fs. path_islink fs c)) (\<lambda>l.
      thenM (if l then fsM (unlink c) else retM ()) (fsM (symlink p c)))"
  have relink: "wpM ?relink (\<lambda>_ _. True) ?Q v" if "plain_pool p v" and ne: "c \<noteq> p" for v
  proof -
    have nl: "\<not> path_islink (w_local v) p" using that by (simp add: plain_pool_def)
    have after: "compare_link x c p q (v\<lparr>w_local := fs2\<rparr>) = (Inr True, v\<lparr>w_local := fs2\<rparr>)"
      if "symlink p c fs1 = Inr fs2" "\<not> path_islink fs1 p" for fs1 fs2
    proof -
      have "fs2 = dict_set c (Link p) fs1"
        using that by (auto simp: symlink_def split: if_splits)
      then show ?thesis
        using realpath_fresh_link [OF that(2) ne] by (simp add: compare_link_run path_islink_def)
    qed
    have "\<not> path_islink fs1 p" if "unlink c (w_local v) = Inr fs1" for fs1
      using nl unlink_result [OF that, of p] by (auto simp: path_islink_def)
    then show ?thesis
      using after nl by (auto simp: wp_simps split: sum.splits)
  qed
  have body: "wpM (bindM (compare_link x c p q) (\<lambda>same. if same then retM ()
        else bindM (fs_test (\<lambda>fs. \<not> path_islink fs c \<and> path_exists fs c)) (\<lambda>data.
          if data then raiseM RuntimeError else ?relink))) (\<lambda>_ _. True) ?Q v"
    if "plain_pool p v" for v
  proof (cases "fst (compare_link x c p q v)")
    case (Inl e)
    moreover have "snd (compare_link x c p q v) = v" by (simp add: compare_link_run compare_local_run)
    ultimately have "compare_link x c p q v = (Inl e, v)" by (simp add: prod_eq_iff)
    then show ?thesis by (simp add: wpM_bind_Inl)
  next
    case (Inr b)
    moreover have "snd (compare_link x c p q v) = v" by (simp add: compare_link_run compare_local_run)
    ultimately have run: "compare_link x c p q v = (Inr b, v)" by (simp add: prod_eq_iff)
    show ?thesis
    proof (cases b)
      case True
      then show ?thesis
        using run by - (rule wpM_bind_InrI, assumption, simp add: wp_simps)
    next
      case False
      have "c \<noteq> p"
        using run False compare_local_refl \<open>plain_pool p v\<close>
        by (auto simp: compare_link_run plain_pool_def split: if_splits)
      then have "wpM ?relink (\<lambda>_ _. True) ?Q v" by (rule relink [OF \<open>plain_pool p v\<close>])
      then show ?thesis using run False
        by - (rule wpM_bind_InrI, rule run, auto simp: wp_simps split: sum.splits if_splits)
    qed
  qed
  have "plain_pool p (w\<lparr>w_local := fs1\<rparr>)" if "makedirs (dirname c) (w_local w) = Inr fs1" for fs1
    using that assms by (simp add: plain_pool_def makedirs_no_link)
  then show ?thesis
    by (auto simp: download_link_def wp_simps split: sum.splits intro!: wpM_image_lock body
        intro: plain_pool_lock)
qed

lemma upload_local_no_link:
  "\<not> path_islink (w_local w) r \<Longrightarrow>
   wpM (upload_local x c p q) (\<lambda>_ _. True) (\<lambda>_ w'. \<not> path_islink (w_local w') r) w"
  by (auto simp: upload_local_def wp_simps split: sum.splits
      intro!: wpM_image_lock wpM_compare_local) (blast dest: old_links)+

lemma upload_link_same:
  assumes "plain_pool p w"
  shows "wpM (upload_link x c p q) (\<lambda>_ _. True) (\<lambda>_ w'. compare_link x c p q w' = (Inr True, w')) w"
proof (cases "path_islink (w_local w) c")
  case True
  then show ?thesis by (simp add: upload_link_def wp_simps)
next
  case False
  have "wpM (upload_local x c p q) (\<lambda>_ _. True) (\<lambda>_ w'. compare_link x c p q w' = (Inr True, w')) w"
    using wpM_conj [OF upload_local_same [OF assms] upload_local_no_link [OF False]]
    by (rule wpM_mono) (auto simp: compare_link_run)
  with False show ?thesis by (simp add: upload_link_def wp_simps)
qed

text \<open>
  The contract of a place states are transferred from and to: comparing changes nothing, and
  after a transfer that did not raise the cache and the pool compare as the same.
\<close>

locale transfer_place =
  fixes compare :: "string \<Rightarrow> string \<Rightarrow> params \<Rightarrow> ('c world, bool) io"
    and download :: "string \<Rightarrow> string \<Rightarrow> params \<Rightarrow> ('c world, unit) io"
    and upload :: "string \<Rightarrow> string \<Rightarrow> params \<Rightarrow> ('c world, unit) io"
  assumes compare_pure: "snd (compare c p q w) = w"
    and download_same: "plain_pool p w \<Longrightarrow>
      wpM (download c p q) (\<lambda>_ _. True) (\<lambda>_ w'. compare c p q w' = (Inr True, w')) w"
    and upload_same: "plain_pool p w \<Longrightarrow>
      wpM (upload c p q) (\<lambda>_ _. True) (\<lambda>_ w'. compare c p q w' = (Inr True, w')) w"
begin

text \<open>A transfer in either direction is found complete by the comparison that follows it.\<close>

lemma transfer_then_compare:
  assumes "plain_pool p w"
  shows "wpM (thenM (if down then download c p q else upload c p q) (compare c p q))
    (\<lambda>_ _. True) (\<lambda>same _. same) w"
  using download_same [OF assms, of c q] upload_same [OF assms, of c q]
  by (auto simp: wpM_then elim!: wpM_mono) (simp_all add: wpM_def)

text \<open>A comparison between two others does not change their answer.\<close>

lemma compare_stable: "compare c p q w = (r, w') \<Longrightarrow> w' = w"
  using compare_pure [of c p q w] by simp

end

interpretation local_place: transfer_place "compare_local x" "download_local x" "upload_local x" for x
  by unfold_locales (simp_all add: download_local_same upload_local_same, simp add: compare_local_run)

interpretation link_place: transfer_place "compare_link x" "download_link x" "upload_link x" for x
  by unfold_locales
    (simp_all add: download_link_same upload_link_same, simp add: compare_link_run compare_local_run)

text \<open>The dispatch of \<open>TransferOps\<close> on a pool path without a host.\<close>

lemma place_of_simps [simp]:
  "place_of [] p = (if str_in '';'' p then Linked (replace_all '';'' [] p) else Local p)"
  by (simp add: place_of_def)

definition pool_target :: "place \<Rightarrow> string" where
  "pool_target pl = (case pl of Remote \<Rightarrow> [] | Linked p \<Rightarrow> p | Local p \<Rightarrow> p)"

definition plain_target :: "string \<Rightarrow> 'c world \<Rightarrow> bool" where
  "plain_target pool_path w \<longleftrightarrow> (case split_pool pool_path of
     Inr (hosts, path) \<Rightarrow> hosts = [] \<and> plain_pool (pool_target (place_of hosts path)) w
   | Inl _ \<Rightarrow> False)"

section \<open>The transfers run no loop that may be cut off\<close>

definition ext_uncut :: "'c ext \<Rightarrow> bool" where
  "ext_uncut x \<longleftrightarrow> (\<forall>h c. uncut (x_remote_status x h c)) \<and> (\<forall>h c. uncut (x_remote_hash x h c))
     \<and> (\<forall>p a b. uncut (x_copy_from x p a b)) \<and> (\<forall>p a b. uncut (x_copy_to x p a b))
     \<and> (\<forall>h c. uncut (x_remote_cmd x h c)) \<and> (\<forall>p d. uncut (x_backing x p d))"

lemma ext_uncutD:
  assumes "ext_uncut x"
  shows "uncut (x_remote_status x h c)" "uncut (x_remote_hash x h c)" "uncut (x_copy_from x p a b)"
    "uncut (x_copy_to x p a b)" "uncut (x_remote_cmd x h c)" "uncut (x_backing x p d)"
  using assms by (simp_all add: ext_uncut_def)

lemma res_uncut [simp]:
  "p_getitem p k \<noteq> Inl OutOfFuel" "py_int0 v \<noteq> Inl OutOfFuel" "split_pool s \<noteq> Inl OutOfFuel"
  "read_file fs q \<noteq> Inl OutOfFuel" "listdir fs q \<noteq> Inl OutOfFuel"
  "write_file q c fs \<noteq> Inl OutOfFuel" "unlink q fs \<noteq> Inl OutOfFuel"
  "symlink t q fs \<noteq> Inl OutOfFuel"
  by (auto simp: p_getitem_simps py_int0_def split_pool_def read_file_def listdir_def write_file_def
      unlink_def symlink_def Let_def split: option.splits list.splits node.splits prod.splits)

lemma makedirs_each_uncut: "makedirs_each ps fs \<noteq> Inl OutOfFuel"
  by (induction ps arbitrary: fs) (auto split: option.splits node.splits)

lemma res_uncut2 [simp]:
  "update_timeout p \<noteq> Inl OutOfFuel" "need_keys p ks \<noteq> Inl OutOfFuel" "makedirs q fs \<noteq> Inl OutOfFuel"
  "copy_file a b fs \<noteq> Inl OutOfFuel"
proof -
  show "update_timeout p \<noteq> Inl OutOfFuel"
    by (auto simp: update_timeout_def get_numeric_def split: option.splits)
  show "need_keys p ks \<noteq> Inl OutOfFuel"
    by (induction ks) (simp_all add: bindE_uncut)
  show "makedirs q fs \<noteq> Inl OutOfFuel"
    by (simp add: makedirs_def makedirs_each_uncut)
  show "copy_file a b fs \<noteq> Inl OutOfFuel"
    unfolding copy_file_def by (rule bindE_uncut) (simp_all add: Let_def)
qed

lemma uncut_fs [uncut_intros]:
  "(\<And>fs. f fs \<noteq> Inl OutOfFuel) \<Longrightarrow> uncut (fsM f)"
  "(\<And>fs. g fs \<noteq> Inl OutOfFuel) \<Longrightarrow> uncut (fs_read g)"
  "uncut (fs_test h)"
proof -
  assume "\<And>fs. f fs \<noteq> Inl OutOfFuel"
  then show "uncut (fsM f)"
    unfolding uncut_def fsM_def by (auto split: sum.split)
next
  assume "\<And>fs. g fs \<noteq> Inl OutOfFuel"
  then show "uncut (fs_read g)" by (simp add: uncut_def fs_read_def)
next
  show "uncut (fs_test h)" by (simp add: fs_test_def uncut_intros)
qed

lemma uncut_lock [uncut_intros]: "uncut body \<Longrightarrow> uncut (image_lock x p t body)"
  by (auto simp: image_lock_def Let_def intro!: uncut_intros)

lemma uncut_local [uncut_intros]:
  "uncut (list_local p q)" "uncut (file_hash x p)" "uncut (compare_local x c p q)"
  "uncut (compare_link x c p q)" "uncut (download_local x c p q)" "uncut (upload_local x c p q)"
  "uncut (delete_local x p q)" "uncut (download_link x c p q)" "uncut (upload_link x c p q)"
  "uncut (get_session h q)"
proof -
  show h [uncut_intros]: "uncut (file_hash x p)" for p
    by (auto simp: file_hash_def intro!: uncut_intros)
  show c [uncut_intros]: "uncut (compare_local x c p q)" for c p
    by (auto simp: compare_local_def intro!: uncut_intros)
  show l [uncut_intros]: "uncut (compare_link x c p q)" for c p
    by (auto simp: compare_link_def intro!: uncut_intros)
  show u [uncut_intros]: "uncut (upload_local x c p q)"
    by (auto simp: upload_local_def intro!: uncut_intros)
  show "uncut (list_local p q)" "uncut (download_local x c p q)" "uncut (delete_local x p q)"
    "uncut (download_link x c p q)" "uncut (upload_link x c p q)" "uncut (get_session h q)"
    by (auto simp: list_local_def download_local_def delete_local_def download_link_def upload_link_def
        get_session_def intro!: uncut_intros)
qed

lemma uncut_remote:
  assumes "ext_uncut x"
  shows "uncut (list_remote x p q)" "uncut (compare_remote x c p q)" "uncut (download_remote x c p q)"
    "uncut (upload_remote x c p q)" "uncut (delete_remote x p q)"
proof -
  note ext = ext_uncutD [OF assms]
  show c: "uncut (compare_remote x c p q)" for c p
    by (auto simp: compare_remote_def intro!: uncut_intros ext)
  show "uncut (list_remote x p q)" "uncut (download_remote x c p q)"
    "uncut (upload_remote x c p q)" "uncut (delete_remote x p q)"
    by (auto simp: list_remote_def download_remote_def upload_remote_def delete_remote_def
        intro!: uncut_intros ext c)
qed

lemma uncut_ops:
  assumes "ext_uncut x"
  shows "uncut (ops_list_paths x p q)" "uncut (ops_compare x c p q)" "uncut (ops_download x c p q)"
    "uncut (ops_upload x c p q)" "uncut (ops_delete x p q)"
  using uncut_remote [OF assms]
  by (auto simp: ops_list_paths_def ops_compare_def ops_download_def ops_upload_def ops_delete_def
      list_link_def delete_link_def split: place.split intro!: uncut_intros)


section \<open>Properties\<close>

text \<open>External calls and a world for the examples: files hold strings and hash to themselves.\<close>

definition example_ext :: "string ext" where
  "example_ext = \<lparr>
     x_empty = [], x_hash = (\<lambda>c. c), x_lock_busy = (\<lambda>l i. False),
     x_remote_status = (\<lambda>h c. retM (1, [])), x_remote_hash = (\<lambda>h p. retM []),
     x_copy_from = (\<lambda>q a b. retM ()), x_copy_to = (\<lambda>q a b. retM ()),
     x_remote_cmd = (\<lambda>h c. retM ()), x_backing = (\<lambda>q d. retM [])\<rparr>"

definition example_world :: "string world" where
  "example_world = \<lparr>
     w_local = [(''/pool'', Dir), (''/pool/vm1'', Dir), (''/pool/vm1/image1'', Dir),
       (''/pool/vm1/image1/launch.qcow2'', File ''pool data''), (''/cache'', Dir)],
     w_sessions = []\<rparr>"



text \<open>
  C35: The file lock: when every attempt within the timeout finds the lock taken, the guarded
  transfer does not start; the call fails with a runtime error, or with an error of the file
  system, and has changed no file but the lock file.
\<close>

theorem lock_timeout:
  assumes "\<And>i. i < nat timeout \<Longrightarrow> x_lock_busy x (lock_file r) i"
    and "\<not> path_islink (w_local w) (lock_file r)"
    and "f \<noteq> lock_file r" and "map_of (w_local w) f = Some (File c)"
  shows "\<exists>e w'. image_lock x r timeout body w = (Inl e, w') \<and> e \<in> {RuntimeError, OSError}
    \<and> map_of (w_local w') f = Some (File c)"
proof -
  let ?l = "lock_file r"
  have busy: "\<not> list_ex (\<lambda>i. \<not> x_lock_busy x ?l i) [0..<nat timeout]"
    using assms(1) by (auto simp: list_ex_iff)
  have os: "e = OSError" if "makedirs p fs = Inl e" for p e and fs :: "'a fs"
  proof -
    have "makedirs_each ps fs = Inl e \<Longrightarrow> e = OSError" for ps and fs :: "'a fs"
      by (induction ps arbitrary: fs) (auto split: option.splits node.splits if_splits)
    then show ?thesis using that by (auto simp: makedirs_def split: if_splits)
  qed
  have osw: "e = OSError" if "write_file p d fs = Inl e" for p d e and fs :: "'a fs"
    using that by (auto simp: write_file_def Let_def split: if_splits)
  show ?thesis
  proof (cases "makedirs (dirname ?l) (w_local w)")
    case (Inl e)
    then show ?thesis using os [OF Inl] assms(4)
      by (simp add: image_lock_def SKIP_LOCKS_def Let_def thenM_def bindM_def fsM_def)
  next
    case (Inr fs1)
    have f1: "map_of fs1 f = Some (File c)" using makedirs_keeps [OF Inr assms(4)] .
    have real: "realpath fs1 ?l = ?l" by (rule realpath_no_link) (rule makedirs_no_link [OF Inr assms(2)])
    show ?thesis
    proof (cases "write_file ?l (x_empty x) fs1")
      case (Inl e)
      then show ?thesis using osw [OF Inl] \<open>makedirs (dirname ?l) (w_local w) = Inr fs1\<close> f1
        by (simp add: image_lock_def SKIP_LOCKS_def Let_def thenM_def bindM_def fsM_def)
    next
      case (Inr fs2)
      have "map_of fs2 f = Some (File c)"
        using write_file_result [OF Inr] f1 real assms(3) by simp
      then show ?thesis using Inr \<open>makedirs (dirname ?l) (w_local w) = Inr fs1\<close> busy
        by (simp add: image_lock_def SKIP_LOCKS_def Let_def thenM_def bindM_def fsM_def io_run)
    qed
  qed
qed

lemma lock_timeout_witness:
  "\<exists>e w'. image_lock (example_ext\<lparr>x_lock_busy := (\<lambda>l i. True)\<rparr>) ''/pool/vm1/image1/launch.qcow2'' 5
        (raiseM KeyError :: (string world, unit) io) example_world = (Inl e, w')
    \<and> e \<in> {RuntimeError, OSError}
    \<and> map_of (w_local w') ''/pool/vm1/image1/launch.qcow2'' = Some (File ''pool data'')"
  by (rule lock_timeout) (simp_all add: example_world_def path_islink_def lock_file_def)

lemma listed_entry:
  assumes "map_of fs (d @ CHR ''/'' # n) = Some nd" and "CHR ''/'' \<notin> set n" and "n \<noteq> []"
    and "d \<noteq> []" and "\<not> path_islink fs d" and "last d \<noteq> CHR ''/''" and "listdir fs d = Inr names"
  shows "n \<in> set names"
proof -
  let ?p = "d @ CHR ''/'' # n"
  have bn: "basename ?p = n" using assms(2) by (rule basename_join)
  have "realpath fs d = d" by (rule realpath_no_link [OF assms(5)])
  moreover have "?p \<in> set (dict_keys fs)" using assms(1) by (simp add: dict_has_iff [symmetric] dict_has_def)
  moreover have "path_join d n = ?p"
    using assms(2-4,6) by (cases n; cases d rule: rev_cases)
      (auto simp: path_join_def startswith_def endswith_def)
  ultimately show ?thesis
    using assms(3,7) bn by (force simp: listdir_def split: option.splits node.splits)
qed

text \<open>An upload that returned has left its lock file.\<close>

lemma upload_leaves_lock:
  assumes "plain_pool p w" and "\<not> path_islink (w_local w) (lock_file p)"
  shows "wpM (upload_local x c p q) (\<lambda>_ _. True)
    (\<lambda>_ w'. map_of (w_local w') (lock_file p) = Some (File (x_empty x))) w"
proof -
  let ?l = "lock_file p"
  let ?Q = "\<lambda>_ w'. map_of (w_local w') ?l = Some (File (x_empty x))"
  have ne: "?l \<noteq> p" by (simp add: lock_file_def)
  have body: "wpM (bindM (compare_local x c p q) (\<lambda>same. if same then retM ()
        else thenM (fsM (makedirs (dirname p))) (fsM (copy_file c p)))) (\<lambda>_ _. True) ?Q v"
    if "p \<noteq> []" "plain_pool p v" "?Q () v" for v
  proof (cases "fst (compare_local x c p q v)")
    case (Inl e)
    then have "compare_local x c p q v = (Inl e, v)" by (simp add: compare_local_run)
    then show ?thesis by (simp add: wpM_bind_Inl)
  next
    case (Inr b)
    then have run: "compare_local x c p q v = (Inr b, v)" by (simp add: compare_local_run)
    have "map_of fs2 ?l = Some (File (x_empty x))"
      if m: "makedirs (dirname p) (w_local v) = Inr fs1" and cp: "copy_file c p fs1 = Inr fs2" for fs1 fs2
    proof -
      have "node_at fs1 p \<noteq> Some Dir"
        using dirname_not_dir_after [OF m compare_local_not_dir(2) [OF run \<open>p \<noteq> []\<close>]] \<open>plain_pool p v\<close>
        by (simp add: plain_pool_def)
      moreover have "realpath fs1 p = p"
        using \<open>plain_pool p v\<close> by (intro realpath_no_link makedirs_no_link [OF m]) (simp add: plain_pool_def)
      ultimately obtain d where "fs2 = dict_set p (File d) fs1"
        using cp by (auto simp: copy_file_def bindE_Inr_iff Let_def split: if_splits dest: write_file_result)
      moreover have "map_of fs1 ?l = Some (File (x_empty x))"
        using makedirs_keeps [OF m] that(1) \<open>?Q () v\<close> by simp
      ultimately show ?thesis using ne by simp
    qed
    then show ?thesis
      using \<open>?Q () v\<close> by - (rule wpM_bind_InrI, rule run, simp add: wp_simps split: sum.split)
  qed
  have lock: "?Q () (w\<lparr>w_local := fs2\<rparr>)"
    if "makedirs (dirname ?l) (w_local w) = Inr fs1" and "write_file ?l (x_empty x) fs1 = Inr fs2" for fs1 fs2
    using write_file_result [OF that(2)] realpath_no_link [OF makedirs_no_link [OF that(1) assms(2)]] by simp
  show ?thesis
    by (auto simp: upload_local_def wp_simps split: sum.splits intro!: wpM_image_lock body
        dest: dirname_lock intro: plain_pool_lock [OF assms(1)] lock)
qed

text \<open>
  Each lock leaves its file behind: after an upload into a pool directory that returned
  without an exception, a listing of the directory shows the name of the lock file beside the
  state, although it is no state.
\<close>

theorem lock_file_listed:
  assumes "upload_local x c (d @ CHR ''/'' # n) q w = (Inr (), w')"
    and "list_local d q' w' = (Inr names, w'')"
    and "CHR ''/'' \<notin> set n" and "n \<noteq> []" and "d \<noteq> []" and "last d \<noteq> CHR ''/''"
    and "plain_pool (d @ CHR ''/'' # n) w" and "\<not> path_islink (w_local w) (lock_file (d @ CHR ''/'' # n))"
    and "\<not> path_islink (w_local w') d" and "path_exists (w_local w') d"
  shows "n @ ''.lock'' \<in> set names"
proof -
  have "map_of (w_local w') (lock_file (d @ CHR ''/'' # n)) = Some (File (x_empty x))"
    using upload_leaves_lock [OF assms(7,8), of x c q] assms(1) by (simp add: wpM_def)
  then have "map_of (w_local w') (d @ CHR ''/'' # (n @ ''.lock'')) = Some (File (x_empty x))"
    by (simp add: lock_file_def)
  moreover have "listdir (w_local w') d = Inr names"
    using assms(2,10) by (auto simp: list_local_def bindM_def fs_test_def fs_read_def io_run)
  ultimately show ?thesis
    using assms(3-6,9) by (intro listed_entry [of "w_local w'" d "n @ ''.lock''"]) auto
qed

text \<open>The world after an upload, and its listing.\<close>

definition uploaded_world :: "string world" where
  "uploaded_world = \<lparr>
     w_local = [(''/p'', Dir), (''/c'', File ''data''), (''/p/a.lock'', File []), (''/p/a'', File ''data'')],
     w_sessions = []\<rparr>"

lemma lock_file_listed_witness:
  "upload_local example_ext ''/c'' ''/p/a'' [] \<lparr>w_local = [(''/p'', Dir), (''/c'', File ''data'')], w_sessions = []\<rparr>
     = (Inr (), uploaded_world)
   \<and> list_local ''/p'' [] uploaded_world = (Inr [''a.lock'', ''a''], uploaded_world)
   \<and> ''a'' @ ''.lock'' \<in> set [''a.lock'', ''a'']"
proof (intro conjI)
  show up: "upload_local example_ext ''/c'' ''/p/a'' [] \<lparr>w_local = [(''/p'', Dir), (''/c'', File ''data'')], w_sessions = []\<rparr>
     = (Inr (), uploaded_world)" by code_simp
  show li: "list_local ''/p'' [] uploaded_world = (Inr [''a.lock'', ''a''], uploaded_world)" by code_simp
  have "upload_local example_ext ''/c'' (''/p'' @ CHR ''/'' # ''a'') []
      \<lparr>w_local = [(''/p'', Dir), (''/c'', File ''data'')], w_sessions = []\<rparr> = (Inr (), uploaded_world)"
    using up by simp
  then show "''a'' @ ''.lock'' \<in> set [''a.lock'', ''a'']"
    by (rule lock_file_listed [OF _ li])
      (simp_all add: plain_pool_def lock_file_def path_islink_def uploaded_world_def basename_def is_slash_def
        path_exists_def node_at_def realpath_def)
qed

end
