(* ===== verification/StateSetup.thy ===== *)
theory StateSetup
  imports Params
begin

text \<open>
  Model of \<open>virttest/states/setup.py\<close>: the operations on the states of test objects
  (nets, vms, images) and the policies that guard them. A state backend is a record of the
  operations of the class \<open>StateBackend\<close>; an operation takes the parameters and the state
  object, may change the world and raise, and returns its parameters as it leaves them,
  because the backends write into the dictionary they are given. \<open>BACKENDS\<close> is the table
  of the backends by name, the test environment is the record \<open>env\<close> of the two calls the
  code makes on it.
\<close>

section \<open>Backends and environment\<close>

datatype sobj = ObjNone | ObjEnv | ObjVm string

record 'w backend =
  b_show :: "params \<Rightarrow> sobj \<Rightarrow> ('w, string list \<times> params) io"
  b_get :: "params \<Rightarrow> sobj \<Rightarrow> ('w, params) io"
  b_set :: "params \<Rightarrow> sobj \<Rightarrow> ('w, params) io"
  b_unset :: "params \<Rightarrow> sobj \<Rightarrow> ('w, params) io"
  b_check_root :: "params \<Rightarrow> sobj \<Rightarrow> ('w, bool \<times> params) io"
  b_get_root :: "params \<Rightarrow> sobj \<Rightarrow> ('w, params) io"
  b_set_root :: "params \<Rightarrow> sobj \<Rightarrow> ('w, params) io"
  b_unset_root :: "params \<Rightarrow> sobj \<Rightarrow> ('w, params) io"
  b_sourced :: bool

text \<open>The abstract class: every operation raises, but for \<open>get_root\<close>, which does nothing.\<close>

definition StateBackend :: "'w backend" where
  "StateBackend = \<lparr>
     b_show = (\<lambda>params object. raiseM NotImplementedError),
     b_get = (\<lambda>params object. raiseM NotImplementedError),
     b_set = (\<lambda>params object. raiseM NotImplementedError),
     b_unset = (\<lambda>params object. raiseM NotImplementedError),
     b_check_root = (\<lambda>params object. raiseM NotImplementedError),
     b_get_root = (\<lambda>params object. retM params),
     b_set_root = (\<lambda>params object. raiseM NotImplementedError),
     b_unset_root = (\<lambda>params object. raiseM NotImplementedError),
     b_sourced = False\<rparr>"

type_synonym 'w backends = "string \<Rightarrow> 'w backend option"

record 'w env =
  env_get_vm :: "string \<Rightarrow> 'w \<Rightarrow> sobj"
  env_vm_destroy :: "string \<Rightarrow> bool \<Rightarrow> ('w, unit) io"

definition ROOTS :: "string list" where
  "ROOTS = [''root'', ''0root'', ''boot'', ''0boot'']"

section \<open>Iteration over the hierarchy of stateful objects\<close>

text \<open>
  The parameters of one object of the hierarchy, and the type-filtered copy that is yielded
  for it. The generator yields the components of an object before the object; an exception
  of the generator ends the list.
\<close>

definition iter_obj_params :: "params \<Rightarrow> (string \<times> string) list \<Rightarrow> string \<Rightarrow> string \<Rightarrow> params" where
  "iter_obj_params params comps params_obj_type params_obj_name =
     p_set ''object_type'' (join ''/'' (map snd comps))
       (p_set ''object_name'' (join ''/'' (map fst comps))
         (p_set params_obj_type params_obj_name (object_params params params_obj_name)))"

text \<open>How many types the chain of any object below can have: what bounds the recursion.\<close>

definition chain_bound :: "params \<Rightarrow> nat" where
  "chain_bound p = foldr max (map (\<lambda>k. length (split_ws (p_get_or p k [])))
     (filter (\<lambda>k. startswith k ''states_chain'') (dict_keys p))) 1"

lemma foldr_max_le: "foldr max ns b \<le> (m::nat) \<longleftrightarrow> b \<le> m \<and> (\<forall>n \<in> set ns. n \<le> m)"
  by (induction ns) auto

lemma chain_bound_le:
  "chain_bound p \<le> m \<longleftrightarrow> 1 \<le> m \<and>
    (\<forall>k v. map_of p k = Some v \<longrightarrow> startswith k ''states_chain'' \<longrightarrow> length (split_ws v) \<le> m)"
  (is "?l \<longleftrightarrow> ?r")
proof
  assume ?l
  then have le: "\<forall>k \<in> set (dict_keys p). startswith k ''states_chain'' \<longrightarrow>
      length (split_ws (p_get_or p k [])) \<le> m" and "1 \<le> m"
    by (auto simp: chain_bound_def foldr_max_le)
  moreover have "k \<in> set (dict_keys p)" if "map_of p k = Some v" for k v
    using that by (simp add: dict_has_iff [symmetric] dict_has_def)
  ultimately show ?r by (fastforce simp: p_get_or_def)
next
  assume ?r
  then show ?l
    by (auto simp: chain_bound_def foldr_max_le p_get_or_def dict_has_iff [symmetric] dict_has_def)
qed

lemma chain_length_bound: "length (objects p ''states_chain'') \<le> chain_bound p"
proof -
  have "length (dedup xs) \<le> length xs" for xs :: "string list"
    by (induction xs) (auto intro: le_trans [OF length_filter_le])
  then have "length (objects p ''states_chain'') \<le> length (split_ws (p_get_or p ''states_chain'' []))"
    by (simp add: objects_dedup)
  also have "\<dots> \<le> chain_bound p"
  proof (cases "map_of p ''states_chain''")
    case None
    then show ?thesis by (simp add: p_get_or_def split_ws_def)
  next
    case (Some v)
    then show ?thesis
      using chain_bound_le [of p "chain_bound p"] by (simp add: p_get_or_def startswith_def)
  qed
  finally show ?thesis .
qed

lemma chain_bound_object_params: "chain_bound (object_params p n) \<le> chain_bound p"
proof -
  have "length (split_ws v) \<le> chain_bound p"
    if "map_of (object_params p n) k = Some v" "startswith k ''states_chain''" for k v
  proof (cases "sublist (obj_suffix n) k")
    case True
    then show ?thesis
      using that chain_bound_le [of p "chain_bound p"] by (simp add: object_params_suffixed)
  next
    case False
    have "\<exists>k'. map_of p k' = Some v \<and> startswith k' ''states_chain''"
    proof (cases "suffix_sources (obj_suffix n) (dict_keys p) k = []")
      case True
      then show ?thesis using that False by (auto simp: object_params_lookup)
    next
      case src: False
      define k' where "k' = last (suffix_sources (obj_suffix n) (dict_keys p) k)"
      have "k' \<in> set (suffix_sources (obj_suffix n) (dict_keys p) k)"
        using src unfolding k'_def by (rule last_in_set)
      then have "prefix k k'"
        by (auto simp: suffix_sources_def before_first_prefix)
      then show ?thesis
        using that False src prefix_order.trans
        by (auto simp: object_params_lookup k'_def startswith_def)
    qed
    then show ?thesis using chain_bound_le [of p "chain_bound p"] by auto
  qed
  then show ?thesis
    using chain_bound_le [of p "chain_bound p"] by (subst chain_bound_le) auto
qed

lemma chain_bound_iter_obj_params:
  assumes "params_obj_name \<in> set (objects params ty)"
  shows "chain_bound (iter_obj_params params comps ty params_obj_name) \<le> chain_bound params"
proof -
  let ?q = "object_params params params_obj_name"
  have word: "length (split_ws params_obj_name) \<le> 1"
    using objects_word [OF assms] by (simp add: split_ws_no_ws)
  have q: "1 \<le> chain_bound params \<and> (\<forall>k v. map_of ?q k = Some v \<longrightarrow> startswith k ''states_chain''
      \<longrightarrow> length (split_ws v) \<le> chain_bound params)"
    using chain_bound_object_params [of params params_obj_name] by (simp add: chain_bound_le)
  show ?thesis
    using q word
    by (subst chain_bound_le) (auto simp: iter_obj_params_def startswith_def)
qed

function (sequential) parametric_object_iteration ::
    "(string \<times> string) list \<Rightarrow> params \<Rightarrow> params res list" where
  "parametric_object_iteration composites params =
     (let object_composition = objects params ''states_chain'' in
      if object_composition = [] then [Inl ValueError]
      else if length composites \<ge> length object_composition then [Inl IndexError]
      else
        (let params_obj_type = object_composition ! length composites in
         concat (map (\<lambda>params_obj_name.
             let comps = composites @ [(params_obj_name, params_obj_type)];
                 obj_params = iter_obj_params params comps params_obj_type params_obj_name
             in (if params_obj_type \<noteq> last object_composition
                 then parametric_object_iteration comps obj_params else [])
                @ [Inr (object_params obj_params params_obj_type)])
           (objects params params_obj_type))))"
  by pat_completeness auto
termination
proof (relation "measure (\<lambda>(composites, params). chain_bound params - length composites)", goal_cases)
  case 1
  then show ?case by simp
next
  case (2 composites params ch ty name comps obj_params)
  then have "length composites < chain_bound params"
    using chain_length_bound [of params] by simp
  moreover have "chain_bound obj_params \<le> chain_bound params"
    using 2 chain_bound_iter_obj_params by simp
  ultimately show ?case using 2 by simp
qed

declare parametric_object_iteration.simps [simp del]

section \<open>Shared steps of the operations\<close>

text \<open>Objects of a type to skip and images marked read-only are left out by every operation.\<close>

definition skip_object :: "params \<Rightarrow> bool res" where
  "skip_object state_params =
     bindE (p_getitem state_params ''object_name'') (\<lambda>params_obj_name.
     bindE (p_getitem state_params ''object_type'') (\<lambda>params_obj_type.
       if params_obj_type \<in> set (objects state_params ''skip_types'') then Inr True
       else if params_obj_type = ''nets/vms/images''
            then get_boolean state_params ''image_readonly'' False
            else Inr False))"

definition find_backend :: "'w backends \<Rightarrow> params \<Rightarrow> 'w backend res" where
  "find_backend BACKENDS state_params =
     bindE (p_getitem state_params ''states'') (\<lambda>name. of_option KeyError (BACKENDS name))"

definition find_vm :: "'w env option \<Rightarrow> params \<Rightarrow> ('w, sobj) io" where
  "find_vm env state_params =
     (case env of
        None \<Rightarrow> retM ObjNone
      | Some e \<Rightarrow> bindM (liftM (p_getitem state_params ''vms'')) (\<lambda>v. getM (env_get_vm e v)))"

definition state_object :: "'w env option \<Rightarrow> string \<Rightarrow> sobj \<Rightarrow> sobj" where
  "state_object env params_obj_type vm =
     (if params_obj_type = ''nets'' then (case env of None \<Rightarrow> ObjNone | Some _ \<Rightarrow> ObjEnv) else vm)"

text \<open>\<open>vm.destroy(gracefully=...)\<close>: on \<open>None\<close> an attribute error.\<close>

definition destroy_vm :: "'w env option \<Rightarrow> sobj \<Rightarrow> params \<Rightarrow> ('w, unit) io" where
  "destroy_vm env vm root_params =
     (case (env, vm) of
        (Some e, ObjVm v) \<Rightarrow>
          bindM (liftM (get_dict root_params ''check_opts'' [] None)) (\<lambda>opts.
            env_vm_destroy e v (dict_get opts ''soft_boot'' ''yes'' = ''yes''))
      | _ \<Rightarrow> raiseM AttributeError)"

section \<open>Checking states\<close>

definition check_state_of :: "'w backends \<Rightarrow> 'w env option \<Rightarrow> params \<Rightarrow> ('w, bool option) io" where
  "check_state_of BACKENDS env state_params =
     bindM (liftM (skip_object state_params)) (\<lambda>skip.
     if skip then retM None
     else if \<not> p_true state_params ''check_state'' then retM None
     else
       let state = p_get_or state_params ''check_state'' [];
           params_obj_type = p_get_or state_params ''object_type'' [];
           sp1 = p_set ''check_opts'' (p_get_or state_params ''check_opts'' ''soft_boot=yes'') state_params;
           sp = p_set ''check_mode'' (p_get_or sp1 ''check_mode'' ''rf'') sp1
       in
       bindM (liftM (find_backend BACKENDS sp)) (\<lambda>state_backend.
       bindM (find_vm env sp) (\<lambda>vm.
       let state_object = state_object env params_obj_type vm in
       bindM (liftM (index_nth (p_get_or sp ''check_mode'' []) 0)) (\<lambda>action_if_root_exists.
       bindM (liftM (index_nth (p_get_or sp ''check_mode'' []) 1)) (\<lambda>action_if_root_doesnt_exist.
       bindM (b_check_root state_backend sp state_object) (\<lambda>(root_exists, sp).
       let show_part =
         (if state \<in> set ROOTS then retM (Some True)
          else bindM (b_show state_backend sp state_object) (\<lambda>(states, _). retM (Some (state \<in> set states))));
           own = p_set ''pool_scope'' ''own'' sp
       in
       bindM
        (if \<not> root_exists then
           (if action_if_root_doesnt_exist = CHR ''f'' then
              bindM (b_set_root state_backend own state_object) (\<lambda>_. show_part)
            else if action_if_root_doesnt_exist = CHR ''r'' then retM (Some False)
            else raiseM TestError)
         else if action_if_root_exists = CHR ''f'' then
           thenM (if params_obj_type = ''nets/vms''
                  then destroy_vm env vm own
                  else bindM (b_unset_root state_backend own state_object) (\<lambda>_. retM ()))
            (bindM (b_set_root state_backend own state_object) (\<lambda>_. show_part))
         else bindM (b_get_root state_backend sp state_object) (\<lambda>_. show_part))
        (\<lambda>r. retM (if r = Some True then None else r))))))))"

definition check_states :: "'w backends \<Rightarrow> 'w env option \<Rightarrow> params \<Rightarrow> ('w, bool) io" where
  "check_states BACKENDS env run_params =
     bindM (for_return (\<lambda>item. bindM (liftM item) (check_state_of BACKENDS env))
              (parametric_object_iteration [] run_params))
       (\<lambda>r. retM (case r of None \<Rightarrow> True | Some b \<Rightarrow> b))"

definition chain_params :: "string \<Rightarrow> string \<Rightarrow> string \<Rightarrow> params \<Rightarrow> params res" where
  "chain_params do params_obj_type params_obj_name state_params =
     bindE (p_getitem state_params (do @ ''_state'')) (\<lambda>state.
     let sp1 = p_set ''check_state'' state state_params;
         sp2 = (if p_true sp1 (do @ ''_location'')
                then p_set ''show_location'' (p_get_or sp1 (do @ ''_location'') []) sp1 else sp1);
         soft = (if do = ''set'' then ''yes'' else ''no'');
         sp3 = p_set ''soft_boot'' soft (p_set ''check_opts'' (''soft_boot='' @ soft) sp2);
         composite_types = split_on (CHR ''/'') params_obj_type;
         composite_names = split_on (CHR ''/'') params_obj_name;
         sp4 = fold (\<lambda>(t, n). p_set t n) (zip composite_types composite_names) sp3
     in Inr (p_set ''states_chain'' (last composite_types) sp4))"

text \<open>\<open>_state_check_chain\<close>: whether the state exists, and the parameters it leaves.\<close>

definition state_check_chain ::
    "'w backends \<Rightarrow> 'w env option \<Rightarrow> string \<Rightarrow> string \<Rightarrow> string \<Rightarrow> params \<Rightarrow> ('w, bool \<times> params) io" where
  "state_check_chain BACKENDS env do params_obj_type params_obj_name state_params =
     bindM (liftM (chain_params do params_obj_type params_obj_name state_params)) (\<lambda>sp.
     bindM (check_states BACKENDS env sp) (\<lambda>state_exists. retM (state_exists, sp)))"

definition show_states_of :: "'w backends \<Rightarrow> params \<Rightarrow> sobj \<Rightarrow> ('w, string list) io" where
  "show_states_of BACKENDS state_params env_object =
     bindM (liftM (skip_object state_params)) (\<lambda>skip.
     if skip then retM []
     else bindM (liftM (find_backend BACKENDS state_params)) (\<lambda>state_backend.
          bindM (b_show state_backend state_params env_object) (\<lambda>(states, _). retM states)))"

primrec show_loop :: "'w backends \<Rightarrow> sobj \<Rightarrow> params res list \<Rightarrow> string list \<Rightarrow> ('w, string list) io" where
  "show_loop BACKENDS env_object [] states = retM states"
| "show_loop BACKENDS env_object (item # items) states =
     bindM (bindM (liftM item) (\<lambda>sp. show_states_of BACKENDS sp env_object))
       (\<lambda>params_obj_states. show_loop BACKENDS env_object items (states @ params_obj_states))"

definition show_states :: "'w backends \<Rightarrow> 'w env option \<Rightarrow> params \<Rightarrow> ('w, string list) io" where
  "show_states BACKENDS env run_params =
     show_loop BACKENDS (case env of None \<Rightarrow> ObjNone | Some _ \<Rightarrow> ObjEnv)
       (parametric_object_iteration [] run_params) []"

section \<open>Getting, setting and unsetting states\<close>

text \<open>What the three operations share up to the policy decision.\<close>

definition prepare_state ::
    "'w backends \<Rightarrow> 'w env option \<Rightarrow> string \<Rightarrow> string \<Rightarrow> params
     \<Rightarrow> ('w, (bool \<times> params \<times> 'w backend \<times> sobj \<times> char \<times> char) option) io" where
  "prepare_state BACKENDS env do default_mode state_params =
     bindM (liftM (skip_object state_params)) (\<lambda>skip.
     if skip then retM None
     else if \<not> p_true state_params (do @ ''_state'') then retM None
     else
       let params_obj_name = p_get_or state_params ''object_name'' [];
           params_obj_type = p_get_or state_params ''object_type'' [];
           sp = p_set (do @ ''_mode'') (p_get_or state_params (do @ ''_mode'') default_mode) state_params
       in
       bindM (state_check_chain BACKENDS env do params_obj_type params_obj_name sp)
         (\<lambda>(state_exists, sp).
       bindM (liftM (find_backend BACKENDS sp)) (\<lambda>state_backend.
       bindM (find_vm env sp) (\<lambda>vm.
       let mode = p_get_or sp (do @ ''_mode'') [] in
       bindM (liftM (index_nth mode 0)) (\<lambda>action_if_exists.
       bindM (liftM (index_nth mode 1)) (\<lambda>action_if_doesnt_exist.
         retM (Some (state_exists, sp, state_backend, state_object env params_obj_type vm,
                     action_if_exists, action_if_doesnt_exist))))))))"

definition get_state_of :: "'w backends \<Rightarrow> 'w env option \<Rightarrow> params \<Rightarrow> ('w, unit) io" where
  "get_state_of BACKENDS env state_params =
     bindM (prepare_state BACKENDS env ''get'' ''ra'' state_params) (\<lambda>prep. case prep of
       None \<Rightarrow> retM ()
     | Some (state_exists, sp, state_backend, obj, action_if_exists, action_if_doesnt_exist) \<Rightarrow>
         let perform = (if p_get_or sp ''get_state'' [] \<in> set ROOTS
                        then bindM (b_get_root state_backend sp obj) (\<lambda>_. retM ())
                        else bindM (b_get state_backend sp obj) (\<lambda>_. retM ())) in
         if \<not> state_exists \<and> action_if_doesnt_exist = CHR ''a'' then raiseM TestAbortError
         else if \<not> state_exists \<and> action_if_doesnt_exist = CHR ''i'' then retM ()
         else if \<not> state_exists then raiseM TestError
         else if state_exists \<and> action_if_exists = CHR ''a'' then raiseM TestAbortError
         else if state_exists \<and> action_if_exists = CHR ''r'' then perform
         else if state_exists \<and> action_if_exists = CHR ''i'' then retM ()
         else raiseM TestError)"

definition get_states :: "'w backends \<Rightarrow> 'w env option \<Rightarrow> params \<Rightarrow> ('w, unit) io" where
  "get_states BACKENDS env run_params =
     forM (\<lambda>item. bindM (liftM item) (get_state_of BACKENDS env))
       (parametric_object_iteration [] run_params)"

definition set_state_of :: "'w backends \<Rightarrow> 'w env option \<Rightarrow> params \<Rightarrow> ('w, unit) io" where
  "set_state_of BACKENDS env state_params =
     bindM (prepare_state BACKENDS env ''set'' ''ff'' state_params) (\<lambda>prep. case prep of
       None \<Rightarrow> retM ()
     | Some (state_exists, sp, state_backend, obj, action_if_exists, action_if_doesnt_exist) \<Rightarrow>
         let state = p_get_or sp ''set_state'' [];
             perform = (\<lambda>sp. if state \<in> set ROOTS
                        then bindM (b_set_root state_backend sp obj) (\<lambda>_. retM ())
                        else bindM (b_set state_backend sp obj) (\<lambda>_. retM ())) in
         if state_exists \<and> action_if_exists = CHR ''a'' then raiseM TestAbortError
         else if state_exists \<and> action_if_exists = CHR ''r'' then retM ()
         else if state_exists \<and> action_if_exists = CHR ''f'' then
           let sp = p_set ''unset_state'' state sp in
           if state \<in> set ROOTS then bindM (b_unset_root state_backend sp obj) perform
           else if b_sourced state_backend then perform sp
           else bindM (b_unset state_backend sp obj) perform
         else if state_exists then raiseM TestError
         else if action_if_doesnt_exist = CHR ''a'' then raiseM TestAbortError
         else if action_if_doesnt_exist = CHR ''f'' then
           if state \<in> set ROOTS then perform sp
           else bindM (b_check_root state_backend sp obj) (\<lambda>(rooted, sp).
                  if \<not> rooted then raiseM TestError else perform sp)
         else raiseM TestError)"

definition set_states :: "'w backends \<Rightarrow> 'w env option \<Rightarrow> params \<Rightarrow> ('w, unit) io" where
  "set_states BACKENDS env run_params =
     forM (\<lambda>item. bindM (liftM item) (set_state_of BACKENDS env))
       (parametric_object_iteration [] run_params)"

definition unset_state_of :: "'w backends \<Rightarrow> 'w env option \<Rightarrow> params \<Rightarrow> ('w, unit) io" where
  "unset_state_of BACKENDS env state_params =
     bindM (prepare_state BACKENDS env ''unset'' ''fi'' state_params) (\<lambda>prep. case prep of
       None \<Rightarrow> retM ()
     | Some (state_exists, sp, state_backend, obj, action_if_exists, action_if_doesnt_exist) \<Rightarrow>
         let perform = (if p_get_or sp ''unset_state'' [] \<in> set ROOTS
                        then bindM (b_unset_root state_backend sp obj) (\<lambda>_. retM ())
                        else bindM (b_unset state_backend sp obj) (\<lambda>_. retM ())) in
         if \<not> state_exists \<and> action_if_doesnt_exist = CHR ''a'' then raiseM TestAbortError
         else if \<not> state_exists \<and> action_if_doesnt_exist = CHR ''i'' then retM ()
         else if \<not> state_exists then raiseM TestError
         else if state_exists \<and> action_if_exists = CHR ''r'' then retM ()
         else if state_exists \<and> action_if_exists = CHR ''f'' then perform
         else raiseM TestError)"

definition unset_states :: "'w backends \<Rightarrow> 'w env option \<Rightarrow> params \<Rightarrow> ('w, unit) io" where
  "unset_states BACKENDS env run_params =
     forM (\<lambda>item. bindM (liftM item) (unset_state_of BACKENDS env))
       (parametric_object_iteration [] run_params)"

section \<open>Push and pop\<close>

text \<open>Restricting the parameters to the object that is processed.\<close>

definition restrict_object :: "params \<Rightarrow> params res" where
  "restrict_object state_params =
     bindE (p_getitem state_params ''object_name'') (\<lambda>params_obj_name.
     bindE (p_getitem state_params ''object_type'') (\<lambda>params_obj_type.
       let composite_types = split_on (CHR ''/'') params_obj_type;
           composite_names = split_on (CHR ''/'') params_obj_name;
           sp = fold (\<lambda>(t, n). p_set t n) (zip composite_types composite_names) state_params
       in Inr (p_set ''states_chain'' (last composite_types) sp)))"

definition push_state_of :: "'w backends \<Rightarrow> 'w env option \<Rightarrow> params \<Rightarrow> ('w, unit) io" where
  "push_state_of BACKENDS env state_params =
     (if \<not> p_true state_params ''push_state'' then retM ()
      else let state = p_get_or state_params ''push_state'' [] in
        if state \<in> set ROOTS then retM ()
        else bindM (liftM (restrict_object state_params)) (\<lambda>sp.
          let sp1 = p_set ''set_state'' (p_get_or sp ''push_state'' []) sp;
              sp2 = p_set ''set_mode'' (p_get_or sp1 ''push_mode'' ''af'') sp1
          in set_states BACKENDS env sp2))"

definition push_states :: "'w backends \<Rightarrow> 'w env option \<Rightarrow> params \<Rightarrow> ('w, unit) io" where
  "push_states BACKENDS env run_params =
     forM (\<lambda>item. bindM (liftM item) (push_state_of BACKENDS env))
       (parametric_object_iteration [] run_params)"

definition pop_state_of :: "'w backends \<Rightarrow> 'w env option \<Rightarrow> params \<Rightarrow> ('w, unit) io" where
  "pop_state_of BACKENDS env state_params =
     (if \<not> p_true state_params ''pop_state'' then retM ()
      else let state = p_get_or state_params ''pop_state'' [] in
        if state \<in> set ROOTS then retM ()
        else bindM (liftM (restrict_object state_params)) (\<lambda>sp.
          let sp1 = p_set ''get_state'' (p_get_or sp ''pop_state'' []) sp;
              sp2 = p_set ''get_mode'' (p_get_or sp1 ''pop_mode'' ''ra'') sp1;
              sp3 = p_set ''unset_state'' (p_get_or sp2 ''pop_state'' []) sp2;
              sp4 = p_set ''unset_mode'' (p_get_or sp3 ''pop_mode'' ''fa'') sp3
          in thenM (get_states BACKENDS env sp2) (unset_states BACKENDS env sp4)))"

definition pop_states :: "'w backends \<Rightarrow> 'w env option \<Rightarrow> params \<Rightarrow> ('w, unit) io" where
  "pop_states BACKENDS env run_params =
     forM (\<lambda>item. bindM (liftM item) (pop_state_of BACKENDS env))
       (parametric_object_iteration [] run_params)"


section \<open>Parameters that the iteration passes down\<close>

text \<open>
  \<open>keys_ok s P p\<close>: every value under a key that starts with \<open>s\<close> satisfies \<open>P\<close>. The
  suffix lookup only ever cuts keys, so it keeps this; the iteration and the chained check
  keep it as long as no object type reaches into these keys.
\<close>

definition keys_ok :: "string \<Rightarrow> (string \<Rightarrow> bool) \<Rightarrow> params \<Rightarrow> bool" where
  "keys_ok s P p \<longleftrightarrow> (\<forall>(k, v) \<in> set p. startswith k s \<longrightarrow> P v)"

lemma keys_ok_map_of: "keys_ok s P p \<Longrightarrow> map_of p k = Some v \<Longrightarrow> startswith k s \<Longrightarrow> P v"
  by (auto simp: keys_ok_def dest: map_of_SomeD)

lemma set_p_set: "set (p_set k v p) \<subseteq> insert (k, v) (set p)"
  unfolding p_set_def dict_set_def by (induction p) auto

lemma keys_ok_set: "keys_ok s P p \<Longrightarrow> (startswith k s \<Longrightarrow> P v) \<Longrightarrow> keys_ok s P (p_set k v p)"
  using set_p_set [of k v p] unfolding keys_ok_def by blast

lemma keys_ok_object_params: "keys_ok s P p \<Longrightarrow> keys_ok s P (object_params p n)"
proof -
  have "keys_ok s P (fold (object_params_step sfx) ks d)" if "keys_ok s P d" for sfx ks d
    using that
  proof (induction ks arbitrary: d)
    case (Cons key ks)
    have "keys_ok s P (object_params_step sfx key d)"
    proof (cases "endswith key sfx \<and> map_of d key \<noteq> None")
      case True
      then obtain v where v: "map_of d key = Some v" by auto
      have "startswith (before_first sfx key) s \<Longrightarrow> startswith key s"
        using before_first_prefix [of sfx key] prefix_order.trans unfolding startswith_def by blast
      then have "keys_ok s P (p_set (before_first sfx key) v d)"
        using Cons.prems keys_ok_map_of [OF Cons.prems v] by (intro keys_ok_set) auto
      then show ?thesis using v by (simp add: object_params_step_def Cons.prems)
    qed (use Cons.prems in \<open>auto simp: object_params_step_def\<close>)
    then show ?case by (simp add: Cons.IH)
  qed simp
  then show "keys_ok s P p \<Longrightarrow> keys_ok s P (object_params p n)" by (simp add: object_params_def)
qed

lemma dict_has_p_set [simp]: "dict_has (p_set k v p) k' \<longleftrightarrow> k' = k \<or> dict_has p k'"
  by (simp add: p_set_def)

lemma dict_has_object_params: "dict_has p k \<Longrightarrow> dict_has (object_params p n) k"
proof -
  have "dict_has (fold (object_params_step sfx) ks d) k" if "dict_has d k" for sfx ks d
    using that by (induction ks arbitrary: d) (simp_all add: object_params_step_def split: option.splits)
  then show "dict_has p k \<Longrightarrow> dict_has (object_params p n) k" by (simp add: object_params_def)
qed

text \<open>Object types that are plain words and name none of the keys at stake.\<close>

definition good_type :: "string \<Rightarrow> string \<Rightarrow> bool" where
  "good_type s t \<longleftrightarrow> list_all (\<lambda>c. \<not> is_ws c \<and> c \<noteq> CHR ''/'') t
     \<and> \<not> startswith t s \<and> \<not> startswith t ''states_chain'' \<and> \<not> startswith t ''object_type''"

definition conf :: "string \<Rightarrow> (string \<Rightarrow> bool) \<Rightarrow> params \<Rightarrow> bool" where
  "conf s P p \<longleftrightarrow> keys_ok s P p
     \<and> keys_ok ''states_chain'' (\<lambda>v. list_all (good_type s) (split_ws v)) p
     \<and> keys_ok ''object_type'' (\<lambda>v. list_all (good_type s) (split_on (CHR ''/'') v)) p"

lemma conf_object_params: "conf s P p \<Longrightarrow> conf s P (object_params p n)"
  by (simp add: conf_def keys_ok_object_params)

lemma conf_set:
  "conf s P p \<Longrightarrow> (startswith k s \<Longrightarrow> P v)
   \<Longrightarrow> (startswith k ''states_chain'' \<Longrightarrow> list_all (good_type s) (split_ws v))
   \<Longrightarrow> (startswith k ''object_type'' \<Longrightarrow> list_all (good_type s) (split_on (CHR ''/'') v))
   \<Longrightarrow> conf s P (p_set k v p)"
  by (simp add: conf_def keys_ok_set)

lemma conf_set_type: "conf s P p \<Longrightarrow> good_type s t \<Longrightarrow> conf s P (p_set t v p)"
  by (rule conf_set) (simp_all add: good_type_def)

lemma conf_types: "conf s P p \<Longrightarrow> t \<in> set (objects p ''states_chain'') \<Longrightarrow> good_type s t"
proof -
  assume c: "conf s P p" and t: "t \<in> set (objects p ''states_chain'')"
  then obtain v where v: "map_of p ''states_chain'' = Some v" and "t \<in> set (split_ws v)"
    by (cases "map_of p ''states_chain''") (auto simp: objects_dedup p_get_or_def split_ws_def)
  then show ?thesis
    using c keys_ok_map_of [of "''states_chain''" _ p, OF _ v]
    by (auto simp: conf_def startswith_def list_all_iff)
qed

lemma split_on_join_types:
  assumes "list_all (good_type s) ts"
  shows "list_all (good_type s) (split_on (CHR ''/'') (join ''/'' ts)) \<or> ts = []"
proof (cases "ts = []")
  case False
  then have "split_on (CHR ''/'') (join ''/'' ts) = ts"
    using assms by (intro split_on_join) (auto simp: good_type_def list_all_iff)
  then show ?thesis using assms by simp
qed simp

lemma conf_iter_obj_params:
  assumes "conf s P p" and "list_all (good_type s) (map snd comps)" and "comps \<noteq> []"
    and "good_type s ty" and "\<not> startswith ''object_name'' s" and "\<not> startswith ''object_type'' s"
  shows "conf s P (iter_obj_params p comps ty n)"
proof -
  have "conf s P (p_set ty n (object_params p n))"
    using assms by (intro conf_set_type conf_object_params)
  then have "conf s P (p_set ''object_name'' nm (p_set ty n (object_params p n)))" for nm
    by (rule conf_set) (use assms(5) in \<open>simp_all add: startswith_def\<close>)
  then show ?thesis
    unfolding iter_obj_params_def
    by (rule conf_set) (use assms split_on_join_types [OF assms(2)] in \<open>simp_all add: startswith_def\<close>)
qed

lemma iteration_conf:
  assumes "conf s P p" and "list_all (good_type s) (map snd comps)"
    and "\<not> startswith ''object_name'' s" and "\<not> startswith ''object_type'' s"
    and "Inr q \<in> set (parametric_object_iteration comps p)"
  shows "conf s P q \<and> (\<forall>k. dict_has p k \<longrightarrow> dict_has q k)"
  using assms(1,2,5)
proof (induction comps p rule: parametric_object_iteration.induct)
  case (1 comps p)
  let ?chain = "objects p ''states_chain''"
  have "?chain \<noteq> [] \<and> length comps < length ?chain"
    using "1.prems"(3)
    by (subst (asm) parametric_object_iteration.simps) (auto simp: Let_def split: if_splits)
  then have len: "?chain \<noteq> []" "length comps < length ?chain" by simp_all
  define ty where "ty = ?chain ! length comps"
  have ty: "good_type s ty" using "1.prems"(1) len by (auto simp: ty_def intro: conf_types)
  obtain n where n: "n \<in> set (objects p ty)" and
    "(ty \<noteq> last ?chain \<and> Inr q \<in> set (parametric_object_iteration (comps @ [(n, ty)])
        (iter_obj_params p (comps @ [(n, ty)]) ty n)))
     \<or> q = object_params (iter_obj_params p (comps @ [(n, ty)]) ty n) ty"
    using "1.prems"(3) len
    by (subst (asm) parametric_object_iteration.simps) (auto simp: Let_def ty_def split: if_splits)
  then consider
    (down) "ty \<noteq> last ?chain" "Inr q \<in> set (parametric_object_iteration (comps @ [(n, ty)])
        (iter_obj_params p (comps @ [(n, ty)]) ty n))"
  | (here) "q = object_params (iter_obj_params p (comps @ [(n, ty)]) ty n) ty" by blast
  then show ?case
  proof cases
    case down
    have c: "conf s P (iter_obj_params p (comps @ [(n, ty)]) ty n)"
      using "1.prems" ty assms(3,4) by (intro conf_iter_obj_params) simp_all
    have "dict_has p k \<Longrightarrow> dict_has (iter_obj_params p (comps @ [(n, ty)]) ty n) k" for k
      by (simp add: iter_obj_params_def dict_has_object_params)
    moreover have "conf s P q \<and> (\<forall>k. dict_has (iter_obj_params p (comps @ [(n, ty)]) ty n) k \<longrightarrow> dict_has q k)"
      by (rule "1.IH" [OF refl len(1) _ ty_def n refl refl down(1) c _ down(2)])
        (use len "1.prems"(2) ty in simp_all)
    ultimately show ?thesis by blast
  next
    case here
    have "conf s P (iter_obj_params p (comps @ [(n, ty)]) ty n)"
      using "1.prems" ty assms(3,4) by (intro conf_iter_obj_params) simp_all
    then show ?thesis
      by (simp add: here conf_object_params iter_obj_params_def dict_has_object_params)
  qed
qed

lemma conf_restrict:
  "conf s P p \<Longrightarrow> list_all (good_type s) ts \<Longrightarrow>
   conf s P (fold (\<lambda>(t, n). p_set t n) (zip ts ns) p)"
proof (induction ts arbitrary: ns p)
  case (Cons t ts)
  then show ?case by (cases ns) (simp_all add: conf_set_type)
qed simp

lemma dict_has_restrict:
  "dict_has p k \<Longrightarrow> dict_has (fold (\<lambda>(t, n). p_set t n) xs p) k"
  by (induction xs arbitrary: p) (auto split: prod.split)

lemma good_type_words: "good_type s t \<Longrightarrow> list_all (good_type s) (split_ws t)"
proof -
  assume t: "good_type s t"
  then have "\<forall>c \<in> set t. \<not> is_ws c" by (auto simp: good_type_def list_all_iff)
  then show ?thesis using t by (simp add: split_ws_no_ws)
qed

lemma conf_object_type:
  assumes "conf s P p" and "s \<noteq> []"
  shows "list_all (good_type s) (split_on (CHR ''/'') (p_get_or p ''object_type'' []))"
proof (cases "map_of p ''object_type''")
  case None
  then show ?thesis using assms(2) by (simp add: p_get_or_def good_type_def startswith_def)
next
  case (Some ty)
  have "keys_ok ''object_type'' (\<lambda>v. list_all (good_type s) (split_on (CHR ''/'') v)) p"
    using assms(1) by (simp add: conf_def)
  from keys_ok_map_of [OF this Some] show ?thesis
    using Some by (simp add: p_get_or_def startswith_def)
qed

lemma conf_chain_params:
  assumes "conf s P p" and "list_all (good_type s) (split_on (CHR ''/'') ty)"
    and "chain_params do ty name p = Inr q"
    and "\<not> startswith ''check_state'' s" and "\<not> startswith ''show_location'' s"
    and "\<not> startswith ''check_opts'' s" and "\<not> startswith ''soft_boot'' s"
    and "\<not> startswith ''states_chain'' s"
  shows "conf s P q \<and> (\<forall>k. dict_has p k \<longrightarrow> dict_has q k)"
proof -
  let ?types = "split_on (CHR ''/'') ty" and ?names = "split_on (CHR ''/'') name"
  have plain: "conf s P (p_set k v p')" if "conf s P p'" and "k \<in> {''check_state'', ''show_location'',
      ''check_opts'', ''soft_boot''}" for k v p'
    by (rule conf_set [OF that(1)]) (use that(2) assms(4-7) in \<open>auto simp: startswith_def\<close>)
  have last: "good_type s (last ?types)"
    using assms(2) split_on_nonempty [of "CHR ''/''" ty] by (simp add: list_all_iff)
  have end_chain: "conf s P (p_set ''states_chain'' (last ?types) p')" if "conf s P p'" for p'
    by (rule conf_set [OF that])
      (use assms(8) good_type_words [OF last] in \<open>simp_all add: startswith_def\<close>)
  obtain state where state: "p_getitem p (do @ ''_state'') = Inr state"
    using assms(3) by (auto simp: chain_params_def bindE_Inr_iff)
  define sp1 where "sp1 = p_set ''check_state'' state p"
  define sp2 where "sp2 = (if p_true sp1 (do @ ''_location'')
    then p_set ''show_location'' (p_get_or sp1 (do @ ''_location'') []) sp1 else sp1)"
  define soft where "soft = (if do = ''set'' then ''yes'' else ''no'')"
  define sp3 where "sp3 = p_set ''soft_boot'' soft (p_set ''check_opts'' (''soft_boot='' @ soft) sp2)"
  have q: "q = p_set ''states_chain'' (last ?types) (fold (\<lambda>(t, n). p_set t n) (zip ?types ?names) sp3)"
    using assms(3) state unfolding chain_params_def sp3_def soft_def sp2_def sp1_def Let_def by simp
  have "conf s P sp1" unfolding sp1_def by (rule plain) (simp_all add: assms(1))
  then have "conf s P sp2" unfolding sp2_def by (auto intro: plain)
  then have "conf s P sp3" unfolding sp3_def by (intro plain) simp_all
  then have "conf s P q" unfolding q by (intro end_chain conf_restrict assms(2))
  moreover have "dict_has q k" if "dict_has p k" for k
    unfolding q dict_has_p_set
    by (intro disjI2 dict_has_restrict) (simp add: sp3_def sp2_def sp1_def that)
  ultimately show ?thesis by blast
qed

text \<open>A parameter whose value is fixed wherever an object could read it from.\<close>

definition fixed :: "string \<Rightarrow> (string \<Rightarrow> bool) \<Rightarrow> params \<Rightarrow> bool" where
  "fixed key P p \<longleftrightarrow> conf key P p \<and> dict_has p key"

lemma fixed_value: "fixed key P p \<Longrightarrow> P (p_get_or p key d)"
  using keys_ok_map_of [of key P p key]
  by (auto simp: fixed_def conf_def dict_has_def p_get_or_def startswith_def)

lemma fixed_iteration:
  assumes "fixed key P p" and "Inr q \<in> set (parametric_object_iteration [] p)"
    and "\<not> startswith ''object_name'' key" and "\<not> startswith ''object_type'' key"
  shows "fixed key P q"
  using iteration_conf [of key P p "[]" q] assms by (simp add: fixed_def)

lemma p_true_type: "p_true p k \<Longrightarrow> p_get_or p k [] \<noteq> []"
  by (auto simp: p_true_def p_get_or_def split: option.splits)

section \<open>What the policies allow\<close>

text \<open>The operations of the backends that only look, and keep a property \<open>I\<close>.\<close>

definition readers_keep :: "('w \<Rightarrow> bool) \<Rightarrow> 'w backends \<Rightarrow> bool" where
  "readers_keep I BACKENDS \<longleftrightarrow> (\<forall>n B p obj. BACKENDS n = Some B \<longrightarrow>
     keeps I (b_show B p obj) \<and> keeps I (b_check_root B p obj) \<and> keeps I (b_get_root B p obj))"

lemma find_backend_Inr: "find_backend BACKENDS p = Inr B \<Longrightarrow> \<exists>n. BACKENDS n = Some B"
  by (auto simp: find_backend_def bindE_Inr_iff of_option_def split: option.splits)

lemma keeps_find_vm [keeps_intros]: "keeps I (find_vm env p)"
  by (auto simp: find_vm_def split: option.split intro!: keeps_intros)

lemma check_state_of_keeps:
  assumes "readers_keep I BACKENDS" and "fixed ''check_mode'' (\<lambda>v. v = ''rr'') p"
  shows "keeps I (check_state_of BACKENDS env p)"
proof -
  let ?sp1 = "p_set ''check_opts'' (p_get_or p ''check_opts'' ''soft_boot=yes'') p"
  have mode: "p_get_or ?sp1 ''check_mode'' ''rf'' = ''rr''"
    using fixed_value [OF assms(2)] by simp
  have readers: "keeps I (b_show B q obj)" "keeps I (b_check_root B q obj)" "keeps I (b_get_root B q obj)"
    if "find_backend BACKENDS r = Inr B" for B r q obj
    using assms(1) find_backend_Inr [OF that] unfolding readers_keep_def by blast+
  show ?thesis
    unfolding check_state_of_def Let_def mode
    by (auto intro!: keeps_intros readers split: prod.split)
qed

lemma check_states_keeps:
  assumes "readers_keep I BACKENDS" and "fixed ''check_mode'' (\<lambda>v. v = ''rr'') p"
  shows "keeps I (check_states BACKENDS env p)"
proof -
  have "keeps I (bindM (liftM item) (check_state_of BACKENDS env))"
    if "item \<in> set (parametric_object_iteration [] p)" for item
    using that assms
    by (intro keeps_lift_bind check_state_of_keeps fixed_iteration [OF assms(2)]) (auto simp: startswith_def)
  then show ?thesis
    unfolding check_states_def by (rule keeps_bind [OF keeps_for_return]) (auto intro: keeps_pure)
qed

lemma fixed_chain_params:
  assumes "fixed key P p" and "chain_params do (p_get_or p ''object_type'' []) name p = Inr q"
    and "key \<in> {''check_mode'', ''get_mode'', ''set_mode'', ''unset_mode''}"
  shows "fixed key P q"
proof -
  have c: "conf key P p" and h: "dict_has p key"
    using assms(1) by (simp_all add: fixed_def)
  have "list_all (good_type key) (split_on (CHR ''/'') (p_get_or p ''object_type'' []))"
    by (rule conf_object_type [OF c]) (use assms(3) in auto)
  from conf_chain_params [OF c this assms(2)] h assms(3) show ?thesis
    by (auto simp: fixed_def startswith_def)
qed

lemma prepare_state_keeps:
  assumes "readers_keep I BACKENDS" and "fixed ''check_mode'' (\<lambda>v. v = ''rr'') p"
    and "do \<in> {''get'', ''set'', ''unset''}"
  shows "keeps I (prepare_state BACKENDS env do dm p)"
proof -
  let ?sp = "p_set (do @ ''_mode'') (p_get_or p (do @ ''_mode'') dm) p"
  have ty: "p_get_or p ''object_type'' [] = p_get_or ?sp ''object_type'' []"
    using assms(3) by (auto simp: p_get_or_def)
  have "conf ''check_mode'' (\<lambda>v. v = ''rr'') ?sp"
    using assms(2,3) by (intro conf_set) (auto simp: fixed_def startswith_def)
  then have fixed: "fixed ''check_mode'' (\<lambda>v. v = ''rr'') ?sp"
    using assms(2) by (simp add: fixed_def)
  have "keeps I (state_check_chain BACKENDS env do (p_get_or p ''object_type'' []) name ?sp)" for name
    unfolding state_check_chain_def ty
    by (intro keeps_lift_bind keeps_bind [OF check_states_keeps] keeps_pure assms(1)
        fixed_chain_params [OF fixed]) simp_all
  then show ?thesis
    unfolding prepare_state_def Let_def
    by (auto intro!: keeps_intros split: prod.split)
qed

text \<open>What \<open>prepare_state\<close> hands to the policy decision.\<close>

lemma prepare_state_result:
  assumes "prepare_state BACKENDS env do dm p w = (Inr (Some (ex, sp, B, obj, a, b)), w')"
  shows "\<exists>name. chain_params do (p_get_or p ''object_type'' []) name
      (p_set (do @ ''_mode'') (p_get_or p (do @ ''_mode'') dm) p) = Inr sp"
    and "find_backend BACKENDS sp = Inr B"
    and "index_nth (p_get_or sp (do @ ''_mode'') []) 0 = Inr a"
    and "index_nth (p_get_or sp (do @ ''_mode'') []) 1 = Inr b"
proof -
  have "(\<exists>name. chain_params do (p_get_or p ''object_type'' []) name
      (p_set (do @ ''_mode'') (p_get_or p (do @ ''_mode'') dm) p) = Inr sp)
    \<and> find_backend BACKENDS sp = Inr B \<and> index_nth (p_get_or sp (do @ ''_mode'') []) 0 = Inr a
    \<and> index_nth (p_get_or sp (do @ ''_mode'') []) 1 = Inr b"
    using assms unfolding prepare_state_def state_check_chain_def Let_def bindM_eq_Inr io_eq_Inr
    by (elim exE conjE) (auto simp: bindM_eq_Inr io_eq_Inr split: if_splits)
  then show "\<exists>name. chain_params do (p_get_or p ''object_type'' []) name
      (p_set (do @ ''_mode'') (p_get_or p (do @ ''_mode'') dm) p) = Inr sp"
    and "find_backend BACKENDS sp = Inr B"
    and "index_nth (p_get_or sp (do @ ''_mode'') []) 0 = Inr a"
    and "index_nth (p_get_or sp (do @ ''_mode'') []) 1 = Inr b" by blast+
qed

lemma prepare_state_letter:
  assumes "prepare_state BACKENDS env do dm p w = (Inr (Some (ex, sp, B, obj, a, b)), w')"
    and "fixed (do @ ''_mode'') P p" and "do \<in> {''get'', ''set'', ''unset''}"
  shows "P (p_get_or sp (do @ ''_mode'') [])"
proof -
  let ?m = "do @ ''_mode''"
  let ?q = "p_set ?m (p_get_or p ?m dm) p"
  have "conf ?m P ?q"
    using assms(2,3) fixed_value [OF assms(2)]
    by (intro conf_set) (auto simp: fixed_def startswith_def)
  then have q: "fixed ?m P ?q" by (simp add: fixed_def)
  obtain name where "chain_params do (p_get_or p ''object_type'' []) name ?q = Inr sp"
    using prepare_state_result(1) [OF assms(1)] by blast
  moreover have "p_get_or p ''object_type'' [] = p_get_or ?q ''object_type'' []"
    using assms(3) by (auto simp: p_get_or_def)
  ultimately have "chain_params do (p_get_or ?q ''object_type'' []) name ?q = Inr sp" by (simp only:)
  moreover have "?m \<in> {''check_mode'', ''get_mode'', ''set_mode'', ''unset_mode''}"
    using assms(3) by (elim insertE emptyE) simp_all
  ultimately have "fixed ?m P sp" using fixed_chain_params [OF q] by blast
  then show ?thesis by (rule fixed_value)
qed

lemma keeps_bind_result:
  assumes "keeps I m" and "\<And>w x w'. m w = (Inr x, w') \<Longrightarrow> keeps I (f x)"
  shows "keeps I (bindM m f)"
proof -
  have "I (snd (bindM m f w))" if "I w" for w
  proof (cases "m w")
    case (Pair r v)
    then have "I v" using assms(1) that by (metis keepsD)
    then show ?thesis
      using Pair assms(2) [of w _ v] by (cases r) (simp_all add: bindM_def keeps_def)
  qed
  then show ?thesis by (simp add: keeps_def)
qed

lemma readersD:
  assumes "readers_keep I BACKENDS" and "find_backend BACKENDS q = Inr B"
  shows "keeps I (b_show B p obj)" "keeps I (b_check_root B p obj)" "keeps I (b_get_root B p obj)"
  using assms(1) find_backend_Inr [OF assms(2)] unfolding readers_keep_def by blast+

lemma states_keep:
  assumes "\<And>q. Inr q \<in> set (parametric_object_iteration [] p) \<Longrightarrow> keeps I (f q)"
  shows "keeps I (forM (\<lambda>item. bindM (liftM item) f) (parametric_object_iteration [] p))"
  by (rule keeps_forM, rule keeps_lift_bind) (use assms in auto)

text \<open>The policy decision, with the two letters of the mode it is taken on.\<close>

lemma prepared_keeps:
  assumes "readers_keep I BACKENDS" and "fixed ''check_mode'' (\<lambda>v. v = ''rr'') p"
    and "fixed (do @ ''_mode'') P p" and "do \<in> {''get'', ''set'', ''unset''}"
    and "keeps I (f None)"
    and some: "\<And>ex sp B obj a b c cs. find_backend BACKENDS sp = Inr B \<Longrightarrow> P (a # b # cs) \<Longrightarrow>
      keeps I (f (Some (ex, sp, B, obj, a, b)))"
  shows "keeps I (bindM (prepare_state BACKENDS env do dm p) f)"
proof (rule keeps_bind_result [OF prepare_state_keeps [OF assms(1,2,4)]])
  fix w prep w'
  assume run: "prepare_state BACKENDS env do dm p w = (Inr prep, w')"
  show "keeps I (f prep)"
  proof (cases prep)
    case (Some t)
    obtain ex sp B obj a b where t: "t = (ex, sp, B, obj, a, b)" by (cases t)
    note r = run [unfolded Some t]
    obtain cs where "p_get_or sp (do @ ''_mode'') [] = a # b # cs"
      using prepare_state_result(3,4) [OF r]
      by (cases "p_get_or sp (do @ ''_mode'') []"; cases "tl (p_get_or sp (do @ ''_mode'') [])") auto
    then show ?thesis
      using prepare_state_letter [OF r assms(3,4)] some [OF prepare_state_result(2) [OF r]]
      by (simp add: Some t)
  qed (simp add: assms(5))
qed

text \<open>A passive policy of each operation runs no operation that changes a state.\<close>

definition passive_get :: "string \<Rightarrow> bool" where
  "passive_get v \<longleftrightarrow> (case v of a # _ \<Rightarrow> a \<noteq> CHR ''r'' | _ \<Rightarrow> True)"

definition passive_set :: "string \<Rightarrow> bool" where
  "passive_set v \<longleftrightarrow> (case v of a # b # _ \<Rightarrow> a \<noteq> CHR ''f'' \<and> b \<noteq> CHR ''f'' | _ \<Rightarrow> True)"

definition passive_unset :: "string \<Rightarrow> bool" where
  "passive_unset v \<longleftrightarrow> (case v of a # _ \<Rightarrow> a \<noteq> CHR ''f'' | _ \<Rightarrow> True)"

lemma state_of_passive:
  assumes "readers_keep I BACKENDS" and "fixed ''check_mode'' (\<lambda>v. v = ''rr'') p"
  shows "fixed ''get_mode'' passive_get p \<Longrightarrow> keeps I (get_state_of BACKENDS env p)"
    and "fixed ''set_mode'' passive_set p \<Longrightarrow> keeps I (set_state_of BACKENDS env p)"
    and "fixed ''unset_mode'' passive_unset p \<Longrightarrow> keeps I (unset_state_of BACKENDS env p)"
proof -
  note prepared = prepared_keeps [OF assms]
  show "keeps I (get_state_of BACKENDS env p)" if "fixed ''get_mode'' passive_get p"
    unfolding get_state_of_def
    by (rule prepared [where P = passive_get])
      (use that in \<open>auto simp: Let_def passive_get_def intro!: keeps_intros\<close>)
  show "keeps I (set_state_of BACKENDS env p)" if "fixed ''set_mode'' passive_set p"
    unfolding set_state_of_def
    by (rule prepared [where P = passive_set])
      (use that in \<open>auto simp: Let_def passive_set_def intro!: keeps_intros\<close>)
  show "keeps I (unset_state_of BACKENDS env p)" if "fixed ''unset_mode'' passive_unset p"
    unfolding unset_state_of_def
    by (rule prepared [where P = passive_unset])
      (use that in \<open>auto simp: Let_def passive_unset_def intro!: keeps_intros\<close>)
qed

lemma fixed_mode_iteration:
  "fixed key P p \<Longrightarrow> Inr q \<in> set (parametric_object_iteration [] p) \<Longrightarrow>
   key \<in> {''check_mode'', ''get_mode'', ''set_mode'', ''unset_mode'', ''pop_mode''} \<Longrightarrow> fixed key P q"
  by (rule fixed_iteration) (auto simp: startswith_def)

text \<open>Getting runs only the readers and the two getters of the backend.\<close>

lemma get_states_keep:
  assumes "readers_keep I BACKENDS" and "fixed ''check_mode'' (\<lambda>v. v = ''rr'') p"
    and "\<And>n B q obj. BACKENDS n = Some B \<Longrightarrow> keeps I (b_get B q obj)"
  shows "keeps I (get_states BACKENDS env p)"
  unfolding get_states_def
proof (rule states_keep)
  fix q assume q: "Inr q \<in> set (parametric_object_iteration [] p)"
  have get: "keeps I (b_get B r obj)" if "find_backend BACKENDS s = Inr B" for B r s obj
    using find_backend_Inr [OF that] assms(3) by blast
  have "fixed ''check_mode'' (\<lambda>v. v = ''rr'') q"
    by (rule fixed_mode_iteration [OF assms(2) q]) simp
  then show "keeps I (get_state_of BACKENDS env q)"
    unfolding get_state_of_def
    by (intro keeps_bind_result [OF prepare_state_keeps [OF assms(1)]])
      (auto simp: Let_def split: option.split prod.split
        intro!: keeps_intros readersD [OF assms(1)] get dest!: prepare_state_result(2))
qed

lemma restrict_object_conf:
  assumes "restrict_object p = Inr q" and "conf s P p" and "s \<noteq> []" and "\<not> startswith ''states_chain'' s"
  shows "conf s P q \<and> (\<forall>k. dict_has p k \<longrightarrow> dict_has q k)"
proof -
  obtain name ty where ty: "map_of p ''object_type'' = Some ty"
    and q: "q = p_set ''states_chain'' (last (split_on (CHR ''/'') ty))
      (fold (\<lambda>(t, n). p_set t n) (zip (split_on (CHR ''/'') ty) (split_on (CHR ''/'') name)) p)"
    using assms(1) by (auto simp: restrict_object_def bindE_Inr_iff Let_def p_getitem_Inr)
  have types: "list_all (good_type s) (split_on (CHR ''/'') ty)"
    using conf_object_type [OF assms(2,3)] ty by (simp add: p_get_or_def)
  then have last: "good_type s (last (split_on (CHR ''/'') ty))"
    using split_on_nonempty [of "CHR ''/''" ty] by (simp add: list_all_iff)
  have "conf s P q" unfolding q
    by (rule conf_set [OF conf_restrict [OF assms(2) types]])
      (use assms(4) good_type_words [OF last] in \<open>simp_all add: startswith_def\<close>)
  moreover have "dict_has q k" if "dict_has p k" for k
    unfolding q dict_has_p_set by (intro disjI2 dict_has_restrict that)
  ultimately show ?thesis by blast
qed

lemma pop_state_of_keeps:
  assumes "readers_keep I BACKENDS" and "fixed ''check_mode'' (\<lambda>v. v = ''rr'') p"
    and "\<And>n B q obj. BACKENDS n = Some B \<Longrightarrow> keeps I (b_get B q obj)"
    and "fixed ''pop_mode'' (\<lambda>v. startswith v ''r'') p" and "conf ''unset_mode'' passive_unset p"
  shows "keeps I (pop_state_of BACKENDS env p)"
proof -
  have both: "keeps I (get_states BACKENDS env (p_set ''get_mode'' m (p_set ''get_state'' st q)))"
    "keeps I (unset_states BACKENDS env (p_set ''unset_mode'' (p_get_or q ''pop_mode'' ''fa'')
        (p_set ''unset_state'' st (p_set ''get_mode'' m (p_set ''get_state'' st q)))))"
    if q: "restrict_object p = Inr q" for q m st
  proof -
    define q2 where q2: "q2 = p_set ''get_mode'' m (p_set ''get_state'' st q)"
    have set_plain: "conf s P (p_set k v r)"
      if "conf s P r" and "s \<in> {''check_mode'', ''pop_mode'', ''unset_mode''}"
        and "k \<in> {''get_mode'', ''get_state'', ''unset_state''}" for s P k v r
      by (rule conf_set [OF that(1)]) (use that(2,3) in \<open>auto simp: startswith_def\<close>)
    have c: "conf ''check_mode'' (\<lambda>v. v = ''rr'') q \<and> dict_has q ''check_mode''"
      using restrict_object_conf [OF q, where s = "''check_mode''" and P = "\<lambda>v. v = ''rr''"] assms(2)
      by (simp add: fixed_def startswith_def)
    have m: "conf ''pop_mode'' (\<lambda>v. startswith v ''r'') q \<and> dict_has q ''pop_mode''"
      using restrict_object_conf [OF q, where s = "''pop_mode''" and P = "\<lambda>v. startswith v ''r''"] assms(4)
      by (simp add: fixed_def startswith_def)
    have u: "conf ''unset_mode'' passive_unset q"
      using restrict_object_conf [OF q, where s = "''unset_mode''" and P = passive_unset] assms(5)
      by (simp add: startswith_def)
    have c2: "fixed ''check_mode'' (\<lambda>v. v = ''rr'') q2"
      using c by (simp add: fixed_def q2 set_plain)
    then show "keeps I (get_states BACKENDS env (p_set ''get_mode'' m (p_set ''get_state'' st q)))"
      using assms(1,3) by (intro get_states_keep) (simp_all add: q2)
    have "fixed ''pop_mode'' (\<lambda>v. startswith v ''r'') q"
      using m by (simp add: fixed_def)
    then have r: "startswith (p_get_or q ''pop_mode'' ''fa'') ''r''" by (rule fixed_value)
    let ?q4 = "p_set ''unset_mode'' (p_get_or q ''pop_mode'' ''fa'') (p_set ''unset_state'' st q2)"
    have "conf ''unset_mode'' passive_unset (p_set ''unset_state'' st q2)"
      using u by (simp add: q2 set_plain)
    then have "conf ''unset_mode'' passive_unset ?q4"
      by (rule conf_set) (use r in \<open>auto simp: startswith_def passive_unset_def split: list.splits\<close>)
    then have u4: "fixed ''unset_mode'' passive_unset ?q4" by (simp add: fixed_def)
    have "conf ''check_mode'' (\<lambda>v. v = ''rr'') (p_set ''unset_state'' st q2)"
      using c2 by (simp add: fixed_def set_plain)
    then have "conf ''check_mode'' (\<lambda>v. v = ''rr'') ?q4"
      by (rule conf_set) (simp_all add: startswith_def)
    then have c4: "fixed ''check_mode'' (\<lambda>v. v = ''rr'') ?q4"
      using c2 by (simp add: fixed_def)
    show "keeps I (unset_states BACKENDS env (p_set ''unset_mode'' (p_get_or q ''pop_mode'' ''fa'')
        (p_set ''unset_state'' st (p_set ''get_mode'' m (p_set ''get_state'' st q)))))"
      unfolding unset_states_def q2 [symmetric]
      by (rule states_keep, rule state_of_passive(3) [OF assms(1)];
          rule fixed_mode_iteration [OF c4] fixed_mode_iteration [OF u4]; simp)
  qed
  show ?thesis
    unfolding pop_state_of_def Let_def
    by (auto intro!: keeps_intros both)
qed

section \<open>The shape of the iteration\<close>

text \<open>A chain that no object overrides.\<close>

definition chain_fixed :: "string list \<Rightarrow> params \<Rightarrow> bool" where
  "chain_fixed chain p \<longleftrightarrow> conf ''states_chain'' (\<lambda>v. v = join '' '' chain) p
     \<and> dict_has p ''states_chain'' \<and> list_all (\<lambda>t. t \<noteq> []) chain \<and> distinct chain
     \<and> list_all (good_type ''states_chain'') chain"

lemma chain_fixed_objects: "chain_fixed chain p \<Longrightarrow> objects p ''states_chain'' = chain"
proof -
  assume c: "chain_fixed chain p"
  then have "p_get_or p ''states_chain'' [] = join '' '' chain"
    using fixed_value [of "''states_chain''" "\<lambda>v. v = join '' '' chain" p]
    by (simp add: chain_fixed_def fixed_def)
  moreover have "split_ws (join '' '' chain) = chain"
    using c by (intro split_ws_join) (auto simp: chain_fixed_def good_type_def list_all_iff)
  ultimately show ?thesis using c by (simp add: objects_dedup dedup_distinct chain_fixed_def)
qed

lemma chain_fixed_iter_obj_params:
  assumes "chain_fixed chain p" and "length comps < length chain" and "map snd comps = take (length comps) chain"
  shows "chain_fixed chain (iter_obj_params p (comps @ [(n, chain ! length comps)]) (chain ! length comps) n)"
proof -
  have good: "list_all (good_type ''states_chain'') (map snd (comps @ [(n, chain ! length comps)]))"
    using assms by (auto simp: chain_fixed_def list_all_iff dest: in_set_takeD)
  have "conf ''states_chain'' (\<lambda>v. v = join '' '' chain)
      (iter_obj_params p (comps @ [(n, chain ! length comps)]) (chain ! length comps) n)"
    using assms(1,2) good
    by (intro conf_iter_obj_params) (auto simp: chain_fixed_def startswith_def list_all_iff)
  then show ?thesis
    using assms(1) by (simp add: chain_fixed_def iter_obj_params_def dict_has_object_params)
qed

text \<open>
  The objects in the order of the code, with a plain chain: the components of an object, one
  level down, before the object itself.
\<close>

lemma iteration_no_error:
  assumes "chain_fixed chain p" and "length comps < length chain"
    and "map snd comps = take (length comps) chain"
    and "item \<in> set (parametric_object_iteration comps p)"
  shows "\<exists>q i name. item = Inr (object_params q (chain ! i)) \<and> length comps \<le> i \<and> i < length chain
    \<and> p_get q ''object_type'' = Some (join ''/'' (take (Suc i) chain))
    \<and> p_get q (chain ! i) = Some name"
  using assms
proof (induction comps p rule: parametric_object_iteration.induct)
  case (1 comps p)
  note chain = chain_fixed_objects [OF "1.prems"(1)]
  let ?ty = "chain ! length comps"
  have ne: "objects p ''states_chain'' \<noteq> []" "\<not> length (objects p ''states_chain'') \<le> length comps"
    using "1.prems"(2) chain by auto
  obtain n where n: "n \<in> set (objects p ?ty)" and
    "(?ty \<noteq> last chain \<and> item \<in> set (parametric_object_iteration (comps @ [(n, ?ty)])
        (iter_obj_params p (comps @ [(n, ?ty)]) ?ty n)))
     \<or> item = Inr (object_params (iter_obj_params p (comps @ [(n, ?ty)]) ?ty n) ?ty)"
    using "1.prems"(4) ne chain
    by (subst (asm) parametric_object_iteration.simps) (auto simp: Let_def split: if_splits)
  then consider
    (down) "?ty \<noteq> last chain" "item \<in> set (parametric_object_iteration (comps @ [(n, ?ty)])
        (iter_obj_params p (comps @ [(n, ?ty)]) ?ty n))"
  | (here) "item = Inr (object_params (iter_obj_params p (comps @ [(n, ?ty)]) ?ty n) ?ty)" by blast
  then show ?case
  proof cases
    case down
    have len: "length (comps @ [(n, ?ty)]) < length chain"
      using down(1) "1.prems"(2) by (cases chain rule: rev_cases) (auto simp: nth_append split: if_splits)
    have "\<exists>q i name. item = Inr (object_params q (chain ! i)) \<and> length (comps @ [(n, ?ty)]) \<le> i
        \<and> i < length chain \<and> p_get q ''object_type'' = Some (join ''/'' (take (Suc i) chain))
        \<and> p_get q (chain ! i) = Some name"
      by (rule "1.IH" [OF refl ne(1) _ _ n refl refl _ _ len])
        (use ne chain down "1.prems" chain_fixed_iter_obj_params [OF "1.prems"(1-3)] in
          \<open>simp_all add: take_Suc_conv_app_nth\<close>)
    then show ?thesis by (auto intro: Suc_leD)
  next
    case here
    have "map snd (comps @ [(n, ?ty)]) = take (Suc (length comps)) chain"
      using "1.prems"(2,3) by (simp add: take_Suc_conv_app_nth)
    then have "p_get (iter_obj_params p (comps @ [(n, ?ty)]) ?ty n) ''object_type''
        = Some (join ''/'' (take (Suc (length comps)) chain))"
      by (simp add: iter_obj_params_def)
    moreover have "\<exists>name. p_get (iter_obj_params p (comps @ [(n, ?ty)]) ?ty n) ?ty = Some name"
      by (auto simp: iter_obj_params_def)
    ultimately show ?thesis using "1.prems"(2) here by blast
  qed
qed

section \<open>Properties\<close>

text \<open>
  A backend whose world is the list of its state names, for the examples: a root is present
  when it is listed as \<open>root\<close>.
\<close>

definition memory_backend :: "string list backend" where
  "memory_backend = StateBackend\<lparr>
     b_show := (\<lambda>params obj w. (Inr (w, params), w)),
     b_get := (\<lambda>params obj w. (Inr params, w)),
     b_set := (\<lambda>params obj w. (Inr params, p_get_or params ''set_state'' [] # w)),
     b_unset := (\<lambda>params obj w. (Inr params, filter (\<lambda>s. s \<noteq> p_get_or params ''unset_state'' []) w)),
     b_check_root := (\<lambda>params obj w. (Inr (''root'' \<in> set w, params), w))\<rparr>"

definition example_params :: "params" where
  "example_params = [(''states_chain'', ''nets vms images''), (''nets'', ''net1''), (''vms'', ''vm1''),
     (''images'', ''image1''), (''states'', ''mem''), (''check_mode'', ''rr''),
     (''get_state_images'', ''launch'')]"

lemma memory_readers: "readers_keep I (\<lambda>n. Some memory_backend)"
  by (simp add: readers_keep_def memory_backend_def StateBackend_def keeps_def io_run)

text \<open>
  C1: A policy that asks for nothing changes nothing. With the check policy \<open>rr\<close>
  (never create or remove a root), \<open>get_states\<close> with a first letter other than
  \<open>r\<close>, \<open>set_states\<close> without a letter \<open>f\<close> and \<open>unset_states\<close> without a first
  letter \<open>f\<close> run, over the whole hierarchy of objects, only the reading operations of the
  backends: every property of the world that these keep is kept, whatever is raised.
\<close>

theorem passive_policies:
  assumes "readers_keep I BACKENDS" and "fixed ''check_mode'' (\<lambda>v. v = ''rr'') p"
  shows "(fixed ''get_mode'' passive_get p \<longrightarrow> keeps I (get_states BACKENDS env p))
    \<and> (fixed ''set_mode'' passive_set p \<longrightarrow> keeps I (set_states BACKENDS env p))
    \<and> (fixed ''unset_mode'' passive_unset p \<longrightarrow> keeps I (unset_states BACKENDS env p))"
proof (intro conjI impI)
  have c: "fixed ''check_mode'' (\<lambda>v. v = ''rr'') q" if "Inr q \<in> set (parametric_object_iteration [] p)" for q
    by (rule fixed_mode_iteration [OF assms(2) that]) simp
  note quiet = state_of_passive [OF assms(1) c]
  show "keeps I (get_states BACKENDS env p)" if "fixed ''get_mode'' passive_get p"
    unfolding get_states_def
    by (rule states_keep, rule quiet(1), assumption, rule fixed_mode_iteration [OF that]) simp_all
  show "keeps I (set_states BACKENDS env p)" if "fixed ''set_mode'' passive_set p"
    unfolding set_states_def
    by (rule states_keep, rule quiet(2), assumption, rule fixed_mode_iteration [OF that]) simp_all
  show "keeps I (unset_states BACKENDS env p)" if "fixed ''unset_mode'' passive_unset p"
    unfolding unset_states_def
    by (rule states_keep, rule quiet(3), assumption, rule fixed_mode_iteration [OF that]) simp_all
qed

lemma passive_policies_witness:
  "keeps (\<lambda>w. w = [''root'', ''launch''])
     (set_states (\<lambda>n. Some memory_backend) None
       (p_set ''set_state_images'' ''launch'' (p_set ''set_mode'' ''ra'' example_params)))"
proof -
  let ?p = "p_set ''set_state_images'' ''launch'' (p_set ''set_mode'' ''ra'' example_params)"
  have "fixed ''check_mode'' (\<lambda>v. v = ''rr'') ?p" "fixed ''set_mode'' passive_set ?p"
    by code_simp+
  then show ?thesis
    using passive_policies [OF memory_readers, of ?p "\<lambda>w. w = [''root'', ''launch'']" None] by simp
qed






text \<open>One image whose missing state \<open>launch\<close> is to be retrieved, as the iteration yields it.\<close>

definition example_item :: "params" where
  "example_item = [(''states_chain'', ''images''), (''images'', ''image1''), (''states'', ''mem''),
     (''check_mode'', ''rr''), (''get_state'', ''launch''), (''object_name'', ''image1''),
     (''object_type'', ''images'')]"

definition example_checked :: "params" where
  "example_checked = example_item @ [(''get_mode'', ''ra''), (''check_state'', ''launch''),
     (''check_opts'', ''soft_boot=no''), (''soft_boot'', ''no'')]"

lemma example_iteration: "parametric_object_iteration [] example_checked = [Inr example_checked]"
proof -
  have "objects example_checked ''states_chain'' = [''images'']"
    "objects example_checked ''images'' = [''image1'']"
    "object_params (iter_obj_params example_checked [(''image1'', ''images'')] ''images'' ''image1'') ''images''
      = example_checked" by code_simp+
  then show ?thesis
    by (subst parametric_object_iteration.simps) (simp add: Let_def)
qed

lemma example_chain:
  "chain_params ''get'' ''images'' ''image1'' (p_set ''get_mode'' ''ra'' example_item) = Inr example_checked"
  by code_simp

lemma example_check:
  "check_state_of (\<lambda>n. Some memory_backend) None example_checked [''root''] = (Inr (Some False), [''root''])"
  by code_simp

lemma example_prepare:
  "prepare_state (\<lambda>n. Some memory_backend) None ''get'' ''ra'' example_item [''root''] =
     (Inr (Some (False, example_checked, memory_backend, ObjNone, CHR ''r'', CHR ''a'')), [''root''])"
proof -
  have facts: "skip_object example_item = Inr False" "p_true example_item ''get_state''"
    "p_get_or example_item ''get_mode'' ''ra'' = ''ra''" "p_get_or example_item ''object_type'' [] = ''images''"
    "p_get_or example_item ''object_name'' [] = ''image1''"
    "p_getitem example_checked ''states'' = Inr ''mem''"
    "p_get_or example_checked ''get_mode'' [] = ''ra''"
    by code_simp+
  have check: "check_states (\<lambda>n. Some memory_backend) None example_checked [''root''] = (Inr False, [''root''])"
    by (simp add: check_states_def example_iteration example_check bindM_def io_run)
  show ?thesis
    by (simp add: prepare_state_def state_check_chain_def facts example_chain check find_backend_def
        find_vm_def state_object_def bindM_def io_run Let_def)
qed


end
