(* ===== verification/PoolStates.thy ===== *)
theory PoolStates
  imports Pool StateSetup
begin

text \<open>
  Model of the state backends of \<open>virttest/states/pool.py\<close>: \<open>QCOW2ImageTransfer\<close> (states
  and their backing chains in a pool), \<open>RootSourcedStateBackend\<close> and
  \<open>SourcedStateBackend\<close> (a local backend combined with the pool sources its scope
  permits). The local half of a sourced backend (the underscored methods of the subclass) is
  the record \<open>local_ops\<close>.
\<close>

section \<open>QCOW2ImageTransfer: roots\<close>

definition qcow2_image_path :: "params \<Rightarrow> string res" where
  "qcow2_image_path params =
     bindE (p_getitem params ''vms'') (\<lambda>vm_name.
     bindE (p_getitem params ''images'') (\<lambda>_.
     bindE (p_getitem params ''vms_base_dir'') (\<lambda>base.
     bindE (p_getitem params ''image_name'') (\<lambda>image_path.
       let vm_dir = path_join base vm_name in
       case p_get params ''image_format'' of
         None \<Rightarrow> Inl ValueError
       | Some image_format \<Rightarrow>
           if image_format \<notin> set [''raw'', ''qcow2''] then Inl ValueError
           else
             let image_path = (if path_isabs image_path then image_path else path_join vm_dir image_path);
                 image_format = (if image_format = ''raw'' then [] else ''.'' @ image_format)
             in Inr (image_path @ image_format)))))"

text \<open>The names the four root operations compute first.\<close>

definition root_names :: "params \<Rightarrow> (string \<times> string \<times> string \<times> string) res" where
  "root_names params =
     bindE (p_getitem params ''vms'') (\<lambda>vm_name.
     bindE (p_getitem params ''image_name'') (\<lambda>image_name.
     bindE (qcow2_image_path params) (\<lambda>target_image.
     bindE (p_getitem params ''shared_pool'') (\<lambda>pool.
       Inr (vm_name, image_name, target_image, '':'' @ pool)))))"

definition transfer_check_root :: "'c ext \<Rightarrow> params \<Rightarrow> ('c world, bool) io" where
  "transfer_check_root x params =
     bindM (liftM (root_names params)) (\<lambda>(vm_name, image_name, target_image, shared_pool).
     bindM (ops_list_paths x (path_join shared_pool vm_name) params) (\<lambda>pool_images.
       retM (image_name @ ''.qcow2'' \<in> set pool_images)))"

definition transfer_get_root :: "'c ext \<Rightarrow> params \<Rightarrow> ('c world, unit) io" where
  "transfer_get_root x params =
     bindM (liftM (root_names params)) (\<lambda>(vm_name, image_name, target_image, shared_pool).
       ops_download x target_image
         (path_join shared_pool (path_join vm_name (basename target_image))) params)"

definition transfer_set_root :: "'c ext \<Rightarrow> params \<Rightarrow> ('c world, unit) io" where
  "transfer_set_root x params =
     bindM (liftM (root_names params)) (\<lambda>(vm_name, image_name, target_image, shared_pool).
       ops_upload x target_image
         (path_join shared_pool (path_join vm_name (basename target_image))) params)"

definition transfer_unset_root :: "'c ext \<Rightarrow> params \<Rightarrow> ('c world, unit) io" where
  "transfer_unset_root x params =
     bindM (liftM (root_names params)) (\<lambda>(vm_name, image_name, target_image, shared_pool).
       ops_delete x (path_join shared_pool (path_join vm_name (basename target_image))) params)"

section \<open>QCOW2ImageTransfer: backing chains\<close>

text \<open>
  The backing state of a state and the parameters that are left changed. The query of
  \<open>qemu-img info\<close> for the backing file name is \<open>x_backing\<close>.
\<close>

definition get_dependency :: "'c ext \<Rightarrow> string \<Rightarrow> params \<Rightarrow> ('c world, string \<times> params) io" where
  "get_dependency x state params =
     bindM (liftM (p_getitem params ''object_id'')) (\<lambda>vm_id.
     bindM (liftM (p_getitem params ''images'')) (\<lambda>image_name.
     bindM (liftM (p_getitem params ''swarm_pool'')) (\<lambda>pool.
       let vm_dir = path_join pool vm_id;
           params = p_set ''image_format_snapshot'' ''qcow2''
             (p_set ''image_name_snapshot'' (path_join image_name state)
               (p_set ''image_chain'' (''snapshot '' @ image_name) params))
       in bindM (x_backing x (object_params params ''snapshot'') vm_dir) (\<lambda>image_file.
            retM (basename (replace_all ''.qcow2'' [] image_file), params)))))"

definition state_path :: "string \<Rightarrow> string \<Rightarrow> string \<Rightarrow> string \<Rightarrow> string" where
  "state_path pool_dir vm_id image_name state =
     path_join (path_join (path_join pool_dir vm_id) image_name) (state @ ''.qcow2'')"

definition vm_state_path :: "string \<Rightarrow> string \<Rightarrow> string \<Rightarrow> string" where
  "vm_state_path pool_dir vm_id state = path_join (path_join pool_dir vm_id) (state @ ''.state'')"

definition is_vm_type :: "params \<Rightarrow> bool res" where
  "is_vm_type params = bindE (p_getitem params ''object_type'') (\<lambda>t.
     Inr (t \<in> set [''vms'', ''nets/vms'']))"

text \<open>The images of one link of the chain, compared until a different one is found.\<close>

primrec compare_images ::
    "'c ext \<Rightarrow> string \<Rightarrow> string \<Rightarrow> string \<Rightarrow> string \<Rightarrow> params \<Rightarrow> string list \<Rightarrow> ('c world, bool) io" where
  "compare_images x next_state cache_dir pool_dir vm_id params [] = retM True"
| "compare_images x next_state cache_dir pool_dir vm_id params (image_name # names) =
     bindM (ops_compare x (state_path cache_dir vm_id image_name next_state)
              (state_path pool_dir vm_id image_name next_state) (object_params params image_name))
       (\<lambda>same. if \<not> same then retM False
               else compare_images x next_state cache_dir pool_dir vm_id params names)"

fun compare_loop ::
    "nat \<Rightarrow> 'c ext \<Rightarrow> string \<Rightarrow> string \<Rightarrow> string \<Rightarrow> string \<Rightarrow> string \<Rightarrow> params \<Rightarrow> ('c world, bool \<times> params) io" where
  "compare_loop 0 x state next_state cache_dir pool_dir vm_id params =
     (if next_state = [] then retM (True, params) else raiseM OutOfFuel)"
| "compare_loop (Suc fuel) x state next_state cache_dir pool_dir vm_id params =
     (if next_state = [] then retM (True, params)
      else
        bindM (compare_images x next_state cache_dir pool_dir vm_id params (objects params ''images''))
          (\<lambda>same. if \<not> same then retM (False, params)
        else bindM (if next_state = state then liftM (is_vm_type params) else retM False) (\<lambda>vm_type.
             bindM (if vm_type
                    then ops_compare x (vm_state_path cache_dir vm_id next_state)
                           (vm_state_path pool_dir vm_id next_state) params
                    else retM True) (\<lambda>same.
             if \<not> same then retM (False, params)
             else bindM (get_dependency x next_state params) (\<lambda>(next_state, params).
               compare_loop fuel x state next_state cache_dir pool_dir vm_id params)))))"

definition compare_chain ::
    "nat \<Rightarrow> 'c ext \<Rightarrow> string \<Rightarrow> string \<Rightarrow> string \<Rightarrow> params \<Rightarrow> ('c world, bool \<times> params) io" where
  "compare_chain fuel x state cache_dir pool_dir params =
     bindM (liftM (p_getitem params ''object_id'')) (\<lambda>vm_id.
       compare_loop fuel x state state cache_dir pool_dir vm_id params)"

definition transfer_op ::
    "bool \<Rightarrow> 'c ext \<Rightarrow> string \<Rightarrow> string \<Rightarrow> params \<Rightarrow> ('c world, unit) io" where
  "transfer_op down x = (if down then ops_download x else ops_upload x)"

fun transfer_loop ::
    "nat \<Rightarrow> 'c ext \<Rightarrow> string \<Rightarrow> string \<Rightarrow> string \<Rightarrow> string \<Rightarrow> string \<Rightarrow> params \<Rightarrow> bool \<Rightarrow> ('c world, params) io" where
  "transfer_loop 0 x state next_state cache_dir pool_dir vm_id params down =
     (if next_state = [] then retM params else raiseM OutOfFuel)"
| "transfer_loop (Suc fuel) x state next_state cache_dir pool_dir vm_id params down =
     (if next_state = [] then retM params
      else
        thenM (forM (\<lambda>image_name.
                 transfer_op down x (state_path cache_dir vm_id image_name next_state)
                   (state_path pool_dir vm_id image_name next_state) (object_params params image_name))
                (objects params ''images''))
        (bindM (if next_state = state then liftM (is_vm_type params) else retM False) (\<lambda>vm_type.
         thenM (if vm_type
                then transfer_op down x (vm_state_path cache_dir vm_id next_state)
                       (vm_state_path pool_dir vm_id next_state) params
                else retM ())
         (bindM (get_dependency x next_state params) (\<lambda>(next_state, params).
            transfer_loop fuel x state next_state cache_dir pool_dir vm_id params down)))))"

definition transfer_chain ::
    "nat \<Rightarrow> 'c ext \<Rightarrow> string \<Rightarrow> string \<Rightarrow> string \<Rightarrow> params \<Rightarrow> bool \<Rightarrow> ('c world, params) io" where
  "transfer_chain fuel x state cache_dir pool_dir params down =
     bindM (liftM (p_getitem params ''object_id'')) (\<lambda>vm_id.
       transfer_loop fuel x state state cache_dir pool_dir vm_id params down)"

section \<open>QCOW2ImageTransfer: states\<close>

definition is_image_type :: "params \<Rightarrow> bool res" where
  "is_image_type params = bindE (p_getitem params ''object_type'') (\<lambda>t.
     Inr (t \<in> set [''images'', ''nets/vms/images'']))"

definition transfer_show :: "'c ext \<Rightarrow> params \<Rightarrow> ('c world, string list) io" where
  "transfer_show x params =
     bindM (liftM (p_getitem params ''object_id'')) (\<lambda>vm_id.
     bindM (liftM (p_getitem params ''vms'')) (\<lambda>vm_name.
     bindM (liftM (is_image_type params)) (\<lambda>image_type.
     bindM (if image_type then liftM (p_getitem params ''images'') else retM []) (\<lambda>image_name.
     bindM (liftM (p_getitem params ''show_location'')) (\<lambda>pool_dir.
       let state_tag = (if image_type then vm_name @ ''/'' @ image_name else vm_name);
           ending = (if image_type then ''.qcow2'' else ''.state'');
           path = path_join pool_dir (replace_all vm_name vm_id state_tag)
       in bindM (ops_list_paths x path params) (\<lambda>states.
            retM (map (replace_all ending []) states)))))))"

definition transfer_get :: "nat \<Rightarrow> 'c ext \<Rightarrow> params \<Rightarrow> ('c world, params) io" where
  "transfer_get fuel x params =
     bindM (liftM (p_getitem params ''swarm_pool'')) (\<lambda>cache_dir.
     bindM (liftM (p_getitem params ''get_location'')) (\<lambda>pool_dir.
     bindM (liftM (p_getitem params ''vms'')) (\<lambda>vm_name.
     bindM (liftM (is_image_type params)) (\<lambda>image_type.
     bindM (if image_type then liftM (p_getitem params ''images'') else retM []) (\<lambda>_.
     bindM (liftM (p_getitem params ''get_state'')) (\<lambda>state.
       transfer_chain fuel x state cache_dir pool_dir params True))))))"

definition transfer_set :: "nat \<Rightarrow> 'c ext \<Rightarrow> params \<Rightarrow> ('c world, params) io" where
  "transfer_set fuel x params =
     bindM (liftM (p_getitem params ''swarm_pool'')) (\<lambda>cache_dir.
     bindM (liftM (p_getitem params ''set_location'')) (\<lambda>pool_dir.
     bindM (liftM (p_getitem params ''vms'')) (\<lambda>vm_name.
     bindM (liftM (is_image_type params)) (\<lambda>image_type.
     bindM (if image_type then liftM (p_getitem params ''images'') else retM []) (\<lambda>_.
     bindM (liftM (p_getitem params ''set_state'')) (\<lambda>state.
       transfer_chain fuel x state cache_dir pool_dir params False))))))"

definition transfer_unset :: "'c ext \<Rightarrow> params \<Rightarrow> ('c world, unit) io" where
  "transfer_unset x params =
     bindM (liftM (p_getitem params ''unset_location'')) (\<lambda>pool_dir.
     bindM (liftM (p_getitem params ''object_id'')) (\<lambda>vm_id.
     bindM (liftM (p_getitem params ''vms'')) (\<lambda>vm_name.
     bindM (liftM (is_image_type params)) (\<lambda>image_type.
     bindM (if image_type then liftM (p_getitem params ''images'') else retM []) (\<lambda>_.
     bindM (liftM (p_getitem params ''unset_state'')) (\<lambda>state.
       thenM (forM (\<lambda>image_name.
                ops_delete x (state_path pool_dir vm_id image_name state) (object_params params image_name))
               (objects params ''images''))
       (bindM (liftM (is_vm_type params)) (\<lambda>vm_type.
          if vm_type then ops_delete x (vm_state_path pool_dir vm_id state) params else retM ()))))))))"

text \<open>The class as a backend: only its chain transfers write into the parameters.\<close>

definition keep_params :: "params \<Rightarrow> ('w, 'a) io \<Rightarrow> ('w, 'a \<times> params) io" where
  "keep_params params m = bindM m (\<lambda>r. retM (r, params))"

definition done_params :: "params \<Rightarrow> ('w, unit) io \<Rightarrow> ('w, params) io" where
  "done_params params m = bindM m (\<lambda>_. retM params)"

definition QCOW2ImageTransfer :: "nat \<Rightarrow> 'c ext \<Rightarrow> 'c world backend" where
  "QCOW2ImageTransfer fuel x = \<lparr>
     b_show = (\<lambda>params object. keep_params params (transfer_show x params)),
     b_get = (\<lambda>params object. transfer_get fuel x params),
     b_set = (\<lambda>params object. transfer_set fuel x params),
     b_unset = (\<lambda>params object. done_params params (transfer_unset x params)),
     b_check_root = (\<lambda>params object. keep_params params (transfer_check_root x params)),
     b_get_root = (\<lambda>params object. done_params params (transfer_get_root x params)),
     b_set_root = (\<lambda>params object. done_params params (transfer_set_root x params)),
     b_unset_root = (\<lambda>params object. done_params params (transfer_unset_root x params)),
     b_sourced = False\<rparr>"

section \<open>Sourced root states\<close>

record 'w local_ops =
  l_show :: "params \<Rightarrow> sobj \<Rightarrow> ('w, string list \<times> params) io"
  l_get :: "params \<Rightarrow> sobj \<Rightarrow> ('w, params) io"
  l_set :: "params \<Rightarrow> sobj \<Rightarrow> ('w, params) io"
  l_unset :: "params \<Rightarrow> sobj \<Rightarrow> ('w, params) io"
  l_check_root :: "params \<Rightarrow> sobj \<Rightarrow> ('w, bool \<times> params) io"
  l_get_root :: "params \<Rightarrow> sobj \<Rightarrow> ('w, params) io"
  l_set_root :: "params \<Rightarrow> sobj \<Rightarrow> ('w, params) io"
  l_unset_root :: "params \<Rightarrow> sobj \<Rightarrow> ('w, params) io"

definition rooted_check ::
    "'c ext \<Rightarrow> 'c world local_ops \<Rightarrow> params \<Rightarrow> sobj \<Rightarrow> ('c world, bool \<times> params) io" where
  "rooted_check x L params object =
     bindM (l_check_root L params object) (\<lambda>(local_root_exists, params).
     bindM (liftM (p_getitem params ''pool_scope'')) (\<lambda>scope.
       if scope = ''own'' then retM (local_root_exists, params)
       else bindM (transfer_check_root x params) (\<lambda>pool_root_exists.
            bindM (if \<not> local_root_exists \<and> pool_root_exists
                   then bindM (liftM (is_vm_type params)) (\<lambda>v. retM (\<not> v))
                   else retM local_root_exists)
              (\<lambda>r. retM (r, params)))))"

text \<open>Whether all cached images of the object are the ones of the shared pool.\<close>

primrec root_cache_valid ::
    "'c ext \<Rightarrow> params \<Rightarrow> string \<Rightarrow> string list \<Rightarrow> ('c world, bool) io" where
  "root_cache_valid x params vm_name [] = retM True"
| "root_cache_valid x params vm_name (image_name # names) =
     (let image_params = object_params params image_name in
      bindM (liftM (p_getitem image_params ''image_name'')) (\<lambda>image_filename.
      bindM (liftM (p_getitem image_params ''vms_base_dir'')) (\<lambda>base.
        let cache_path = path_join (path_join base vm_name) (image_filename @ ''.qcow2'');
            pool_path = path_join (path_join (p_get_or image_params ''shared_pool'' []) vm_name)
                          (image_filename @ ''.qcow2'')
        in bindM (ops_compare x cache_path ('':'' @ pool_path) image_params) (\<lambda>same.
             if same then root_cache_valid x params vm_name names else retM False))))"

definition rooted_get ::
    "'c ext \<Rightarrow> 'c world local_ops \<Rightarrow> params \<Rightarrow> sobj \<Rightarrow> ('c world, params) io" where
  "rooted_get x L params object =
     bindM (liftM (p_getitem params ''pool_scope'')) (\<lambda>scope.
       if \<not> str_in ''own'' scope then done_params params (transfer_get_root x params)
       else if scope = ''own'' then l_get_root L params object
       else
         bindM (l_check_root L params object) (\<lambda>(local_root_exists, params).
         bindM (transfer_check_root x params) (\<lambda>pool_root_exists.
         thenM
          (if pool_root_exists then
             bindM (if local_root_exists
                    then bindM (liftM (p_getitem params ''vms'')) (\<lambda>vm_name.
                           root_cache_valid x params vm_name (objects params ''images''))
                    else retM False) (\<lambda>cache_valid.
               if \<not> cache_valid then transfer_get_root x params else retM ())
           else retM ())
          (l_get_root L params object))))"

definition rooted_set ::
    "'c ext \<Rightarrow> 'c world local_ops \<Rightarrow> params \<Rightarrow> sobj \<Rightarrow> ('c world, params) io" where
  "rooted_set x L params object =
     bindM (liftM (p_getitem params ''pool_scope'')) (\<lambda>scope.
       if scope = ''own'' then l_set_root L params object
       else if scope = ''shared'' then
         bindM (l_check_root L params object) (\<lambda>(local_root_exists, params).
           if \<not> local_root_exists then raiseM RuntimeError
           else done_params params (transfer_set_root x params))
       else raiseM RuntimeError)"

definition rooted_unset ::
    "'c ext \<Rightarrow> 'c world local_ops \<Rightarrow> params \<Rightarrow> sobj \<Rightarrow> ('c world, params) io" where
  "rooted_unset x L params object =
     bindM (liftM (p_getitem params ''pool_scope'')) (\<lambda>scope.
       if scope = ''own'' then l_unset_root L params object
       else if scope = ''shared'' then done_params params (transfer_unset_root x params)
       else raiseM RuntimeError)"

section \<open>Sourced states: sources and their scope\<close>

definition source_params :: "string \<Rightarrow> params \<Rightarrow> params" where
  "source_params source_net params = (if source_net \<noteq> [] then object_params params source_net else params)"

definition proximity :: "params \<Rightarrow> string \<Rightarrow> nat res" where
  "proximity params source =
     bindE (split_pool source) (\<lambda>(source_net, source_path).
     let sp = source_params source_net params in
     bindE (p_getitem params ''nets_gateway'') (\<lambda>g.
     bindE (p_getitem sp ''nets_gateway'') (\<lambda>sg.
     bindE (p_getitem params ''nets_host'') (\<lambda>h.
     bindE (p_getitem sp ''nets_host'') (\<lambda>sh.
     bindE (p_getitem params ''swarm_pool'') (\<lambda>pool.
       Inr ((if g = sg then 1000 else 0) + (if h = sh then 100 else 0)
            + (if pool = source_path then 10 else 1))))))))"

primrec proximities :: "params \<Rightarrow> string list \<Rightarrow> (nat \<times> string) list res" where
  "proximities params [] = Inr []"
| "proximities params (s # ss) =
     bindE (proximity params s) (\<lambda>k. bindE (proximities params ss) (\<lambda>ks. Inr ((k, s) # ks)))"

text \<open>\<open>sorted(..., key=proximity, reverse=True)\<close>: descending and stable.\<close>

definition get_sources :: "string \<Rightarrow> params \<Rightarrow> string list res" where
  "get_sources do params =
     bindE (proximities params (objects params (do @ ''_location''))) (\<lambda>ks.
       Inr (map snd (sort_key (\<lambda>(k, s). - int k) ks)))"

definition get_source_scope :: "string \<Rightarrow> params \<Rightarrow> params \<Rightarrow> string res" where
  "get_source_scope source_path sp own =
     bindE (p_getitem own ''nets_gateway'') (\<lambda>g.
     bindE (p_getitem sp ''nets_gateway'') (\<lambda>sg.
       if g \<noteq> sg then Inr ''cluster''
       else
         bindE (p_getitem own ''nets_host'') (\<lambda>h.
         bindE (p_getitem sp ''nets_host'') (\<lambda>sh.
           if h \<noteq> sh then Inr ''swarm''
           else
             bindE (p_getitem own ''shared_pool'') (\<lambda>shared.
               if dropWhile (\<lambda>c. c = CHR '':'') shared = source_path then Inr ''shared''
               else bindE (p_getitem own ''swarm_pool'') (\<lambda>pool.
                 if pool = source_path then Inr ''own'' else Inr ''shared''))))))"

text \<open>
  The parameters of a source, and whether the scopes permit a transfer with it: the own pool
  is never a transfer source.
\<close>

definition consider_source :: "string \<Rightarrow> params \<Rightarrow> string list \<Rightarrow> string \<Rightarrow> (params \<times> bool) res" where
  "consider_source do params scopes source =
     bindE (split_pool source) (\<lambda>(source_net, source_path).
     let sp = p_set (do @ ''_location'') source (source_params source_net params) in
     bindE (get_source_scope source_path sp params) (\<lambda>source_scope.
       Inr (sp, \<not> (source_scope = ''own'' \<or> source_scope \<notin> set scopes))))"

section \<open>Sourced states: operations\<close>

text \<open>
  The sets of state names are lists without repetition; their order stands for no order of the
  code, where \<open>list(set)\<close> is only searched.
\<close>

primrec show_mirrors ::
    "'c ext \<Rightarrow> params \<Rightarrow> string list \<Rightarrow> string list \<Rightarrow> string list \<Rightarrow> ('c world, string list) io" where
  "show_mirrors x params scopes [] pool_states = retM pool_states"
| "show_mirrors x params scopes (source # sources) pool_states =
     bindM (liftM (consider_source ''show'' params scopes source)) (\<lambda>(sp, permitted).
       if \<not> permitted then show_mirrors x params scopes sources pool_states
       else bindM (transfer_show x sp) (\<lambda>mirror_states.
              show_mirrors x params scopes sources
                (if pool_states = [] then dedup mirror_states
                 else filter (\<lambda>s. s \<in> set mirror_states) pool_states)))"

definition sourced_show ::
    "'c ext \<Rightarrow> 'c world local_ops \<Rightarrow> params \<Rightarrow> sobj \<Rightarrow> ('c world, string list \<times> params) io" where
  "sourced_show x L params object =
     bindM (liftM (get_sources ''show'' params)) (\<lambda>sources.
     let scopes = get_list params ''pool_scope'' [] None in
     bindM (if ''own'' \<in> set scopes then l_show L params object else retM ([], params))
       (\<lambda>(cache_states, params).
     bindM (show_mirrors x params scopes sources []) (\<lambda>pool_states.
       retM (dedup (cache_states @ pool_states), params))))"

primrec get_from_sources ::
    "nat \<Rightarrow> 'c ext \<Rightarrow> 'c world local_ops \<Rightarrow> params \<Rightarrow> string list \<Rightarrow> sobj \<Rightarrow> string list \<Rightarrow> ('c world, params) io" where
  "get_from_sources fuel x L params scopes object [] = retM params"
| "get_from_sources fuel x L params scopes object (source # sources) =
     bindM (liftM (consider_source ''get'' params scopes source)) (\<lambda>(sp, permitted).
       if \<not> permitted then get_from_sources fuel x L params scopes object sources
       else
         let sp = p_set ''show_location'' source sp in
         bindM (liftM (p_getitem params ''get_state'')) (\<lambda>state.
         bindM (l_show L params object) (\<lambda>(local_states, params).
         bindM (transfer_show x sp) (\<lambda>pool_states.
         thenM
          (if state \<in> set pool_states then
             bindM (if state \<in> set local_states
                    then bindM (liftM (p_getitem params ''swarm_pool'')) (\<lambda>pool.
                           compare_chain fuel x state pool (p_get_or sp ''get_location'' []) sp)
                    else retM (False, sp)) (\<lambda>(cache_valid, sp).
               if \<not> cache_valid then bindM (transfer_get fuel x sp) (\<lambda>_. retM ()) else retM ())
           else retM ())
          (retM params)))))"

definition sourced_get ::
    "nat \<Rightarrow> 'c ext \<Rightarrow> 'c world local_ops \<Rightarrow> params \<Rightarrow> sobj \<Rightarrow> ('c world, params) io" where
  "sourced_get fuel x L params object =
     bindM (liftM (get_sources ''get'' params)) (\<lambda>sources.
     let scopes = get_list params ''pool_scope'' [] None in
     bindM (get_from_sources fuel x L params scopes object sources) (\<lambda>params.
       if ''own'' \<in> set scopes then l_get L params object else retM params))"

primrec set_to_sources ::
    "nat \<Rightarrow> 'c ext \<Rightarrow> params \<Rightarrow> string list \<Rightarrow> string list \<Rightarrow> ('c world, unit) io" where
  "set_to_sources fuel x params scopes [] = retM ()"
| "set_to_sources fuel x params scopes (source # sources) =
     bindM (liftM (consider_source ''set'' params scopes source)) (\<lambda>(sp, permitted).
       if \<not> permitted then set_to_sources fuel x params scopes sources
       else bindM (transfer_set fuel x sp) (\<lambda>_. set_to_sources fuel x params scopes sources))"

definition sourced_set ::
    "nat \<Rightarrow> 'c ext \<Rightarrow> 'c world local_ops \<Rightarrow> params \<Rightarrow> sobj \<Rightarrow> ('c world, params) io" where
  "sourced_set fuel x L params object =
     bindM (liftM (get_sources ''set'' params)) (\<lambda>sources.
     let scopes = get_list params ''pool_scope'' [] None in
     bindM (if ''own'' \<in> set scopes then l_set L params object
            else bindM (liftM (p_getitem params ''set_state'')) (\<lambda>state.
                 bindM (l_show L params object) (\<lambda>(local_states, params).
                   if state \<notin> set local_states then raiseM RuntimeError else retM params)))
       (\<lambda>params. done_params params (set_to_sources fuel x params scopes sources)))"

primrec unset_from_sources ::
    "'c ext \<Rightarrow> params \<Rightarrow> string list \<Rightarrow> string list \<Rightarrow> ('c world, unit) io" where
  "unset_from_sources x params scopes [] = retM ()"
| "unset_from_sources x params scopes (source # sources) =
     bindM (liftM (consider_source ''unset'' params scopes source)) (\<lambda>(sp, permitted).
       if \<not> permitted then unset_from_sources x params scopes sources
       else thenM (transfer_unset x sp) (unset_from_sources x params scopes sources))"

definition sourced_unset ::
    "'c ext \<Rightarrow> 'c world local_ops \<Rightarrow> params \<Rightarrow> sobj \<Rightarrow> ('c world, params) io" where
  "sourced_unset x L params object =
     bindM (liftM (get_sources ''unset'' params)) (\<lambda>sources.
     let scopes = get_list params ''pool_scope'' [] None in
     bindM (if ''own'' \<in> set scopes then l_unset L params object else retM params) (\<lambda>params.
       done_params params (unset_from_sources x params scopes sources)))"

section \<open>Properties of the sources\<close>

lemma proximities_Inr:
  "proximities params ss = Inr ks \<Longrightarrow>
   map snd ks = ss \<and> (\<forall>(k, s) \<in> set ks. proximity params s = Inr k)"
  by (induction ss arbitrary: ks) (auto simp: bindE_Inr_iff)

text \<open>A permitted source lies in one of the scopes and is not the own pool.\<close>

lemma consider_source_permitted:
  "consider_source do params scopes source = Inr (sp, True) \<Longrightarrow>
   \<exists>net path scope. split_pool source = Inr (net, path) \<and> get_source_scope path sp params = Inr scope
     \<and> scope \<in> set scopes \<and> scope \<noteq> ''own''"
  by (auto simp: consider_source_def bindE_Inr_iff Let_def)

lemma consider_source_own: "consider_source do params [''own''] source \<noteq> Inr (sp, True)"
  using consider_source_permitted [of do params "[''own'']" source sp] by auto

definition only_own :: "params \<Rightarrow> bool" where
  "only_own params \<longleftrightarrow> get_list params ''pool_scope'' [] None = [''own'']"

lemma show_mirrors_own:
  "(\<exists>e. show_mirrors x params [''own''] ss acc w = (Inl e, w))
   \<or> show_mirrors x params [''own''] ss acc w = (Inr acc, w)"
proof (induction ss)
  case (Cons s ss)
  then show ?case
    by (cases "consider_source ''show'' params [''own''] s")
      (auto simp: bindM_def io_run consider_source_own split: prod.splits)
qed (simp add: io_run)

lemma get_from_sources_own:
  "(\<exists>e. get_from_sources fuel x L params [''own''] object ss w = (Inl e, w))
   \<or> get_from_sources fuel x L params [''own''] object ss w = (Inr params, w)"
proof (induction ss)
  case (Cons s ss)
  then show ?case
    by (cases "consider_source ''get'' params [''own''] s")
      (auto simp: bindM_def io_run consider_source_own split: prod.splits)
qed (simp add: io_run)

lemma set_to_sources_own:
  "(\<exists>e. set_to_sources fuel x params [''own''] ss w = (Inl e, w))
   \<or> set_to_sources fuel x params [''own''] ss w = (Inr (), w)"
proof (induction ss)
  case (Cons s ss)
  then show ?case
    by (cases "consider_source ''set'' params [''own''] s")
      (auto simp: bindM_def io_run consider_source_own split: prod.splits)
qed (simp add: io_run)

lemma unset_from_sources_own:
  "(\<exists>e. unset_from_sources x params [''own''] ss w = (Inl e, w))
   \<or> unset_from_sources x params [''own''] ss w = (Inr (), w)"
proof (induction ss)
  case (Cons s ss)
  then show ?case
    by (cases "consider_source ''unset'' params [''own''] s")
      (auto simp: bindM_def io_run consider_source_own split: prod.splits)
qed (simp add: io_run)

text \<open>
  With the scope restricted to the own pool the four operations have the effect of the local
  backend on the world, whatever locations are configured.
\<close>

lemma sourced_get_own:
  "only_own params \<Longrightarrow>
   (\<exists>e. sourced_get fuel x L params object w = (Inl e, w))
   \<or> sourced_get fuel x L params object w = l_get L params object w"
proof (cases "get_sources ''get'' params")
  case (Inl e)
  then show ?thesis by (simp add: sourced_get_def bindM_def io_run)
next
  case (Inr ss)
  assume "only_own params"
  then show ?thesis using Inr get_from_sources_own [of fuel x L params object ss w]
    by (auto simp: sourced_get_def only_own_def bindM_def io_run)
qed

lemma sourced_set_own:
  "only_own params \<Longrightarrow>
   snd (sourced_set fuel x L params object w) \<in> {w, snd (l_set L params object w)}"
proof (cases "get_sources ''set'' params")
  case (Inl e)
  then show ?thesis by (simp add: sourced_set_def bindM_def io_run)
next
  case (Inr ss)
  assume "only_own params"
  moreover have "snd (set_to_sources fuel x p [''own''] ss v) = v" for p v
    using set_to_sources_own [of fuel x p ss v] by auto
  ultimately show ?thesis using Inr
    by (auto simp: sourced_set_def only_own_def bindM_def done_params_def io_run
        split: sum.splits prod.splits dest!: arg_cong [of _ _ snd])
qed

lemma sourced_unset_own:
  "only_own params \<Longrightarrow>
   snd (sourced_unset x L params object w) \<in> {w, snd (l_unset L params object w)}"
proof (cases "get_sources ''unset'' params")
  case (Inl e)
  then show ?thesis by (simp add: sourced_unset_def bindM_def io_run)
next
  case (Inr ss)
  assume "only_own params"
  moreover have "snd (unset_from_sources x p [''own''] ss v) = v" for p v
    using unset_from_sources_own [of x p ss v] by auto
  ultimately show ?thesis using Inr
    by (auto simp: sourced_unset_def only_own_def bindM_def done_params_def io_run
        split: sum.splits prod.splits dest!: arg_cong [of _ _ snd])
qed

section \<open>Properties of the mirrored listing\<close>

text \<open>
  \<open>listing\<close>: what the mirrors of a list of sources show, for sources that are all
  considered without an exception and shown without a change of the world.
\<close>

definition mirrors_listed ::
    "'c ext \<Rightarrow> params \<Rightarrow> string list \<Rightarrow> (string \<times> string list option) list \<Rightarrow> 'c world \<Rightarrow> bool" where
  "mirrors_listed x params scopes listing w \<longleftrightarrow>
     (\<forall>(s, l) \<in> set listing. \<exists>sp. consider_source ''show'' params scopes s = Inr (sp, l \<noteq> None) \<and>
        (l \<noteq> None \<longrightarrow> transfer_show x sp w = (Inr (the l), w)))"

definition permitted_listings :: "(string \<times> string list option) list \<Rightarrow> string list list" where
  "permitted_listings listing = map (the \<circ> snd) (filter (\<lambda>(s, l). l \<noteq> None) listing)"

definition mirror_merge :: "string list \<Rightarrow> string list \<Rightarrow> string list" where
  "mirror_merge pool_states mirror_states =
     (if pool_states = [] then dedup mirror_states
      else filter (\<lambda>s. s \<in> set mirror_states) pool_states)"

lemma show_mirrors_merge:
  "mirrors_listed x params scopes listing w \<Longrightarrow>
   show_mirrors x params scopes (map fst listing) acc w =
     (Inr (foldl mirror_merge acc (permitted_listings listing)), w)"
proof (induction listing arbitrary: acc)
  case Nil
  then show ?case by (simp add: permitted_listings_def io_run)
next
  case (Cons sl listing)
  obtain s l where sl: "sl = (s, l)" by (cases sl)
  have rest: "mirrors_listed x params scopes listing w"
    using Cons.prems by (simp add: mirrors_listed_def)
  obtain sp where "consider_source ''show'' params scopes s = Inr (sp, l \<noteq> None)"
    and "l \<noteq> None \<longrightarrow> transfer_show x sp w = (Inr (the l), w)"
    using Cons.prems sl by (auto simp: mirrors_listed_def)
  then show ?case
    using Cons.IH [OF rest] sl
    by (cases l) (simp_all add: bindM_def io_run permitted_listings_def mirror_merge_def)
qed

lemma foldl_mirror_merge:
  assumes "acc \<noteq> [] \<Longrightarrow> c \<in> set acc" and "\<And>l. l \<in> set ls \<Longrightarrow> c \<in> set l" and "acc \<noteq> [] \<or> ls \<noteq> []"
  shows "set (foldl mirror_merge acc ls) =
    (if acc = [] then \<Inter> (set ` set ls) else set acc \<inter> \<Inter> (set ` set ls))"
  using assms
proof (induction ls arbitrary: acc)
  case (Cons l ls)
  let ?acc = "mirror_merge acc l"
  have c: "c \<in> set ?acc" using Cons.prems by (auto simp: mirror_merge_def)
  then have "?acc \<noteq> []" by auto
  moreover have "set ?acc = (if acc = [] then set l else set acc \<inter> set l)"
    by (auto simp: mirror_merge_def)
  ultimately show ?case
    using Cons.IH [of ?acc] c Cons.prems(2) by auto
qed auto

section \<open>Termination of the chain loops\<close>

text \<open>
  \<open>depends_by x dep\<close>: whenever the backing query answers, the backing state of \<open>s\<close> is
  \<open>dep s\<close>. The loops follow \<open>dep\<close> until the empty name.
\<close>

definition depends_by :: "'c ext \<Rightarrow> (string \<Rightarrow> string) \<Rightarrow> bool" where
  "depends_by x dep \<longleftrightarrow> (\<forall>s params w s' params' w'.
     get_dependency x s params w = (Inr (s', params'), w') \<longrightarrow> s' = dep s)"

lemma uncut_get_dependency: "ext_uncut x \<Longrightarrow> uncut (get_dependency x s params)"
  unfolding get_dependency_def Let_def by (intro uncut_intros allI ext_uncutD(6)) auto

lemma is_vm_type_uncut [simp]: "is_vm_type params \<noteq> Inl OutOfFuel"
  by (simp add: is_vm_type_def bindE_uncut)

lemma uncut_transfer_op: "ext_uncut x \<Longrightarrow> uncut (transfer_op down x a b p)"
  by (simp add: transfer_op_def uncut_ops)

lemma uncut_dep_step:
  assumes "ext_uncut x" and "depends_by x dep" and "\<And>params. uncut (f (dep s, params))"
  shows "uncut (bindM (get_dependency x s params) f)"
proof -
  have "fst (bindM (get_dependency x s params) f w) \<noteq> Inl OutOfFuel" for w
  proof (cases "get_dependency x s params w")
    case (Pair r v)
    show ?thesis
    proof (cases r)
      case (Inl e)
      then show ?thesis
        using Pair uncut_get_dependency [OF assms(1), of s params, unfolded uncut_def, rule_format, of w]
        by (simp add: bindM_def)
    next
      case (Inr sp)
      then have "fst sp = dep s"
        using Pair assms(2) unfolding depends_by_def by (metis prod.collapse)
      then show ?thesis
        using Pair Inr assms(3) [of "snd sp", unfolded uncut_def, rule_format, of v]
        by (cases sp) (simp add: bindM_def)
    qed
  qed
  then show ?thesis by (simp add: uncut_def)
qed

lemma transfer_loop_uncut:
  assumes "ext_uncut x" and "depends_by x dep" and "(dep ^^ n) next_state = []" and "n \<le> fuel"
  shows "uncut (transfer_loop fuel x state next_state cache_dir pool_dir vm_id params down)"
  using assms(3,4)
proof (induction fuel arbitrary: n next_state params)
  case 0
  then show ?case by (simp add: uncut_ret)
next
  case (Suc fuel)
  have rest: "uncut (transfer_loop fuel x state (dep next_state) cache_dir pool_dir vm_id params down)"
    if ne: "next_state \<noteq> []" for params
  proof -
    obtain m where "n = Suc m" using Suc.prems(1) ne by (cases n) auto
    then show ?thesis
      using Suc.prems Suc.IH [of m "dep next_state"] by (simp add: funpow_swap1)
  qed
  then show ?case
    by (auto intro!: uncut_intros uncut_transfer_op uncut_dep_step [OF assms(1,2)] assms(1))
qed

text \<open>Enough fuel: as many steps as the chain of the state is long.\<close>

lemma transfer_chain_uncut:
  assumes "ext_uncut x" and "depends_by x dep" and "(dep ^^ n) state = []" and "n \<le> fuel"
  shows "uncut (transfer_chain fuel x state cache_dir pool_dir params down)"
  unfolding transfer_chain_def
  by (intro uncut_intros transfer_loop_uncut [OF assms]) simp

lemma uncut_compare_images:
  "ext_uncut x \<Longrightarrow> uncut (compare_images x s c p v params names)"
  by (induction names) (auto intro!: uncut_intros uncut_ops)

lemma compare_loop_uncut:
  assumes "ext_uncut x" and "depends_by x dep" and "(dep ^^ n) next_state = []" and "n \<le> fuel"
  shows "uncut (compare_loop fuel x state next_state cache_dir pool_dir vm_id params)"
  using assms(3,4)
proof (induction fuel arbitrary: n next_state params)
  case 0
  then show ?case by (simp add: uncut_ret)
next
  case (Suc fuel)
  have rest: "uncut (compare_loop fuel x state (dep next_state) cache_dir pool_dir vm_id params)"
    if ne: "next_state \<noteq> []" for params
  proof -
    obtain m where "n = Suc m" using Suc.prems(1) ne by (cases n) auto
    then show ?thesis
      using Suc.prems Suc.IH [of m "dep next_state"] by (simp add: funpow_swap1)
  qed
  then show ?case
    by (auto intro!: uncut_intros uncut_ops uncut_compare_images uncut_dep_step [OF assms(1,2)] assms(1))
qed

lemma compare_chain_uncut:
  assumes "ext_uncut x" and "depends_by x dep" and "(dep ^^ n) state = []" and "n \<le> fuel"
  shows "uncut (compare_chain fuel x state cache_dir pool_dir params)"
  unfolding compare_chain_def
  by (intro uncut_intros compare_loop_uncut [OF assms]) simp

text \<open>A chain that never reaches the empty name is never fully transferred.\<close>

lemma transfer_loop_endless:
  assumes "depends_by x dep" and "\<And>n. (dep ^^ n) next_state \<noteq> []"
  shows "\<exists>e. fst (transfer_loop fuel x state next_state cache_dir pool_dir vm_id params down w) = Inl e"
  using assms(2)
proof (induction fuel arbitrary: next_state params w)
  case 0
  from 0 [of 0] show ?case by (simp add: io_run)
next
  case (Suc fuel)
  have ne: "next_state \<noteq> []" using Suc.prems [of 0] by simp
  have step: "\<exists>e. fst (bindM (get_dependency x next_state params) (\<lambda>(next_state, params).
      transfer_loop fuel x state next_state cache_dir pool_dir vm_id params down) v) = Inl e" for v
  proof (cases "get_dependency x next_state params v")
    case (Pair r u)
    show ?thesis
    proof (cases r)
      case (Inl e)
      then show ?thesis using Pair by (simp add: bindM_def)
    next
      case (Inr sp)
      have "fst sp = dep next_state"
        using Pair Inr assms(1) unfolding depends_by_def by (metis prod.collapse)
      moreover have "(dep ^^ n) (dep next_state) \<noteq> []" for n
        using Suc.prems [of "Suc n"] by (simp add: funpow_swap1)
      ultimately show ?thesis
        using Pair Inr Suc.IH [of "dep next_state" "snd sp" u]
        by (cases sp) (simp add: bindM_def)
    qed
  qed
  show ?case
    unfolding transfer_loop.simps if_not_P [OF ne] thenM_def
    by (rule bindM_fails, rule bindM_fails, rule bindM_fails, rule step)
qed


section \<open>Properties\<close>

text \<open>
  Parameters, a world with two more mirrors and a local half of a backend for the examples.
\<close>

definition example_pool_params :: params where
  "example_pool_params = [(''nets_gateway'', ''''), (''nets_host'', ''''), (''swarm_pool'', ''/own''),
     (''shared_pool'', '':/p1''), (''object_id'', ''v''), (''vms'', ''v''), (''images'', ''i''),
     (''object_type'', ''images''), (''pool_scope'', ''own''),
     (''show_location'', '':/p1 :/own'')]"

definition example_mirrors :: "string world" where
  "example_mirrors = \<lparr>
     w_local = [(''/p1/v/i'', Dir), (''/p1/v/i/a.qcow2'', File []), (''/p1/v/i/c.qcow2'', File []),
       (''/p2/v/i'', Dir), (''/p2/v/i/b.qcow2'', File []),
       (''/p3/v/i'', Dir), (''/p3/v/i/c.qcow2'', File []), (''/p3/v/i/d.qcow2'', File [])],
     w_sessions = []\<rparr>"

definition example_local :: "string world local_ops" where
  "example_local = \<lparr>
     l_show = (\<lambda>params obj. retM ([], params)), l_get = (\<lambda>params obj. retM params),
     l_set = (\<lambda>params obj. done_params params (modifyM (\<lambda>w. w\<lparr>w_sessions := ''set'' # w_sessions w\<rparr>))),
     l_unset = (\<lambda>params obj. raiseM OSError), l_check_root = (\<lambda>params obj. retM (True, params)),
     l_get_root = (\<lambda>params obj. retM params), l_set_root = (\<lambda>params obj. retM params),
     l_unset_root = (\<lambda>params obj. retM params)\<rparr>"

text \<open>
  What a source has in common with the own environment: the gateway, the host, the directory of
  the swarm pool.
\<close>

definition in_common :: "params \<Rightarrow> string \<Rightarrow> (bool \<times> bool \<times> bool) \<Rightarrow> bool" where
  "in_common params source = (\<lambda>(gateway, host, pool).
     \<exists>source_net source_path. split_pool source = Inr (source_net, source_path)
       \<and> (let sp = source_params source_net params in
           (gateway \<longleftrightarrow> p_getitem params ''nets_gateway'' = p_getitem sp ''nets_gateway'')
         \<and> (host \<longleftrightarrow> p_getitem params ''nets_host'' = p_getitem sp ''nets_host'')
         \<and> (pool \<longleftrightarrow> p_getitem params ''swarm_pool'' = Inr source_path)))"

text \<open>At least as near: by the gateway, then by the host, then by the directory.\<close>

fun as_near :: "bool \<times> bool \<times> bool \<Rightarrow> bool \<times> bool \<times> bool \<Rightarrow> bool" where
  "as_near (g1, h1, p1) (g2, h2, p2) \<longleftrightarrow>
     (g2 \<longrightarrow> g1) \<and> (g1 = g2 \<longrightarrow> (h2 \<longrightarrow> h1) \<and> (h1 = h2 \<longrightarrow> p2 \<longrightarrow> p1))"

lemma proximity_common:
  "proximity params a = Inr k \<Longrightarrow>
   \<exists>g h p. in_common params a (g, h, p)
     \<and> k = (if g then 1000 else 0) + (if h then 100 else 0) + (if p then 10 else 1)"
proof -
  assume "proximity params a = Inr k"
  then obtain n p g sg h sh pool where split: "split_pool a = Inr (n, p)"
    and vals: "p_getitem params ''nets_gateway'' = Inr g" "p_getitem (source_params n params) ''nets_gateway'' = Inr sg"
      "p_getitem params ''nets_host'' = Inr h" "p_getitem (source_params n params) ''nets_host'' = Inr sh"
      "p_getitem params ''swarm_pool'' = Inr pool"
    and k: "k = (if g = sg then 1000 else 0) + (if h = sh then 100 else 0) + (if pool = p then 10 else 1)"
    unfolding proximity_def bindE_Inr_iff Let_def by (auto simp: bindE_Inr_iff)
  have "in_common params a (g = sg, h = sh, pool = p)"
    unfolding in_common_def using split vals by (simp add: Let_def)
  then show ?thesis using k by blast
qed

lemma nearer_score:
  "(if g2 then 1000 else 0) + (if h2 then 100 else 0) + (if p2 then 10 else 1)
     \<le> ((if g1 then 1000 else 0) + (if h1 then 100 else 0) + (if p1 then 10 else 1) :: nat) \<Longrightarrow>
   as_near (g1, h1, p1) (g2, h2, p2)"
  by (auto split: if_splits)

text \<open>
  C34: The sources of an operation are the configured locations, each as often as it is
  listed among the objects, nearest first: a source behind the own gateway comes before all
  others, among those equal in this the own host decides, then the own pool directory.
\<close>

theorem sources_nearest_first:
  assumes "get_sources do params = Inr ss"
  shows "mset ss = mset (objects params (do @ ''_location''))
    \<and> sorted_wrt (\<lambda>a b. \<exists>ca cb. in_common params a ca \<and> in_common params b cb \<and> as_near ca cb) ss"
proof -
  obtain ks where ks: "proximities params (objects params (do @ ''_location'')) = Inr ks"
    and ss: "ss = map snd (sort_key (\<lambda>(k, s). - int k) ks)"
    using assms by (auto simp: get_sources_def bindE_Inr_iff)
  note props = proximities_Inr [OF ks]
  have "mset ss = mset (map snd ks)" by (simp add: ss mset_map)
  then have perm: "mset ss = mset (objects params (do @ ''_location''))" using props by simp
  have "sorted_wrt (\<lambda>a b. (\<lambda>(k, s). - int k) a \<le> (\<lambda>(k, s). - int k) b) (sort_key (\<lambda>(k, s). - int k) ks)"
    using sorted_sort_key [of "\<lambda>(k, s). - int k" ks] by (simp add: sorted_map)
  then have "sorted_wrt (\<lambda>a b. \<exists>ka kb. proximity params (snd a) = Inr ka \<and>
      proximity params (snd b) = Inr kb \<and> kb \<le> ka) (sort_key (\<lambda>(k, s). - int k) ks)"
    by (rule sorted_wrt_mono_rel [rotated]) (use props in fastforce)
  then have sorted: "sorted_wrt (\<lambda>a b. \<exists>ka kb. proximity params a = Inr ka \<and>
      proximity params b = Inr kb \<and> kb \<le> ka) ss"
    by (simp add: ss sorted_wrt_map)
  have "\<exists>ca cb. in_common params a ca \<and> in_common params b cb \<and> as_near ca cb"
    if "proximity params a = Inr ka" "proximity params b = Inr kb" "kb \<le> ka" for a b ka kb
    using proximity_common [OF that(1)] proximity_common [OF that(2)] that(3) nearer_score by blast
  then have "sorted_wrt (\<lambda>a b. \<exists>ca cb. in_common params a ca \<and> in_common params b cb \<and> as_near ca cb) ss"
    by (intro sorted_wrt_mono_rel [OF _ sorted]) blast
  with perm show ?thesis ..
qed

lemma sources_nearest_first_witness:
  "get_sources ''show'' example_pool_params = Inr ['':/own'', '':/p1'']
   \<and> mset ['':/own'', '':/p1''] = mset (objects example_pool_params (''show'' @ ''_location''))"
proof -
  have s: "get_sources ''show'' example_pool_params = Inr ['':/own'', '':/p1'']" by code_simp
  then show ?thesis using sources_nearest_first [OF s] by simp
qed

lemma sourced_show_own:
  "only_own params \<Longrightarrow>
   snd (sourced_show x L params object w) \<in> {w, snd (l_show L params object w)}"
proof (cases "get_sources ''show'' params")
  case (Inl e)
  then show ?thesis by (simp add: sourced_show_def bindM_def io_run)
next
  case (Inr ss)
  assume "only_own params"
  moreover have "snd (show_mirrors x p [''own''] ss [] v) = v" for p v
    using show_mirrors_own [of x p ss "[]" v] by auto
  ultimately show ?thesis using Inr
    by (auto simp: sourced_show_def only_own_def bindM_def io_run
        split: sum.splits prod.splits dest!: arg_cong [of _ _ snd])
qed





text \<open>What the mirrors of the examples list.\<close>

lemma example_listing:
  "mirrors_listed example_ext example_pool_params [''shared'']
     [('':/p1'', Some [''a'', ''c'']), ('':/own'', None), ('':/p2'', Some [''b'']), ('':/p3'', Some [''c'', ''d''])]
     example_mirrors"
proof -
  have own: "consider_source ''show'' example_pool_params [''shared''] '':/own''
      = Inr (p_set ''show_location'' '':/own'' example_pool_params, False)" by code_simp
  have mirror: "consider_source ''show'' example_pool_params [''shared''] s
      = Inr (p_set ''show_location'' s example_pool_params, True)"
    if "s \<in> set ['':/p1'', '':/p2'', '':/p3'']" for s
  proof -
    have "list_all (\<lambda>s. consider_source ''show'' example_pool_params [''shared''] s
      = Inr (p_set ''show_location'' s example_pool_params, True)) ['':/p1'', '':/p2'', '':/p3'']" by code_simp
    then show ?thesis using that by (auto simp: list_all_iff)
  qed
  have "transfer_show example_ext (p_set ''show_location'' '':/p1'' example_pool_params) example_mirrors
      = (Inr [''a'', ''c''], example_mirrors)"
    "transfer_show example_ext (p_set ''show_location'' '':/p2'' example_pool_params) example_mirrors
      = (Inr [''b''], example_mirrors)"
    "transfer_show example_ext (p_set ''show_location'' '':/p3'' example_pool_params) example_mirrors
      = (Inr [''c'', ''d''], example_mirrors)"
    by code_simp+
  then show ?thesis
    by (simp add: mirrors_listed_def own mirror)
qed

text \<open>
  C32: When some state is on every permitted mirror, the states shown from the mirrors are
  exactly the ones that all permitted mirrors list; mirrors outside the scope are ignored.
\<close>

theorem common_states_shown:
  assumes "mirrors_listed x params scopes listing w"
    and "permitted_listings listing \<noteq> []"
    and "\<And>l. l \<in> set (permitted_listings listing) \<Longrightarrow> c \<in> set l"
  shows "\<exists>states. show_mirrors x params scopes (map fst listing) [] w = (Inr states, w)
    \<and> set states = \<Inter> (set ` set (permitted_listings listing))"
  using show_mirrors_merge [OF assms(1), of "[]"] foldl_mirror_merge [of "[]" c "permitted_listings listing"]
    assms(2,3) by auto

lemma common_states_shown_witness:
  "\<exists>states. show_mirrors example_ext example_pool_params [''shared'']
      (map fst [('':/p1'', Some [''a'', ''c'']), ('':/own'', None), ('':/p3'', Some [''c'', ''d''])]) [] example_mirrors
      = (Inr states, example_mirrors)
    \<and> set states = \<Inter> (set ` set (permitted_listings
        [('':/p1'', Some [''a'', ''c'']), ('':/own'', None), ('':/p3'', Some [''c'', ''d''])]))"
  by (rule common_states_shown [where c = "''c''"])
    (use example_listing in \<open>auto simp: mirrors_listed_def permitted_listings_def\<close>)

text \<open>
  Mirrors without a common state are forgotten: when the first permitted mirrors have
  nothing in common, the listing starts over, and the states of the next mirror are all shown
  although the earlier mirrors do not have them.
\<close>

theorem disjoint_mirrors_forgotten:
  assumes "mirrors_listed x params scopes [(s1, Some l1), (s2, Some l2), (s3, Some l3)] w"
    and "l1 \<noteq> []" and "set l1 \<inter> set l2 = {}"
  shows "show_mirrors x params scopes [s1, s2, s3] [] w = (Inr (dedup l3), w)"
proof -
  have "filter (\<lambda>s. s \<in> set l2) (dedup l1) = []" using assms(3) by (auto simp: filter_empty_conv)
  moreover have "dedup l1 \<noteq> []" using assms(2) by (cases l1) simp_all
  ultimately have "foldl mirror_merge [] [l1, l2, l3] = dedup l3"
    by (simp add: mirror_merge_def)
  then show ?thesis
    using show_mirrors_merge [OF assms(1), of "[]"] by (simp add: permitted_listings_def)
qed

lemma disjoint_mirrors_forgotten_witness:
  "show_mirrors example_ext example_pool_params [''shared''] ['':/p1'', '':/p2'', '':/p3''] [] example_mirrors
     = (Inr (dedup [''c'', ''d'']), example_mirrors)"
  by (rule disjoint_mirrors_forgotten [where ?l1.0 = "[''a'', ''c'']" and ?l2.0 = "[''b'']"])
    (use example_listing in \<open>auto simp: mirrors_listed_def\<close>)

text \<open>
  C30: The loops over a backing chain end: when the backing query answers with a function of
  the state whose iteration reaches the empty name in \<open>n\<close> steps, neither the transfer nor
  the comparison of the chain needs more than \<open>n\<close> rounds.
\<close>

theorem chain_loops_end:
  assumes "ext_uncut x" and "depends_by x dep" and "(dep ^^ n) state = []" and "n \<le> fuel"
  shows "fst (transfer_chain fuel x state cache_dir pool_dir params down w) \<noteq> Inl OutOfFuel
    \<and> fst (compare_chain fuel x state cache_dir pool_dir params w) \<noteq> Inl OutOfFuel"
  using transfer_chain_uncut [OF assms] compare_chain_uncut [OF assms] by (simp add: uncut_def)

lemma example_ext_uncut: "ext_uncut (example_ext\<lparr>x_backing := (\<lambda>q d. retM f)\<rparr>)"
  by (simp add: ext_uncut_def example_ext_def uncut_ret)

lemma example_depends:
  "depends_by (example_ext\<lparr>x_backing := (\<lambda>q d. retM f)\<rparr>) (\<lambda>s. basename (replace_all ''.qcow2'' [] f))"
  by (auto simp: depends_by_def get_dependency_def bindM_eq_Inr io_eq_Inr Let_def)

lemma chain_loops_end_witness:
  "fst (transfer_chain 1 (example_ext\<lparr>x_backing := (\<lambda>q d. retM [])\<rparr>) ''launch'' ''/own'' '':/p1''
        example_pool_params True example_mirrors) \<noteq> Inl OutOfFuel"
  using chain_loops_end [OF example_ext_uncut example_depends [of "[]"], of 1 "''launch''" 1]
  by (simp add: basename_def)



text \<open>
  Root states are only created or removed in one place: a scope other than \<open>own\<close> and
  \<open>shared\<close> is refused without any change, and the scope \<open>shared\<close> refuses to publish a
  root that is missing locally.
\<close>

theorem root_scopes:
  assumes "map_of params ''pool_scope'' = Some scope" and "scope \<noteq> ''own''"
  shows "(scope \<noteq> ''shared'' \<longrightarrow> rooted_set x L params object w = (Inl RuntimeError, w)
        \<and> rooted_unset x L params object w = (Inl RuntimeError, w))
    \<and> (scope = ''shared'' \<longrightarrow> l_check_root L params object w = (Inr (False, params'), w') \<longrightarrow>
        rooted_set x L params object w = (Inl RuntimeError, w'))"
  using assms by (auto simp: rooted_set_def rooted_unset_def p_getitem_simps io_run bindM_def)

lemma root_scopes_witness:
  "rooted_set example_ext example_local (p_set ''pool_scope'' ''swarm'' []) ObjNone example_mirrors
     = (Inl RuntimeError, example_mirrors)"
  using root_scopes [of "p_set ''pool_scope'' ''swarm'' []" "''swarm''" example_ext example_local ObjNone
      example_mirrors] by simp


section \<open>The contract of a local backend\<close>

text \<open>
  What \<open>SourcedStateBackend\<close> relies on in the local half of a subclass: \<open>fits\<close> says that
  the parameters and the world belong together, \<open>listed\<close> are the states of the object.
  Showing only looks, setting a fresh state adds it, unsetting removes it.
\<close>

locale local_store =
  fixes L :: "'c world local_ops" and fits :: "params \<Rightarrow> 'c world \<Rightarrow> bool"
    and listed :: "params \<Rightarrow> 'c world \<Rightarrow> string list" and nameable :: "string \<Rightarrow> bool"
  assumes show_listed: "fits p w \<Longrightarrow> l_show L p obj w = (Inr (listed p w, p), w)"
    and set_listed: "fits p w \<Longrightarrow> p_getitem p ''set_state'' = Inr s \<Longrightarrow> nameable s \<Longrightarrow> s \<notin> set (listed p w) \<Longrightarrow>
      l_set L p obj w = (Inr p', w') \<Longrightarrow> fits p w' \<and> set (listed p w') = insert s (set (listed p w))"
    and unset_listed: "fits p w \<Longrightarrow> p_getitem p ''unset_state'' = Inr s \<Longrightarrow> nameable s \<Longrightarrow>
      l_unset L p obj w = (Inr p', w') \<Longrightarrow> fits p w' \<and> set (listed p w') = set (listed p w) - {s}"
begin

lemma sourced_show_listed:
  assumes "fits p w" and "only_own p" and "sourced_show x L p obj w = (Inr (states, p'), w')"
  shows "set states = set (listed p w)"
proof -
  have "get_list p ''pool_scope'' [] None = [''own'']" using assms(2) by (simp add: only_own_def)
  then obtain ss pool v where "show_mirrors x p [''own''] ss [] w = (Inr pool, v)"
    and states: "states = dedup (listed p w @ pool)"
    using assms(3) show_listed [OF assms(1), of obj]
    by (auto simp: sourced_show_def bindM_eq_Inr io_eq_Inr Let_def)
  then have "pool = []" using show_mirrors_own [of x p ss "[]" w] by auto
  then show ?thesis using states by simp
qed

lemma sourced_set_shown:
  assumes "fits p w" and "only_own p" and "p_getitem p ''set_state'' = Inr s" and "nameable s"
    and "s \<notin> set (listed p w)"
    and "sourced_set fuel x L p obj w = (Inr p', w')"
    and "sourced_show x L p obj w' = (Inr (states, p''), w'')"
  shows "set states = insert s (set (listed p w))"
proof -
  have "get_list p ''pool_scope'' [] None = [''own'']" using assms(2) by (simp add: only_own_def)
  then obtain ss q v where set: "l_set L p obj w = (Inr q, v)"
    and "set_to_sources fuel x q [''own''] ss v = (Inr (), w')"
    using assms(6) by (auto simp: sourced_set_def done_params_def bindM_eq_Inr io_eq_Inr Let_def)
  then have "w' = v" using set_to_sources_own [of fuel x q ss v] by auto
  then show ?thesis
    using set_listed [OF assms(1,3,4,5) set] sourced_show_listed [OF _ assms(2,7)] by simp
qed

lemma sourced_unset_shown:
  assumes "fits p w" and "only_own p" and "p_getitem p ''unset_state'' = Inr s" and "nameable s"
    and "sourced_unset x L p obj w = (Inr p', w')"
    and "sourced_show x L p obj w' = (Inr (states, p''), w'')"
  shows "set states = set (listed p w) - {s}"
proof -
  have "get_list p ''pool_scope'' [] None = [''own'']" using assms(2) by (simp add: only_own_def)
  then obtain ss q v where unset: "l_unset L p obj w = (Inr q, v)"
    and "unset_from_sources x q [''own''] ss v = (Inr (), w')"
    using assms(5) by (auto simp: sourced_unset_def done_params_def bindM_eq_Inr io_eq_Inr Let_def)
  then have "w' = v" using unset_from_sources_own [of x q ss v] by auto
  then show ?thesis
    using unset_listed [OF assms(1,3,4) unset] sourced_show_listed [OF _ assms(2,6)] by simp
qed

end

end
