(* ===== verification/Qcow2.thy ===== *)
theory Qcow2
  imports PoolStates
begin

text \<open>
  Model of \<open>virttest/states/qcow2.py\<close>: the root operations of \<open>QCOW2Backend\<close> and the
  external snapshots of \<open>QCOW2ExtBackend\<close>, the local half that \<open>SourcedStateBackend\<close>
  combines with the pool. What the code asks of \<open>QemuImg\<close>, of the virtual machine and of
  \<open>env_process\<close> is the record \<open>images\<close>.
\<close>

section \<open>External calls\<close>

record 'c images =
  i_filename :: "params \<Rightarrow> string \<Rightarrow> string \<Rightarrow> string"
  i_backing :: "params \<Rightarrow> string \<Rightarrow> string \<Rightarrow> 'c world \<Rightarrow> string res"
  i_create :: "params \<Rightarrow> string \<Rightarrow> string \<Rightarrow> ('c world, unit) io"
  i_commit :: "params \<Rightarrow> string \<Rightarrow> string \<Rightarrow> ('c world, unit) io"
  i_alive :: "string \<Rightarrow> 'c world \<Rightarrow> bool"
  i_destroy :: "string \<Rightarrow> bool \<Rightarrow> ('c world, unit) io"
  i_preprocess :: "params \<Rightarrow> string \<Rightarrow> ('c world, unit) io"
  i_postprocess :: "params \<Rightarrow> string \<Rightarrow> ('c world, unit) io"

text \<open>\<open>object is not None and object.is_alive()\<close>.\<close>

definition object_alive :: "'c images \<Rightarrow> sobj \<Rightarrow> ('c world, bool) io" where
  "object_alive im object = (case object of
     ObjNone \<Rightarrow> retM False | ObjEnv \<Rightarrow> raiseM AttributeError | ObjVm v \<Rightarrow> getM (i_alive im v))"

definition destroy_object :: "'c images \<Rightarrow> sobj \<Rightarrow> bool \<Rightarrow> ('c world, unit) io" where
  "destroy_object im object gracefully = (case object of
     ObjVm v \<Rightarrow> i_destroy im v gracefully | _ \<Rightarrow> raiseM AttributeError)"

section \<open>QCOW2Backend: the root image\<close>

definition root_image :: "params \<Rightarrow> (string \<times> string) res" where
  "root_image params =
     bindE (p_getitem params ''vms'') (\<lambda>vm_name.
     bindE (p_getitem params ''image_name'') (\<lambda>image_name.
       if path_isabs image_name then Inr (vm_name, image_name)
       else bindE (p_getitem params ''images_base_dir'') (\<lambda>base.
              Inr (vm_name, path_join base image_name))))"

definition format_suffix :: "string \<Rightarrow> string" where
  "format_suffix image_format = (if image_format \<in> set [''raw'', []] then [] else ''.'' @ image_format)"

definition qcow2_check_root :: "'c images \<Rightarrow> params \<Rightarrow> sobj \<Rightarrow> ('c world, bool \<times> params) io" where
  "qcow2_check_root im params object =
     bindM (liftM (root_image params)) (\<lambda>(vm_name, image_name).
     let image_format = format_suffix (p_get_or params ''image_format'' ''qcow2'') in
     bindM (object_alive im object) (\<lambda>alive.
       if alive then retM (False, params)
       else bindM (fs_test (\<lambda>fs. path_exists fs (image_name @ image_format))) (\<lambda>e. retM (e, params))))"

definition qcow2_get_root :: "params \<Rightarrow> sobj \<Rightarrow> ('c world, params) io" where
  "qcow2_get_root params object = retM params"

text \<open>Without a format the concatenation to \<open>None\<close> raises.\<close>

definition qcow2_set_root :: "'c images \<Rightarrow> params \<Rightarrow> sobj \<Rightarrow> ('c world, params) io" where
  "qcow2_set_root im params object =
     bindM (liftM (p_getitem params ''vms'')) (\<lambda>vm_name.
     bindM (object_alive im object) (\<lambda>alive.
     thenM (if alive then bindM (liftM (get_boolean params ''soft_boot'' True)) (destroy_object im object)
            else retM ())
     (bindM (liftM (root_image params)) (\<lambda>(_, image_name).
      case p_get params ''image_format'' of
        None \<Rightarrow> raiseM TypeError
      | Some fmt \<Rightarrow>
          bindM (fs_test (\<lambda>fs. path_exists fs (image_name @ format_suffix fmt))) (\<lambda>e.
            if e then retM params
            else
              thenM (fsM (makedirs (dirname image_name)))
              (let params = p_set ''force_create_image'' ''yes'' (p_set ''create_image'' ''yes'' params)
               in done_params params (i_preprocess im params image_name)))))))"

text \<open>Removing the image directory is tried and its failure ignored.\<close>

definition try_rmdir :: "string \<Rightarrow> ('c world, unit) io" where
  "try_rmdir p w = (case rmdir p (w_local w) of
     Inl _ \<Rightarrow> (Inr (), w) | Inr fs' \<Rightarrow> (Inr (), w\<lparr>w_local := fs'\<rparr>))"

definition qcow2_unset_root :: "'c images \<Rightarrow> params \<Rightarrow> sobj \<Rightarrow> ('c world, params) io" where
  "qcow2_unset_root im params object =
     bindM (liftM (p_getitem params ''vms'')) (\<lambda>vm_name.
     bindM (object_alive im object) (\<lambda>alive.
     thenM (if alive then bindM (liftM (get_boolean params ''soft_boot'' True)) (destroy_object im object)
            else retM ())
     (bindM (liftM (root_image params)) (\<lambda>(_, image_name).
      let params = p_set ''remove_image'' ''yes'' params in
      thenM (i_postprocess im params image_name)
      (thenM (try_rmdir (dirname image_name)) (retM params))))))"

section \<open>QCOW2ExtBackend: external snapshots\<close>

definition ext_names :: "params \<Rightarrow> (string \<times> string \<times> string \<times> string) res" where
  "ext_names params =
     bindE (p_getitem params ''vms'') (\<lambda>vm_name.
     bindE (p_getitem params ''images'') (\<lambda>image_name.
     bindE (p_getitem params ''object_id'') (\<lambda>vm_id.
     bindE (p_getitem params ''swarm_pool'') (\<lambda>state_dir.
       Inr (vm_name, image_name, state_dir, path_join state_dir vm_id)))))"

definition snapshot_states :: "string list \<Rightarrow> string list" where
  "snapshot_states snapshots =
     map (\<lambda>s. take (length s - 6) s) (filter (\<lambda>s. endswith s ''.qcow2'') snapshots)"

definition ext_show :: "'c images \<Rightarrow> params \<Rightarrow> sobj \<Rightarrow> ('c world, string list \<times> params) io" where
  "ext_show im params object =
     bindM (liftM (ext_names params)) (\<lambda>(vm_name, image_name, state_dir, vm_dir).
     let image_dir = path_join (dirname (i_filename im params vm_dir image_name)) image_name in
     bindM (fs_test (\<lambda>fs. path_exists fs image_dir)) (\<lambda>e.
       if \<not> e then retM ([], params)
       else bindM (fs_read (\<lambda>fs. listdir fs image_dir)) (\<lambda>snapshots.
              retM (snapshot_states snapshots, params))))"

definition ext_get :: "'c images \<Rightarrow> params \<Rightarrow> sobj \<Rightarrow> ('c world, params) io" where
  "ext_get im params object =
     bindM (liftM (ext_names params)) (\<lambda>(vm_name, image_name, state_dir, vm_dir).
     bindM (liftM (p_getitem params ''get_state'')) (\<lambda>state.
     let image_dir = path_join vm_dir image_name;
         params = p_set ''image_format_snapshot'' ''qcow2''
           (p_set ''image_name_snapshot'' (path_join image_dir state)
             (p_set ''image_chain'' (''snapshot '' @ image_name) params))
     in bindM (liftM (p_getitem params ''vms_base_dir'')) (\<lambda>base.
          done_params params (i_create im params (path_join base vm_name) image_name))))"

definition ext_set :: "'c images \<Rightarrow> params \<Rightarrow> sobj \<Rightarrow> ('c world, params) io" where
  "ext_set im params object =
     bindM (liftM (ext_names params)) (\<lambda>(vm_name, image_name, state_dir, vm_dir).
     bindM (liftM (p_getitem params ''set_state'')) (\<lambda>state.
     bindM (liftM (p_getitem params ''vms_base_dir'')) (\<lambda>base.
     let image_dir = path_join vm_dir image_name;
         state_file = path_join image_dir (state @ ''.qcow2'');
         root_dir = path_join base vm_name;
         image_filename = i_filename im params root_dir image_name
     in
     bindM (\<lambda>w. (i_backing im params root_dir image_name w, w)) (\<lambda>backing_file.
     let inverse = p_set ''image_name'' (path_join image_dir state) params in
     bindM (fs_test (\<lambda>fs. path_exists fs state_file)) (\<lambda>e.
       if e then
         bindM (\<lambda>w. (i_backing im inverse root_dir image_name w, w)) (\<lambda>inverse_file.
           if state_file = backing_file then done_params params (i_commit im params root_dir image_name)
           else if inverse_file = backing_file then
             thenM (fsM (makedirs image_dir))
             (thenM (fsM (unlink state_file))
             (thenM (fsM (copy_file image_filename state_file)) (retM params)))
           else raiseM RuntimeError)
       else
         thenM (fsM (makedirs image_dir))
         (thenM (fsM (copy_file image_filename state_file)) (retM params)))))))"

definition ext_unset :: "params \<Rightarrow> sobj \<Rightarrow> ('c world, params) io" where
  "ext_unset params object =
     bindM (liftM (ext_names params)) (\<lambda>(vm_name, image_name, state_dir, vm_dir).
     bindM (liftM (p_getitem params ''unset_state'')) (\<lambda>state.
     thenM (fsM (unlink (path_join (path_join vm_dir image_name) (state @ ''.qcow2'')))) (retM params)))"

definition ext_ops :: "'c images \<Rightarrow> 'c world local_ops" where
  "ext_ops im = \<lparr>
     l_show = ext_show im, l_get = ext_get im, l_set = ext_set im, l_unset = ext_unset,
     l_check_root = qcow2_check_root im, l_get_root = qcow2_get_root,
     l_set_root = qcow2_set_root im, l_unset_root = qcow2_unset_root im\<rparr>"

definition QCOW2ExtBackend :: "nat \<Rightarrow> 'c ext \<Rightarrow> 'c images \<Rightarrow> 'c world backend" where
  "QCOW2ExtBackend fuel x im = \<lparr>
     b_show = sourced_show x (ext_ops im),
     b_get = sourced_get fuel x (ext_ops im),
     b_set = sourced_set fuel x (ext_ops im),
     b_unset = sourced_unset x (ext_ops im),
     b_check_root = qcow2_check_root im,
     b_get_root = qcow2_get_root,
     b_set_root = qcow2_set_root im,
     b_unset_root = qcow2_unset_root im,
     b_sourced = True\<rparr>"


section \<open>The snapshot directory\<close>

text \<open>
  \<open>ext_fits\<close>: the parameters name a snapshot directory that exists, and the image file
  that \<open>QemuImg\<close> computes for the object lies beside it, as the listing assumes.
\<close>

definition snapshot_dir :: "params \<Rightarrow> string" where
  "snapshot_dir p = path_join (path_join (p_get_or p ''swarm_pool'' []) (p_get_or p ''object_id'' []))
     (p_get_or p ''images'' [])"

definition ext_fits :: "'c images \<Rightarrow> params \<Rightarrow> 'c world \<Rightarrow> bool" where
  "ext_fits im p w \<longleftrightarrow> (case ext_names p of
     Inl e \<Rightarrow> False
   | Inr (vm_name, image_name, state_dir, vm_dir) \<Rightarrow>
       dirname (i_filename im p vm_dir image_name) = vm_dir \<and>
       snapshot_dir p \<noteq> [] \<and> last (snapshot_dir p) \<noteq> CHR ''/'' \<and>
       map_of (w_local w) (snapshot_dir p) = Some Dir)"

definition dir_names :: "params \<Rightarrow> 'c fs \<Rightarrow> string list" where
  "dir_names p fs = (case listdir fs (snapshot_dir p) of Inr names \<Rightarrow> names | Inl e \<Rightarrow> [])"

definition ext_listed :: "params \<Rightarrow> 'c world \<Rightarrow> string list" where
  "ext_listed p w = snapshot_states (dir_names p (w_local w))"

definition plain_state :: "string \<Rightarrow> bool" where
  "plain_state s \<longleftrightarrow> CHR ''/'' \<notin> set s"

definition snapshot_file :: "params \<Rightarrow> string \<Rightarrow> string" where
  "snapshot_file p s = snapshot_dir p @ CHR ''/'' # s @ ''.qcow2''"

lemma ext_fitsD:
  assumes "ext_fits im p w"
  obtains vm_name where
    "ext_names p = Inr (vm_name, p_get_or p ''images'' [], p_get_or p ''swarm_pool'' [],
       path_join (p_get_or p ''swarm_pool'' []) (p_get_or p ''object_id'' []))"
    and "dirname (i_filename im p (path_join (p_get_or p ''swarm_pool'' []) (p_get_or p ''object_id'' []))
       (p_get_or p ''images'' [])) = path_join (p_get_or p ''swarm_pool'' []) (p_get_or p ''object_id'' [])"
    and "snapshot_dir p \<noteq> []" and "last (snapshot_dir p) \<noteq> CHR ''/''"
    and "map_of (w_local w) (snapshot_dir p) = Some Dir"
  using assms
  by (auto simp: ext_fits_def ext_names_def bindE_Inr_iff p_getitem_Inr p_get_or_def split: sum.splits)

lemma dir_entry:
  "map_of fs (snapshot_dir p) = Some Dir \<Longrightarrow> snapshot_dir p \<noteq> [] \<Longrightarrow>
   listdir fs (snapshot_dir p) = Inr (map basename (filter
     (\<lambda>q. q = path_join (snapshot_dir p) (basename q) \<and> basename q \<noteq> []) (dict_keys fs)))"
  by (simp add: listdir_def node_at_def realpath_no_link path_islink_def)

lemma in_dir_names:
  assumes "map_of fs (snapshot_dir p) = Some Dir" and "snapshot_dir p \<noteq> []"
    and "last (snapshot_dir p) \<noteq> CHR ''/''"
  shows "n \<in> set (dir_names p fs) \<longleftrightarrow>
    n \<noteq> [] \<and> CHR ''/'' \<notin> set n \<and> dict_has fs (snapshot_dir p @ CHR ''/'' # n)"
proof -
  have no_slash: "CHR ''/'' \<notin> set (basename q)" for q
    by (auto simp: basename_def is_slash_def dest: set_takeWhileD)
  have join: "path_join (snapshot_dir p) m = snapshot_dir p @ CHR ''/'' # m" if "CHR ''/'' \<notin> set m" for m
    using assms(2,3) that by (cases m; cases "snapshot_dir p" rule: rev_cases)
      (auto simp: path_join_def startswith_def endswith_def)
  have "n \<in> set (dir_names p fs) \<longleftrightarrow> (\<exists>q. dict_has fs q \<and> n = basename q
      \<and> q = path_join (snapshot_dir p) (basename q) \<and> basename q \<noteq> [])"
    using dir_entry [OF assms(1,2)] by (auto simp: dir_names_def dict_has_iff)
  also have "\<dots> \<longleftrightarrow> n \<noteq> [] \<and> CHR ''/'' \<notin> set n \<and> dict_has fs (snapshot_dir p @ CHR ''/'' # n)"
  proof
    assume "\<exists>q. dict_has fs q \<and> n = basename q \<and> q = path_join (snapshot_dir p) (basename q) \<and> basename q \<noteq> []"
    then obtain q where q: "dict_has fs q" "n = basename q" "q = path_join (snapshot_dir p) (basename q)"
      "basename q \<noteq> []" by blast
    then have "q = snapshot_dir p @ CHR ''/'' # n" using join [OF no_slash [of q]] by simp
    then have "dict_has fs (snapshot_dir p @ CHR ''/'' # n)" using q(1) by simp
    moreover have "CHR ''/'' \<notin> set n" unfolding q(2) by (rule no_slash)
    ultimately show "n \<noteq> [] \<and> CHR ''/'' \<notin> set n \<and> dict_has fs (snapshot_dir p @ CHR ''/'' # n)"
      using q(2,4) by simp
  next
    assume n: "n \<noteq> [] \<and> CHR ''/'' \<notin> set n \<and> dict_has fs (snapshot_dir p @ CHR ''/'' # n)"
    then show "\<exists>q. dict_has fs q \<and> n = basename q \<and> q = path_join (snapshot_dir p) (basename q) \<and> basename q \<noteq> []"
      by (intro exI [of _ "snapshot_dir p @ CHR ''/'' # n"]) (simp add: basename_join join)
  qed
  finally show ?thesis .
qed

lemma in_snapshot_states:
  "s \<in> set (snapshot_states names) \<longleftrightarrow> s @ ''.qcow2'' \<in> set names"
proof
  assume "s \<in> set (snapshot_states names)"
  then obtain n where n: "n \<in> set names" "endswith n ''.qcow2''" "s = take (length n - 6) n"
    by (auto simp: snapshot_states_def)
  then obtain r where "n = r @ ''.qcow2''" by (auto simp: endswith_def suffix_def)
  then show "s @ ''.qcow2'' \<in> set names" using n by simp
next
  assume "s @ ''.qcow2'' \<in> set names"
  then show "s \<in> set (snapshot_states names)"
    unfolding snapshot_states_def by (force simp: endswith_def suffix_def)
qed

text \<open>The states of an object are the snapshot files in its directory.\<close>

lemma in_ext_listed:
  assumes "ext_fits im p w"
  shows "s \<in> set (ext_listed p w) \<longleftrightarrow> plain_state s \<and> dict_has (w_local w) (snapshot_file p s)"
proof -
  from assms obtain "snapshot_dir p \<noteq> []" "last (snapshot_dir p) \<noteq> CHR ''/''"
    "map_of (w_local w) (snapshot_dir p) = Some Dir" by (rule ext_fitsD)
  then show ?thesis
    using in_dir_names [of "w_local w" p "s @ ''.qcow2''"]
    by (auto simp: ext_listed_def in_snapshot_states plain_state_def snapshot_file_def)
qed

lemma ext_fits_world:
  "ext_fits im p w \<Longrightarrow> map_of fs (snapshot_dir p) = Some Dir \<Longrightarrow> ext_fits im p (w\<lparr>w_local := fs\<rparr>)"
  by (auto simp: ext_fits_def split: sum.splits)

lemma ext_show_run:
  assumes "ext_fits im p w"
  shows "ext_show im p obj w = (Inr (ext_listed p w, p), w)"
proof -
  from assms obtain vm_name where
    names: "ext_names p = Inr (vm_name, p_get_or p ''images'' [], p_get_or p ''swarm_pool'' [],
       path_join (p_get_or p ''swarm_pool'' []) (p_get_or p ''object_id'' []))"
    and dir: "dirname (i_filename im p (path_join (p_get_or p ''swarm_pool'' []) (p_get_or p ''object_id'' []))
       (p_get_or p ''images'' [])) = path_join (p_get_or p ''swarm_pool'' []) (p_get_or p ''object_id'' [])"
    and d: "snapshot_dir p \<noteq> []" "map_of (w_local w) (snapshot_dir p) = Some Dir"
    by (rule ext_fitsD)
  have "path_exists (w_local w) (snapshot_dir p)"
    using d by (simp add: path_exists_def node_at_def realpath_no_link path_islink_def)
  then show ?thesis
    using dir_entry [OF d(2,1)]
    by (simp add: ext_show_def names dir snapshot_dir_def [symmetric] bindM_def fs_test_def fs_read_def
        io_run ext_listed_def dir_names_def Let_def)
qed

lemma snapshot_path: "snapshot_dir p \<noteq> [] \<Longrightarrow> last (snapshot_dir p) \<noteq> CHR ''/'' \<Longrightarrow> plain_state s \<Longrightarrow>
  path_join (snapshot_dir p) (s @ ''.qcow2'') = snapshot_file p s"
  by (cases s; cases "snapshot_dir p" rule: rev_cases)
    (auto simp: path_join_def startswith_def endswith_def plain_state_def snapshot_file_def)

text \<open>Copying onto a fresh name below an existing directory adds exactly that name.\<close>

lemma copy_fresh_snapshot:
  assumes "makedirs (snapshot_dir p) fs = Inr fs1" and "copy_file src (snapshot_file p s) fs1 = Inr fs2"
    and "map_of fs (snapshot_dir p) = Some Dir" and "\<not> dict_has fs (snapshot_file p s)"
  shows "map_of fs2 (snapshot_dir p) = Some Dir
    \<and> (\<forall>r. dict_has fs2 (snapshot_file p r) \<longleftrightarrow> r = s \<or> dict_has fs (snapshot_file p r))"
proof -
  let ?f = "snapshot_file p s"
  have old: "dict_has fs1 (snapshot_file p r) \<longleftrightarrow> dict_has fs (snapshot_file p r)" for r
  proof
    assume h: "dict_has fs1 (snapshot_file p r)"
    show "dict_has fs (snapshot_file p r)"
    proof (rule ccontr)
      assume "\<not> dict_has fs (snapshot_file p r)"
      with h have "map_of fs (snapshot_file p r) = None" "map_of fs1 (snapshot_file p r) \<noteq> None"
        by (auto simp: dict_has_def)
      then obtain nd where "map_of fs1 (snapshot_file p r) = Some nd" by auto
      then have "length (snapshot_file p r) \<le> length (snapshot_dir p)"
        using makedirs_new_length [OF assms(1)] \<open>map_of fs (snapshot_file p r) = None\<close> by blast
      then show False by (simp add: snapshot_file_def)
    qed
  qed (use makedirs_keeps [OF assms(1)] in \<open>auto simp: dict_has_def\<close>)
  have none: "map_of fs1 ?f = None" using old [of s] assms(4) by (simp add: dict_has_def)
  have nl: "\<not> path_islink fs1 ?f" using none by (simp add: path_islink_def)
  have "?f \<noteq> ''/''" "?f \<noteq> []" by (auto simp: snapshot_file_def append_eq_Cons_conv)
  then have "node_at fs1 ?f \<noteq> Some Dir" using none nl by (simp add: node_at_no_link)
  then obtain c where fs2: "fs2 = dict_set ?f (File c) fs1"
    using assms(2) realpath_no_link [OF nl]
    by (auto simp: copy_file_def bindE_Inr_iff Let_def split: if_splits dest: write_file_result)
  have "?f \<noteq> snapshot_dir p" by (simp add: snapshot_file_def)
  moreover have "snapshot_file p r = ?f \<longleftrightarrow> r = s" for r by (simp add: snapshot_file_def)
  ultimately show ?thesis
    using makedirs_keeps [OF assms(1,3)] old by (simp add: fs2)
qed

lemma fsM_eq_Inr:
  "fsM f w = (Inr u, w') \<longleftrightarrow> (\<exists>fs. f (w_local w) = Inr fs \<and> w' = w\<lparr>w_local := fs\<rparr>)"
  by (auto simp: fsM_def split: sum.splits)

lemma ext_set_listed:
  assumes "ext_fits im p w" and "p_getitem p ''set_state'' = Inr s" and "plain_state s"
    and "s \<notin> set (ext_listed p w)" and "ext_set im p obj w = (Inr p', w')"
  shows "ext_fits im p w' \<and> set (ext_listed p w') = insert s (set (ext_listed p w))"
proof -
  from assms(1) obtain vm_name where
    names: "ext_names p = Inr (vm_name, p_get_or p ''images'' [], p_get_or p ''swarm_pool'' [],
       path_join (p_get_or p ''swarm_pool'' []) (p_get_or p ''object_id'' []))"
    and d: "snapshot_dir p \<noteq> []" "last (snapshot_dir p) \<noteq> CHR ''/''"
      "map_of (w_local w) (snapshot_dir p) = Some Dir"
    by (rule ext_fitsD)
  have fresh: "\<not> dict_has (w_local w) (snapshot_file p s)"
    using assms(3,4) in_ext_listed [OF assms(1)] by blast
  then have none: "map_of (w_local w) (snapshot_file p s) = None" by (simp add: dict_has_def)
  have "snapshot_file p s \<noteq> ''/''" by (auto simp: snapshot_file_def append_eq_Cons_conv)
  then have "\<not> path_exists (w_local w) (snapshot_file p s)"
    using none by (simp add: path_exists_def node_at_def realpath_no_link path_islink_def)
  then obtain src fs1 fs2 where m: "makedirs (snapshot_dir p) (w_local w) = Inr fs1"
    and c: "copy_file src (snapshot_file p s) fs1 = Inr fs2" and w': "w' = w\<lparr>w_local := fs2\<rparr>"
    using assms(5)
    by (auto simp: ext_set_def names assms(2) snapshot_dir_def [symmetric] snapshot_path [OF d(1,2) assms(3)]
        Let_def bindM_eq_Inr io_eq_Inr thenM_def fs_test_def fsM_eq_Inr if_distribR split: if_splits)
  note copied = copy_fresh_snapshot [OF m c d(3) fresh]
  have fits: "ext_fits im p w'"
    unfolding w' using copied by (intro ext_fits_world [OF assms(1)]) simp
  have "r \<in> set (ext_listed p w') \<longleftrightarrow> r \<in> insert s (set (ext_listed p w))" for r
    using in_ext_listed [OF fits] in_ext_listed [OF assms(1)] copied assms(3) by (auto simp: w')
  then show ?thesis using fits by blast
qed

lemma ext_unset_listed:
  assumes "ext_fits im p w" and "p_getitem p ''unset_state'' = Inr s" and "plain_state s"
    and "ext_unset p obj w = (Inr p', w')"
  shows "ext_fits im p w' \<and> set (ext_listed p w') = set (ext_listed p w) - {s}"
proof -
  from assms(1) obtain vm_name where
    names: "ext_names p = Inr (vm_name, p_get_or p ''images'' [], p_get_or p ''swarm_pool'' [],
       path_join (p_get_or p ''swarm_pool'' []) (p_get_or p ''object_id'' []))"
    and d: "snapshot_dir p \<noteq> []" "last (snapshot_dir p) \<noteq> CHR ''/''"
      "map_of (w_local w) (snapshot_dir p) = Some Dir"
    by (rule ext_fitsD)
  obtain fs where u: "unlink (snapshot_file p s) (w_local w) = Inr fs" and w': "w' = w\<lparr>w_local := fs\<rparr>"
    using assms(4)
    by (auto simp: ext_unset_def names assms(2) snapshot_dir_def [symmetric] snapshot_path [OF d(1,2) assms(3)]
        bindM_eq_Inr io_eq_Inr thenM_def fsM_eq_Inr)
  have files: "snapshot_dir p \<noteq> snapshot_file p s" "snapshot_file p r = snapshot_file p s \<longleftrightarrow> r = s" for r
    by (auto simp: snapshot_file_def)
  have fits: "ext_fits im p w'"
    unfolding w' using d(3) files(1) unlink_result [OF u] by (intro ext_fits_world [OF assms(1)]) simp
  have "r \<in> set (ext_listed p w') \<longleftrightarrow> r \<in> set (ext_listed p w) - {s}" for r
    using in_ext_listed [OF fits] in_ext_listed [OF assms(1)] unlink_result [OF u] files(2)
    by (auto simp: w' dict_has_def)
  then show ?thesis using fits by blast
qed

interpretation ext_store: local_store "ext_ops im" "ext_fits im" ext_listed plain_state for im
proof
  show "l_show (ext_ops im) p obj w = (Inr (ext_listed p w, p), w)" if "ext_fits im p w" for p obj w
    using ext_show_run [OF that] by (simp add: ext_ops_def)
  show "ext_fits im p w' \<and> set (ext_listed p w') = insert s (set (ext_listed p w))"
    if "ext_fits im p w" "p_getitem p ''set_state'' = Inr s" "plain_state s" "s \<notin> set (ext_listed p w)"
      "l_set (ext_ops im) p obj w = (Inr p', w')" for p w s obj p' w'
    using ext_set_listed [OF that(1-4)] that(5) by (simp add: ext_ops_def)
  show "ext_fits im p w' \<and> set (ext_listed p w') = set (ext_listed p w) - {s}"
    if "ext_fits im p w" "p_getitem p ''unset_state'' = Inr s" "plain_state s"
      "l_unset (ext_ops im) p obj w = (Inr p', w')" for p w s obj p' w'
    using ext_unset_listed [OF that(1-3)] that(4) by (simp add: ext_ops_def)
qed

section \<open>Properties\<close>

definition example_images :: "string images" where
  "example_images = \<lparr>
     i_filename = (\<lambda>q dir name. path_join dir (name @ ''.qcow2'')),
     i_backing = (\<lambda>q dir name w. Inr []), i_create = (\<lambda>q dir name. retM ()),
     i_commit = (\<lambda>q dir name. retM ()), i_alive = (\<lambda>vm w. False),
     i_destroy = (\<lambda>vm g. retM ()), i_preprocess = (\<lambda>q name. retM ()), i_postprocess = (\<lambda>q name. retM ())\<rparr>"

definition example_ext_params :: params where
  "example_ext_params = [(''vms'', ''v''), (''images'', ''i''), (''object_id'', ''v''),
     (''swarm_pool'', ''/o''), (''vms_base_dir'', ''/b''), (''pool_scope'', ''own''),
     (''set_state'', ''s''), (''unset_state'', ''s'')]"

definition example_disk :: "string world" where
  "example_disk = \<lparr>w_local = [(''/o'', Dir), (''/o/v'', Dir), (''/o/v/i'', Dir), (''/o/v/i/t.qcow2'', File ''t''),
     (''/b'', Dir), (''/b/v'', Dir), (''/b/v/i.qcow2'', File ''top'')], w_sessions = []\<rparr>"





end
