(* ===== verification/Des.thy ===== *)
theory Des
  imports PyBase
begin

text \<open>
  Model of the DES cipher of \<open>virttest/RFBDes.py\<close> (the VNC authentication of RFB) and of the
  bit-list conversions of \<open>virttest/utils_misc.py\<close> it uses. Strings are lists of code points,
  bits are the numbers 0 and 1; an instance of \<open>Des\<close> is the record \<open>des\<close>, and its
  methods run in the world-passing monad over it because they overwrite the two halves. The
  second part relates them to a pure Feistel network, whose inversion is proved once in the
  locale \<open>feistel\<close>.
\<close>

unbundle bit_operations_syntax

section \<open>Tables\<close>

definition des_PC1 :: "nat list" where
  "des_PC1 = [
     56, 48, 40, 32, 24, 16, 8, 0, 57, 49, 41, 33, 25, 17, 9, 1,
     58, 50, 42, 34, 26, 18, 10, 2, 59, 51, 43, 35, 62, 54, 46, 38,
     30, 22, 14, 6, 61, 53, 45, 37, 29, 21, 13, 5, 60, 52, 44, 36,
     28, 20, 12, 4, 27, 19, 11, 3]"

definition left_rotations :: "nat list" where
  "left_rotations = [
     1, 1, 2, 2, 2, 2, 2, 2, 1, 2, 2, 2, 2, 2, 2, 1]"

definition des_PC2 :: "nat list" where
  "des_PC2 = [
     13, 16, 10, 23, 0, 4, 2, 27, 14, 5, 20, 9, 22, 18, 11, 3,
     25, 7, 15, 6, 26, 19, 12, 1, 40, 51, 30, 36, 46, 54, 29, 39,
     50, 44, 32, 47, 43, 48, 38, 55, 33, 52, 45, 41, 49, 35, 28, 31]"

definition des_IP :: "nat list" where
  "des_IP = [
     57, 49, 41, 33, 25, 17, 9, 1, 59, 51, 43, 35, 27, 19, 11, 3,
     61, 53, 45, 37, 29, 21, 13, 5, 63, 55, 47, 39, 31, 23, 15, 7,
     56, 48, 40, 32, 24, 16, 8, 0, 58, 50, 42, 34, 26, 18, 10, 2,
     60, 52, 44, 36, 28, 20, 12, 4, 62, 54, 46, 38, 30, 22, 14, 6]"

definition des_E :: "nat list" where
  "des_E = [
     31, 0, 1, 2, 3, 4, 3, 4, 5, 6, 7, 8, 7, 8, 9, 10,
     11, 12, 11, 12, 13, 14, 15, 16, 15, 16, 17, 18, 19, 20, 19, 20,
     21, 22, 23, 24, 23, 24, 25, 26, 27, 28, 27, 28, 29, 30, 31, 0]"

definition sbox_S1 :: "nat list" where
  "sbox_S1 = [
     14, 4, 13, 1, 2, 15, 11, 8, 3, 10, 6, 12, 5, 9, 0, 7,
     0, 15, 7, 4, 14, 2, 13, 1, 10, 6, 12, 11, 9, 5, 3, 8,
     4, 1, 14, 8, 13, 6, 2, 11, 15, 12, 9, 7, 3, 10, 5, 0,
     15, 12, 8, 2, 4, 9, 1, 7, 5, 11, 3, 14, 10, 0, 6, 13]"

definition sbox_S2 :: "nat list" where
  "sbox_S2 = [
     15, 1, 8, 14, 6, 11, 3, 4, 9, 7, 2, 13, 12, 0, 5, 10,
     3, 13, 4, 7, 15, 2, 8, 14, 12, 0, 1, 10, 6, 9, 11, 5,
     0, 14, 7, 11, 10, 4, 13, 1, 5, 8, 12, 6, 9, 3, 2, 15,
     13, 8, 10, 1, 3, 15, 4, 2, 11, 6, 7, 12, 0, 5, 14, 9]"

definition sbox_S3 :: "nat list" where
  "sbox_S3 = [
     10, 0, 9, 14, 6, 3, 15, 5, 1, 13, 12, 7, 11, 4, 2, 8,
     13, 7, 0, 9, 3, 4, 6, 10, 2, 8, 5, 14, 12, 11, 15, 1,
     13, 6, 4, 9, 8, 15, 3, 0, 11, 1, 2, 12, 5, 10, 14, 7,
     1, 10, 13, 0, 6, 9, 8, 7, 4, 15, 14, 3, 11, 5, 2, 12]"

definition sbox_S4 :: "nat list" where
  "sbox_S4 = [
     7, 13, 14, 3, 0, 6, 9, 10, 1, 2, 8, 5, 11, 12, 4, 15,
     13, 8, 11, 5, 6, 15, 0, 3, 4, 7, 2, 12, 1, 10, 14, 9,
     10, 6, 9, 0, 12, 11, 7, 13, 15, 1, 3, 14, 5, 2, 8, 4,
     3, 15, 0, 6, 10, 1, 13, 8, 9, 4, 5, 11, 12, 7, 2, 14]"

definition sbox_S5 :: "nat list" where
  "sbox_S5 = [
     2, 12, 4, 1, 7, 10, 11, 6, 8, 5, 3, 15, 13, 0, 14, 9,
     14, 11, 2, 12, 4, 7, 13, 1, 5, 0, 15, 10, 3, 9, 8, 6,
     4, 2, 1, 11, 10, 13, 7, 8, 15, 9, 12, 5, 6, 3, 0, 14,
     11, 8, 12, 7, 1, 14, 2, 13, 6, 15, 0, 9, 10, 4, 5, 3]"

definition sbox_S6 :: "nat list" where
  "sbox_S6 = [
     12, 1, 10, 15, 9, 2, 6, 8, 0, 13, 3, 4, 14, 7, 5, 11,
     10, 15, 4, 2, 7, 12, 9, 5, 6, 1, 13, 14, 0, 11, 3, 8,
     9, 14, 15, 5, 2, 8, 12, 3, 7, 0, 4, 10, 1, 13, 11, 6,
     4, 3, 2, 12, 9, 5, 15, 10, 11, 14, 1, 7, 6, 0, 8, 13]"

definition sbox_S7 :: "nat list" where
  "sbox_S7 = [
     4, 11, 2, 14, 15, 0, 8, 13, 3, 12, 9, 7, 5, 10, 6, 1,
     13, 0, 11, 7, 4, 9, 1, 10, 14, 3, 5, 12, 2, 15, 8, 6,
     1, 4, 11, 13, 12, 3, 7, 14, 10, 15, 6, 8, 0, 5, 9, 2,
     6, 11, 13, 8, 1, 4, 10, 7, 9, 5, 0, 15, 14, 2, 3, 12]"

definition sbox_S8 :: "nat list" where
  "sbox_S8 = [
     13, 2, 8, 4, 6, 15, 11, 1, 10, 9, 3, 14, 5, 0, 12, 7,
     1, 15, 13, 8, 10, 3, 7, 4, 12, 5, 6, 11, 0, 14, 9, 2,
     7, 11, 4, 1, 9, 12, 14, 2, 0, 6, 10, 13, 15, 3, 5, 8,
     2, 1, 14, 7, 4, 10, 8, 13, 15, 12, 9, 0, 3, 5, 6, 11]"

definition sbox :: "nat list list" where
  "sbox = [sbox_S1, sbox_S2, sbox_S3, sbox_S4, sbox_S5, sbox_S6, sbox_S7, sbox_S8]"

definition des_P :: "nat list" where
  "des_P = [
     15, 6, 19, 20, 28, 11, 27, 16, 0, 14, 22, 25, 4, 17, 30, 9,
     1, 7, 23, 13, 31, 26, 2, 8, 18, 12, 29, 5, 21, 10, 3, 24]"

definition des_FP :: "nat list" where
  "des_FP = [
     39, 7, 47, 15, 55, 23, 63, 31, 38, 6, 46, 14, 54, 22, 62, 30,
     37, 5, 45, 13, 53, 21, 61, 29, 36, 4, 44, 12, 52, 20, 60, 28,
     35, 3, 43, 11, 51, 19, 59, 27, 34, 2, 42, 10, 50, 18, 58, 26,
     33, 1, 41, 9, 49, 17, 57, 25, 32, 0, 40, 8, 48, 16, 56, 24]"

section \<open>Bit lists\<close>

text \<open>\<open>bitlist_to_string\<close>: trailing bits that fill no byte are dropped.\<close>

fun bitlist_loop :: "nat \<Rightarrow> nat \<Rightarrow> nat list \<Rightarrow> nat list" where
  "bitlist_loop pos c [] = []"
| "bitlist_loop pos c (b # data) =
     (let c = c + push_bit (7 - pos mod 8) b in
      if pos mod 8 = 7 then c # bitlist_loop (Suc pos) 0 data else bitlist_loop (Suc pos) c data)"

definition bitlist_to_string :: "nat list \<Rightarrow> nat list" where
  "bitlist_to_string data = bitlist_loop 0 0 data"

definition byte_bits :: "nat \<Rightarrow> nat list" where
  "byte_bits ch = map (\<lambda>i. if ch AND push_bit i 1 \<noteq> 0 then 1 else 0) [7, 6, 5, 4, 3, 2, 1, 0]"

definition string_to_bitlist :: "nat list \<Rightarrow> nat list" where
  "string_to_bitlist data = concat (map byte_bits data)"

section \<open>The cipher\<close>

record des =
  d_key :: "nat list"
  d_L :: "nat list"
  d_R :: "nat list"
  d_Kn :: "nat list list"

primrec get_sub_list :: "nat list \<Rightarrow> nat list \<Rightarrow> nat list res" where
  "get_sub_list [] block = Inr []"
| "get_sub_list (x # table) block =
     bindE (index_nth block x) (\<lambda>b. bindE (get_sub_list table block) (\<lambda>bs. Inr (b # bs)))"

text \<open>The bits of each byte of the key are put in reverse order.\<close>

definition mirror_byte :: "nat \<Rightarrow> nat" where
  "mirror_byte bsrc =
     fold (\<lambda>i btgt. if bsrc AND push_bit i 1 \<noteq> 0 then btgt OR push_bit (7 - i) 1 else btgt) [0..<8] 0"

text \<open>\<open>xs.append(xs[0]); del xs[0]\<close>.\<close>

definition rotate_left :: "nat list \<Rightarrow> nat list res" where
  "rotate_left xs = bindE (index_nth xs 0) (\<lambda>x. Inr (tl (xs @ [x])))"

definition rotate_halves :: "(des, unit) io" where
  "rotate_halves =
     bindM (getM d_L) (\<lambda>l. bindM (liftM (rotate_left l)) (\<lambda>l.
     thenM (modifyM (\<lambda>d. d\<lparr>d_L := l\<rparr>))
     (bindM (getM d_R) (\<lambda>r. bindM (liftM (rotate_left r)) (\<lambda>r.
        modifyM (\<lambda>d. d\<lparr>d_R := r\<rparr>))))))"

definition create_subkey :: "nat \<Rightarrow> (des, unit) io" where
  "create_subkey i =
     bindM (liftM (index_nth left_rotations i)) (\<lambda>n.
     thenM (forM (\<lambda>j. rotate_halves) [0..<n])
     (bindM (getM (\<lambda>d. d_L d @ d_R d)) (\<lambda>lr.
      bindM (liftM (get_sub_list des_PC2 lr)) (\<lambda>k.
        modifyM (\<lambda>d. d\<lparr>d_Kn := (d_Kn d)[i := k]\<rparr>)))))"

definition create_Kn :: "(des, unit) io" where
  "create_Kn =
     bindM (getM d_key) (\<lambda>key.
     bindM (liftM (get_sub_list des_PC1 (string_to_bitlist key))) (\<lambda>key.
     thenM (modifyM (\<lambda>d. d\<lparr>d_L := take 28 key, d_R := drop 28 key\<rparr>))
       (forM create_subkey [0..<16])))"

definition setKey :: "nat list \<Rightarrow> (des, unit) io" where
  "setKey key = thenM (modifyM (\<lambda>d. d\<lparr>d_key := map mirror_byte key\<rparr>)) create_Kn"

text \<open>The constructor pads the key with zero bytes or cuts it to eight.\<close>

definition des_init :: "nat list \<Rightarrow> unit res \<times> des" where
  "des_init key =
     (let key = (if length key \<noteq> 8 then take 8 (key @ replicate 8 0) else key)
      in setKey key \<lparr>d_key = [], d_L = [], d_R = [], d_Kn = replicate 16 (replicate 48 0)\<rparr>)"

text \<open>One S-box: six bits select the row and the column, four bits come out.\<close>

definition sbox_bits :: "nat list \<Rightarrow> nat list \<Rightarrow> nat list res" where
  "sbox_bits box b =
     bindE (index_nth b 0) (\<lambda>b0. bindE (index_nth b 5) (\<lambda>b5.
     bindE (index_nth b 1) (\<lambda>b1. bindE (index_nth b 2) (\<lambda>b2.
     bindE (index_nth b 3) (\<lambda>b3. bindE (index_nth b 4) (\<lambda>b4.
       let m = push_bit 1 b0 + b5;
           n = push_bit 3 b1 + push_bit 2 b2 + push_bit 1 b3 + b4
       in bindE (index_nth box (push_bit 4 m + n)) (\<lambda>v.
            Inr [drop_bit 3 (v AND 8), drop_bit 2 (v AND 4), drop_bit 1 (v AND 2), v AND 1])))))))"

primrec substitution :: "(nat list \<times> nat list) list \<Rightarrow> nat list res" where
  "substitution [] = Inr []"
| "substitution (p # ps) =
     bindE (sbox_bits (fst p) (snd p)) (\<lambda>v. bindE (substitution ps) (\<lambda>vs. Inr (v @ vs)))"

definition six_bit_pieces :: "nat list \<Rightarrow> nat list list" where
  "six_bit_pieces r =
     [take 6 r, take 6 (drop 6 r), take 6 (drop 12 r), take 6 (drop 18 r), take 6 (drop 24 r),
      take 6 (drop 30 r), take 6 (drop 36 r), drop 42 r]"

definition xor_bits :: "nat list \<Rightarrow> nat list \<Rightarrow> nat list" where
  "xor_bits xs ys = map2 (\<lambda>x y. x XOR y) xs ys"

definition des_f :: "nat list \<Rightarrow> (des, unit) io" where
  "des_f K =
     bindM (getM d_R) (\<lambda>r. bindM (liftM (get_sub_list des_E r)) (\<lambda>r.
     thenM (modifyM (\<lambda>d. d\<lparr>d_R := r\<rparr>))
     (thenM (modifyM (\<lambda>d. d\<lparr>d_R := xor_bits (d_R d) K\<rparr>))
     (bindM (getM (\<lambda>d. six_bit_pieces (d_R d))) (\<lambda>B.
      bindM (liftM (substitution (zip sbox B))) (\<lambda>Bn.
      bindM (liftM (get_sub_list des_P Bn)) (\<lambda>r. modifyM (\<lambda>d. d\<lparr>d_R := r\<rparr>))))))))"

text \<open>The sixteen rounds; the first argument counts the rounds that are left.\<close>

primrec crypt_rounds :: "nat \<Rightarrow> int \<Rightarrow> int \<Rightarrow> (des, unit) io" where
  "crypt_rounds 0 des_i des_adj = retM ()"
| "crypt_rounds (Suc n) des_i des_adj =
     bindM (getM d_R) (\<lambda>tempR.
     bindM (getM d_Kn) (\<lambda>Kn.
     bindM (liftM (index_nth Kn (nat des_i))) (\<lambda>K.
     thenM (des_f K)
     (thenM (modifyM (\<lambda>d. d\<lparr>d_R := xor_bits (d_R d) (d_L d)\<rparr>))
     (thenM (modifyM (\<lambda>d. d\<lparr>d_L := tempR\<rparr>))
       (crypt_rounds n (des_i + des_adj) des_adj))))))"

definition des_crypt :: "nat list \<Rightarrow> nat \<Rightarrow> (des, nat list) io" where
  "des_crypt data crypt_type =
     bindM (liftM (get_sub_list des_IP data)) (\<lambda>block.
     thenM (modifyM (\<lambda>d. d\<lparr>d_L := take 32 block, d_R := drop 32 block\<rparr>))
     (let (des_i, des_adj) = (if crypt_type = 0 then (0, 1) else (15, -1)) in
      thenM (crypt_rounds 16 des_i des_adj)
      (bindM (getM (\<lambda>d. d_R d @ d_L d)) (\<lambda>rl. liftM (get_sub_list des_FP rl)))))"

function crypt :: "nat list \<Rightarrow> nat \<Rightarrow> (des, nat list) io" where
  "crypt data crypt_type =
     (if data = [] then retM []
      else bindM (des_crypt (string_to_bitlist (take 8 data)) crypt_type) (\<lambda>pro_block.
           bindM (crypt (drop 8 data) crypt_type) (\<lambda>result.
             retM (bitlist_to_string pro_block @ result))))"
  by pat_completeness auto
termination
  by (relation "measure (\<lambda>(data, crypt_type). length data)") auto

declare crypt.simps [simp del]

section \<open>The Feistel network\<close>

text \<open>
  The interface of a Feistel network: a round function and a mixing that undoes itself, on
  well-formed halves and subkeys.
\<close>

primrec feistel_rounds :: "('b \<Rightarrow> 'b \<Rightarrow> 'b) \<Rightarrow> ('k \<Rightarrow> 'b \<Rightarrow> 'b) \<Rightarrow> 'k list \<Rightarrow> 'b \<times> 'b \<Rightarrow> 'b \<times> 'b" where
  "feistel_rounds mix F [] lr = lr"
| "feistel_rounds mix F (k # ks) lr = feistel_rounds mix F ks (snd lr, mix (F k (snd lr)) (fst lr))"

locale feistel =
  fixes half :: "'b \<Rightarrow> bool" and subkey :: "'k \<Rightarrow> bool"
    and mix :: "'b \<Rightarrow> 'b \<Rightarrow> 'b" and F :: "'k \<Rightarrow> 'b \<Rightarrow> 'b"
  assumes F_half: "subkey k \<Longrightarrow> half r \<Longrightarrow> half (F k r)"
    and mix_half: "half a \<Longrightarrow> half b \<Longrightarrow> half (mix a b)"
    and mix_cancel: "half a \<Longrightarrow> half b \<Longrightarrow> mix a (mix a b) = b"
begin

lemma rounds_half:
  "list_all subkey ks \<Longrightarrow> half (fst lr) \<Longrightarrow> half (snd lr) \<Longrightarrow>
   half (fst (feistel_rounds mix F ks lr)) \<and> half (snd (feistel_rounds mix F ks lr))"
  by (induction ks arbitrary: lr) (simp_all add: F_half mix_half)

lemma rounds_append:
  "feistel_rounds mix F (ks @ ks') lr = feistel_rounds mix F ks' (feistel_rounds mix F ks lr)"
  by (induction ks arbitrary: lr) simp_all

text \<open>The rounds run backwards, halves exchanged, give back the input, halves exchanged.\<close>

lemma rounds_inverse:
  "list_all subkey ks \<Longrightarrow> half (fst lr) \<Longrightarrow> half (snd lr) \<Longrightarrow>
   feistel_rounds mix F (rev ks) (prod.swap (feistel_rounds mix F ks lr)) = prod.swap lr"
proof (induction ks arbitrary: lr)
  case (Cons k ks)
  let ?lr = "(snd lr, mix (F k (snd lr)) (fst lr))"
  have "feistel_rounds mix F (rev ks) (prod.swap (feistel_rounds mix F ks ?lr)) = prod.swap ?lr"
    using Cons.prems by (intro Cons.IH) (simp_all add: F_half mix_half)
  then show ?case
    using Cons.prems by (cases lr) (simp add: rounds_append F_half mix_cancel)
qed simp

end


section \<open>The methods run the network\<close>

text \<open>Well-formed blocks: so many elements, each 0 or 1.\<close>

definition is_bits :: "nat \<Rightarrow> nat list \<Rightarrow> bool" where
  "is_bits n xs \<longleftrightarrow> length xs = n \<and> list_all (\<lambda>b. b < 2) xs"

lemma is_bits_nth: "is_bits n xs \<Longrightarrow> i < n \<Longrightarrow> xs ! i < 2"
  by (auto simp: is_bits_def list_all_length)

lemma is_bits_take_drop: "is_bits n xs \<Longrightarrow> m \<le> n \<Longrightarrow> is_bits m (take m xs)"
    "is_bits n xs \<Longrightarrow> is_bits (n - m) (drop m xs)"
  by (auto simp: is_bits_def list_all_iff dest: in_set_takeD in_set_dropD)

lemma is_bits_append: "is_bits m xs \<Longrightarrow> is_bits n ys \<Longrightarrow> is_bits (m + n) (xs @ ys)"
  by (simp add: is_bits_def)

definition below :: "nat \<Rightarrow> nat list \<Rightarrow> bool" where
  "below n table \<longleftrightarrow> list_all (\<lambda>x. x < n) table"

lemma get_sub_list_nth:
  "below (length block) table \<Longrightarrow> get_sub_list table block = Inr (map ((!) block) table)"
  by (induction table) (simp_all add: below_def index_nth_def)

lemma get_sub_list_bits:
  assumes "is_bits n block" and "below n table"
  shows "get_sub_list table block = Inr (map ((!) block) table)"
    and "is_bits (length table) (map ((!) block) table)"
proof -
  show "get_sub_list table block = Inr (map ((!) block) table)"
    using assms by (intro get_sub_list_nth) (simp add: is_bits_def)
  show "is_bits (length table) (map ((!) block) table)"
    using assms by (auto simp: is_bits_def below_def list_all_iff)
qed

lemma tables_below:
  "below 64 des_PC1" "below 56 des_PC2" "below 64 des_IP" "below 32 des_E" "below 32 des_P"
  "below 64 des_FP"
  by (simp_all add: below_def des_PC1_def des_PC2_def des_IP_def des_E_def des_P_def des_FP_def)

lemma tables_length [simp]:
  "length des_PC1 = 56" "length des_PC2 = 48" "length des_IP = 64" "length des_E = 48"
  "length des_P = 32" "length des_FP = 64" "length sbox = 8" "length left_rotations = 16"
  by (simp_all add: des_PC1_def des_PC2_def des_IP_def des_E_def des_P_def des_FP_def sbox_def
      left_rotations_def)

text \<open>The final permutation undoes the initial one, and the other way round.\<close>

lemma IP_FP_tables:
  "map ((!) des_FP) des_IP = [0..<64]" "map ((!) des_IP) des_FP = [0..<64]"
  by (simp_all add: des_IP_def des_FP_def upt_rec)

lemma FP_after_IP:
  assumes "length block = 64"
  shows "map ((!) (map ((!) block) des_IP)) des_FP = block"
    and "map ((!) (map ((!) block) des_FP)) des_IP = block"
proof -
  have comp: "map ((!) (map ((!) block) t)) t' = map ((!) block) (map ((!) t) t')"
    if "below (length t) t'" for t t'
    using that by (auto simp: below_def list_all_iff)
  have block: "map ((!) block) [0..<64] = block"
    using map_nth [of block] assms by simp
  show "map ((!) (map ((!) block) des_IP)) des_FP = block"
    using block tables_below by (subst comp) (simp_all add: IP_FP_tables)
  show "map ((!) (map ((!) block) des_FP)) des_IP = block"
    using block tables_below by (subst comp) (simp_all add: IP_FP_tables)
qed

text \<open>The S-boxes as arithmetic: row \<open>2 b0 + b5\<close>, column \<open>8 b1 + 4 b2 + 2 b3 + b4\<close>.\<close>

definition sbox_out :: "nat list \<Rightarrow> nat list \<Rightarrow> nat list" where
  "sbox_out box b =
     (let v = box ! (16 * (2 * b ! 0 + b ! 5) + 8 * b ! 1 + 4 * b ! 2 + 2 * b ! 3 + b ! 4)
      in [v div 8 mod 2, v div 4 mod 2, v div 2 mod 2, v mod 2])"

lemma sbox_bits_out:
  assumes "length box = 64" and "is_bits 6 b"
  shows "sbox_bits box b = Inr (sbox_out box b)"
proof -
  have lt: "b ! 0 < 2" "b ! 1 < 2" "b ! 2 < 2" "b ! 3 < 2" "b ! 4 < 2" "b ! 5 < 2"
    using assms(2) by (auto intro: is_bits_nth)
  let ?i = "16 * (2 * b ! 0 + b ! 5) + 8 * b ! 1 + 4 * b ! 2 + 2 * b ! 3 + b ! 4"
  have "16 * (2 * a + f) + 8 * c + 4 * p + 2 * q + r < 64"
    if "a < 2" "c < 2" "p < 2" "q < 2" "r < 2" "f < 2" for a c p q r f :: nat
    using that by auto
  then have i: "?i < length box" using lt assms(1) by simp
  have push: "push_bit 4 m + n = 16 * m + n" for m n :: nat
    by (simp add: push_bit_eq_mult)
  have sel: "drop_bit 3 (v AND 8) = v div 8 mod 2" "drop_bit 2 (v AND 4) = v div 4 mod 2"
    "drop_bit 1 (v AND 2) = v div 2 mod 2" "v AND 1 = v mod 2" for v :: nat
  proof -
    have sel: "drop_bit n (v AND push_bit n 1) = v div 2 ^ n mod 2" for n
      unfolding drop_bit_and by (simp add: drop_bit_eq_div and_one_eq)
    show "drop_bit 3 (v AND 8) = v div 8 mod 2" using sel [of 3] by simp
    show "drop_bit 2 (v AND 4) = v div 4 mod 2" using sel [of 2] by simp
    show "drop_bit 1 (v AND 2) = v div 2 mod 2" using sel [of 1] by simp
    show "v AND 1 = v mod 2" by (simp add: and_one_eq)
  qed
  have small: "push_bit 3 x = 8 * x" "push_bit 2 x = 4 * x" "push_bit 1 x = 2 * x" for x :: nat
    by (simp_all add: push_bit_eq_mult)
  have "length b = 6" using assms(2) by (simp add: is_bits_def)
  then show ?thesis
    using i unfolding sbox_bits_def sbox_out_def Let_def index_nth_def sel push small
    by (simp add: add.assoc)
qed

lemma sbox_out_bits: "is_bits 4 (sbox_out box b)"
  by (simp add: is_bits_def sbox_out_def Let_def)

lemma substitution_out:
  "list_all (\<lambda>p. length (fst p) = 64 \<and> is_bits 6 (snd p)) ps \<Longrightarrow>
   substitution ps = Inr (concat (map (\<lambda>p. sbox_out (fst p) (snd p)) ps))"
  by (induction ps) (simp_all add: sbox_bits_out)

lemma concat_sbox_bits: "is_bits (4 * length ps) (concat (map (\<lambda>p. sbox_out (fst p) (snd p)) ps))"
  by (induction ps) (use is_bits_append [OF sbox_out_bits] in \<open>force simp: is_bits_def\<close>)+

lemma six_bit_pieces_bits: "is_bits 48 r \<Longrightarrow> list_all (is_bits 6) (six_bit_pieces r)"
  using is_bits_take_drop(2) [of 48 r 42]
  by (simp add: six_bit_pieces_def) (auto intro!: is_bits_take_drop(1) dest: is_bits_take_drop(2))

lemma zip_sbox_ok:
  "is_bits 48 r \<Longrightarrow> list_all (\<lambda>p. length (fst p) = 64 \<and> is_bits 6 (snd p)) (zip sbox (six_bit_pieces r))"
  using six_bit_pieces_bits [of r]
  by (simp add: six_bit_pieces_def sbox_def sbox_S1_def sbox_S2_def sbox_S3_def sbox_S4_def
      sbox_S5_def sbox_S6_def sbox_S7_def sbox_S8_def)

lemma xor_lt2: "x < 2 \<Longrightarrow> y < 2 \<Longrightarrow> x XOR y < (2::nat)"
  by (auto simp: less_2_cases_iff)

lemma xor_bits_is_bits: "is_bits n a \<Longrightarrow> is_bits n b \<Longrightarrow> is_bits n (xor_bits a b)"
  by (auto simp: is_bits_def xor_bits_def list_all_length xor_lt2)

lemma xor_bits_cancel: "length a = length b \<Longrightarrow> xor_bits a (xor_bits a b) = b"
  by (auto simp: xor_bits_def intro!: nth_equalityI simp flip: xor.assoc)

lemma xor_bits_commute: "xor_bits a b = xor_bits b a"
  by (simp add: xor_bits_def zip_commute [of a b] xor.commute split_def comp_def)

text \<open>The round function of DES as a function of the subkey and the right half.\<close>

definition round_F :: "nat list \<Rightarrow> nat list \<Rightarrow> nat list" where
  "round_F K r =
     map ((!) (concat (map (\<lambda>p. sbox_out (fst p) (snd p))
       (zip sbox (six_bit_pieces (xor_bits (map ((!) r) des_E) K)))))) des_P"

lemma round_F_bits: "is_bits 32 (round_F K r)"
proof -
  have "is_bits 32 (concat (map (\<lambda>p. sbox_out (fst p) (snd p)) (zip sbox (six_bit_pieces s))))" for s
    using concat_sbox_bits [of "zip sbox (six_bit_pieces s)"] by (simp add: six_bit_pieces_def)
  then show ?thesis
    using get_sub_list_bits(2) [OF _ tables_below(5)] by (simp add: round_F_def)
qed

interpretation des_feistel: feistel "is_bits 32" "is_bits 48" "\<lambda>a b. xor_bits a b" round_F
  by unfold_locales (simp_all add: round_F_bits xor_bits_is_bits, simp add: xor_bits_cancel is_bits_def)

lemma des_f_run:
  assumes "is_bits 32 (d_R d)" and "is_bits 48 K"
  shows "des_f K d = (Inr (), d\<lparr>d_R := round_F K (d_R d)\<rparr>)"
proof -
  let ?e = "map ((!) (d_R d)) des_E" and ?m = "\<lambda>s. concat (map (\<lambda>p. sbox_out (fst p) (snd p)) (zip sbox s))"
  note e = get_sub_list_bits [OF assms(1) tables_below(4)]
  have x: "is_bits 48 (xor_bits ?e K)"
    using e(2) assms(2) by (intro xor_bits_is_bits) simp_all
  have len: "length (six_bit_pieces s) = 8" for s by (simp add: six_bit_pieces_def)
  have "is_bits 32 (?m (six_bit_pieces (xor_bits ?e K)))"
    using concat_sbox_bits [of "zip sbox (six_bit_pieces (xor_bits ?e K))"] by (simp add: len)
  note p = get_sub_list_bits(1) [OF this tables_below(5)]
  show ?thesis
    by (simp add: des_f_def bindM_def thenM_def io_run e(1) substitution_out [OF zip_sbox_ok [OF x]] p
        round_F_def)
qed

section \<open>The key schedule\<close>

lemma forM_append: "forM f (xs @ ys) = thenM (forM f xs) (forM f ys)"
  by (induction xs) (simp_all add: thenM_def bindM_assoc)

lemma byte_bits_is_bits: "is_bits 8 (byte_bits c)"
  by (simp add: is_bits_def byte_bits_def)

lemma string_to_bitlist_is_bits: "is_bits (8 * length s) (string_to_bitlist s)"
proof (induction s)
  case (Cons c s)
  then show ?case
    using is_bits_append [OF byte_bits_is_bits Cons] by (simp add: string_to_bitlist_def)
qed (simp add: string_to_bitlist_def is_bits_def)

lemma rotate_left_run: "xs \<noteq> [] \<Longrightarrow> rotate_left xs = Inr (rotate1 xs)"
  by (cases xs) (simp_all add: rotate_left_def)

lemma rotate_halves_run:
  "d_L d \<noteq> [] \<Longrightarrow> d_R d \<noteq> [] \<Longrightarrow>
   rotate_halves d = (Inr (), d\<lparr>d_L := rotate1 (d_L d), d_R := rotate1 (d_R d)\<rparr>)"
  by (simp add: rotate_halves_def bindM_def thenM_def io_run rotate_left_run)

lemma rotate_halves_loop:
  "d_L d \<noteq> [] \<Longrightarrow> d_R d \<noteq> [] \<Longrightarrow>
   forM (\<lambda>j. rotate_halves) js d =
     (Inr (), d\<lparr>d_L := rotate (length js) (d_L d), d_R := rotate (length js) (d_R d)\<rparr>)"
proof (induction js arbitrary: d)
  case (Cons j js)
  then show ?case
    by (simp add: thenM_def bindM_def rotate_halves_run rotate1_rotate_swap)
qed (simp add: io_run)

text \<open>The sixteen subkeys as a function of the permuted key.\<close>

definition shift_of :: "nat \<Rightarrow> nat" where
  "shift_of i = sum_list (take i left_rotations)"

definition subkey_of :: "nat list \<Rightarrow> nat list \<Rightarrow> nat \<Rightarrow> nat list" where
  "subkey_of l r i =
     map ((!) (rotate (shift_of (Suc i)) l @ rotate (shift_of (Suc i)) r)) des_PC2"

lemma is_bits_rotate: "is_bits n xs \<Longrightarrow> is_bits n (rotate m xs)"
  by (simp add: is_bits_def list_all_iff)

lemma rotated_halves_bits:
  "is_bits 28 l \<Longrightarrow> is_bits 28 r \<Longrightarrow> is_bits 56 (rotate m l @ rotate m r)"
  using is_bits_append [of 28 "rotate m l" 28 "rotate m r"] by (simp add: is_bits_rotate)

lemma subkey_of_bits: "is_bits 28 l \<Longrightarrow> is_bits 28 r \<Longrightarrow> is_bits 48 (subkey_of l r i)"
  using get_sub_list_bits(2) [OF rotated_halves_bits tables_below(2)] by (simp add: subkey_of_def)

lemma shift_of_Suc: "i < 16 \<Longrightarrow> shift_of (Suc i) = shift_of i + left_rotations ! i"
  by (simp add: shift_of_def take_Suc_conv_app_nth)

lemma create_subkey_run:
  assumes "is_bits 28 l" and "is_bits 28 r" and "i < 16"
    and "d_L d = rotate (shift_of i) l" and "d_R d = rotate (shift_of i) r"
  shows "create_subkey i d = (Inr (), d\<lparr>d_L := rotate (shift_of (Suc i)) l,
    d_R := rotate (shift_of (Suc i)) r, d_Kn := (d_Kn d)[i := subkey_of l r i]\<rparr>)"
proof -
  have ne: "l \<noteq> []" "r \<noteq> []" using assms(1,2) by (auto simp: is_bits_def)
  have rot: "rotate m (rotate (shift_of i) xs) = rotate (shift_of i + m) xs" for m and xs :: "nat list"
    by (simp add: rotate_rotate add.commute)
  note sub = get_sub_list_bits(1) [OF rotated_halves_bits [OF assms(1,2)] tables_below(2)]
  show ?thesis
    using assms(3-5) ne
    by (simp add: create_subkey_def bindM_def thenM_def io_run index_nth_def rotate_halves_loop rot
        shift_of_Suc subkey_of_def sub)
qed

lemma create_subkeys_run:
  assumes "is_bits 28 l" and "is_bits 28 r" and "d_L d = l" and "d_R d = r"
    and "length (d_Kn d) = 16" and "n \<le> 16"
  shows "forM create_subkey [0..<n] d = (Inr (), d\<lparr>d_L := rotate (shift_of n) l,
    d_R := rotate (shift_of n) r, d_Kn := map (subkey_of l r) [0..<n] @ drop n (d_Kn d)\<rparr>)"
  using assms(6)
proof (induction n)
  case 0
  then show ?case using assms by (simp add: io_run shift_of_def)
next
  case (Suc n)
  let ?d = "d\<lparr>d_L := rotate (shift_of n) l, d_R := rotate (shift_of n) r,
    d_Kn := map (subkey_of l r) [0..<n] @ drop n (d_Kn d)\<rparr>"
  have "create_subkey n ?d = (Inr (), ?d\<lparr>d_L := rotate (shift_of (Suc n)) l,
      d_R := rotate (shift_of (Suc n)) r, d_Kn := (d_Kn ?d)[n := subkey_of l r n]\<rparr>)"
    using Suc.prems assms by (intro create_subkey_run) simp_all
  moreover have "(map (subkey_of l r) [0..<n] @ drop n (d_Kn d))[n := subkey_of l r n]
      = map (subkey_of l r) [0..<Suc n] @ drop (Suc n) (d_Kn d)"
    using Suc.prems assms(5) by (simp add: list_update_append Cons_nth_drop_Suc [symmetric])
  ultimately show ?case
    using Suc by (simp add: forM_append thenM_def bindM_def io_run)
qed

lemma shift_of_16: "shift_of 16 = 28"
  by (simp add: shift_of_def left_rotations_def)

definition permuted_key :: "nat list \<Rightarrow> nat list" where
  "permuted_key key = map ((!) (string_to_bitlist (map mirror_byte key))) des_PC1"

definition schedule :: "nat list \<Rightarrow> nat list list" where
  "schedule key = map (subkey_of (take 28 (permuted_key key)) (drop 28 (permuted_key key))) [0..<16]"

lemma permuted_key_halves:
  assumes "length key = 8"
  shows "is_bits 28 (take 28 (permuted_key key))" "is_bits 28 (drop 28 (permuted_key key))"
    "get_sub_list des_PC1 (string_to_bitlist (map mirror_byte key)) = Inr (permuted_key key)"
proof -
  have b: "is_bits 64 (string_to_bitlist (map mirror_byte key))"
    using string_to_bitlist_is_bits [of "map mirror_byte key"] assms by simp
  note p = get_sub_list_bits [OF b tables_below(1)]
  then have "is_bits 56 (permuted_key key)" by (simp add: permuted_key_def)
  from is_bits_take_drop(1) [OF this, of 28] is_bits_take_drop(2) [OF this, of 28]
  show "is_bits 28 (take 28 (permuted_key key))" "is_bits 28 (drop 28 (permuted_key key))"
    by simp_all
  show "get_sub_list des_PC1 (string_to_bitlist (map mirror_byte key)) = Inr (permuted_key key)"
    using p by (simp add: permuted_key_def)
qed

text \<open>
  Setting an eight-character key computes the schedule; the shifts add up to 28, so the two
  halves end where they started.
\<close>

lemma setKey_run:
  assumes "length key = 8" and "length (d_Kn d) = 16"
  shows "setKey key d = (Inr (), d\<lparr>d_key := map mirror_byte key, d_L := take 28 (permuted_key key),
    d_R := drop 28 (permuted_key key), d_Kn := schedule key\<rparr>)"
proof -
  note k = permuted_key_halves [OF assms(1)]
  have rot: "rotate 28 xs = xs" if "is_bits 28 xs" for xs
    using that by (simp add: is_bits_def)
  show ?thesis
    using create_subkeys_run [OF k(1,2), of "d\<lparr>d_key := map mirror_byte key,
        d_L := take 28 (permuted_key key), d_R := drop 28 (permuted_key key)\<rparr>" 16] assms k
    by (simp add: setKey_def create_Kn_def bindM_def thenM_def io_run schedule_def shift_of_16 rot)
qed

definition good_des :: "des \<Rightarrow> bool" where
  "good_des d \<longleftrightarrow> length (d_Kn d) = 16 \<and> list_all (is_bits 48) (d_Kn d)"

lemma schedule_good: "length key = 8 \<Longrightarrow> length (schedule key) = 16 \<and> list_all (is_bits 48) (schedule key)"
  using permuted_key_halves [of key] by (simp add: schedule_def list_all_iff subkey_of_bits)

definition padded_key :: "nat list \<Rightarrow> nat list" where
  "padded_key key = (if length key \<noteq> 8 then take 8 (key @ replicate 8 0) else key)"

lemma length_padded_key [simp]: "length (padded_key key) = 8"
  by (cases "length key < 8") (simp_all add: padded_key_def)

lemma des_init_run: "\<exists>d. des_init key = (Inr (), d) \<and> good_des d \<and> d_Kn d = schedule (padded_key key)"
proof -
  let ?d = "\<lparr>d_key = [], d_L = [], d_R = [], d_Kn = replicate 16 (replicate 48 0)\<rparr>"
  have "des_init key = setKey (padded_key key) ?d"
    by (simp only: des_init_def padded_key_def Let_def)
  then show ?thesis
    using setKey_run [of "padded_key key" ?d] schedule_good [of "padded_key key"]
    by (simp add: good_des_def)
qed

section \<open>Encryption and decryption\<close>

lemma crypt_rounds_run:
  assumes "is_bits 32 (d_L d)" and "is_bits 32 (d_R d)" and "list_all (is_bits 48) ks"
    and "\<And>j. j < length ks \<Longrightarrow> index_nth (d_Kn d) (nat (i + int j * adj)) = Inr (ks ! j)"
  shows "crypt_rounds (length ks) i adj d =
    (let lr = feistel_rounds (\<lambda>a b. xor_bits a b) round_F ks (d_L d, d_R d)
     in (Inr (), d\<lparr>d_L := fst lr, d_R := snd lr\<rparr>))"
  using assms
proof (induction ks arbitrary: i d)
  case Nil
  then show ?case by (simp add: io_run)
next
  case (Cons k ks)
  let ?d = "d\<lparr>d_R := xor_bits (round_F k (d_R d)) (d_L d), d_L := d_R d\<rparr>"
  have k: "index_nth (d_Kn d) (nat i) = Inr k" using Cons.prems(4) [of 0] by simp
  have f: "des_f k d = (Inr (), d\<lparr>d_R := round_F k (d_R d)\<rparr>)"
    using Cons.prems by (intro des_f_run) simp_all
  have "crypt_rounds (length ks) (i + adj) adj ?d =
      (let lr = feistel_rounds (\<lambda>a b. xor_bits a b) round_F ks (d_L ?d, d_R ?d)
       in (Inr (), ?d\<lparr>d_L := fst lr, d_R := snd lr\<rparr>))"
  proof (rule Cons.IH)
    show "index_nth (d_Kn ?d) (nat (i + adj + int j * adj)) = Inr (ks ! j)" if "j < length ks" for j
      using Cons.prems(4) [of "Suc j"] that by (simp add: algebra_simps)
  qed (use Cons.prems in \<open>simp_all add: xor_bits_is_bits round_F_bits\<close>)
  then show ?case
    using f by (simp add: bindM_def thenM_def io_run Let_def k [unfolded index_nth_Inr] index_nth_def)
qed

text \<open>The cipher on one block, for a list of subkeys in the order of use.\<close>

definition des_block :: "nat list list \<Rightarrow> nat list \<Rightarrow> nat list" where
  "des_block ks data =
     (let block = map ((!) data) des_IP;
          lr = feistel_rounds (\<lambda>a b. xor_bits a b) round_F ks (take 32 block, drop 32 block)
      in map ((!) (snd lr @ fst lr)) des_FP)"

definition key_order :: "des \<Rightarrow> nat \<Rightarrow> nat list list" where
  "key_order d crypt_type = (if crypt_type = 0 then d_Kn d else rev (d_Kn d))"

lemma block_halves:
  assumes "is_bits 64 data"
  shows "is_bits 32 (take 32 (map ((!) data) des_IP))" "is_bits 32 (drop 32 (map ((!) data) des_IP))"
proof -
  have "is_bits 64 (map ((!) data) des_IP)"
    using get_sub_list_bits(2) [OF assms tables_below(3)] by simp
  from is_bits_take_drop(1) [OF this, of 32] is_bits_take_drop(2) [OF this, of 32]
  show "is_bits 32 (take 32 (map ((!) data) des_IP))" "is_bits 32 (drop 32 (map ((!) data) des_IP))"
    by simp_all
qed

lemma rounds_output_bits:
  assumes "is_bits 64 data" and "list_all (is_bits 48) ks"
  shows "\<exists>l r. feistel_rounds (\<lambda>a b. xor_bits a b) round_F ks
      (take 32 (map ((!) data) des_IP), drop 32 (map ((!) data) des_IP)) = (l, r)
    \<and> is_bits 32 l \<and> is_bits 32 r"
  using des_feistel.rounds_half [OF assms(2), of "(take 32 (map ((!) data) des_IP),
      drop 32 (map ((!) data) des_IP))"] block_halves [OF assms(1)]
  by (metis fst_conv prod.collapse snd_conv)

lemma des_crypt_run:
  assumes "good_des d" and "is_bits 64 data"
  shows "\<exists>d'. des_crypt data t d = (Inr (des_block (key_order d t) data), d') \<and> d_Kn d' = d_Kn d"
proof -
  let ?ks = "key_order d t" and ?ip = "map ((!) data) des_IP"
  have ks: "list_all (is_bits 48) ?ks" "length ?ks = 16"
    using assms(1) by (auto simp: good_des_def key_order_def)
  let ?d = "d\<lparr>d_L := take 32 ?ip, d_R := drop 32 ?ip\<rparr>"
  obtain l r where lr: "feistel_rounds (\<lambda>a b. xor_bits a b) round_F ?ks (d_L ?d, d_R ?d) = (l, r)"
    and bits: "is_bits 32 l" "is_bits 32 r"
    using rounds_output_bits [OF assms(2) ks(1)] by auto
  define i adj where "i = (if t = 0 then 0 else 15 :: int)" and "adj = (if t = 0 then 1 else -1 :: int)"
  have idx: "index_nth (d_Kn ?d) (nat (i + int j * adj)) = Inr (?ks ! j)" if "j < length ?ks" for j
  proof -
    have "nat (15 - int j) = 15 - j" by simp
    then show ?thesis using that ks(2) assms(1)
      by (auto simp: i_def adj_def key_order_def good_des_def rev_nth)
  qed
  have "crypt_rounds (length ?ks) i adj ?d = (Inr (), ?d\<lparr>d_L := l, d_R := r\<rparr>)"
    using crypt_rounds_run [OF _ _ ks(1) idx] block_halves [OF assms(2)] lr by simp
  then have run: "crypt_rounds 16 i adj ?d = (Inr (), ?d\<lparr>d_L := l, d_R := r\<rparr>)"
    by (simp only: ks(2))
  have "is_bits 64 (r @ l)" using is_bits_append [OF bits(2,1)] by simp
  note fp = get_sub_list_bits(1) [OF this tables_below(6)]
  have "des_crypt data t d = (Inr (map ((!) (r @ l)) des_FP), ?d\<lparr>d_L := l, d_R := r\<rparr>)"
    using run fp get_sub_list_bits(1) [OF assms(2) tables_below(3)]
    by (simp add: des_crypt_def bindM_def thenM_def io_run i_def adj_def split: if_splits)
  then show ?thesis using lr by (simp add: des_block_def Let_def)
qed

lemma des_block_bits:
  assumes "is_bits 64 data" and "list_all (is_bits 48) ks"
  shows "is_bits 64 (des_block ks data)"
proof -
  obtain l r where "feistel_rounds (\<lambda>a b. xor_bits a b) round_F ks
      (take 32 (map ((!) data) des_IP), drop 32 (map ((!) data) des_IP)) = (l, r)"
    and "is_bits 32 l" "is_bits 32 r"
    using rounds_output_bits [OF assms] by auto
  moreover from this have "is_bits 64 (r @ l)" using is_bits_append [of 32 r 32 l] by simp
  ultimately show ?thesis
    using get_sub_list_bits(2) [OF _ tables_below(6), of "r @ l"] by (simp add: des_block_def)
qed

text \<open>Running the rounds with the subkeys in reverse order decrypts a block.\<close>

lemma des_block_inverse:
  assumes "is_bits 64 data" and "list_all (is_bits 48) ks"
  shows "des_block (rev ks) (des_block ks data) = data"
proof -
  let ?ip = "map ((!) data) des_IP"
  have len: "length data = 64" using assms(1) by (simp add: is_bits_def)
  obtain l r where lr: "feistel_rounds (\<lambda>a b. xor_bits a b) round_F ks (take 32 ?ip, drop 32 ?ip) = (l, r)"
    and bits: "is_bits 32 l" "is_bits 32 r"
    using rounds_output_bits [OF assms] by auto
  have rl: "length (r @ l) = 64" "length r = 32" using bits by (simp_all add: is_bits_def)
  have "des_block ks data = map ((!) (r @ l)) des_FP"
    using lr by (simp add: des_block_def Let_def)
  then have ip: "map ((!) (des_block ks data)) des_IP = r @ l"
    using FP_after_IP(2) [OF rl(1)] by simp
  have "feistel_rounds (\<lambda>a b. xor_bits a b) round_F (rev ks) (r, l) = (drop 32 ?ip, take 32 ?ip)"
    using des_feistel.rounds_inverse [OF assms(2), of "(take 32 ?ip, drop 32 ?ip)"]
      block_halves [OF assms(1)] lr by simp
  then have "des_block (rev ks) (des_block ks data) = map ((!) (take 32 ?ip @ drop 32 ?ip)) des_FP"
    using ip rl(2) by (simp add: des_block_def Let_def)
  then show ?thesis using FP_after_IP(1) [OF len] by simp
qed

section \<open>Bytes and bit lists\<close>

lemma bitlist_loop_mod: "bitlist_loop (8 + pos) c bs = bitlist_loop pos c bs"
proof (induction bs arbitrary: pos c)
  case (Cons b bs)
  have "bitlist_loop (Suc (8 + pos)) c bs = bitlist_loop (Suc pos) c bs" for c
    using Cons.IH [of "Suc pos" c] by (simp only: add_Suc_right)
  then show ?case by (simp only: bitlist_loop.simps mod_add_self1)
qed simp

definition byte_value :: "nat list \<Rightarrow> nat" where
  "byte_value b = 128 * b!0 + 64 * b!1 + 32 * b!2 + 16 * b!3 + 8 * b!4 + 4 * b!5 + 2 * b!6 + b!7"

lemma bitlist_to_string_byte:
  "is_bits 8 b \<Longrightarrow> bitlist_to_string (b @ bs) = byte_value b # bitlist_to_string bs"
proof -
  assume "is_bits 8 b"
  then obtain a1 a2 a3 a4 a5 a6 a7 a8 where b: "b = [a1, a2, a3, a4, a5, a6, a7, a8]"
    by (auto simp: is_bits_def eval_nat_numeral length_Suc_conv)
  have "bitlist_loop (Suc (Suc (Suc (Suc (Suc (Suc (Suc (Suc 0)))))))) 0 bs = bitlist_loop 0 0 bs"
    using bitlist_loop_mod [of 0 0 bs] by (simp add: eval_nat_numeral)
  then show ?thesis
    unfolding b by (simp add: bitlist_to_string_def byte_value_def push_bit_eq_mult Let_def)
qed

lemma test_bit_value: "(if c AND push_bit i 1 \<noteq> 0 then 1 else 0) = c div 2 ^ i mod (2 :: nat)"
proof -
  have "c AND push_bit i 1 \<noteq> 0 \<longleftrightarrow> bit c i"
    by (simp add: and_exp_eq_0_iff_not_bit)
  then show ?thesis by (simp add: bit_iff_odd odd_iff_mod_2_eq_one)
qed

lemma byte_bits_value: "c < 256 \<Longrightarrow> byte_value (byte_bits c) = c"
proof -
  assume c: "c < 256"
  define q where "q i = c div 2 ^ i" for i :: nat
  have "q (Suc i) = q i div 2" for i
    unfolding q_def power_Suc2 div_mult2_eq ..
  then have q: "q i = 2 * q (Suc i) + q i mod 2" for i by simp
  have "byte_bits c = map (\<lambda>i. q i mod 2) [7, 6, 5, 4, 3, 2, 1, 0]"
    unfolding byte_bits_def test_bit_value by (simp add: q_def)
  moreover have "q 0 = c" "q 8 = 0" using c by (simp_all add: q_def)
  ultimately show ?thesis
    using q [of 0] q [of 1] q [of 2] q [of 3] q [of 4] q [of 5] q [of 6] q [of 7]
    by (simp add: byte_value_def eval_nat_numeral)
qed

lemma bitlist_of_string: "list_all (\<lambda>c. c < 256) s \<Longrightarrow> bitlist_to_string (string_to_bitlist s) = s"
proof (induction s)
  case (Cons c s)
  then show ?case
    using bitlist_to_string_byte [OF byte_bits_is_bits, of c "string_to_bitlist s"] byte_bits_value [of c]
    by (simp add: string_to_bitlist_def)
qed (simp add: bitlist_to_string_def string_to_bitlist_def)

lemma byte_value_lt: "is_bits 8 b \<Longrightarrow> byte_value b < 256"
proof -
  assume b: "is_bits 8 b"
  have sum: "128 * p + 64 * q + 32 * r + 16 * s + 8 * t + 4 * u + 2 * v + x < 256"
    if "p < 2" "q < 2" "r < 2" "s < 2" "t < 2" "u < 2" "v < 2" "x < 2" for p q r s t u v x :: nat
    using that by auto
  show ?thesis unfolding byte_value_def by (rule sum) (use is_bits_nth [OF b] in simp_all)
qed

lemma byte_bits_of_value: "is_bits 8 b \<Longrightarrow> byte_bits (byte_value b) = b"
proof -
  assume b: "is_bits 8 b"
  then obtain a7 a6 a5 a4 a3 a2 a1 a0 where bs: "b = [a7, a6, a5, a4, a3, a2, a1, a0]"
    by (auto simp: is_bits_def eval_nat_numeral length_Suc_conv)
  then have lt: "a7 < 2" "a6 < 2" "a5 < 2" "a4 < 2" "a3 < 2" "a2 < 2" "a1 < 2" "a0 < 2"
    using b by (simp_all add: is_bits_def)
  define q where "q i = byte_value b div 2 ^ i" for i :: nat
  have half: "q (Suc i) = q i div 2" for i
    unfolding q_def power_Suc2 div_mult2_eq ..
  have dm: "(a + 2 * m) div 2 = m \<and> (a + 2 * m) mod 2 = a" if "a < 2" for a m :: nat
    using that by simp
  define m6 m5 m4 m3 m2 m1
    where "m6 = a6 + 2 * a7" and "m5 = a5 + 2 * m6" and "m4 = a4 + 2 * m5" and "m3 = a3 + 2 * m4"
      and "m2 = a2 + 2 * m3" and "m1 = a1 + 2 * m2"
  note m = m6_def m5_def m4_def m3_def m2_def m1_def
  have q0: "q 0 = a0 + 2 * m1" by (simp add: q_def byte_value_def bs m)
  have step: "q (Suc i) = m" if "q i = a + 2 * m" "a < 2" for i a m
    using half [of i] dm [OF that(2), of m] that(1) by simp
  have q1: "q (Suc 0) = a1 + 2 * m2" using step [OF q0 lt(8)] m1_def by simp
  have q2: "q 2 = a2 + 2 * m3" using step [OF q1 lt(7)] m2_def by (simp add: numeral_2_eq_2)
  have q3: "q 3 = a3 + 2 * m4" using step [OF q2 lt(6)] m3_def by simp
  have q4: "q 4 = a4 + 2 * m5" using step [OF q3 lt(5)] m4_def by simp
  have q5: "q 5 = a5 + 2 * m6" using step [OF q4 lt(4)] m5_def by simp
  have q6: "q 6 = a6 + 2 * a7" using step [OF q5 lt(3)] m6_def by simp
  have q7: "q 7 = a7" using step [OF q6 lt(2)] by simp
  have mods: "q 0 mod 2 = a0" "q (Suc 0) mod 2 = a1" "q 2 mod 2 = a2" "q 3 mod 2 = a3" "q 4 mod 2 = a4"
    "q 5 mod 2 = a5" "q 6 mod 2 = a6" "q 7 mod 2 = a7"
    unfolding q0 q1 q2 q3 q4 q5 q6 q7 using lt by simp_all
  have "byte_bits (byte_value b) = map (\<lambda>i. q i mod 2) [7, 6, 5, 4, 3, 2, 1, 0]"
    unfolding byte_bits_def test_bit_value by (simp add: q_def)
  also have "\<dots> = b"
    using mods by (simp add: bs)
  finally show ?thesis .
qed

lemma string_of_bitlist:
  "is_bits (8 * n) b \<Longrightarrow>
   string_to_bitlist (bitlist_to_string b) = b \<and> length (bitlist_to_string b) = n
   \<and> list_all (\<lambda>c. c < 256) (bitlist_to_string b)"
proof (induction n arbitrary: b)
  case 0
  then show ?case by (simp add: is_bits_def bitlist_to_string_def string_to_bitlist_def)
next
  case (Suc n)
  have h: "is_bits 8 (take 8 b)" and t: "is_bits (8 * n) (drop 8 b)"
    using is_bits_take_drop(1) [OF Suc.prems, of 8] is_bits_take_drop(2) [OF Suc.prems, of 8] by simp_all
  have "bitlist_to_string b = byte_value (take 8 b) # bitlist_to_string (drop 8 b)"
    using bitlist_to_string_byte [OF h, of "drop 8 b"] by simp
  then show ?case
    using Suc.IH [OF t] byte_bits_of_value [OF h] byte_value_lt [OF h]
    by (simp add: string_to_bitlist_def)
qed

section \<open>Strings\<close>

text \<open>The cipher on a string, block by block.\<close>

function crypt_string :: "nat list list \<Rightarrow> nat list \<Rightarrow> nat list" where
  "crypt_string ks data =
     (if data = [] then []
      else bitlist_to_string (des_block ks (string_to_bitlist (take 8 data))) @ crypt_string ks (drop 8 data))"
  by pat_completeness auto
termination
  by (relation "measure (\<lambda>(ks, data). length data)") auto

declare crypt_string.simps [simp del]

lemma take_block_bits: "length data = 8 * Suc n \<Longrightarrow> is_bits 64 (string_to_bitlist (take 8 data))"
  using string_to_bitlist_is_bits [of "take 8 data"] by simp

lemma crypt_run:
  assumes "good_des d" and "length data = 8 * n"
  shows "\<exists>d'. crypt data t d = (Inr (crypt_string (key_order d t) data), d') \<and> d_Kn d' = d_Kn d"
  using assms
proof (induction n arbitrary: data d)
  case 0
  then show ?case by (simp add: crypt.simps crypt_string.simps io_run)
next
  case (Suc n)
  let ?b = "string_to_bitlist (take 8 data)"
  obtain d1 where d1: "des_crypt ?b t d = (Inr (des_block (key_order d t) ?b), d1)" "d_Kn d1 = d_Kn d"
    using des_crypt_run [OF Suc.prems(1) take_block_bits [OF Suc.prems(2)]] by blast
  have "good_des d1" "key_order d1 t = key_order d t"
    using Suc.prems(1) d1(2) by (simp_all add: good_des_def key_order_def)
  then obtain d2 where "crypt (drop 8 data) t d1 = (Inr (crypt_string (key_order d t) (drop 8 data)), d2)"
    "d_Kn d2 = d_Kn d1"
    using Suc.IH [of d1 "drop 8 data"] Suc.prems(2) by auto
  then show ?case
    using d1 Suc.prems(2)
    by (subst crypt.simps, subst crypt_string.simps) (auto simp: bindM_def io_run)
qed

lemma crypt_string_block:
  assumes "length data = 8 * Suc n" and "list_all (is_bits 48) ks"
  shows "\<exists>b. crypt_string ks data = b @ crypt_string ks (drop 8 data) \<and> length b = 8
    \<and> list_all (\<lambda>c. c < 256) b \<and> string_to_bitlist b = des_block ks (string_to_bitlist (take 8 data))"
proof -
  have "is_bits (8 * 8) (des_block ks (string_to_bitlist (take 8 data)))"
    using des_block_bits [OF take_block_bits [OF assms(1)] assms(2)] by simp
  from string_of_bitlist [OF this] assms(1) show ?thesis
    by (subst crypt_string.simps) auto
qed

lemma crypt_string_bytes:
  "length data = 8 * n \<Longrightarrow> list_all (is_bits 48) ks \<Longrightarrow>
   length (crypt_string ks data) = 8 * n \<and> list_all (\<lambda>c. c < 256) (crypt_string ks data)"
proof (induction n arbitrary: data)
  case 0
  then show ?case by (simp add: crypt_string.simps)
next
  case (Suc n)
  then show ?case
    using crypt_string_block [OF Suc.prems] Suc.IH [of "drop 8 data"] by auto
qed

lemma crypt_string_inverse:
  "length data = 8 * n \<Longrightarrow> list_all (\<lambda>c. c < 256) data \<Longrightarrow> list_all (is_bits 48) ks \<Longrightarrow>
   crypt_string (rev ks) (crypt_string ks data) = data"
proof (induction n arbitrary: data)
  case 0
  then show ?case by (simp add: crypt_string.simps)
next
  case (Suc n)
  obtain b where b: "crypt_string ks data = b @ crypt_string ks (drop 8 data)" "length b = 8"
    "string_to_bitlist b = des_block ks (string_to_bitlist (take 8 data))"
    using crypt_string_block [OF Suc.prems(1,3)] by auto
  have bytes: "list_all (\<lambda>c. c < 256) (take 8 data)" "list_all (\<lambda>c. c < 256) (drop 8 data)"
    using Suc.prems(2) by (auto simp: list_all_iff dest: in_set_takeD in_set_dropD)
  have "des_block (rev ks) (string_to_bitlist b) = string_to_bitlist (take 8 data)"
    using b(3) des_block_inverse [OF take_block_bits [OF Suc.prems(1)] Suc.prems(3)] by simp
  then have "crypt_string (rev ks) (b @ cs) = take 8 data @ crypt_string (rev ks) cs" for cs
    using b(2) bytes(1) by (subst crypt_string.simps) (auto simp: bitlist_of_string)
  then show ?case
    using b(1) Suc.IH [of "drop 8 data"] Suc.prems bytes by simp
qed


section \<open>Properties\<close>

text \<open>
  C20: An instance made from any key decrypts what it encrypted: for a string of bytes whose
  length is a multiple of eight, \<open>crypt(crypt(data), 1)\<close> returns the data, neither call
  raises, and the cipher text is a string of bytes of the same length.
\<close>

theorem des_roundtrip:
  assumes "des_init key = (r, d)" and "8 dvd length data" and "list_all (\<lambda>c. c < 256) data"
  shows "\<exists>cipher d1 d2. crypt data 0 d = (Inr cipher, d1) \<and> crypt cipher 1 d1 = (Inr data, d2)
    \<and> length cipher = length data \<and> list_all (\<lambda>c. c < 256) cipher"
proof -
  obtain n where n: "length data = 8 * n" using assms(2) by blast
  have d: "good_des d" using des_init_run [of key] assms(1) by auto
  then have ks: "list_all (is_bits 48) (d_Kn d)" by (simp add: good_des_def)
  let ?c = "crypt_string (d_Kn d) data"
  obtain d1 where d1: "crypt data 0 d = (Inr ?c, d1)" "d_Kn d1 = d_Kn d"
    using crypt_run [OF d n, of 0] by (auto simp: key_order_def)
  have c: "length ?c = 8 * n" "list_all (\<lambda>c. c < 256) ?c"
    using crypt_string_bytes [OF n ks] by simp_all
  have "good_des d1" using d d1(2) by (simp add: good_des_def)
  then obtain d2 where "crypt ?c 1 d1 = (Inr (crypt_string (rev (d_Kn d)) ?c), d2)"
    using crypt_run [OF _ c(1), of d1 1] d1(2) by (auto simp: key_order_def)
  then show ?thesis
    using d1(1) c n crypt_string_inverse [OF n assms(3) ks] by auto
qed

lemma des_roundtrip_witness:
  "\<exists>cipher d1 d2.
     crypt [1, 35, 69, 103, 137, 171, 205, 239] 0 (snd (des_init [112, 97, 115, 115])) = (Inr cipher, d1)
     \<and> crypt cipher 1 d1 = (Inr [1, 35, 69, 103, 137, 171, 205, 239], d2)
     \<and> length cipher = length [1, 35, 69, 103, 137, 171, 205, 239 :: nat] \<and> list_all (\<lambda>c. c < 256) cipher"
  by (rule des_roundtrip [OF prod.collapse [symmetric]]) (simp_all add: eval_nat_numeral)

text \<open>
  C21: The constructor returns for every key, of any length, and its sixteen subkeys are the
  selection \<open>PC2\<close> of the halves of the permuted mirrored key, rotated by the sum of the
  first rotation counts; the halves it leaves behind are not rotated.
\<close>

theorem des_key_schedule:
  "\<exists>d. des_init key = (Inr (), d) \<and> d_key d = map mirror_byte (padded_key key)
     \<and> d_L d @ d_R d = permuted_key (padded_key key)
     \<and> length (d_Kn d) = 16
     \<and> (\<forall>i \<in> {0..<16}. d_Kn d ! i =
          map ((!) (rotate (sum_list (take (Suc i) left_rotations)) (d_L d)
                    @ rotate (sum_list (take (Suc i) left_rotations)) (d_R d))) des_PC2)"
proof -
  let ?d = "\<lparr>d_key = [], d_L = [], d_R = [], d_Kn = replicate 16 (replicate 48 0)\<rparr>"
  have "des_init key = setKey (padded_key key) ?d"
    by (simp only: des_init_def padded_key_def Let_def)
  then show ?thesis
    using setKey_run [of "padded_key key" ?d] by (auto simp: schedule_def subkey_of_def shift_of_def)
qed

lemma des_key_schedule_witness:
  "\<exists>d. des_init [112] = (Inr (), d) \<and> length (d_Kn d) = 16 \<and> length (d_Kn d ! 3) = 48"
  using des_key_schedule [of "[112]"] by fastforce

lemma des_crypt_short: "length data < 8 \<Longrightarrow> des_crypt (string_to_bitlist data) t d = (Inl IndexError, d)"
proof -
  assume "length data < 8"
  then have "index_nth (string_to_bitlist data) 57 = Inl IndexError"
    using string_to_bitlist_is_bits [of data] by (simp add: index_nth_def is_bits_def)
  then show ?thesis by (simp add: des_crypt_def des_IP_def bindM_def io_run)
qed

text \<open>
  A string whose length is not a multiple of eight is rejected: the last, incomplete
  block raises an index error, in both directions.
\<close>

theorem crypt_partial_block:
  assumes "good_des d" and "length data mod 8 \<noteq> 0"
  shows "fst (crypt data t d) = Inl IndexError"
  using assms
proof (induction "length data" arbitrary: data d rule: less_induct)
  case less
  show ?case
  proof (cases "length data < 8")
    case True
    then show ?thesis
      using less.prems by (subst crypt.simps) (auto simp: bindM_def des_crypt_short)
  next
    case False
    then have b: "is_bits 64 (string_to_bitlist (take 8 data))"
      using string_to_bitlist_is_bits [of "take 8 data"] by simp
    obtain d1 where d1: "des_crypt (string_to_bitlist (take 8 data)) t d
        = (Inr (des_block (key_order d t) (string_to_bitlist (take 8 data))), d1)" "d_Kn d1 = d_Kn d"
      using des_crypt_run [OF less.prems(1) b] by blast
    have "fst (crypt (drop 8 data) t d1) = Inl IndexError"
      using less.prems False d1(2)
      by (intro less.hyps) (simp_all add: good_des_def mod_if [of "length data"])
    then show ?thesis
      using d1 less.prems by (subst crypt.simps) (cases "crypt (drop 8 data) t d1", auto simp: bindM_def)
  qed
qed

lemma crypt_partial_block_witness:
  "fst (crypt [1, 2, 3] 0 \<lparr>d_key = [], d_L = [], d_R = [], d_Kn = replicate 16 (replicate 48 0)\<rparr>)
     = Inl IndexError"
  by (rule crypt_partial_block) (simp_all add: good_des_def is_bits_def list_all_iff)

end
