(* ===== verification/NodeIndex.thy ===== *)
theory NodeIndex
  imports PyBase
begin

text \<open>
  Model of the name index of the Cartesian graph: \<open>PrefixTreeNode\<close> and \<open>PrefixTree\<close> of
  \<open>virttest/cartgraph/node.py\<close>. The tree nodes are shared between the children
  dictionaries and the table \<open>variant_nodes\<close>, so they live in a store; a node is addressed
  by the variants on the way to it from its root, which never change. A child is stored under
  its variant, the address of the child is the address of the node extended by it. Test
  nodes are only stored and returned, their type is a parameter.
\<close>

section \<open>The tree\<close>

record 'n pnode =
  pn_children :: "string list"
  pn_end :: "'n option"

type_synonym path = "string list"

record 'n ptree =
  pt_nodes :: "(path, 'n pnode) dict"
  variant_nodes :: "(string, path list) dict"

definition fresh_pnode :: "'n pnode" where
  "fresh_pnode = \<lparr>pn_children = [], pn_end = None\<rparr>"

definition empty_ptree :: "'n ptree" where
  "empty_ptree = \<lparr>pt_nodes = [], variant_nodes = []\<rparr>"

definition pnode_at :: "'n ptree \<Rightarrow> path \<Rightarrow> 'n pnode" where
  "pnode_at t p = dict_get (pt_nodes t) p fresh_pnode"

definition check_child :: "'n ptree \<Rightarrow> path \<Rightarrow> string \<Rightarrow> bool" where
  "check_child t p variant \<longleftrightarrow> variant \<in> set (pn_children (pnode_at t p))"

definition get_child :: "path \<Rightarrow> string \<Rightarrow> path" where
  "get_child p variant = p @ [variant]"

text \<open>\<open>new_child = PrefixTreeNode(variant)\<close>, stored in the children and in the table.\<close>

definition set_child :: "path \<Rightarrow> string \<Rightarrow> 'n ptree \<Rightarrow> 'n ptree" where
  "set_child p variant t =
     (let nd = pnode_at t p;
          nodes = dict_set p (nd\<lparr>pn_children := pn_children nd @ [variant]\<rparr>) (pt_nodes t)
      in t\<lparr>pt_nodes := dict_set (get_child p variant) fresh_pnode nodes,
           variant_nodes := dict_set variant
             (dict_get (variant_nodes t) variant [] @ [get_child p variant]) (variant_nodes t)\<rparr>)"

definition set_end :: "path \<Rightarrow> 'n \<Rightarrow> 'n ptree \<Rightarrow> 'n ptree" where
  "set_end p test_node t =
     t\<lparr>pt_nodes := dict_set p ((pnode_at t p)\<lparr>pn_end := Some test_node\<rparr>) (pt_nodes t)\<rparr>"

text \<open>The inner loop of \<open>insert\<close>: from a node down the variants, creating what is missing.\<close>

fun insert_walk :: "path \<Rightarrow> string list \<Rightarrow> 'n \<Rightarrow> 'n ptree \<Rightarrow> 'n ptree" where
  "insert_walk current [] test_node t = set_end current test_node t"
| "insert_walk current (variant # variants) test_node t =
     (let t = (if \<not> check_child t current variant then set_child current variant t else t)
      in insert_walk (get_child current variant) variants test_node t)"

text \<open>
  The outer loop runs over the list of the table while the inner loop may append to that very
  list; the index is the position of the list iterator.
\<close>

fun insert_loop :: "nat \<Rightarrow> nat \<Rightarrow> string \<Rightarrow> string list \<Rightarrow> 'n \<Rightarrow> 'n ptree \<Rightarrow> 'n ptree res" where
  "insert_loop fuel i v0 variants test_node t =
     (let currents = dict_get (variant_nodes t) v0 [] in
      if i < length currents then
        (case fuel of
           0 \<Rightarrow> Inl OutOfFuel
         | Suc fuel \<Rightarrow> insert_loop fuel (Suc i) v0 variants test_node
                         (insert_walk (currents ! i) variants test_node t))
      else Inr t)"

declare insert_loop.simps [simp del]

definition insert_variants :: "nat \<Rightarrow> string list \<Rightarrow> 'n \<Rightarrow> 'n ptree \<Rightarrow> 'n ptree res" where
  "insert_variants fuel variants test_node t =
     (let v0 = hd variants;
          t = (if \<not> dict_has (variant_nodes t) v0
               then t\<lparr>pt_nodes := dict_set [v0] fresh_pnode (pt_nodes t),
                      variant_nodes := dict_set v0 [[v0]] (variant_nodes t)\<rparr>
               else t)
      in insert_loop fuel 0 v0 (tl variants) test_node t)"

definition pt_insert :: "nat \<Rightarrow> string \<Rightarrow> 'n \<Rightarrow> 'n ptree \<Rightarrow> 'n ptree res" where
  "pt_insert fuel name test_node t = insert_variants fuel (split_on (CHR ''.'') name) test_node t"

text \<open>The loop with \<open>break\<close> and \<open>else\<close>: \<open>None\<close> when a child is missing.\<close>

fun follow :: "'n ptree \<Rightarrow> path \<Rightarrow> string list \<Rightarrow> path option" where
  "follow t current [] = Some current"
| "follow t current (variant # variants) =
     (if \<not> check_child t current variant then None else follow t (get_child current variant) variants)"

definition pt_contains :: "'n ptree \<Rightarrow> string \<Rightarrow> bool" where
  "pt_contains t name =
     (let variants = split_on (CHR ''.'') name in
      list_ex (\<lambda>current. follow t current (tl variants) \<noteq> None)
        (dict_get (variant_nodes t) (hd variants) []))"

text \<open>The nodes below a node, itself first; the fuel bounds the depth.\<close>

fun traverse :: "nat \<Rightarrow> 'n ptree \<Rightarrow> path \<Rightarrow> path list" where
  "traverse 0 t p = [p]"
| "traverse (Suc n) t p =
     p # concat (map (\<lambda>v. traverse n t (get_child p v)) (pn_children (pnode_at t p)))"

definition depth_bound :: "'n ptree \<Rightarrow> nat" where
  "depth_bound t = foldr max (map length (dict_keys (pt_nodes t))) 0"

definition pt_get :: "'n ptree \<Rightarrow> string \<Rightarrow> 'n list" where
  "pt_get t name =
     (let variants = split_on (CHR ''.'') name in
      concat (map (\<lambda>current. case follow t current (tl variants) of
          None \<Rightarrow> []
        | Some p \<Rightarrow> List.map_filter (\<lambda>q. pn_end (pnode_at t q)) (traverse (depth_bound t) t p))
        (dict_get (variant_nodes t) (hd variants) [])))"

section \<open>Well-formed trees\<close>

definition paths :: "'n ptree \<Rightarrow> path set" where
  "paths t = set (dict_keys (pt_nodes t))"

definition end_at :: "'n ptree \<Rightarrow> path \<Rightarrow> 'n option" where
  "end_at t p = pn_end (pnode_at t p)"

definition wf_ptree :: "'n ptree \<Rightarrow> bool" where
  "wf_ptree t \<longleftrightarrow> [] \<notin> paths t
     \<and> (\<forall>p v. p \<noteq> [] \<longrightarrow> (p @ [v] \<in> paths t \<longleftrightarrow> p \<in> paths t \<and> check_child t p v))
     \<and> (\<forall>v. set (dict_get (variant_nodes t) v []) = {p \<in> paths t. last p = v}
            \<and> distinct (dict_get (variant_nodes t) v []))"

lemma paths_has: "p \<in> paths t \<longleftrightarrow> dict_has (pt_nodes t) p"
  by (simp add: paths_def dict_has_iff)

lemma paths_set_child [simp]:
  "paths (set_child p v t) = insert (p @ [v]) (insert p (paths t))"
  by (auto simp: set_child_def paths_has get_child_def Let_def)

lemma check_child_set_child:
  "check_child (set_child p v t) q w \<longleftrightarrow>
    (if q = p @ [v] then False else if q = p then w = v \<or> check_child t p w else check_child t q w)"
  by (auto simp: set_child_def check_child_def pnode_at_def get_child_def fresh_pnode_def Let_def)

lemma end_at_set_child:
  "end_at (set_child p v t) q = (if q = p @ [v] then None else end_at t q)"
  by (auto simp: set_child_def end_at_def pnode_at_def get_child_def fresh_pnode_def Let_def)

lemma index_set_child:
  "dict_get (variant_nodes (set_child p v t)) w [] =
    dict_get (variant_nodes t) w [] @ (if w = v then [p @ [v]] else [])"
  by (simp add: set_child_def get_child_def Let_def)

lemma set_end_simps:
  "p \<in> paths t \<Longrightarrow> paths (set_end p n t) = paths t"
  "check_child (set_end p n t) q w = check_child t q w"
  "end_at (set_end p n t) q = (if q = p then Some n else end_at t q)"
  "variant_nodes (set_end p n t) = variant_nodes t"
  by (auto simp: set_end_def paths_has check_child_def end_at_def pnode_at_def)

lemma wf_set_child:
  assumes wf: "wf_ptree t" and p: "p \<in> paths t" and new: "\<not> check_child t p v"
  shows "wf_ptree (set_child p v t)"
proof -
  have ne: "p \<noteq> []" "[] \<notin> paths t" using wf p by (auto simp: wf_ptree_def)
  have step: "q @ [w] \<in> paths t \<longleftrightarrow> q \<in> paths t \<and> check_child t q w" if "q \<noteq> []" for q w
    using wf that by (simp add: wf_ptree_def)
  have fresh: "p @ [v] \<notin> paths t" using step [OF ne(1)] new by blast
  have no_child: "\<not> check_child t (p @ [v]) w" for w
    using fresh by (auto simp: check_child_def pnode_at_def dict_get_def paths_has dict_has_def fresh_pnode_def
        split: option.splits)
  have far: "p @ [v, w] \<notin> paths t" for w using step [of "p @ [v]" w] fresh by simp
  have paths': "paths (set_child p v t) = insert (p @ [v]) (paths t)"
    using p by (simp add: insert_absorb)
  have closed: "(q @ [w] \<in> paths (set_child p v t)) = (q \<in> paths (set_child p v t) \<and> check_child (set_child p v t) q w)"
    if q: "q \<noteq> []" for q w
  proof (cases "q = p @ [v]")
    case True
    then show ?thesis using far [of w] by (simp add: check_child_set_child)
  next
    case False
    show ?thesis
    proof (cases "q = p")
      case True
      have "p @ [w] \<noteq> p" by simp
      then show ?thesis using True False step [OF ne(1), of w] p by (auto simp: check_child_set_child)
    next
      case other: False
      then have "q @ [w] \<noteq> p @ [v]" by simp
      then show ?thesis
        using step [OF q, of w] other False unfolding paths' check_child_set_child by simp
    qed
  qed
  have "set (dict_get (variant_nodes (set_child p v t)) w []) = {q \<in> paths (set_child p v t). last q = w}
      \<and> distinct (dict_get (variant_nodes (set_child p v t)) w [])" for w
  proof -
    have "set (dict_get (variant_nodes t) w []) = {q \<in> paths t. last q = w}"
      "distinct (dict_get (variant_nodes t) w [])" using wf by (simp_all add: wf_ptree_def)
    moreover have "p @ [v] \<notin> set (dict_get (variant_nodes t) w [])"
      using calculation(1) fresh by simp
    moreover have "{q \<in> insert (p @ [v]) (paths t). last q = w}
        = {q \<in> paths t. last q = w} \<union> (if w = v then {p @ [v]} else {})" by auto
    ultimately show ?thesis using fresh unfolding paths' index_set_child by simp
  qed
  then show ?thesis using ne closed unfolding wf_ptree_def by simp
qed

lemma wf_set_end: "wf_ptree t \<Longrightarrow> p \<in> paths t \<Longrightarrow> wf_ptree (set_end p n t)"
  by (simp add: wf_ptree_def set_end_simps)

text \<open>What the inner loop does to a well-formed tree.\<close>

lemma insert_walk_effect:
  assumes "wf_ptree t" and "current \<in> paths t"
  shows "wf_ptree (insert_walk current vs n t)
    \<and> paths (insert_walk current vs n t) = paths t \<union> {current @ ys |ys. prefix ys vs}
    \<and> (\<forall>q. end_at (insert_walk current vs n t) q = (if q = current @ vs then Some n else end_at t q))
    \<and> (\<forall>w. w \<notin> set vs \<longrightarrow> dict_get (variant_nodes (insert_walk current vs n t)) w []
            = dict_get (variant_nodes t) w [])
    \<and> (\<forall>w. prefix (dict_get (variant_nodes t) w []) (dict_get (variant_nodes (insert_walk current vs n t)) w []))"
  using assms
proof (induction vs arbitrary: current t)
  case Nil
  then show ?case by (auto simp: set_end_simps wf_set_end)
next
  case (Cons v vs)
  define t1 where "t1 = (if \<not> check_child t current v then set_child current v t else t)"
  have ne: "current \<noteq> []" using Cons.prems by (auto simp: wf_ptree_def)
  have wf1: "wf_ptree t1" using Cons.prems by (auto simp: t1_def wf_set_child)
  have old: "check_child t current v \<longleftrightarrow> current @ [v] \<in> paths t"
    using Cons.prems ne by (simp add: wf_ptree_def)
  have paths1: "paths t1 = insert (current @ [v]) (paths t)"
    using old Cons.prems(2) by (auto simp: t1_def)
  have ends1: "end_at t1 q = end_at t q" for q
  proof (cases "check_child t current v")
    case False
    then have "current @ [v] \<notin> paths t" using old by simp
    then have "end_at t (current @ [v]) = None"
      by (auto simp: end_at_def pnode_at_def dict_get_def paths_has dict_has_def fresh_pnode_def
          split: option.splits)
    then show ?thesis using False by (auto simp: t1_def end_at_set_child)
  qed (simp add: t1_def)
  have idx1: "dict_get (variant_nodes t1) w [] = dict_get (variant_nodes t) w []" if "w \<noteq> v" for w
    using that by (simp add: t1_def index_set_child)
  have walk: "insert_walk current (v # vs) n t = insert_walk (current @ [v]) vs n t1"
    by (simp add: t1_def get_child_def Let_def)
  have "current @ [v] \<in> paths t1" by (simp add: paths1)
  define B where "B = {(current @ [v]) @ ys |ys. prefix ys vs}"
  have "{current @ ys |ys. prefix ys (v # vs)} = insert current B"
    by (auto simp: prefix_Cons B_def)
  moreover have "current @ [v] \<in> B" by (auto simp: B_def)
  ultimately have all: "paths t1 \<union> B = paths t \<union> {current @ ys |ys. prefix ys (v # vs)}"
    using paths1 Cons.prems(2) by auto
  note IH = Cons.IH [OF wf1 \<open>current @ [v] \<in> paths t1\<close>, folded B_def]
  have ends: "end_at (insert_walk (current @ [v]) vs n t1) q
      = (if q = current @ v # vs then Some n else end_at t q)" for q
    using IH ends1 by simp
  have idx: "dict_get (variant_nodes (insert_walk (current @ [v]) vs n t1)) w [] = dict_get (variant_nodes t) w []"
    if "w \<notin> set (v # vs)" for w
    using IH idx1 that by simp
  have "prefix (dict_get (variant_nodes t) w []) (dict_get (variant_nodes t1) w [])" for w
    by (simp add: t1_def index_set_child)
  then have grow: "prefix (dict_get (variant_nodes t) w [])
      (dict_get (variant_nodes (insert_walk (current @ [v]) vs n t1)) w [])" for w
    using IH prefix_order.trans by blast
  show ?case unfolding walk using IH ends idx grow all by blast
qed

section \<open>Queries\<close>

lemma follow_path:
  "wf_ptree t \<Longrightarrow> current \<in> paths t \<Longrightarrow>
   follow t current vs = (if current @ vs \<in> paths t then Some (current @ vs) else None)"
proof (induction vs arbitrary: current)
  case (Cons v vs)
  have ne: "current \<noteq> []" using Cons.prems by (auto simp: wf_ptree_def)
  have step: "check_child t current v \<longleftrightarrow> current @ [v] \<in> paths t"
    using Cons.prems ne by (simp add: wf_ptree_def)
  have up: "p @ ys \<in> paths t \<Longrightarrow> p \<noteq> [] \<Longrightarrow> p \<in> paths t" for p ys
  proof (induction ys rule: rev_induct)
    case (snoc y ys)
    have "(p @ ys) @ [y] \<in> paths t \<longleftrightarrow> p @ ys \<in> paths t \<and> check_child t (p @ ys) y"
      using Cons.prems(1) snoc.prems(2) unfolding wf_ptree_def by blast
    then show ?case using snoc by simp
  qed simp
  show ?case
  proof (cases "current @ [v] \<in> paths t")
    case True
    then show ?thesis using Cons.IH [OF Cons.prems(1) True] step by (simp add: get_child_def)
  next
    case False
    then show ?thesis using up [of "current @ [v]" vs] step by auto
  qed
qed simp

lemma depth_bound_le: "p \<in> paths t \<Longrightarrow> length p \<le> depth_bound t"
proof -
  have "n \<in> set ns \<Longrightarrow> n \<le> foldr max ns (0 :: nat)" for n ns
    by (induction ns) auto
  then show "p \<in> paths t \<Longrightarrow> length p \<le> depth_bound t" by (simp add: paths_def depth_bound_def)
qed

text \<open>Traversing a node yields the nodes below it.\<close>

lemma set_traverse:
  "wf_ptree t \<Longrightarrow> p \<in> paths t \<Longrightarrow> depth_bound t \<le> n + length p \<Longrightarrow>
   set (traverse n t p) = {q \<in> paths t. prefix p q}"
proof (induction n arbitrary: p)
  case 0
  have "q = p" if q: "q \<in> paths t" "prefix p q" for q
  proof -
    obtain ys where ys: "q = p @ ys" using q(2) by (auto simp: prefix_def)
    have "length q \<le> length p" using depth_bound_le [OF q(1)] 0(3) by linarith
    moreover have "length q = length p + length ys" using ys by simp
    ultimately have "length ys = 0" by linarith
    then show ?thesis using ys by simp
  qed
  then show ?case using 0 by auto
next
  case (Suc n)
  have ne: "p \<noteq> []" using Suc.prems by (auto simp: wf_ptree_def)
  have child: "v \<in> set (pn_children (pnode_at t p)) \<longleftrightarrow> p @ [v] \<in> paths t" for v
    using Suc.prems ne by (simp add: wf_ptree_def check_child_def)
  have IH: "set (traverse n t (p @ [v])) = {q \<in> paths t. prefix (p @ [v]) q}" if "p @ [v] \<in> paths t" for v
    using Suc.prems by (intro Suc.IH that) simp_all
  have "set (traverse (Suc n) t p) = insert p (\<Union>v \<in> {v. p @ [v] \<in> paths t}. {q \<in> paths t. prefix (p @ [v]) q})"
    using IH child by (auto simp: get_child_def)
  also have "\<dots> = {q \<in> paths t. prefix p q}"
  proof (intro set_eqI iffI)
    fix q assume "q \<in> insert p (\<Union>v \<in> {v. p @ [v] \<in> paths t}. {q \<in> paths t. prefix (p @ [v]) q})"
    then show "q \<in> {q \<in> paths t. prefix p q}" using Suc.prems(2) append_prefixD by auto
  next
    fix q assume q: "q \<in> {q \<in> paths t. prefix p q}"
    then obtain ys where ys: "q = p @ ys" by (auto simp: prefix_def)
    show "q \<in> insert p (\<Union>v \<in> {v. p @ [v] \<in> paths t}. {q \<in> paths t. prefix (p @ [v]) q})"
    proof (cases ys)
      case (Cons v zs)
      have "follow t p (v # zs) = Some q"
        using q ys Cons by (simp only: follow_path [OF Suc.prems(1,2)] mem_Collect_eq if_True)
      then have "p @ [v] \<in> paths t"
        using child by (auto simp: check_child_def split: if_splits)
      then show ?thesis using q ys Cons by (auto simp: prefix_def)
    qed (use ys in simp)
  qed
  finally show ?case .
qed

text \<open>
  A tree represents a table of names and test nodes when its nodes are the non-empty prefixes
  of the names and its ends are the table.
\<close>

definition represents :: "'n ptree \<Rightarrow> (path, 'n) dict \<Rightarrow> bool" where
  "represents t E \<longleftrightarrow> wf_ptree t
     \<and> paths t = {ys. ys \<noteq> [] \<and> (\<exists>p. dict_has E p \<and> prefix ys p)}
     \<and> (\<forall>p. end_at t p = map_of E p)"

lemma current_paths:
  assumes "wf_ptree t" and "q \<noteq> []"
  shows "c \<in> set (dict_get (variant_nodes t) (hd q) []) \<longleftrightarrow> c \<in> paths t \<and> (\<exists>pre. c = pre @ [hd q])"
proof -
  have "c \<in> paths t \<Longrightarrow> c \<noteq> []" using assms(1) by (auto simp: wf_ptree_def)
  then show ?thesis using assms(1) unfolding wf_ptree_def
    by (metis (mono_tags, lifting) append_butlast_last_id last_snoc mem_Collect_eq)
qed

lemma current_ex:
  assumes "wf_ptree t" and "q \<noteq> []"
  shows "(\<exists>c \<in> set (dict_get (variant_nodes t) (hd q) []). P c)
      \<longleftrightarrow> (\<exists>pre. pre @ [hd q] \<in> paths t \<and> P (pre @ [hd q]))"
proof
  assume "\<exists>c \<in> set (dict_get (variant_nodes t) (hd q) []). P c"
  then obtain c where c: "c \<in> set (dict_get (variant_nodes t) (hd q) [])" "P c" by (rule bexE)
  then obtain pre where "c \<in> paths t" "c = pre @ [hd q]" using current_paths [OF assms] by metis
  with c(2) have "pre @ [hd q] \<in> paths t \<and> P (pre @ [hd q])" by simp
  then show "\<exists>pre. pre @ [hd q] \<in> paths t \<and> P (pre @ [hd q])" by (rule exI)
next
  assume "\<exists>pre. pre @ [hd q] \<in> paths t \<and> P (pre @ [hd q])"
  then obtain pre where pre: "pre @ [hd q] \<in> paths t" "P (pre @ [hd q])" by (elim exE conjE)
  have "pre @ [hd q] \<in> set (dict_get (variant_nodes t) (hd q) [])"
    unfolding current_paths [OF assms] using pre(1) by (intro conjI exI [of _ pre] refl)
  with pre(2) show "\<exists>c \<in> set (dict_get (variant_nodes t) (hd q) []). P c" by (rule bexI)
qed

lemma path_split: "q \<noteq> [] \<Longrightarrow> (pre @ [hd q]) @ tl q = pre @ q"
  by (cases q) simp_all

lemma follow_from:
  assumes "wf_ptree t" and "q \<noteq> []" and "pre @ [hd q] \<in> paths t"
  shows "follow t (pre @ [hd q]) (tl q) = (if pre @ q \<in> paths t then Some (pre @ q) else None)"
  using follow_path [OF assms(1,3), of "tl q"] unfolding path_split [OF assms(2)] .

lemma prefix_sublist: "prefix (pre @ q) p \<Longrightarrow> sublist q p"
  by (metis append.assoc prefix_def sublist_appendI)

lemma contains_sublist:
  assumes "represents t E"
  shows "pt_contains t name \<longleftrightarrow> (\<exists>p. dict_has E p \<and> sublist (split_on (CHR ''.'') name) p)"
proof -
  let ?q = "split_on (CHR ''.'') name"
  have wf: "wf_ptree t" and paths: "paths t = {ys. ys \<noteq> [] \<and> (\<exists>p. dict_has E p \<and> prefix ys p)}"
    using assms by (simp_all add: represents_def)
  have q: "?q \<noteq> []" by simp
  have "pt_contains t name \<longleftrightarrow> (\<exists>c \<in> set (dict_get (variant_nodes t) (hd ?q) []). follow t c (tl ?q) \<noteq> None)"
    by (simp add: pt_contains_def Let_def list_ex_iff)
  also have "\<dots> \<longleftrightarrow> (\<exists>pre. pre @ [hd ?q] \<in> paths t \<and> follow t (pre @ [hd ?q]) (tl ?q) \<noteq> None)"
    by (rule current_ex [OF wf q])
  also have "\<dots> \<longleftrightarrow> (\<exists>pre. pre @ [hd ?q] \<in> paths t \<and> pre @ ?q \<in> paths t)"
    by (intro ex_cong1 conj_cong refl) (simp add: follow_from [OF wf q])
  also have "\<dots> \<longleftrightarrow> (\<exists>p. dict_has E p \<and> sublist ?q p)"
  proof
    assume "\<exists>pre. pre @ [hd ?q] \<in> paths t \<and> pre @ ?q \<in> paths t"
    then obtain pre p where "dict_has E p" "prefix (pre @ ?q) p" by (auto simp: paths)
    moreover have "sublist ?q p" using calculation(2) by (rule prefix_sublist)
    ultimately show "\<exists>p. dict_has E p \<and> sublist ?q p" by blast
  next
    assume "\<exists>p. dict_has E p \<and> sublist ?q p"
    then obtain p pre suf where p: "dict_has E p" "p = pre @ ?q @ suf" by (auto simp: sublist_def)
    have "p = (pre @ [hd ?q]) @ (tl ?q @ suf)"
    proof -
      have "(pre @ [hd ?q]) @ (tl ?q @ suf) = ((pre @ [hd ?q]) @ tl ?q) @ suf" by (rule append.assoc [symmetric])
      also have "\<dots> = p" unfolding path_split [OF q] p(2) by (rule append.assoc)
      finally show ?thesis by (rule sym)
    qed
    then have "prefix (pre @ [hd ?q]) p" by (rule prefixI)
    moreover have "prefix (pre @ ?q) p" using p(2) by (intro prefixI [of _ _ suf]) simp
    moreover have "x \<in> paths t" if "x \<noteq> []" "prefix x p" for x
      using that p(1) unfolding paths by blast
    ultimately have "pre @ [hd ?q] \<in> paths t" "pre @ ?q \<in> paths t" using q by simp_all
    then show "\<exists>pre. pre @ [hd ?q] \<in> paths t \<and> pre @ ?q \<in> paths t" by blast
  qed
  finally show ?thesis .
qed

lemma follow_case:
  "n \<in> set (case x of None \<Rightarrow> [] | Some p \<Rightarrow> g p) \<longleftrightarrow> (\<exists>p. x = Some p \<and> n \<in> set (g p))"
  by (cases x) simp_all

lemma set_map_filter_iff: "set (List.map_filter f xs) = {y. \<exists>x \<in> set xs. f x = Some y}"
  by (force simp: List.map_filter_def)

lemma get_sublist:
  assumes "represents t E"
  shows "set (pt_get t name) = {n. \<exists>p. map_of E p = Some n \<and> sublist (split_on (CHR ''.'') name) p}"
proof -
  let ?q = "split_on (CHR ''.'') name"
  have wf: "wf_ptree t" and paths: "paths t = {ys. ys \<noteq> [] \<and> (\<exists>p. dict_has E p \<and> prefix ys p)}"
    and ends: "\<And>p. end_at t p = map_of E p"
    using assms by (simp_all add: represents_def)
  have q: "?q \<noteq> []" by simp
  have below: "set (List.map_filter (\<lambda>r. pn_end (pnode_at t r)) (traverse (depth_bound t) t p))
      = {n. \<exists>r. map_of E r = Some n \<and> prefix p r}" if "p \<in> paths t" for p
  proof -
    have "r \<in> paths t" if "map_of E r = Some n" "prefix p r" for r n
      using that \<open>p \<in> paths t\<close> unfolding paths by (auto simp: dict_has_def)
    then show ?thesis
      using set_traverse [OF wf that, of "depth_bound t"] ends
      by (auto simp: set_map_filter_iff end_at_def)
  qed
  have "n \<in> set (pt_get t name) \<longleftrightarrow> (\<exists>pre r. pre @ ?q \<in> paths t \<and> map_of E r = Some n \<and> prefix (pre @ ?q) r)" for n
  proof -
    have up: "pre @ [hd ?q] \<in> paths t" if "pre @ ?q \<in> paths t" for pre
    proof -
      have "pre @ ?q \<in> {ys. ys \<noteq> [] \<and> (\<exists>p. dict_has E p \<and> prefix ys p)}" using that paths by simp
      then obtain p where "dict_has E p" "prefix (pre @ ?q) p" by auto
      moreover have "prefix (pre @ [hd ?q]) (pre @ ?q)"
        using path_split [OF q, of pre] by (metis prefixI)
      ultimately have "dict_has E p \<and> prefix (pre @ [hd ?q]) p" using prefix_order.trans by blast
      then show ?thesis using paths by auto
    qed
    have "n \<in> set (pt_get t name) \<longleftrightarrow> (\<exists>c \<in> set (dict_get (variant_nodes t) (hd ?q) []).
        \<exists>p. follow t c (tl ?q) = Some p \<and>
          n \<in> set (List.map_filter (\<lambda>r. pn_end (pnode_at t r)) (traverse (depth_bound t) t p)))"
      unfolding pt_get_def Let_def by (simp add: follow_case eq_commute [of "Some _"])
    also have "\<dots> \<longleftrightarrow> (\<exists>pre. pre @ [hd ?q] \<in> paths t \<and> (\<exists>p. follow t (pre @ [hd ?q]) (tl ?q) = Some p \<and>
          n \<in> set (List.map_filter (\<lambda>r. pn_end (pnode_at t r)) (traverse (depth_bound t) t p))))"
      by (rule current_ex [OF wf q])
    also have "\<dots> \<longleftrightarrow> (\<exists>pre. pre @ [hd ?q] \<in> paths t \<and> pre @ ?q \<in> paths t
        \<and> n \<in> set (List.map_filter (\<lambda>r. pn_end (pnode_at t r)) (traverse (depth_bound t) t (pre @ ?q))))"
      by (intro ex_cong1 conj_cong refl) (simp add: follow_from [OF wf q])
    also have "\<dots> \<longleftrightarrow> (\<exists>pre. pre @ ?q \<in> paths t
        \<and> n \<in> set (List.map_filter (\<lambda>r. pn_end (pnode_at t r)) (traverse (depth_bound t) t (pre @ ?q))))"
      using up by blast
    also have "\<dots> \<longleftrightarrow> (\<exists>pre. pre @ ?q \<in> paths t \<and> (\<exists>r. map_of E r = Some n \<and> prefix (pre @ ?q) r))"
      by (intro ex_cong1 conj_cong refl) (simp add: below)
    finally show ?thesis by simp
  qed
  moreover have "(\<exists>pre r. pre @ ?q \<in> paths t \<and> map_of E r = Some n \<and> prefix (pre @ ?q) r)
      \<longleftrightarrow> (\<exists>p. map_of E p = Some n \<and> sublist ?q p)" for n
  proof
    assume "\<exists>p. map_of E p = Some n \<and> sublist ?q p"
    then obtain p pre suf where p: "map_of E p = Some n" "p = pre @ ?q @ suf" by (auto simp: sublist_def)
    then have pr: "prefix (pre @ ?q) p" by (auto simp: prefix_def)
    then have "pre @ ?q \<in> paths t" using p(1) q unfolding paths by (auto simp: dict_has_def)
    then show "\<exists>pre r. pre @ ?q \<in> paths t \<and> map_of E r = Some n \<and> prefix (pre @ ?q) r" using p(1) pr by blast
  next
    assume "\<exists>pre r. pre @ ?q \<in> paths t \<and> map_of E r = Some n \<and> prefix (pre @ ?q) r"
    then obtain pre r where "map_of E r = Some n" "prefix (pre @ ?q) r" by blast
    moreover have "sublist ?q r" using calculation(2) by (rule prefix_sublist)
    ultimately show "\<exists>p. map_of E p = Some n \<and> sublist ?q p" by blast
  qed
  ultimately show ?thesis by blast
qed


section \<open>Insertion\<close>

text \<open>Every variant of the table has a node.\<close>

definition indexed :: "'n ptree \<Rightarrow> bool" where
  "indexed t \<longleftrightarrow> (\<forall>v. dict_has (variant_nodes t) v \<longrightarrow> dict_get (variant_nodes t) v [] \<noteq> [])"

definition add_root :: "string \<Rightarrow> 'n ptree \<Rightarrow> 'n ptree" where
  "add_root v0 t = t\<lparr>pt_nodes := dict_set [v0] fresh_pnode (pt_nodes t),
                      variant_nodes := dict_set v0 [[v0]] (variant_nodes t)\<rparr>"

lemma wf_empty_ptree [simp]: "wf_ptree empty_ptree" "indexed empty_ptree"
  by (simp_all add: wf_ptree_def indexed_def empty_ptree_def paths_has dict_has_def dict_get_def)

lemma indexed_set_child: "indexed t \<Longrightarrow> indexed (set_child p v t)"
  by (auto simp: indexed_def set_child_def Let_def)

lemma indexed_insert_walk: "indexed t \<Longrightarrow> indexed (insert_walk current vs n t)"
proof (induction vs arbitrary: current t)
  case Nil
  then show ?case by (simp add: indexed_def set_end_simps)
next
  case (Cons v vs)
  then show ?case by (simp add: Let_def indexed_set_child)
qed

lemma no_index_no_path:
  assumes "wf_ptree t" and "\<not> dict_has (variant_nodes t) v"
  shows "p \<in> paths t \<Longrightarrow> last p \<noteq> v"
proof -
  have "dict_get (variant_nodes t) v [] = []" using assms(2) by (simp add: dict_has_def dict_get_def split: option.splits)
  then have "{p \<in> paths t. last p = v} = {}" using assms(1) by (metis empty_set wf_ptree_def)
  then show "p \<in> paths t \<Longrightarrow> last p \<noteq> v" by blast
qed

lemma wf_add_root:
  assumes wf: "wf_ptree t" and new: "\<not> dict_has (variant_nodes t) v0"
  shows "wf_ptree (add_root v0 t) \<and> paths (add_root v0 t) = insert [v0] (paths t)
    \<and> end_at (add_root v0 t) = end_at t"
proof -
  have fresh: "[v0] \<notin> paths t" using no_index_no_path [OF wf new, of "[v0]"] by auto
  have none: "pnode_at t [v0] = fresh_pnode"
    using fresh by (auto simp: pnode_at_def dict_get_def paths_has dict_has_def split: option.splits)
  have nodes: "pnode_at (add_root v0 t) p = pnode_at t p" for p
    using none by (simp add: add_root_def pnode_at_def)
  have paths': "paths (add_root v0 t) = insert [v0] (paths t)"
    by (auto simp: add_root_def paths_has)
  have far: "[v0, v] \<notin> paths t" for v
    using fresh wf unfolding wf_ptree_def by (metis append_Cons append_Nil list.distinct(1))
  have closed: "(p @ [v] \<in> paths (add_root v0 t)) = (p \<in> paths (add_root v0 t) \<and> check_child (add_root v0 t) p v)"
    if p: "p \<noteq> []" for p v
  proof -
    have "p @ [v] \<noteq> [v0]" using p by simp
    moreover have "\<not> check_child t [v0] v" by (simp add: check_child_def none fresh_pnode_def)
    moreover have "p @ [v] \<in> paths t \<longleftrightarrow> p \<in> paths t \<and> check_child t p v"
      using wf p by (simp add: wf_ptree_def)
    ultimately show ?thesis unfolding paths' by (auto simp: check_child_def nodes)
  qed
  have index: "set (dict_get (variant_nodes (add_root v0 t)) w []) = {p \<in> paths (add_root v0 t). last p = w}
      \<and> distinct (dict_get (variant_nodes (add_root v0 t)) w [])" for w
  proof -
    have "set (dict_get (variant_nodes t) w []) = {p \<in> paths t. last p = w}"
      "distinct (dict_get (variant_nodes t) w [])" using wf by (simp_all add: wf_ptree_def)
    then show ?thesis unfolding paths' using no_index_no_path [OF wf new]
      by (auto simp: add_root_def)
  qed
  have "[] \<notin> paths t" using wf by (simp add: wf_ptree_def)
  then show ?thesis using closed index paths' by (simp add: wf_ptree_def end_at_def nodes fun_eq_iff)
qed

lemma indexed_add_root: "indexed t \<Longrightarrow> indexed (add_root v0 t)"
  by (auto simp: indexed_def add_root_def)

lemma current_in_paths:
  "wf_ptree t \<Longrightarrow> i < length (dict_get (variant_nodes t) v []) \<Longrightarrow> dict_get (variant_nodes t) v [] ! i \<in> paths t"
proof -
  assume "wf_ptree t" "i < length (dict_get (variant_nodes t) v [])"
  then have "dict_get (variant_nodes t) v [] ! i \<in> {p \<in> paths t. last p = v}"
    using nth_mem by (metis wf_ptree_def)
  then show ?thesis by simp
qed

lemma insert_loop_wf:
  "insert_loop fuel i v0 vs n t = Inr t' \<Longrightarrow> wf_ptree t \<Longrightarrow> indexed t \<Longrightarrow> wf_ptree t' \<and> indexed t'"
proof (induction fuel arbitrary: i t)
  case 0
  then show ?case by (subst (asm) insert_loop.simps) (simp add: Let_def split: if_splits)
next
  case (Suc fuel)
  note wf = insert_walk_effect [OF Suc.prems(2) current_in_paths [OF Suc.prems(2)], THEN conjunct1]
  show ?case
  proof (cases "i < length (dict_get (variant_nodes t) v0 [])")
    case True
    from Suc.prems(1) True
    have "insert_loop fuel (Suc i) v0 vs n
        (insert_walk (dict_get (variant_nodes t) v0 [] ! i) vs n t) = Inr t'"
      by (subst (asm) insert_loop.simps) (simp add: Let_def)
    then show ?thesis by (rule Suc.IH) (use wf [OF True] indexed_insert_walk [OF Suc.prems(3)] in simp_all)
  next
    case False
    from Suc.prems(1) False have "t = t'" by (subst (asm) insert_loop.simps) (simp add: Let_def)
    then show ?thesis using Suc.prems by simp
  qed
qed

lemma insert_variants_root:
  "insert_variants fuel (v0 # vs) n t =
    insert_loop fuel 0 v0 vs n (if dict_has (variant_nodes t) v0 then t else add_root v0 t)"
  by (simp add: insert_variants_def add_root_def Let_def)

lemma insert_variants_wf:
  "insert_variants fuel (v0 # vs) n t = Inr t' \<Longrightarrow> wf_ptree t \<Longrightarrow> indexed t \<Longrightarrow> wf_ptree t' \<and> indexed t'"
  unfolding insert_variants_root
  by (erule insert_loop_wf) (auto simp: wf_add_root indexed_add_root)

text \<open>A name whose first variant recurs keeps growing the list that the loop runs over.\<close>

lemma no_closed_list:
  assumes "ws \<noteq> []" and "xs \<noteq> []" and "\<forall>c \<in> set xs. c @ ws \<in> set xs"
  shows False
proof -
  define m where "m = Max (length ` set xs)"
  have "m \<in> length ` set xs" unfolding m_def using assms(2) by (intro Max_in) auto
  then obtain c where c: "c \<in> set xs" "length c = m" by auto
  have "length (c @ ws) \<le> m" unfolding m_def using bspec [OF assms(3) c(1)] by (intro Max_ge imageI) simp_all
  then show False using c(2) assms(1) by simp
qed

lemma insert_loop_endless:
  assumes "vs = ys @ v0 # zs"
  shows "wf_ptree t \<Longrightarrow> dict_get (variant_nodes t) v0 [] \<noteq> [] \<Longrightarrow>
    \<forall>j < i. (dict_get (variant_nodes t) v0 [] ! j) @ ys @ [v0] \<in> set (dict_get (variant_nodes t) v0 []) \<Longrightarrow>
    i \<le> length (dict_get (variant_nodes t) v0 []) \<Longrightarrow>
    insert_loop fuel i v0 vs n t = Inl OutOfFuel"
proof (induction fuel arbitrary: i t)
  case 0
  have "i < length (dict_get (variant_nodes t) v0 [])"
    using no_closed_list [of "ys @ [v0]" "dict_get (variant_nodes t) v0 []"] 0
    by (force simp: in_set_conv_nth)
  then show ?case by (subst insert_loop.simps) (simp add: Let_def)
next
  case (Suc fuel)
  define xs where "xs = dict_get (variant_nodes t) v0 []"
  have i: "i < length xs"
    using no_closed_list [of "ys @ [v0]" xs] Suc.prems(2,3,4) unfolding xs_def
    by (force simp: in_set_conv_nth)
  define t1 where "t1 = insert_walk (xs ! i) vs n t"
  have walk: "wf_ptree t1 \<and> paths t1 = paths t \<union> {xs ! i @ us |us. prefix us vs}
      \<and> prefix xs (dict_get (variant_nodes t1) v0 [])"
    using insert_walk_effect [OF Suc.prems(1), of "xs ! i" vs n] current_in_paths [OF Suc.prems(1)] i
    unfolding xs_def t1_def by blast
  then obtain new where new: "dict_get (variant_nodes t1) v0 [] = xs @ new" by (auto simp: prefix_def)
  have "prefix (ys @ [v0]) vs" using assms by (auto intro: prefixI)
  then have "xs ! i @ ys @ [v0] \<in> paths t1" using walk by blast
  moreover have "set (dict_get (variant_nodes t1) v0 []) = {p \<in> paths t1. last p = v0}"
    using walk by (simp add: wf_ptree_def)
  ultimately have step: "xs ! i @ ys @ [v0] \<in> set (xs @ new)" unfolding new by simp
  have closed: "\<forall>j < Suc i. ((xs @ new) ! j) @ ys @ [v0] \<in> set (xs @ new)"
    using Suc.prems(3) i step unfolding xs_def [symmetric] by (auto simp: less_Suc_eq nth_append)
  have "insert_loop fuel (Suc i) v0 vs n t1 = Inl OutOfFuel"
    by (rule Suc.IH) (use walk closed i in \<open>auto simp: new\<close>)
  then show ?case using i unfolding xs_def t1_def by (subst insert_loop.simps) (simp add: Let_def)
qed


text \<open>The index of a list of nodes: the loop over \<open>insert\<close> in \<open>TestGraph.new_nodes\<close>.\<close>

fun insert_all :: "nat \<Rightarrow> (string \<times> 'n) list \<Rightarrow> 'n ptree \<Rightarrow> 'n ptree res" where
  "insert_all fuel [] t = Inr t"
| "insert_all fuel ((name, n) # items) t =
     (case pt_insert fuel name n t of Inl e \<Rightarrow> Inl e | Inr t \<Rightarrow> insert_all fuel items t)"

abbreviation variants_of :: "string \<Rightarrow> string list" where
  "variants_of name \<equiv> split_on (CHR ''.'') name"

text \<open>The last node inserted under each name.\<close>

definition named_nodes :: "(string \<times> 'n) list \<Rightarrow> (path, 'n) dict" where
  "named_nodes items = foldl (\<lambda>E (name, n). dict_set (variants_of name) n E) [] items"

text \<open>The first variant of a name is never an inner variant of a name.\<close>

definition separated :: "path set \<Rightarrow> bool" where
  "separated P \<longleftrightarrow> (\<forall>p \<in> P. \<forall>q \<in> P. hd p \<notin> set (tl q))"

lemma prefix_snoc_tl: "prefix (x # ys @ [v]) p \<Longrightarrow> v \<in> set (tl p)"
  by (auto simp: prefix_def)

lemma prefixes_of_key:
  "{ys. ys \<noteq> [] \<and> (\<exists>q. dict_has (dict_set p n E) q \<and> prefix ys q)}
    = {ys. ys \<noteq> [] \<and> (\<exists>q. dict_has E q \<and> prefix ys q)} \<union> {ys. ys \<noteq> [] \<and> prefix ys p}"
  by auto

lemma prefixes_cons: "{ys. ys \<noteq> [] \<and> prefix ys (v # vs)} = {[v] @ ys |ys. prefix ys vs}"
  by (auto simp: prefix_Cons)

lemma insert_represents:
  assumes rep: "represents t E" and idx: "indexed t"
    and sep: "separated (insert (v0 # vs) {p. dict_has E p})"
  shows "\<exists>t'. insert_variants (Suc fuel) (v0 # vs) n t = Inr t'
    \<and> represents t' (dict_set (v0 # vs) n E) \<and> indexed t'"
proof -
  define t1 where "t1 = (if dict_has (variant_nodes t) v0 then t else add_root v0 t)"
  have wf: "wf_ptree t" and paths: "paths t = {ys. ys \<noteq> [] \<and> (\<exists>p. dict_has E p \<and> prefix ys p)}"
    and ends: "\<And>p. end_at t p = map_of E p" using rep by (simp_all add: represents_def)
  have only: "p = [v0]" if p: "p \<in> paths t" "last p = v0" for p
  proof -
    obtain q where q: "dict_has E q" "prefix p q" "p \<noteq> []" using p(1) unfolding paths by blast
    show ?thesis
    proof (cases p)
      case (Cons x ys)
      show ?thesis
      proof (cases ys rule: rev_cases)
        case (snoc zs v)
        then have "v0 \<in> set (tl q)" using q(2) p(2) Cons prefix_snoc_tl [of x zs v q] by simp
        then show ?thesis using sep q(1) unfolding separated_def by force
      qed (use p(2) Cons in simp)
    qed (use q(3) in simp)
  qed
  have sep0: "v0 \<notin> set vs" using sep unfolding separated_def by force
  have base: "wf_ptree t1 \<and> indexed t1 \<and> paths t1 = insert [v0] (paths t) \<and> end_at t1 = end_at t
      \<and> dict_get (variant_nodes t1) v0 [] = [[v0]]"
  proof (cases "dict_has (variant_nodes t) v0")
    case True
    have set: "set (dict_get (variant_nodes t) v0 []) = {p \<in> paths t. last p = v0}"
      and dist: "distinct (dict_get (variant_nodes t) v0 [])" using wf by (simp_all add: wf_ptree_def)
    have "dict_get (variant_nodes t) v0 [] \<noteq> []" using True idx by (simp add: indexed_def)
    moreover have "p = [v0]" if "p \<in> set (dict_get (variant_nodes t) v0 [])" for p
      using that set only by simp
    ultimately have "dict_get (variant_nodes t) v0 [] = [[v0]]"
      using dist by (cases "dict_get (variant_nodes t) v0 []"; cases "tl (dict_get (variant_nodes t) v0 [])") auto
    moreover have "[v0] \<in> paths t" using set calculation by auto
    ultimately show ?thesis using True wf idx by (simp add: t1_def insert_absorb)
  next
    case False
    then show ?thesis using wf_add_root [OF wf False] indexed_add_root [OF idx]
      by (simp add: t1_def add_root_def)
  qed
  define t2 where "t2 = insert_walk [v0] vs n t1"
  have walk: "wf_ptree t2 \<and> paths t2 = paths t1 \<union> {[v0] @ ys |ys. prefix ys vs}
      \<and> (\<forall>q. end_at t2 q = (if q = [v0] @ vs then Some n else end_at t1 q))
      \<and> dict_get (variant_nodes t2) v0 [] = [[v0]]"
    using insert_walk_effect [of t1 "[v0]" vs n] base sep0 unfolding t2_def by auto
  have loop: "insert_loop (Suc fuel) 0 v0 vs n t1 = Inr t2"
    using base walk by (subst insert_loop.simps, subst insert_loop.simps) (simp add: Let_def t2_def [symmetric])
  have "[v0] \<in> {[v0] @ ys |ys. prefix ys vs}" by simp
  then have "paths t2 = paths t \<union> {[v0] @ ys |ys. prefix ys vs}" using walk base by auto
  then have "paths t2 = {ys. ys \<noteq> [] \<and> (\<exists>q. dict_has (dict_set (v0 # vs) n E) q \<and> prefix ys q)}"
    unfolding prefixes_of_key prefixes_cons paths .
  moreover have "end_at t2 q = map_of (dict_set (v0 # vs) n E) q" for q
    using walk base ends by simp
  ultimately have "represents t2 (dict_set (v0 # vs) n E)" using walk by (simp add: represents_def)
  moreover have "indexed t2" unfolding t2_def using base by (simp add: indexed_insert_walk)
  moreover have "insert_variants (Suc fuel) (v0 # vs) n t = Inr t2"
    unfolding insert_variants_root using loop by (simp add: t1_def)
  ultimately show ?thesis by blast
qed

lemma pt_nodes_empty: "pt_nodes empty_ptree = []"
  by (simp add: empty_ptree_def)

lemma represents_empty: "represents empty_ptree []"
  by (auto simp: represents_def paths_has dict_has_def end_at_def pnode_at_def fresh_pnode_def
      dict_get_def pt_nodes_empty)

lemma insert_all_represents:
  assumes "represents t E" and "indexed t"
    and "separated ({p. dict_has E p} \<union> (variants_of \<circ> fst) ` set items)"
  shows "\<exists>t'. insert_all (Suc fuel) items t = Inr t'
    \<and> represents t' (foldl (\<lambda>E (name, n). dict_set (variants_of name) n E) E items)"
  using assms
proof (induction items arbitrary: t E)
  case (Cons item items)
  obtain name n where item: "item = (name, n)" by (cases item)
  obtain v0 vs where vs: "variants_of name = v0 # vs" by (cases "variants_of name") simp_all
  have "separated (insert (v0 # vs) {p. dict_has E p})"
    using Cons.prems(3) vs item unfolding separated_def by (simp add: image_iff)
  then obtain t1 where t1: "insert_variants (Suc fuel) (v0 # vs) n t = Inr t1"
    "represents t1 (dict_set (v0 # vs) n E)" "indexed t1"
    using insert_represents [OF Cons.prems(1,2)] by blast
  have "{p. dict_has (dict_set (v0 # vs) n E) p} \<union> (variants_of \<circ> fst) ` set items
      = {p. dict_has E p} \<union> (variants_of \<circ> fst) ` set (item # items)"
    using vs item by auto
  then obtain t2 where "insert_all (Suc fuel) items t1 = Inr t2"
    "represents t2 (foldl (\<lambda>E (name, n). dict_set (variants_of name) n E) (dict_set (v0 # vs) n E) items)"
    using Cons.IH [OF t1(2,3)] Cons.prems(3) by metis
  then show ?case using t1(1) vs item by (simp add: pt_insert_def)
qed simp

lemma insert_all_wf:
  "insert_all fuel items t = Inr t' \<Longrightarrow> wf_ptree t \<Longrightarrow> indexed t \<Longrightarrow> wf_ptree t' \<and> indexed t'"
proof (induction items arbitrary: t)
  case (Cons item items)
  obtain name n where item: "item = (name, n)" by (cases item)
  obtain v0 vs where vs: "variants_of name = v0 # vs" by (cases "variants_of name") simp_all
  from Cons.prems(1) obtain t1 where t1: "insert_variants fuel (v0 # vs) n t = Inr t1"
    "insert_all fuel items t1 = Inr t'" by (auto simp: item pt_insert_def vs split: sum.splits)
  then show ?case using Cons.IH [OF t1(2)] insert_variants_wf [OF t1(1) Cons.prems(2,3)] by blast
qed simp

section \<open>Properties\<close>

text \<open>C36:
  The index answers queries by contiguous parts of names. When no first variant of a node
  name occurs again inside a name, inserting the nodes returns (each outer loop of
  \<open>insert\<close> makes one pass), and then \<open>get\<close> yields exactly the nodes, the last inserted under
  each name, whose dotted name contains the queried dotted name as consecutive variants, and
  \<open>in\<close> tells whether there is such a name.
\<close>

theorem index_answers:
  assumes "separated ((variants_of \<circ> fst) ` set items)"
  shows "\<exists>t. insert_all (Suc fuel) items empty_ptree = Inr t
    \<and> (\<forall>query. set (pt_get t query)
        = {n. \<exists>p. map_of (named_nodes items) p = Some n \<and> sublist (variants_of query) p})
    \<and> (\<forall>query. pt_contains t query \<longleftrightarrow>
        (\<exists>p. dict_has (named_nodes items) p \<and> sublist (variants_of query) p))"
proof -
  have "separated ({p. dict_has [] p} \<union> (variants_of \<circ> fst) ` set items)"
    using assms by (simp add: dict_has_def)
  then obtain t where "insert_all (Suc fuel) items empty_ptree = Inr t" "represents t (named_nodes items)"
    using insert_all_represents [OF represents_empty wf_empty_ptree(2)] unfolding named_nodes_def by blast
  then show ?thesis using get_sublist contains_sublist by blast
qed

definition example_names :: "(string \<times> nat) list" where
  "example_names = [(''all.quicktest.vm1'', 1), (''all.tutorial.vm1.on'', 2), (''leaves.tutorial.vm1'', 3)]"

lemma index_answers_witness:
  "separated ((variants_of \<circ> fst) ` set example_names)
    \<and> (\<exists>t. insert_all (Suc 0) example_names empty_ptree = Inr t
        \<and> set (pt_get t ''tutorial.vm1'')
            = {n. \<exists>p. map_of (named_nodes example_names) p = Some n \<and> sublist (variants_of ''tutorial.vm1'') p}
        \<and> set (pt_get t ''tutorial.vm1'') = {2, 3} \<and> pt_contains t ''quicktest'' \<and> \<not> pt_contains t ''all.vm1'')"
proof -
  have sep: "separated ((variants_of \<circ> fst) ` set example_names)"
    by (simp add: separated_def example_names_def)
  from index_answers [OF sep, of 0] obtain t where t: "insert_all (Suc 0) example_names empty_ptree = Inr t"
    "set (pt_get t ''tutorial.vm1'')
      = {n. \<exists>p. map_of (named_nodes example_names) p = Some n \<and> sublist (variants_of ''tutorial.vm1'') p}"
    by blast
  have run: "case insert_all (Suc 0) example_names empty_ptree of Inl e \<Rightarrow> False
    | Inr t \<Rightarrow> set (pt_get t ''tutorial.vm1'') = {2, 3} \<and> pt_contains t ''quicktest'' \<and> \<not> pt_contains t ''all.vm1''"
    by code_simp
  show ?thesis using sep t run by simp
qed

text \<open>C37:
  A name whose first variant recurs makes \<open>insert\<close> run forever. Whatever nodes were inserted
  before, no number of passes is enough for a dotted name that repeats its first variant: each
  pass creates another node with that variant and appends it to the list the loop runs over.
\<close>

theorem recurring_variant_never_inserted:
  assumes "insert_all fuel items empty_ptree = Inr t"
    and "hd (variants_of name) \<in> set (tl (variants_of name))"
  shows "pt_insert fuel' name n t = Inl OutOfFuel"
proof -
  obtain v0 vs where vs: "variants_of name = v0 # vs" by (cases "variants_of name") simp_all
  obtain ys zs where split: "vs = ys @ v0 # zs" using assms(2) vs by (auto dest: split_list)
  have wf: "wf_ptree t \<and> indexed t" using insert_all_wf [OF assms(1)] by simp
  define t1 where "t1 = (if dict_has (variant_nodes t) v0 then t else add_root v0 t)"
  have "wf_ptree t1" using wf wf_add_root by (auto simp: t1_def)
  moreover have "dict_get (variant_nodes t1) v0 [] \<noteq> []"
    using wf by (auto simp: t1_def indexed_def add_root_def)
  ultimately have "insert_loop fuel' 0 v0 vs n t1 = Inl OutOfFuel"
    by (intro insert_loop_endless [OF split]) simp_all
  then show ?thesis by (simp add: pt_insert_def vs insert_variants_root t1_def)
qed

lemma recurring_variant_never_inserted_witness:
  "\<exists>t. insert_all 1 [(''all.vm1'', 1 :: nat)] empty_ptree = Inr t
    \<and> pt_insert 1000 ''vm1.all.vm1'' 2 t = Inl OutOfFuel"
proof -
  have "case insert_all 1 [(''all.vm1'', 1 :: nat)] empty_ptree of Inl e \<Rightarrow> False | Inr t \<Rightarrow> True"
    by code_simp
  then obtain t where t: "insert_all 1 [(''all.vm1'', 1 :: nat)] empty_ptree = Inr t"
    by (auto split: sum.splits)
  show ?thesis using recurring_variant_never_inserted [OF t, of "''vm1.all.vm1''" 1000 2] t by simp
qed

end
