(* ===== verification/EdgeRegister.thy ===== *)
theory EdgeRegister
  imports Params
begin

text \<open>
  Model of what the nodes of \<open>virttest/cartgraph/node.py\<close> use below their own logic: the
  \<open>EdgeRegister\<close> of worker visits with its contract as a locale, the matching of the
  regular expressions built from node names, and the order of node prefixes.
\<close>

section \<open>Edge registers\<close>

type_synonym register = "(string, (string, nat) dict) dict"

definition empty_register :: register where
  "empty_register = []"

text \<open>A node key is the bridged form of a node; \<open>None\<close> asks for all nodes or all workers.\<close>

definition reg_keys :: "register \<Rightarrow> string option \<Rightarrow> string list" where
  "reg_keys registry node = (case node of Some k \<Rightarrow> [k] | None \<Rightarrow> dict_keys registry)"

definition get_workers :: "register \<Rightarrow> string option \<Rightarrow> string set" where
  "get_workers registry node =
     fold (\<lambda>node_key worker_keys. worker_keys \<union> set (dict_keys (dict_get registry node_key [])))
       (reg_keys registry node) {}"

definition get_counters :: "register \<Rightarrow> string option \<Rightarrow> string option \<Rightarrow> nat" where
  "get_counters registry node worker =
     fold (\<lambda>node_key counter.
         fold (\<lambda>worker_key counter. counter + dict_get (dict_get registry node_key []) worker_key 0)
           (case worker of Some w \<Rightarrow> [w] | None \<Rightarrow> dict_keys (dict_get registry node_key [])) counter)
       (reg_keys registry node) 0"

definition register :: "string \<Rightarrow> string \<Rightarrow> register \<Rightarrow> register" where
  "register node worker registry =
     (let registry = (if \<not> dict_has registry node then dict_set node [] registry else registry);
          registry = (if \<not> dict_has (dict_get registry node []) worker
                      then dict_set node (dict_set worker 0 (dict_get registry node [])) registry
                      else registry);
          row = dict_get registry node []
      in dict_set node (dict_set worker (dict_get row worker 0 + 1) row) registry)"

text \<open>
  What the nodes rely on: visits are counted per node key and worker, and the workers of a key
  are those with a visit.
\<close>

locale visit_register =
  fixes start :: 'r
    and visit :: "string \<Rightarrow> string \<Rightarrow> 'r \<Rightarrow> 'r"
    and visits :: "'r \<Rightarrow> string \<Rightarrow> string \<Rightarrow> nat"
    and workers :: "'r \<Rightarrow> string \<Rightarrow> string set"
    and good :: "'r \<Rightarrow> bool"
  assumes start_good: "good start"
    and start_visits: "visits start k w = 0"
    and visit_good: "good r \<Longrightarrow> good (visit k w r)"
    and visit_visits: "good r \<Longrightarrow>
      visits (visit k w r) k' w' = (if k' = k \<and> w' = w then visits r k' w' + 1 else visits r k' w')"
    and workers_visits: "good r \<Longrightarrow> w \<in> workers r k \<longleftrightarrow> visits r k w > 0"
begin

lemma visit_workers: "good r \<Longrightarrow> workers (visit k w r) k' = (if k' = k then insert w (workers r k') else workers r k')"
proof (rule set_eqI)
  fix v
  assume "good r"
  then have "v \<in> workers (visit k w r) k' \<longleftrightarrow> visits (visit k w r) k' v > 0"
    by (rule workers_visits [OF visit_good])
  then show "v \<in> workers (visit k w r) k' \<longleftrightarrow> v \<in> (if k' = k then insert w (workers r k') else workers r k')"
    using \<open>good r\<close> by (simp add: visit_visits workers_visits)
qed

definition visit_all :: "(string \<times> string) list \<Rightarrow> 'r \<Rightarrow> 'r" where
  "visit_all es r = fold (\<lambda>(k, w). visit k w) es r"

lemma visit_all_good: "good r \<Longrightarrow> good (visit_all es r)"
  unfolding visit_all_def by (induction es arbitrary: r) (auto simp: visit_good)

lemma visit_all_visits:
  "good r \<Longrightarrow> visits (visit_all es r) k w = visits r k w + count_list es (k, w)"
  unfolding visit_all_def by (induction es arbitrary: r) (auto simp: visit_good visit_visits split: if_splits)

lemma visit_all_workers: "workers (visit_all es start) k = {w. (k, w) \<in> set es}"
proof (rule set_eqI)
  fix w
  have "w \<in> workers (visit_all es start) k \<longleftrightarrow> count_list es (k, w) > 0"
    by (simp add: workers_visits visit_all_good start_good visit_all_visits start_visits)
  then show "w \<in> workers (visit_all es start) k \<longleftrightarrow> w \<in> {w. (k, w) \<in> set es}"
    by (metis count_list_0_iff gr0I mem_Collect_eq neq0_conv)
qed

end

text \<open>Rows hold positive counters and every key and worker once.\<close>

definition register_ok :: "register \<Rightarrow> bool" where
  "register_ok r \<longleftrightarrow> distinct (dict_keys r)
     \<and> (\<forall>row \<in> snd ` set r. distinct (dict_keys row) \<and> (\<forall>n \<in> snd ` set row. n > 0))"

definition visits_of :: "register \<Rightarrow> string \<Rightarrow> string \<Rightarrow> nat" where
  "visits_of r k w = get_counters r (Some k) (Some w)"

lemma visits_of_lookup: "visits_of r k w = dict_get (dict_get r k []) w 0"
  by (simp add: visits_of_def get_counters_def reg_keys_def)

lemma workers_of_key: "get_workers r (Some k) = set (dict_keys (dict_get r k []))"
  by (simp add: get_workers_def reg_keys_def)

lemma register_row:
  "register k w r = dict_set k (dict_set w (dict_get (dict_get r k []) w 0 + 1) (dict_get r k [])) r
     \<or> \<not> dict_has (dict_get r k []) w"
  by (auto simp: register_def Let_def dict_has_def dict_get_def split: option.splits)

lemma lookup_register:
  "dict_get (dict_get (register k w r) k' []) w' 0 =
    dict_get (dict_get r k' []) w' 0 + (if k' = k \<and> w' = w then 1 else 0)"
  by (auto simp: register_def Let_def dict_has_def dict_get_def split: option.splits)

lemma dict_update_values: "v \<in> snd ` set (dict_set k x d) \<Longrightarrow> v = x \<or> v \<in> snd ` set d"
  unfolding dict_set_def by (induction d) (auto split: if_splits)

lemma dict_get_value: "dict_get d k y = y \<or> dict_get d k y \<in> snd ` set d"
  by (auto simp: dict_get_def dest!: map_of_SomeD split: option.splits intro: rev_image_eqI)

lemma register_ok_row:
  assumes "register_ok r"
  shows "distinct (dict_keys (dict_get r k [])) \<and> (\<forall>n \<in> snd ` set (dict_get r k []). n > 0)"
proof (cases "dict_get r k [] \<in> snd ` set r")
  case True
  then show ?thesis using assms unfolding register_ok_def by blast
next
  case False
  then have "dict_get r k [] = []" using dict_get_value [of r k "[]"] by simp
  then show ?thesis by (simp add: dict_keys_def)
qed

lemma register_ok_register:
  assumes "register_ok r"
  shows "register_ok (register k w r)"
proof -
  define row where "row = dict_get r k []"
  have row: "distinct (dict_keys row)" "\<forall>n \<in> snd ` set row. n > 0"
    using register_ok_row [OF assms, of k] by (simp_all add: row_def)
  have get: "dict_get (dict_set k y d) k [] = y" for y and d :: register by simp
  define r1 where "r1 = (if \<not> dict_has r k then dict_set k [] r else r)"
  have r1: "distinct (dict_keys r1)" "snd ` set r1 \<subseteq> insert [] (snd ` set r)" "dict_get r1 k [] = row"
    using assms dict_update_values [of _ k "[]" r]
    by (auto simp: r1_def register_ok_def row_def dict_has_def dict_get_def split: option.splits)
  define r2 where "r2 = (if \<not> dict_has row w then dict_set k (dict_set w 0 row) r1 else r1)"
  have row2: "dict_get r2 k [] = (if \<not> dict_has row w then dict_set w 0 row else row)"
    using r1(3) by (simp add: r2_def)
  have "register k w r = dict_set k (dict_set w (dict_get row w 0 + 1) (dict_get r2 k [])) r2"
    unfolding register_def Let_def r1_def [symmetric] r1(3) r2_def [symmetric]
    using row2 by (auto simp: dict_get_def dict_has_def split: option.splits)
  moreover have "dict_set w (dict_get row w 0 + 1) (dict_get r2 k []) = dict_set w (dict_get row w 0 + 1) row"
    unfolding row2 by (simp add: dict_set_def)
  ultimately have reg: "register k w r = dict_set k (dict_set w (dict_get row w 0 + 1) row) r2" by simp
  have "dict_set k y r2 = dict_set k y r1" for y by (simp add: r2_def dict_set_def)
  then have reg': "register k w r = dict_set k (dict_set w (dict_get row w 0 + 1) row) r1" using reg by simp
  have "n > 0" if "n \<in> snd ` set (dict_set w (dict_get row w 0 + 1) row)" for n
    using dict_update_values [OF that] row(2) by auto
  then have new: "distinct (dict_keys (dict_set w (dict_get row w 0 + 1) row))"
    "\<forall>n \<in> snd ` set (dict_set w (dict_get row w 0 + 1) row). n > 0"
    using row(1) by simp_all
  have "distinct (dict_keys (register k w r))" unfolding reg' using r1(1) by simp
  moreover have "distinct (dict_keys x) \<and> (\<forall>n \<in> snd ` set x. n > 0)" if "x \<in> snd ` set (register k w r)" for x
  proof -
    have "x = dict_set w (dict_get row w 0 + 1) row \<or> x = [] \<or> x \<in> snd ` set r"
      using dict_update_values [of x k _ r1] that r1(2) unfolding reg' by blast
    then show ?thesis using new assms by (auto simp: register_ok_def dict_keys_def)
  qed
  ultimately show ?thesis unfolding register_ok_def by blast
qed

lemma has_positive:
  assumes "register_ok r"
  shows "w \<in> set (dict_keys (dict_get r k [])) \<longleftrightarrow> dict_get (dict_get r k []) w 0 > 0"
proof -
  have "\<forall>n \<in> snd ` set (dict_get r k []). n > 0"
    using register_ok_row [OF assms, of k] by simp
  then show ?thesis
    using dict_get_value [of "dict_get r k []" w 0]
    by (auto simp flip: dict_has_iff simp: dict_has_def dict_get_def split: option.splits dest!: map_of_SomeD)
qed

interpretation edge: visit_register empty_register register visits_of "\<lambda>r k. get_workers r (Some k)" register_ok
proof unfold_locales
  show "register_ok empty_register" by (simp add: register_ok_def empty_register_def dict_keys_def)
  show "visits_of empty_register k w = 0" for k w
    by (simp add: visits_of_lookup empty_register_def dict_get_def)
  show "register_ok (register k w r)" if "register_ok r" for r k w
    using that by (rule register_ok_register)
  show "visits_of (register k w r) k' w' = (if k' = k \<and> w' = w then visits_of r k' w' + 1 else visits_of r k' w')"
    if "register_ok r" for r k w k' w'
    by (simp add: visits_of_lookup lookup_register)
  show "w \<in> get_workers r (Some k) \<longleftrightarrow> visits_of r k w > 0" if "register_ok r" for r k w
    unfolding workers_of_key visits_of_lookup using that by (rule has_positive)
qed

section \<open>Patterns built from names\<close>

text \<open>
  \<open>s.replace(old, new)\<close> for any \<open>old\<close>: an empty one matches around every character.
\<close>

definition str_replace :: "string \<Rightarrow> string \<Rightarrow> string \<Rightarrow> string" where
  "str_replace old new s =
     (if old = [] then new @ concat (map (\<lambda>c. c # new) s) else replace_all old new s)"

text \<open>
  The regular expressions of the graph are node names with escaped dots, wildcards and anchors.
  Other operators of \<open>re\<close> are outside of the model and give \<open>NotImplementedError\<close>.
\<close>

datatype rx = Lit char | AnyChar | AnyPlus | EndOfString

definition rx_special :: "char \<Rightarrow> bool" where
  "rx_special c \<longleftrightarrow> c \<in> set ''*+?^()[]{}|''"

fun parse_rx :: "string \<Rightarrow> rx list option" where
  "parse_rx [] = Some []"
| "parse_rx (c # s) =
     (if c = CHR 0x5C then
        (case s of
           [] \<Rightarrow> None
         | d # t \<Rightarrow> if d = CHR ''.'' \<or> d = CHR ''-'' then map_option (Cons (Lit d)) (parse_rx t) else None)
      else if c = CHR ''.'' then
        (case s of
           [] \<Rightarrow> Some [AnyChar]
         | d # t \<Rightarrow> if d = CHR ''+'' then map_option (Cons AnyPlus) (parse_rx t)
                   else map_option (Cons AnyChar) (parse_rx s))
      else if c = CHR ''$'' then map_option (Cons EndOfString) (parse_rx s)
      else if rx_special c then None
      else map_option (Cons (Lit c)) (parse_rx s))"

fun match_rx :: "rx list \<Rightarrow> string \<Rightarrow> bool" where
  "match_rx [] s = True"
| "match_rx (Lit c # r) s = (case s of [] \<Rightarrow> False | d # t \<Rightarrow> d = c \<and> match_rx r t)"
| "match_rx (AnyChar # r) s = (case s of [] \<Rightarrow> False | d # t \<Rightarrow> d \<noteq> CHR 0x0A \<and> match_rx r t)"
| "match_rx (AnyPlus # r) s =
     (case s of [] \<Rightarrow> False
      | d # t \<Rightarrow> d \<noteq> CHR 0x0A \<and> (match_rx r t \<or> match_rx (AnyPlus # r) t))"
| "match_rx (EndOfString # r) s = ((s = [] \<or> s = [CHR 0x0A]) \<and> match_rx r s)"

definition re_search :: "string \<Rightarrow> string \<Rightarrow> bool res" where
  "re_search pattern s =
     (case parse_rx pattern of
        None \<Rightarrow> Inl NotImplementedError
      | Some r \<Rightarrow> Inr (list_ex (match_rx r) (suffixes s)))"

section \<open>Prefixes of nodes\<close>

text \<open>
  The match of \<open>prefix_pattern\<close>, \<open>^(\d+)([abcd]?)(.+)\<close>: the groups are greedy, and a
  group gives characters back when the following ones need them.
\<close>

definition match_prefix :: "string \<Rightarrow> (string \<times> string \<times> string) option" where
  "match_prefix s =
     (let ds = takeWhile is_digit s;
          r = takeWhile (\<lambda>c. c \<noteq> CHR 0x0A) (dropWhile is_digit s)
      in case r of
           [] \<Rightarrow> if length ds \<ge> 2 then Some (butlast ds, [], [last ds]) else None
         | c # t \<Rightarrow> if ds = [] then None
                   else if c \<in> set ''abcd'' \<and> t \<noteq> [] then Some (ds, [c], t)
                   else Some (ds, [], c # t))"

definition prefix_groups :: "string \<Rightarrow> string \<times> string \<times> string" where
  "prefix_groups s = (case match_prefix s of None \<Rightarrow> (s, [], []) | Some g \<Rightarrow> g)"

lemma match_prefix_shorter: "match_prefix s = Some (d, a, e) \<Longrightarrow> length e < length s"
proof -
  assume m: "match_prefix s = Some (d, a, e)"
  define ds where "ds = takeWhile is_digit s"
  define m where "m = length (dropWhile is_digit s)"
  define r where "r = takeWhile (\<lambda>c. c \<noteq> CHR 0x0A) (dropWhile is_digit s)"
  have "length r \<le> m" unfolding r_def m_def by (rule length_takeWhile_le)
  moreover have "length s = length ds + m"
    unfolding ds_def m_def by (metis length_append takeWhile_dropWhile_id)
  moreover have "(case r of
      [] \<Rightarrow> if length ds \<ge> 2 then Some (butlast ds, [], [last ds]) else None
    | c # t \<Rightarrow> if ds = [] then None
              else if c \<in> set ''abcd'' \<and> t \<noteq> [] then Some (ds, [c], t)
              else Some (ds, [], c # t)) = Some (d, a, e)"
    using m unfolding match_prefix_def Let_def ds_def r_def by blast
  ultimately show ?thesis
    by (cases r; cases ds) (auto simp del: set_simps split: if_splits)
qed

lemma prefix_groups_shorter: "prefix_groups s = (d, a, e) \<Longrightarrow> e \<noteq> [] \<Longrightarrow> length e < length s"
  using match_prefix_shorter by (auto simp: prefix_groups_def split: option.splits)

text \<open>The comparison; \<open>int\<close> of a digit string is read by \<open>py_int\<close>.\<close>

function prefix_priority :: "string \<Rightarrow> string \<Rightarrow> int res" where
  "prefix_priority prefix1 prefix2 =
     (if prefix1 = prefix2 then Inr 0
      else let (digit1, alpha1, else1) = prefix_groups prefix1;
               (digit2, alpha2, else2) = prefix_groups prefix2;
               rest = (if alpha1 \<noteq> alpha2 then
                         (if alpha1 = [] then Inr (- 1)
                          else if alpha2 = [] then Inr 1
                          else Inr (if str_less alpha2 alpha1 then 1 else - 1))
                       else if else1 = [] then Inl ValueError
                       else if else2 = [] then Inl ValueError
                       else if startswith else1 ''-'' then Inr 1
                       else if startswith else2 ''-'' then Inr (- 1)
                       else prefix_priority else1 else2)
           in if str_isdigit digit1 \<and> str_isdigit digit2 then
                bindE (py_int digit1) (\<lambda>n1. bindE (py_int digit2) (\<lambda>n2.
                  if n1 \<noteq> n2 then Inr (n1 - n2) else rest))
              else if digit1 \<noteq> digit2 then Inr (if str_less digit2 digit1 then 1 else - 1)
              else rest)"
  by pat_completeness auto
termination
  by (relation "measure (\<lambda>(p, q). length p)") (auto dest!: sym [of "(_, _, _)" "prefix_groups _"] prefix_groups_shorter)

declare prefix_priority.simps [simp del]

end
