(* ===== verification/CartNode.thy ===== *)
theory CartNode
  imports EdgeRegister
begin

text \<open>
  Model of \<open>TestNode\<close> in \<open>virttest/cartgraph/node.py\<close> with what it uses of
  \<open>object.py\<close> and \<open>worker.py\<close>: the nodes, test objects, workers and edge registers live in a
  store addressed by numbers and worker ids, since the code shares and mutates them. A node
  holds its parsed name apart from its other parameters, because every parsed node has one.
\<close>

section \<open>State\<close>

type_synonym nid = nat
type_synonym oid = nat

record tobject =
  o_suffix :: string
  o_long_suffix :: string
  o_key :: string
  o_params :: params
  o_composites :: "oid list"

record tworker =
  tw_swarm :: string
  tw_net :: string
  tw_params :: params
  tw_restrs :: "(string, string) dict"

text \<open>
  A result; the entry of a run in progress is told apart, as it has no other keys than name
  and status.
\<close>

record test_result =
  r_name :: string
  r_status :: string
  r_running :: bool

text \<open>
  The policies that the tool assigns to nodes: the default decision, constants, and the lambda
  expressions passed to the flagging functions.
\<close>

datatype policy = DefaultPolicy | Constant bool | UnlessCloned | UnlessFinished | UnlessSharedRoot

record tnode =
  n_prefix :: string
  n_name :: string
  n_params :: params
  n_nets_cfg :: string
  n_should_run :: policy
  n_should_clean :: policy
  n_rerun_off :: bool
  n_finished :: "string option"
  n_started :: "string option"
  n_bridged :: "nid list"
  n_cloned :: "nid list"
  n_incompatible :: "string list"
  n_objects :: "oid list"
  n_results :: "test_result list"
  n_setup :: "(nid, oid list) dict"
  n_cleanup :: "(nid, oid list) dict"
  n_edges :: nat

text \<open>The four registers of a node, which bridged nodes share.\<close>

record edges =
  picked_by_setup :: register
  picked_by_cleanup :: register
  dropped_setup :: register
  dropped_cleanup :: register

record tgraph =
  g_nodes :: "nid list"
  g_node :: "nid \<Rightarrow> tnode"
  g_object :: "oid \<Rightarrow> tobject"
  g_worker :: "string \<Rightarrow> tworker"
  g_swarms :: "(string, string list) dict"
  g_edges :: "nat \<Rightarrow> edges"

definition upd_node :: "nid \<Rightarrow> (tnode \<Rightarrow> tnode) \<Rightarrow> tgraph \<Rightarrow> tgraph" where
  "upd_node n f g = g\<lparr>g_node := (g_node g)(n := f (g_node g n))\<rparr>"

definition upd_edges :: "nat \<Rightarrow> (edges \<Rightarrow> edges) \<Rightarrow> tgraph \<Rightarrow> tgraph" where
  "upd_edges a f g = g\<lparr>g_edges := (g_edges g)(a := f (g_edges g a))\<rparr>"

abbreviation edges_of :: "tgraph \<Rightarrow> nid \<Rightarrow> edges" where
  "edges_of g n \<equiv> g_edges g (n_edges (g_node g n))"

definition setup_nodes :: "tgraph \<Rightarrow> nid \<Rightarrow> nid list" where
  "setup_nodes g n = dict_keys (n_setup (g_node g n))"

definition cleanup_nodes :: "tgraph \<Rightarrow> nid \<Rightarrow> nid list" where
  "cleanup_nodes g n = dict_keys (n_cleanup (g_node g n))"

definition run_workers :: "tgraph \<Rightarrow> string list" where
  "run_workers g = concat (map snd (g_swarms g))"

section \<open>Names\<close>

definition is_flat :: "tgraph \<Rightarrow> nid \<Rightarrow> bool" where
  "is_flat g n \<longleftrightarrow> n_objects (g_node g n) = []"

definition max_restr :: "tnode \<Rightarrow> string" where
  "max_restr nd = fold (\<lambda>main_restr max_restr.
       if startswith (n_name nd) main_restr
       then (if length max_restr < length main_restr then main_restr else max_restr)
       else max_restr)
     (objects (n_params nd) ''main_restrictions'') []"

definition setless_form :: "tnode \<Rightarrow> string" where
  "setless_form nd = replace_first (max_restr nd @ ''.'') [] (n_name nd)"

definition bridged_form :: "tnode \<Rightarrow> string" where
  "bridged_form nd =
     (if n_objects nd = [] then setless_form nd
      else [CHR 0x5C] @ ''.'' @ str_replace (n_nets_cfg nd) ''.+'' (setless_form nd) @ ''$'')"

definition node_key :: "tgraph \<Rightarrow> nid \<Rightarrow> string" where
  "node_key g n = bridged_form (g_node g n)"

definition long_prefix :: "tnode \<Rightarrow> string" where
  "long_prefix nd =
     (let blank_dots = map (\<lambda>c. if c = CHR '' '' then CHR ''.'' else c);
          nets = blank_dots (p_get_or (n_params nd) ''nets'' []);
          vms = blank_dots (p_get_or (n_params nd) ''vms'' [])
      in n_prefix nd @ ''-'' @ nets @ ''.'' @ vms)"

definition node_id :: "tnode \<Rightarrow> string" where
  "node_id nd = n_prefix nd @ ''-'' @ n_name nd"

text \<open>\<open>worker.id in node.params["name"]\<close>, a test of substrings.\<close>

definition names_worker :: "tgraph \<Rightarrow> string \<Rightarrow> nid \<Rightarrow> bool" where
  "names_worker g w n \<longleftrightarrow> str_in w (n_name (g_node g n))"

section \<open>What bridged nodes share\<close>

definition shared_started_workers :: "tgraph \<Rightarrow> nid \<Rightarrow> string set" where
  "shared_started_workers g n =
     set (List.map_filter (\<lambda>m. n_started (g_node g m)) (n # n_bridged (g_node g n)))"

definition shared_finished_workers :: "tgraph \<Rightarrow> nid \<Rightarrow> string set" where
  "shared_finished_workers g n =
     set (List.map_filter (\<lambda>m. n_finished (g_node g m)) (n # n_bridged (g_node g n)))"

definition involved_workers :: "tgraph \<Rightarrow> nid \<Rightarrow> string list" where
  "involved_workers g n =
     remdups (filter (\<lambda>w. w \<in> get_workers (picked_by_setup (edges_of g n)) None
                          \<union> get_workers (picked_by_cleanup (edges_of g n)) None) (run_workers g))"

definition shared_involved_workers :: "tgraph \<Rightarrow> nid \<Rightarrow> string set" where
  "shared_involved_workers g n = set (involved_workers g n)"

definition shared_results :: "tgraph \<Rightarrow> nid \<Rightarrow> test_result list" where
  "shared_results g n = concat (map (\<lambda>m. n_results (g_node g m)) (n # n_bridged (g_node g n)))"

text \<open>
  How far the workers of a node share its setup: each for itself (containers without swarm
  scope), per swarm (remote hosts without cluster scope) or globally.
\<close>

datatype sharing = PerWorker | PerSwarm | Globally

instantiation sharing :: linorder
begin

definition sharing_rank :: "sharing \<Rightarrow> nat" where
  "sharing_rank s = (case s of PerWorker \<Rightarrow> 0 | PerSwarm \<Rightarrow> 1 | Globally \<Rightarrow> 2)"

definition less_eq_sharing :: "sharing \<Rightarrow> sharing \<Rightarrow> bool" where
  "s \<le> t \<longleftrightarrow> sharing_rank s \<le> sharing_rank t"

definition less_sharing :: "sharing \<Rightarrow> sharing \<Rightarrow> bool" where
  "s < t \<longleftrightarrow> sharing_rank s < sharing_rank t"

instance
  by standard (auto simp: less_eq_sharing_def less_sharing_def sharing_rank_def split: sharing.splits)

end

definition sharing_of :: "tnode \<Rightarrow> string option \<Rightarrow> sharing res" where
  "sharing_of nd worker =
     (case worker of
        None \<Rightarrow> Inr Globally
      | Some w \<Rightarrow>
          bindE (p_getitem (n_params nd) ''pool_scope'') (\<lambda>pool_scope.
            if \<not> str_in ''swarm'' pool_scope \<and> p_get (n_params nd) ''nets_spawner'' = Some ''lxc''
            then Inr PerWorker
            else if \<not> str_in ''cluster'' pool_scope \<and> p_get (n_params nd) ''nets_spawner'' = Some ''remote''
            then Inr PerSwarm
            else Inr Globally))"

definition shared_filtered_results :: "tgraph \<Rightarrow> nid \<Rightarrow> test_result list res" where
  "shared_filtered_results g n =
     (let nd = g_node g n in
      bindE (sharing_of nd (n_started nd)) (\<lambda>sharing.
        let scope_filter = (case n_started nd of
              None \<Rightarrow> []
            | Some w \<Rightarrow> (case sharing of
                  PerWorker \<Rightarrow> tw_swarm (g_worker g w) @ ''.'' @ w
                | PerSwarm \<Rightarrow> tw_swarm (g_worker g w)
                | Globally \<Rightarrow> []))
        in Inr (filter (\<lambda>result. str_in scope_filter (r_name result)) (shared_results g n))))"

definition shared_result_worker_ids :: "tgraph \<Rightarrow> nid \<Rightarrow> string list" where
  "shared_result_worker_ids g n =
     remdups (List.map_filter (\<lambda>result.
         if r_status result \<noteq> ''PASS'' then None
         else find (\<lambda>worker_id. str_in worker_id (r_name result)) (run_workers g))
       (shared_results g n))"


section \<open>Traversal state of a node\<close>

definition object_typed_params :: "tgraph \<Rightarrow> oid \<Rightarrow> params \<Rightarrow> params" where
  "object_typed_params g ob params =
     object_params (object_params
         (fold (\<lambda>composite params. object_params params (o_suffix (g_object g composite)))
            (o_composites (g_object g ob)) params)
         (o_suffix (g_object g ob)))
       (o_key (g_object g ob))"

definition get_stateful_objects :: "tgraph \<Rightarrow> nid \<Rightarrow> string \<Rightarrow> oid list" where
  "get_stateful_objects g n do =
     filter (\<lambda>ob. p_true (object_typed_params g ob (n_params (g_node g n))) (do @ ''_state''))
       (n_objects (g_node g n))"

definition object_id :: "tgraph \<Rightarrow> oid \<Rightarrow> string" where
  "object_id g ob = o_long_suffix (g_object g ob) @ ''-'' @ p_get_or (o_params (g_object g ob)) ''name'' []"

definition is_permanent :: "tgraph \<Rightarrow> oid \<Rightarrow> bool" where
  "is_permanent g ob \<longleftrightarrow> p_get_or (o_params (g_object g ob)) ''permanent_vm'' ''no'' = ''yes''"

definition is_shared_root :: "tgraph \<Rightarrow> nid \<Rightarrow> bool res" where
  "is_shared_root g n = get_boolean (n_params (g_node g n)) ''shared_root'' False"

definition is_object_root :: "tgraph \<Rightarrow> nid \<Rightarrow> bool" where
  "is_object_root g n \<longleftrightarrow> dict_has (n_params (g_node g n)) ''object_root''"

definition is_unrolled :: "tgraph \<Rightarrow> nid \<Rightarrow> string option \<Rightarrow> bool res" where
  "is_unrolled g n worker =
     bindE (is_shared_root g n) (\<lambda>root.
       if root then Inr True
       else if \<not> is_flat g n then Inl RuntimeError
       else case worker of
           Some w \<Rightarrow>
             if tw_net (g_worker g w) \<in> set (n_incompatible (g_node g n)) then Inr True
             else Inr (list_ex (\<lambda>m. str_in (setless_form (g_node g n)) (node_id (g_node g m))
                                  \<and> str_in w (node_id (g_node g m))) (cleanup_nodes g n))
         | None \<Rightarrow>
             if n_incompatible (g_node g n) \<noteq> [] then Inr True
             else Inr (list_ex (\<lambda>m. str_in (setless_form (g_node g n)) (node_id (g_node g m)))
                         (cleanup_nodes g n)))"

text \<open>The parents or children that concern a worker: its own and the flat ones.\<close>

definition concerns :: "tgraph \<Rightarrow> string \<Rightarrow> nid \<Rightarrow> bool" where
  "concerns g w n \<longleftrightarrow> \<not> (\<not> is_flat g n \<and> \<not> names_worker g w n)"

definition has_dropped_parent :: "tgraph \<Rightarrow> string \<Rightarrow> nid \<Rightarrow> nid \<Rightarrow> bool" where
  "has_dropped_parent g w n p \<longleftrightarrow> w \<in> get_workers (dropped_setup (edges_of g n)) (Some (node_key g p))"

definition has_dropped_child :: "tgraph \<Rightarrow> string \<Rightarrow> nid \<Rightarrow> nid \<Rightarrow> bool" where
  "has_dropped_child g w n c \<longleftrightarrow> w \<in> get_workers (dropped_cleanup (edges_of g n)) (Some (node_key g c))"

definition is_setup_ready :: "tgraph \<Rightarrow> nid \<Rightarrow> string \<Rightarrow> bool" where
  "is_setup_ready g n w \<longleftrightarrow>
     list_all (\<lambda>p. concerns g w p \<longrightarrow> has_dropped_parent g w n p) (setup_nodes g n)"

definition is_cleanup_ready :: "tgraph \<Rightarrow> nid \<Rightarrow> string \<Rightarrow> bool" where
  "is_cleanup_ready g n w \<longleftrightarrow>
     list_all (\<lambda>c. concerns g w c \<longrightarrow> has_dropped_child g w n c) (cleanup_nodes g n)"

text \<open>
  \<open>is_started\<close> and \<open>is_finished\<close> compare the workers that started or finished a bridged node
  with a threshold, or with all workers involved when the threshold is \<open>-1\<close>.
\<close>

definition in_swarm :: "tgraph \<Rightarrow> string \<Rightarrow> string \<Rightarrow> bool" where
  "in_swarm g w v \<longleftrightarrow> tw_swarm (g_worker g v) = tw_swarm (g_worker g w)"

definition reaches :: "tgraph \<Rightarrow> nid \<Rightarrow> string set \<Rightarrow> string option \<Rightarrow> int \<Rightarrow> bool res" where
  "reaches g n workers worker threshold =
     bindE (sharing_of (g_node g n) worker) (\<lambda>sharing.
       case (sharing, worker) of
         (PerWorker, Some w) \<Rightarrow> Inr (w \<in> workers)
       | (PerSwarm, Some w) \<Rightarrow>
           let own_cluster = Set.filter (in_swarm g w) workers in
           if threshold = - 1
           then bindE (of_option KeyError (map_of (g_swarms g) (tw_swarm (g_worker g w)))) (\<lambda>all_hosts.
                  Inr (own_cluster = shared_involved_workers g n \<inter> set all_hosts))
           else Inr (int (card own_cluster) \<ge> threshold)
       | _ \<Rightarrow>
           if threshold = - 1 then Inr (workers = shared_involved_workers g n)
           else Inr (int (card workers) \<ge> threshold))"

definition is_started :: "tgraph \<Rightarrow> nid \<Rightarrow> string option \<Rightarrow> int \<Rightarrow> bool res" where
  "is_started g n worker threshold =
     (if is_flat g n then Inr False else reaches g n (shared_started_workers g n) worker threshold)"

definition is_finished :: "tgraph \<Rightarrow> nid \<Rightarrow> string option \<Rightarrow> int \<Rightarrow> bool res" where
  "is_finished g n worker threshold =
     (if is_flat g n then Inr True else reaches g n (shared_finished_workers g n) worker threshold)"

definition is_occupied :: "tgraph \<Rightarrow> nid \<Rightarrow> string option \<Rightarrow> bool res" where
  "is_occupied g n worker =
     bindE (get_numeric (n_params (g_node g n)) ''max_tries'' 1) (\<lambda>max_tries.
     bindE (get_numeric (n_params (g_node g n)) ''max_concurrent_tries'' max_tries) (\<lambda>max_concurrent_tries.
       is_started g n worker (max max_concurrent_tries 1)))"

primrec stays_parsed :: "tgraph \<Rightarrow> nid \<Rightarrow> string list \<Rightarrow> bool res" where
  "stays_parsed g n [] = Inr False"
| "stays_parsed g n (v # vs) =
     bindE (is_unrolled g n (Some v)) (\<lambda>unrolled.
       if unrolled \<and> is_cleanup_ready g n v \<and> tw_restrs (g_worker g v) = []
       then Inr True else stays_parsed g n vs)"

definition should_parse :: "tgraph \<Rightarrow> nid \<Rightarrow> bool res" where
  "should_parse g n = bindE (stays_parsed g n (involved_workers g n)) (\<lambda>done. Inr (\<not> done))"

section \<open>Run and clean decisions\<close>

definition lower_char :: "char \<Rightarrow> char" where
  "lower_char c = (let n = of_char c :: nat in if 65 \<le> n \<and> n \<le> 90 then char_of (n + 32) else c)"

definition str_lower :: "string \<Rightarrow> string" where
  "str_lower s = map lower_char s"

definition all_statuses :: "string list" where
  "all_statuses = [''fail'', ''error'', ''pass'', ''warn'', ''skip'', ''cancel'', ''interrupted'', ''unknown'']"

definition rerun_statuses :: "params \<Rightarrow> string list" where
  "rerun_statuses params =
     (if p_true params ''replay'' then get_list params ''rerun_status'' ''fail,error,warn'' (Some (CHR '',''))
      else let l = get_list params ''rerun_status'' [] None in if l = [] then all_statuses else l)"

definition stop_statuses :: "params \<Rightarrow> string list" where
  "stop_statuses params = get_list params ''stop_status'' [] None"

definition is_dry_run :: "tnode \<Rightarrow> bool" where
  "is_dry_run nd \<longleftrightarrow> p_get_or (n_params nd) ''dry_run'' ''no'' = ''yes''"

text \<open>The statuses of the earlier runs; the worker counts as the one that started the node.\<close>

definition rerun_results :: "tgraph \<Rightarrow> nid \<Rightarrow> string option \<Rightarrow> test_result list res" where
  "rerun_results g n worker =
     (if get_stateful_objects g n ''set'' = [] then Inr (shared_results g n)
      else shared_filtered_results
        (upd_node n (\<lambda>nd. nd\<lparr>n_started := (case n_started nd of Some v \<Rightarrow> Some v | None \<Rightarrow> worker)\<rparr>) g) n)"

definition should_rerun :: "tgraph \<Rightarrow> nid \<Rightarrow> string option \<Rightarrow> bool res" where
  "should_rerun g n worker =
     (let nd = g_node g n in
      if n_rerun_off nd then Inr False
      else if is_dry_run nd then Inr False
      else if is_flat g n then Inr False
      else if n_cloned nd \<noteq> [] then Inr False
      else if (case worker of Some w \<Rightarrow> \<not> names_worker g w n | None \<Rightarrow> False) then Inl RuntimeError
      else if \<not> set (rerun_statuses (n_params nd)) \<subseteq> set all_statuses then Inl ValueError
      else if \<not> set (stop_statuses (n_params nd)) \<subseteq> set all_statuses then Inl ValueError
      else
        bindE (get_numeric (n_params nd) ''max_tries'' (if p_true (n_params nd) ''replay'' then 2 else 1)) (\<lambda>max_tries.
          if max_tries < 0 then Inl ValueError
          else
            bindE (rerun_results g n worker) (\<lambda>results.
              let test_statuses = map (\<lambda>r. str_lower (r_status r)) results in
              if \<not> set test_statuses \<subseteq> set (rerun_statuses (n_params nd)) then Inr False
              else if set (stop_statuses (n_params nd)) \<inter> set test_statuses \<noteq> {} then Inr False
              else
                let total_runs = int (length test_statuses);
                    reruns_left = (if max_tries = 1 then 0 else max_tries - total_runs)
                in Inr (reruns_left > 0))))"

text \<open>
  What a node sees outside of the graph: the outcome of the remote check for states, the lines
  of \<open>/tmp/skip_tests\<close>.
\<close>

datatype check_outcome = StatesThere | StatesMissing | CheckFailed

record surroundings =
  check_states_remotely :: "string \<Rightarrow> params \<Rightarrow> check_outcome"
  skip_tests :: "string list"

text \<open>
  The loop over the objects in \<open>scan_states\<close>: the parameters of the check, whether some object
  has a state to set, and \<open>False\<close> when a permanent object stops the loop.
\<close>

fun scan_objects :: "tgraph \<Rightarrow> params \<Rightarrow> oid list \<Rightarrow> bool \<Rightarrow> params \<Rightarrow> (bool \<times> bool \<times> params) res" where
  "scan_objects g own [] is_leaf node_params = Inr (True, is_leaf, node_params)"
| "scan_objects g own (ob # obs) is_leaf node_params =
     (let object_params = object_typed_params g ob own;
          object_state = p_get_or object_params ''set_state'' []
      in if object_state = [] then scan_objects g own obs is_leaf node_params
         else if object_state = ''install'' \<and> is_permanent g ob then Inr (False, False, node_params)
         else
           bindE (p_getitem object_params ''shared_pool'') (\<lambda>shared_pool.
             let object_suffix = ''_'' @ o_key (g_object g ob) @ ''_'' @ o_long_suffix (g_object g ob);
                 node_params = p_set (''check_state'' @ object_suffix) object_state node_params;
                 node_params = p_set (''show_location'' @ object_suffix) ('':'' @ shared_pool) node_params;
                 node_params = p_set (''check_mode'' @ object_suffix)
                                 (p_get_or object_params ''check_mode'' ''rf'') node_params;
                 node_params = (if o_key (g_object g ob) = ''vms''
                                then p_set (''use_env'' @ object_suffix) ''no'' node_params else node_params)
             in scan_objects g own obs False (p_set (''soft_boot'' @ object_suffix) ''no'' node_params)))"

definition scan_states :: "surroundings \<Rightarrow> tgraph \<Rightarrow> nid \<Rightarrow> bool res" where
  "scan_states sur g n =
     (let nd = g_node g n in
      bindE (scan_objects g (n_params nd) (n_objects nd) True (n_params nd)) (\<lambda>(should_run, is_leaf, node_params).
        case n_started nd of
          None \<Rightarrow> Inl AttributeError
        | Some w \<Rightarrow>
            if is_leaf then Inr should_run
            else bindE (p_getitem (n_params nd) ''suite_path'') (\<lambda>_.
                   case check_states_remotely sur w node_params of
                     StatesThere \<Rightarrow> Inr False
                   | StatesMissing \<Rightarrow> Inr True
                   | CheckFailed \<Rightarrow> Inl RuntimeError)))"

text \<open>The decision may turn off reruns for good, so it changes the node.\<close>

definition default_run_decision :: "surroundings \<Rightarrow> nid \<Rightarrow> string \<Rightarrow> (tgraph, bool) io" where
  "default_run_decision sur n worker =
     bindM (getM id) (\<lambda>g.
       let nd = g_node g n in
       if is_dry_run nd then retM False
       else if is_flat g n then retM False
       else if n_cloned nd \<noteq> [] then retM False
       else if \<not> names_worker g worker n then raiseM RuntimeError
       else
         bindM (if get_stateful_objects g n ''set'' = []
                then (if shared_results g n = [] then retM True else liftM (should_rerun g n (Some worker)))
                else
                  bindM (liftM (is_finished g n (Some worker) 1)) (\<lambda>finished.
                  bindM (if finished then retM False else liftM (scan_states sur g n)) (\<lambda>from_scan.
                  bindM (liftM (shared_filtered_results g n)) (\<lambda>results.
                  thenM (if results = [] \<and> \<not> from_scan
                         then modifyM (upd_node n (\<lambda>nd. nd\<lparr>n_rerun_off := True\<rparr>)) else retM ())
                    (if from_scan then retM True
                     else bindM (getM id) (\<lambda>g. liftM (should_rerun g n (Some worker))))))))
           (\<lambda>should_run.
             if list_ex (\<lambda>skip_variant. skip_variant \<in> set (split_on (CHR ''.'') (n_name nd))) (skip_tests sur)
             then retM False else retM should_run))"

definition should_run :: "surroundings \<Rightarrow> nid \<Rightarrow> string \<Rightarrow> (tgraph, bool) io" where
  "should_run sur n worker =
     bindM (getM id) (\<lambda>g. case n_should_run (g_node g n) of
       DefaultPolicy \<Rightarrow> default_run_decision sur n worker
     | Constant b \<Rightarrow> retM b
     | UnlessCloned \<Rightarrow> retM (n_cloned (g_node g n) = [])
     | UnlessFinished \<Rightarrow> bindM (liftM (is_finished g n (Some worker) 1)) (\<lambda>finished.
         if \<not> finished then retM True else liftM (should_rerun g n (Some worker)))
     | UnlessSharedRoot \<Rightarrow> bindM (liftM (is_shared_root g n)) (\<lambda>root. retM (\<not> root)))"


text \<open>The last test of a state whose policy says that it is removed: reversible nodes.\<close>

definition first_is :: "char \<Rightarrow> string \<Rightarrow> bool res" where
  "first_is c s = bindE (index_nth s 0) (\<lambda>d. Inr (d = c))"

primrec is_reversible :: "tgraph \<Rightarrow> params \<Rightarrow> oid list \<Rightarrow> bool res" where
  "is_reversible g own [] = Inr False"
| "is_reversible g own (ob # obs) =
     (let object_params = object_typed_params g ob own in
      bindE (p_getitem object_params ''unset_mode'') (\<lambda>unset_mode.
      bindE (first_is (CHR ''f'') (p_get_or object_params ''unset_mode_images'' unset_mode)) (\<lambda>images.
      bindE (first_is (CHR ''f'') (p_get_or object_params ''unset_mode_vms'' unset_mode)) (\<lambda>vms.
        if images \<or> vms then Inr True else is_reversible g own obs))))"

definition picked_node :: "tgraph \<Rightarrow> nid \<Rightarrow> string \<Rightarrow> nid res" where
  "picked_node g n v =
     (if is_flat g n \<or> names_worker g v n then Inr n
      else of_option ValueError (find (names_worker g v) (n_bridged (g_node g n))))"

primrec involved_are_done :: "tgraph \<Rightarrow> nid \<Rightarrow> string \<Rightarrow> string list \<Rightarrow> bool res" where
  "involved_are_done g n w [] = Inr True"
| "involved_are_done g n w (v # vs) =
     (if tw_swarm (g_worker g w) \<noteq> ''localhost'' \<and> \<not> str_in (tw_swarm (g_worker g w)) v
      then involved_are_done g n w vs
      else bindE (picked_node g n v) (\<lambda>m.
        if \<not> is_cleanup_ready g m v then Inr False
        else if ''unknown'' \<in> set (map (\<lambda>r. str_lower (r_status r)) (n_results (g_node g m))) then Inr False
        else involved_are_done g n w vs))"

definition default_clean_decision :: "tgraph \<Rightarrow> nid \<Rightarrow> string \<Rightarrow> bool res" where
  "default_clean_decision g n worker =
     (let nd = g_node g n in
      if is_dry_run nd then Inr False
      else if is_flat g n then Inr False
      else if n_cloned nd \<noteq> [] then Inr False
      else if \<not> names_worker g worker n then Inl RuntimeError
      else bindE (is_reversible g (n_params nd) (n_objects nd)) (\<lambda>reversible.
        if \<not> reversible then Inr True
        else bindE (involved_are_done g n worker (involved_workers g n)) (\<lambda>done.
          if \<not> done then Inr False else is_finished g n (Some worker) (- 1))))"

definition should_clean :: "tgraph \<Rightarrow> nid \<Rightarrow> string \<Rightarrow> bool res" where
  "should_clean g n worker =
     (case n_should_clean (g_node g n) of
       DefaultPolicy \<Rightarrow> default_clean_decision g n worker
     | Constant b \<Rightarrow> Inr b
     | UnlessCloned \<Rightarrow> Inr (n_cloned (g_node g n) = [])
     | UnlessFinished \<Rightarrow> bindE (is_finished g n (Some worker) 1) (\<lambda>finished.
         if \<not> finished then Inr True else should_rerun g n (Some worker))
     | UnlessSharedRoot \<Rightarrow> bindE (is_shared_root g n) (\<lambda>root. Inr (\<not> root)))"

section \<open>Sorting nodes\<close>

text \<open>
  \<open>sorted\<close> with a comparison, as the interpreter runs it on fewer than 64 elements: the
  leading run is kept, reversed when it is strictly descending, and the other elements are
  inserted by binary search. The comparison may raise.
\<close>

definition before :: "tgraph \<Rightarrow> nid \<Rightarrow> nid \<Rightarrow> bool res" where
  "before g x y = bindE (prefix_priority (long_prefix (g_node g x)) (long_prefix (g_node g y)))
     (\<lambda>order. Inr (order < 0))"

fun take_run :: "('a \<Rightarrow> 'a \<Rightarrow> bool res) \<Rightarrow> bool \<Rightarrow> 'a \<Rightarrow> 'a list \<Rightarrow> nat res" where
  "take_run lt desc x [] = Inr 0"
| "take_run lt desc x (y # ys) =
     bindE (lt y x) (\<lambda>less. if less = desc then bindE (take_run lt desc y ys) (\<lambda>n. Inr (Suc n)) else Inr 0)"

function search_place :: "('a \<Rightarrow> 'a \<Rightarrow> bool res) \<Rightarrow> 'a \<Rightarrow> 'a list \<Rightarrow> nat \<Rightarrow> nat \<Rightarrow> nat res" where
  "search_place lt pivot xs l r =
     (if l < r
      then let p = l + (r - l) div 2 in
           bindE (lt pivot (xs ! p)) (\<lambda>less.
             if less then search_place lt pivot xs l p else search_place lt pivot xs (p + 1) r)
      else Inr l)"
  by pat_completeness auto
termination
  by (relation "measure (\<lambda>(lt, pivot, xs, l, r). r - l)") auto

declare search_place.simps [simp del]

primrec insert_rest :: "('a \<Rightarrow> 'a \<Rightarrow> bool res) \<Rightarrow> 'a list \<Rightarrow> 'a list \<Rightarrow> 'a list res" where
  "insert_rest lt [] done = Inr done"
| "insert_rest lt (pivot # rest) done =
     bindE (search_place lt pivot done 0 (length done)) (\<lambda>l.
       insert_rest lt rest (take l done @ pivot # drop l done))"

definition py_sorted :: "('a \<Rightarrow> 'a \<Rightarrow> bool res) \<Rightarrow> 'a list \<Rightarrow> 'a list res" where
  "py_sorted lt xs =
     (case xs of
        x # y # zs \<Rightarrow>
          bindE (lt y x) (\<lambda>desc.
          bindE (take_run lt desc y zs) (\<lambda>n.
            let run = take (n + 2) xs in
            insert_rest lt (drop (n + 2) xs) (if desc then rev run else run)))
      | _ \<Rightarrow> Inr xs)"

section \<open>Edges\<close>

definition available_parents :: "tgraph \<Rightarrow> nid \<Rightarrow> string \<Rightarrow> nid list" where
  "available_parents g n w =
     filter (\<lambda>m. \<not> has_dropped_parent g w n m)
       (filter (\<lambda>m. names_worker g w m \<or> is_flat g m) (setup_nodes g n))"

definition available_children :: "tgraph \<Rightarrow> nid \<Rightarrow> string \<Rightarrow> nid list" where
  "available_children g n w =
     filter (\<lambda>m. \<not> has_dropped_child g w n m)
       (filter (\<lambda>m. names_worker g w m \<or> is_flat g m) (cleanup_nodes g n))"

definition sort_nodes :: "(edges \<Rightarrow> register) \<Rightarrow> tgraph \<Rightarrow> nid list \<Rightarrow> nid list res" where
  "sort_nodes picked g ns =
     bindE (py_sorted (before g) ns) (\<lambda>ns.
       let ns = sort_key (\<lambda>m. get_counters (picked (edges_of g m)) None None) ns
       in Inr (sort_key (\<lambda>m. of_bool (\<not> is_flat g m) :: nat) ns))"

definition pick_parent :: "nid \<Rightarrow> string \<Rightarrow> (tgraph, nid) io" where
  "pick_parent n worker =
     bindM (getM id) (\<lambda>g.
       if available_parents g n worker = [] then raiseM NoParentLeft
       else bindM (liftM (sort_nodes picked_by_cleanup g (available_parents g n worker))) (\<lambda>sorted_nodes.
            let test_node = hd sorted_nodes in
            thenM (modifyM (upd_edges (n_edges (g_node g test_node))
                     (\<lambda>e. e\<lparr>picked_by_cleanup := register (node_key g n) worker (picked_by_cleanup e)\<rparr>)))
              (retM test_node)))"

definition pick_child :: "nid \<Rightarrow> string \<Rightarrow> (tgraph, nid) io" where
  "pick_child n worker =
     bindM (getM id) (\<lambda>g.
       if available_children g n worker = [] then raiseM NoChildLeft
       else bindM (liftM (sort_nodes picked_by_setup g (available_children g n worker))) (\<lambda>sorted_nodes.
            let test_node = hd sorted_nodes in
            thenM (modifyM (upd_edges (n_edges (g_node g test_node))
                     (\<lambda>e. e\<lparr>picked_by_setup := register (node_key g n) worker (picked_by_setup e)\<rparr>)))
              (retM test_node)))"

definition drop_parent :: "nid \<Rightarrow> nid \<Rightarrow> string \<Rightarrow> (tgraph, unit) io" where
  "drop_parent n test_node worker =
     bindM (getM id) (\<lambda>g.
       if test_node \<notin> set (setup_nodes g n) then raiseM ValueError
       else modifyM (upd_edges (n_edges (g_node g n))
              (\<lambda>e. e\<lparr>dropped_setup := register (node_key g test_node) worker (dropped_setup e)\<rparr>)))"

definition drop_child :: "nid \<Rightarrow> nid \<Rightarrow> string \<Rightarrow> (tgraph, unit) io" where
  "drop_child n test_node worker =
     bindM (getM id) (\<lambda>g.
       if test_node \<notin> set (cleanup_nodes g n) then raiseM ValueError
       else modifyM (upd_edges (n_edges (g_node g n))
              (\<lambda>e. e\<lparr>dropped_cleanup := register (node_key g test_node) worker (dropped_cleanup e)\<rparr>)))"

text \<open>The objects of a dependency are a set, kept as a list without repetition.\<close>

definition descend_from_node :: "nid \<Rightarrow> nid \<Rightarrow> oid \<Rightarrow> tgraph \<Rightarrow> tgraph" where
  "descend_from_node n test_node ob g =
     (let g = upd_node n (\<lambda>nd. nd\<lparr>n_setup :=
                dict_set test_node (List.insert ob (dict_get (n_setup nd) test_node [])) (n_setup nd)\<rparr>) g
      in upd_node test_node (\<lambda>nd. nd\<lparr>n_cleanup :=
                dict_set n (List.insert ob (dict_get (n_cleanup nd) n [])) (n_cleanup nd)\<rparr>) g)"

definition bridge_with_node :: "nid \<Rightarrow> nid \<Rightarrow> (tgraph, unit) io" where
  "bridge_with_node n test_node =
     (if test_node = n then retM ()
      else bindM (getM id) (\<lambda>g.
        bindM (liftM (re_search (node_key g test_node) (n_name (g_node g n)))) (\<lambda>equivalent.
          if \<not> equivalent then raiseM ValueError
          else if test_node \<in> set (n_bridged (g_node g n)) then retM ()
          else modifyM (\<lambda>g.
            let g = upd_node n (\<lambda>nd. nd\<lparr>n_bridged := n_bridged nd @ [test_node]\<rparr>) g;
                g = upd_node test_node (\<lambda>nd. nd\<lparr>n_bridged := n_bridged nd @ [n]\<rparr>) g
            in upd_node n (\<lambda>nd. nd\<lparr>n_edges := n_edges (g_node g test_node)\<rparr>) g))))"

definition clone_as_source :: "nid \<Rightarrow> nid list \<Rightarrow> tgraph \<Rightarrow> tgraph" where
  "clone_as_source n test_nodes g =
     upd_node n (\<lambda>nd. nd\<lparr>n_prefix := ''0'' @ n_prefix nd, n_cloned := test_nodes\<rparr>) g"


section \<open>Cleaning up and syncing states\<close>

text \<open>
  The loop over the objects in \<open>sync_states\<close>: whether to clean, the action (\<open>unset\<close> or
  \<open>get\<close>) and the parameters of the control file. \<open>vms\<close> is the selection of virtual
  machines by the user, \<open>all_vms\<close> the machines of the configuration files.
\<close>

primrec sync_images :: "string \<Rightarrow> params \<Rightarrow> string list \<Rightarrow> params \<Rightarrow> params res" where
  "sync_images vm_name vm_params [] node_params = Inr node_params"
| "sync_images vm_name vm_params (image_name # image_names) node_params =
     (let image_params = object_params vm_params image_name;
          sfx = ''_'' @ image_name @ ''_'' @ vm_name
      in bindE (p_getitem image_params ''image_name'') (\<lambda>name.
         bindE (p_getitem image_params ''image_format'') (\<lambda>format.
         bindE (get_boolean image_params ''create_image'' False) (\<lambda>create_image.
           let node_params = p_set (''image_name'' @ sfx) name node_params;
               node_params = p_set (''image_format'' @ sfx) format node_params;
               node_params = (if create_image
                 then p_set ''skip_image_processing'' ''no'' (p_set (''remove_image'' @ sfx) ''yes'' node_params)
                 else node_params)
           in sync_images vm_name vm_params image_names node_params))))"

definition selects_vm :: "string option \<Rightarrow> string list \<Rightarrow> string \<Rightarrow> bool" where
  "selects_vm vms all_vms vm_name =
     (case vms of Some selected \<Rightarrow> str_in vm_name selected | None \<Rightarrow> vm_name \<in> set all_vms)"

definition vm_of_object :: "tgraph \<Rightarrow> oid \<Rightarrow> string res" where
  "vm_of_object g ob =
     (if o_key (g_object g ob) = ''vms'' then Inr (o_suffix (g_object g ob))
      else bindE (index_nth (o_composites (g_object g ob)) 0) (\<lambda>c. Inr (o_suffix (g_object g c))))"

definition sync_scopes :: "params \<Rightarrow> string list res" where
  "sync_scopes ob_params =
     (case p_get ob_params ''pool_scope'' of
        None \<Rightarrow> Inl AttributeError
      | Some s \<Rightarrow>
          let scopes = dedup (get_list ob_params ''pool_scope'' [] None) in
          if ''own'' \<in> set scopes then Inr (filter (\<lambda>s. s \<noteq> ''own'') scopes) else Inl KeyError)"

definition sync_suffixes :: "tgraph \<Rightarrow> oid \<Rightarrow> string \<Rightarrow> string" where
  "sync_suffixes g ob vm_name =
     ''_'' @ o_key (g_object g ob) @ ''_'' @ o_suffix (g_object g ob)
     @ (if o_key (g_object g ob) = ''images'' then ''_'' @ vm_name else [])"

definition unset_updates :: "string \<Rightarrow> string \<Rightarrow> string \<Rightarrow> params \<Rightarrow> params \<Rightarrow> params" where
  "unset_updates sfx object_state location ob_params node_params =
     p_set ''pool_scope'' ''own''
       (p_set (''unset_mode'' @ sfx) (p_get_or ob_params ''unset_mode'' ''ri'')
         (p_set (''unset_location'' @ sfx) location
           (p_set (''unset_state'' @ sfx) object_state node_params)))"

definition get_updates :: "string \<Rightarrow> string \<Rightarrow> string \<Rightarrow> string list \<Rightarrow> params \<Rightarrow> params" where
  "get_updates sfx object_state location scopes node_params =
     p_set (''pool_scope'' @ sfx) (join '' '' scopes)
       (p_set (''get_location'' @ sfx) location
         (p_set (''get_state'' @ sfx) object_state node_params))"

fun sync_objects :: "tgraph \<Rightarrow> params \<Rightarrow> string option \<Rightarrow> string list \<Rightarrow> oid list
    \<Rightarrow> bool \<Rightarrow> string \<Rightarrow> params \<Rightarrow> (bool \<times> string \<times> params) res" where
  "sync_objects g own vms all_vms [] clean do node_params = Inr (clean, do, node_params)"
| "sync_objects g own vms all_vms (ob # obs) clean do node_params =
     (let ob_params = object_typed_params g ob own;
          object_state = p_get_or ob_params ''set_state'' [];
          unset_policy = p_get_or ob_params ''unset_mode'' ''ri'';
          key = o_key (g_object g ob)
      in
      if object_state = [] then sync_objects g own vms all_vms obs clean do node_params
      else bindE (index_nth unset_policy 0) (\<lambda>policy.
        if policy \<noteq> CHR ''f'' \<and> policy \<noteq> CHR ''r'' then sync_objects g own vms all_vms obs clean do node_params
        else if key = ''nets'' then sync_objects g own vms all_vms obs clean do node_params
        else if object_state = ''install'' \<and> is_permanent g ob then Inr (False, do, node_params)
        else bindE (vm_of_object g ob) (\<lambda>vm_name.
          if \<not> selects_vm vms all_vms vm_name then sync_objects g own vms all_vms obs clean do node_params
          else
          bindE (if key = ''vms''
                 then bindE (p_getitem ob_params ''images'') (\<lambda>images.
                   sync_images vm_name ob_params (objects ob_params ''images'')
                     (p_set (''images_'' @ vm_name) images node_params))
                 else Inr node_params) (\<lambda>node_params.
          bindE (p_getitem ob_params ''shared_pool'') (\<lambda>shared_pool.
            let sfx = sync_suffixes g ob vm_name;
                location = '':'' @ shared_pool;
                use_env = (\<lambda>node_params. if key = ''vms''
                  then p_set (''use_env_'' @ key @ ''_'' @ o_suffix (g_object g ob)) ''no'' node_params
                  else node_params)
            in if policy = CHR ''f''
               then sync_objects g own vms all_vms obs True ''unset''
                      (use_env (unset_updates sfx object_state location ob_params node_params))
               else
                 let pool_filter = p_get_or node_params ''pool_filter'' ''reuse'' in
                 if pool_filter \<in> set [''reuse'', ''block''] then Inr (False, do, node_params)
                 else if pool_filter \<noteq> ''copy'' then Inl ValueError
                 else bindE (sync_scopes ob_params) (\<lambda>scopes.
                   sync_objects g own vms all_vms obs True ''get''
                     (use_env (get_updates sfx object_state location scopes node_params))))))))"

text \<open>
  The action that the control file is asked for, if any; errors of the control file are only
  logged.
\<close>

definition sync_states :: "tgraph \<Rightarrow> nid \<Rightarrow> string option \<Rightarrow> string list \<Rightarrow> (string \<times> params) option res" where
  "sync_states g n vms all_vms =
     (let own = n_params (g_node g n);
          node_params = filter (\<lambda>(key, v). \<not> (startswith key ''get_state'' \<or> startswith key ''unset_state'')) own
      in bindE (sync_objects g own vms all_vms (n_objects (g_node g n)) False [] node_params)
           (\<lambda>(clean, do, node_params).
             if clean
             then bindE (p_getitem own ''suite_path'') (\<lambda>_. Inr (Some (do, node_params)))
             else Inr None))"

section \<open>Locations of setup states\<close>

text \<open>
  When \<open>pull_locations\<close> raises, the locations added before are not kept here.
  One location for one component: appended to the locations of the object unless it occurs in
  them already, which is a test of substrings.
\<close>

definition add_location :: "string \<Rightarrow> string \<Rightarrow> params \<Rightarrow> params" where
  "add_location key location params =
     (if str_in location (p_get_or params key []) then params
      else if p_true params key then p_set key (p_get_or params key [] @ '' '' @ location) params
      else p_set key location params)"

definition object_locations :: "tgraph \<Rightarrow> oid list \<Rightarrow> string \<Rightarrow> params \<Rightarrow> params" where
  "object_locations g components location params =
     fold (\<lambda>component params.
         if o_key (g_object g component) = ''nets'' then params
         else add_location (''get_location_'' @ o_long_suffix (g_object g component)) location params)
       components params"

definition worker_access :: "tgraph \<Rightarrow> string \<Rightarrow> params \<Rightarrow> params res" where
  "worker_access g wid params =
     (if wid \<notin> set (run_workers g) then Inl RuntimeError
      else Inr (fold (\<lambda>(key, v) params.
              if startswith key ''nets_'' then p_set (key @ ''_'' @ wid) v params else params)
            (tw_params (g_worker g wid)) params))"

primrec pull_from_workers :: "tgraph \<Rightarrow> oid list \<Rightarrow> string \<Rightarrow> string list \<Rightarrow> params \<Rightarrow> params res" where
  "pull_from_workers g components setup_path [] params = Inr params"
| "pull_from_workers g components setup_path (wid # wids) params =
     (if CHR '':'' \<in> set (wid @ setup_path) then Inl ValueError
      else bindE (worker_access g wid (object_locations g components (wid @ '':'' @ setup_path) params))
             (pull_from_workers g components setup_path wids))"

primrec pull_from_nodes :: "tgraph \<Rightarrow> nid \<Rightarrow> string \<Rightarrow> nid list \<Rightarrow> params \<Rightarrow> params res" where
  "pull_from_nodes g n setup_path [] params = Inr params"
| "pull_from_nodes g n setup_path (m # ms) params =
     (let shared_location = '':'' @ p_get_or params ''shared_pool'' ''.'';
          wids = shared_result_worker_ids g m
      in if CHR '':'' \<in> set (tl shared_location) then Inl ValueError
         else
         bindE (of_option KeyError (map_of (n_cleanup (g_node g m)) n)) (\<lambda>components.
         bindE (pull_from_workers g components setup_path wids
                  (object_locations g components shared_location params))
           (pull_from_nodes g n setup_path ms)))"

definition pull_locations :: "nid \<Rightarrow> (tgraph, unit) io" where
  "pull_locations n =
     bindM (getM id) (\<lambda>g.
       if is_flat g n then retM ()
       else let own = n_params (g_node g n) in
         bindM (liftM (p_getitem own ''vms_base_dir'')) (\<lambda>vms_base_dir.
         bindM (liftM (pull_from_nodes g n (p_get_or own ''swarm_pool'' vms_base_dir) (setup_nodes g n) own))
           (\<lambda>params. modifyM (upd_node n (\<lambda>nd. nd\<lparr>n_params := params\<rparr>)))))"

end
