(* ===== verification/NodeChoice.thy ===== *)
theory NodeChoice
  imports CartNode
begin

text \<open>
  The choice of the next node: the sort with a fallible comparison, the order of prefixes,
  and the picking and dropping of parents and children.
\<close>

section \<open>Sorting\<close>

lemma search_place_step:
  assumes "l < r" and "p = l + (r - l) div 2" and "lt x (xs ! p) = Inr b"
  shows "search_place lt x xs l r = (if b then search_place lt x xs l p else search_place lt x xs (p + 1) r)"
  using assms by (subst search_place.simps) (simp add: Let_def)

lemma search_place_total:
  "(\<And>y. y \<in> set xs \<Longrightarrow> \<exists>b. lt x y = Inr b) \<Longrightarrow> r \<le> length xs \<Longrightarrow> \<exists>i. search_place lt x xs l r = Inr i"
proof (induction lt x xs l r rule: search_place.induct)
  case (1 lt x xs l r)
  show ?case
  proof (cases "l < r")
    case True
    define p where "p = l + (r - l) div 2"
    have p: "p < r" using True by (auto simp: p_def)
    then have "xs ! p \<in> set xs" using "1.prems"(2) by (intro nth_mem) simp
    then obtain less where less: "lt x (xs ! p) = Inr less" using "1.prems"(1) by blast
    have "\<exists>i. (if less then search_place lt x xs l p else search_place lt x xs (p + 1) r) = Inr i"
      using "1.IH" [OF True p_def] "1.prems" p by (cases less) auto
    then show ?thesis by (simp only: search_place_step [where lt = lt and x = x, OF True p_def less])
  qed (subst search_place.simps, simp)
qed

lemma insert_rest_mset: "insert_rest lt rest done = Inr ys \<Longrightarrow> mset ys = mset rest + mset done"
proof (induction rest arbitrary: "done")
  case (Cons x rest)
  then obtain l where "insert_rest lt rest (take l done @ x # drop l done) = Inr ys"
    by (auto simp: bindE_Inr_iff)
  from Cons.IH [OF this] have "mset ys = add_mset x (mset rest + (mset (take l done) + mset (drop l done)))"
    by simp
  then show ?case by (simp flip: mset_append)
qed simp

lemma insert_rest_total:
  "(\<And>x y. x \<in> set rest \<Longrightarrow> y \<in> set rest \<union> set done \<Longrightarrow> \<exists>b. lt x y = Inr b) \<Longrightarrow>
   \<exists>ys. insert_rest lt rest done = Inr ys"
proof (induction rest arbitrary: "done")
  case (Cons x rest)
  have "\<exists>i. search_place lt x done 0 (length done) = Inr i"
    by (rule search_place_total) (use Cons.prems in auto)
  then obtain l where l: "search_place lt x done 0 (length done) = Inr l" ..
  have "set (take l done) \<union> set (drop l done) = set done"
    by (metis append_take_drop_id set_append)
  then have "\<exists>ys. insert_rest lt rest (take l done @ x # drop l done) = Inr ys"
    by (intro Cons.IH Cons.prems) auto
  then show ?case using l by simp
qed simp

lemma py_sorted_mset: "py_sorted lt xs = Inr ys \<Longrightarrow> mset ys = mset xs"
proof (cases xs)
  case (Cons x zs)
  assume sorted: "py_sorted lt xs = Inr ys"
  show ?thesis
  proof (cases zs)
    case (Cons y us)
    from sorted obtain desc n where "insert_rest lt (drop (n + 2) xs)
        (if desc then rev (take (n + 2) xs) else take (n + 2) xs) = Inr ys"
      unfolding py_sorted_def \<open>xs = x # zs\<close> Cons by (simp only: list.case Let_def bindE_Inr_iff) blast
    from insert_rest_mset [OF this] have "mset ys = mset (take (n + 2) xs) + mset (drop (n + 2) xs)"
      by (simp add: add.commute split: if_splits)
    then have "mset ys = mset (take (n + 2) xs @ drop (n + 2) xs)" by (simp only: mset_append)
    then show ?thesis by (simp only: append_take_drop_id)
  qed (use sorted Cons in \<open>simp add: py_sorted_def\<close>)
qed (simp add: py_sorted_def)

lemma take_run_total:
  "(\<And>a b. a \<in> set ys \<Longrightarrow> b \<in> insert x (set ys) \<Longrightarrow> \<exists>r. lt a b = Inr r) \<Longrightarrow> \<exists>n. take_run lt desc x ys = Inr n"
proof (induction ys arbitrary: x)
  case (Cons y ys)
  obtain less where less: "lt y x = Inr less" using Cons.prems [of y x] by auto
  obtain n where "take_run lt desc y ys = Inr n" using Cons.IH [of y] Cons.prems by auto
  then show ?case using less by simp
qed simp

lemma py_sorted_total:
  assumes "\<And>x y. x \<in> set xs \<Longrightarrow> y \<in> set xs \<Longrightarrow> \<exists>b. lt x y = Inr b"
  shows "\<exists>ys. py_sorted lt xs = Inr ys"
proof (cases xs)
  case (Cons x zs)
  show ?thesis
  proof (cases zs)
    case (Cons y us)
    then have xs: "xs = x # y # us" using \<open>xs = x # zs\<close> by simp
    obtain desc where desc: "lt y x = Inr desc" using assms [of y x] xs by auto
    have "\<exists>n. take_run lt desc y us = Inr n"
      by (rule take_run_total) (use assms xs in auto)
    then obtain n where n: "take_run lt desc y us = Inr n" ..
    have "\<exists>ys. insert_rest lt (drop (n + 2) xs) (if desc then rev (take (n + 2) xs) else take (n + 2) xs) = Inr ys"
    proof (rule insert_rest_total)
      fix a b
      assume "a \<in> set (drop (n + 2) xs)"
        "b \<in> set (drop (n + 2) xs) \<union> set (if desc then rev (take (n + 2) xs) else take (n + 2) xs)"
      then have "a \<in> set xs" "b \<in> set xs" by (auto dest: in_set_dropD in_set_takeD split: if_splits)
      then show "\<exists>r. lt a b = Inr r" by (rule assms)
    qed
    then show ?thesis unfolding py_sorted_def xs using desc n by (simp only: list.case Let_def bindE_simps)
  qed (simp add: Cons py_sorted_def)
qed (simp add: py_sorted_def)

lemma hd_sort_key:
  assumes "xs \<noteq> []"
  shows "hd (sort_key f xs) \<in> set xs \<and> (\<forall>x \<in> set xs. f (hd (sort_key f xs)) \<le> f x)"
proof -
  have ne: "sort_key f xs \<noteq> []" using assms by (metis set_empty set_sort)
  have "sorted (map f (sort_key f xs))" by simp
  then have "\<forall>x \<in> set (sort_key f xs). f (hd (sort_key f xs)) \<le> f x"
    using ne by (cases "sort_key f xs") auto
  moreover have "hd (sort_key f xs) \<in> set (sort_key f xs)" using ne by (rule hd_in_set)
  ultimately show ?thesis by simp
qed

text \<open>Sorting by a second key after a first one: the head is least in the second, then in the first.\<close>

lemma hd_sort_twice:
  fixes f :: "'a \<Rightarrow> nat" and h :: "'a \<Rightarrow> nat"
  assumes "xs \<noteq> []" and m_def: "m = hd (sort_key f (sort_key h xs))"
  shows "m \<in> set xs \<and> (\<forall>x \<in> set xs. f m \<le> f x \<and> (f x = f m \<longrightarrow> h m \<le> h x))"
proof -
  have ne: "sort_key h xs \<noteq> []" "sort_key f (sort_key h xs) \<noteq> []"
    using assms(1) by (metis set_empty set_sort)+
  have m: "m \<in> set xs" "\<forall>x \<in> set xs. f m \<le> f x"
    using hd_sort_key [OF ne(1), of f] by (simp_all add: m_def)
  have "filter (\<lambda>x. f x = f m) (sort_key f (sort_key h xs)) = filter (\<lambda>x. f x = f m) (sort_key h xs)"
    using sort_key_stable [of f "f m" "sort_key h xs"] by simp
  moreover have "hd (filter (\<lambda>x. f x = f m) (sort_key f (sort_key h xs))) = m"
    using ne(2) unfolding m_def by (cases "sort_key f (sort_key h xs)") auto
  ultimately have first: "hd (filter (\<lambda>x. f x = f m) (sort_key h xs)) = m" by simp
  have "sorted (map h (filter (\<lambda>x. f x = f m) (sort_key h xs)))"
    by (rule sorted_filter) simp
  moreover have "x \<in> set (filter (\<lambda>x. f x = f m) (sort_key h xs))" if "x \<in> set xs" "f x = f m" for x
    using that by simp
  ultimately have "h m \<le> h x" if "x \<in> set xs" "f x = f m" for x
    using that first by (cases "filter (\<lambda>x. f x = f m) (sort_key h xs)") fastforce+
  then show ?thesis using m by blast
qed

section \<open>Prefixes\<close>

lemma str_isdigit_no_dash: "CHR ''-'' \<in> set s \<Longrightarrow> \<not> str_isdigit s"
  by (fastforce simp: str_isdigit_def is_digit_def)

text \<open>Prefixes with a dash and without a line break are always comparable.\<close>

definition dashed :: "string \<Rightarrow> bool" where
  "dashed s \<longleftrightarrow> CHR ''-'' \<in> set s \<and> CHR 0x0A \<notin> set s"

lemma takeWhile_all: "\<forall>c \<in> set s. P c \<Longrightarrow> takeWhile P s = s"
  by simp

lemma match_prefix_dashed:
  assumes "dashed s" and "match_prefix s = Some (d, a, e)"
  shows "dashed e \<and> str_isdigit d"
proof -
  define ds where "ds = takeWhile is_digit s"
  define r where "r = dropWhile is_digit s"
  have s: "s = ds @ r" by (simp add: ds_def r_def)
  have digits: "\<forall>c \<in> set ds. is_digit c" by (auto simp: ds_def dest: set_takeWhileD)
  have "CHR ''-'' \<notin> set ds" using digits by (auto simp: is_digit_def)
  then have dash: "CHR ''-'' \<in> set r" and nl: "CHR 0x0A \<notin> set r"
    using assms(1) s by (auto simp: dashed_def)
  have whole: "takeWhile (\<lambda>c. c \<noteq> CHR 0x0A) r = r" using nl by (intro takeWhile_all) blast
  obtain c t where r: "r = c # t" using dash by (cases r) auto
  define Q where "Q \<longleftrightarrow> c \<in> set ''abcd'' \<and> t \<noteq> []"
  have "match_prefix s = (if ds = [] then None else if Q then Some (ds, [c], t) else Some (ds, [], c # t))"
    unfolding match_prefix_def Let_def ds_def [symmetric] r_def [symmetric] whole Q_def
    by (simp only: r list.case)
  then have "ds \<noteq> []" and split: "(d, a, e) = (if Q then (ds, [c], t) else (ds, [], c # t))"
    using assms(2) by (simp_all split: if_splits)
  have "c \<in> set ''abcd'' \<Longrightarrow> CHR ''-'' \<in> set t" using dash r by auto
  then have "dashed e" using split dash nl r by (auto simp: dashed_def Q_def split: if_splits)
  moreover have "d = ds" using split by (simp split: if_splits)
  ultimately show ?thesis using digits \<open>ds \<noteq> []\<close> by (auto simp: str_isdigit_def)
qed

lemma read_digits_total:
  "\<forall>c \<in> set s. is_digit c \<Longrightarrow> s \<noteq> [] \<or> p \<Longrightarrow> \<exists>m. read_digits 10 p a s = Some m"
proof (induction s arbitrary: p a)
  case (Cons c s)
  have c: "is_digit c" using Cons.prems by simp
  then have "\<exists>n. digit_val c = Some n \<and> n < 10"
    by (auto simp: is_digit_def digit_val_def Let_def)
  then obtain n where "digit_val c = Some n" "n < 10" by blast
  moreover have "c \<noteq> CHR ''_''" using c by (auto simp: is_digit_def)
  moreover obtain m where "read_digits 10 True (a * 10 + n) s = Some m"
    using Cons.IH [of True] Cons.prems by auto
  ultimately show ?case by simp
qed simp

lemma py_int_digits: "str_isdigit s \<Longrightarrow> \<exists>i. py_int s = Inr i"
proof -
  assume "str_isdigit s"
  then have s: "\<forall>c \<in> set s. is_digit c" "s \<noteq> []" by (auto simp: str_isdigit_def)
  have strip: "strip_ws s = s" using s(1) by (intro strip_ws_digits) (auto dest: is_digit_char_range)
  obtain c t where c: "s = c # t" using s(2) by (cases s) auto
  have "split_sign s = (1, s)" using s(1) is_digit_char_range [of c] c by (simp add: split_sign_def)
  moreover obtain m where "read_digits 10 False 0 s = Some m" using read_digits_total [OF s(1)] s(2) by blast
  ultimately show ?thesis using strip by (simp add: py_int_def)
qed

lemma prefix_groups_cases:
  assumes "dashed s"
  obtains "prefix_groups s = (s, [], [])" "\<not> str_isdigit s"
  | d a e where "prefix_groups s = (d, a, e)" "str_isdigit d" "dashed e"
proof (cases "match_prefix s")
  case None
  have "\<not> str_isdigit s" using assms str_isdigit_no_dash by (simp add: dashed_def)
  then show ?thesis using None that(1) by (simp add: prefix_groups_def)
next
  case (Some g)
  obtain d a e where "g = (d, a, e)" by (cases g)
  then show ?thesis using Some that(2) match_prefix_dashed [OF assms] by (simp add: prefix_groups_def)
qed

lemma prefix_priority_total: "dashed p \<Longrightarrow> dashed q \<Longrightarrow> \<exists>i. prefix_priority p q = Inr i"
proof (induction p q rule: prefix_priority.induct)
  case (1 p q)
  show ?case
  proof (cases rule: prefix_groups_cases [OF "1.prems"(1)])
    case p: 1
    show ?thesis
      by (cases rule: prefix_groups_cases [OF "1.prems"(2)])
         (subst prefix_priority.simps; use p in force)+
  next
    case p: (2 d a e)
    show ?thesis
    proof (cases rule: prefix_groups_cases [OF "1.prems"(2)])
      case q: 1
      then have "d \<noteq> q" using p by auto
      then show ?thesis using p q by (subst prefix_priority.simps) simp
    next
      case q: (2 d' a' e')
      obtain i j where ij: "py_int d = Inr i" "py_int d' = Inr j"
        using p q py_int_digits by blast
      have ne: "e \<noteq> []" "e' \<noteq> []" using p q by (auto simp: dashed_def)
      have "\<exists>i. prefix_priority e e' = Inr i"
        if "p \<noteq> q" "a = a'" "\<not> startswith e ''-''" "\<not> startswith e' ''-''"
        using "1.IH" [OF that(1) refl p(1) [symmetric] refl refl q(1) [symmetric] refl] that ne p(3) q(3) by auto
      then show ?thesis using p(1,2) q(1,2) ij ne
        by (subst prefix_priority.simps) (auto simp: Let_def)
    qed
  qed
qed


section \<open>Picking nodes\<close>

text \<open>
  The nodes have prefixes and objects without line breaks, so that their long prefixes can be
  compared.
\<close>

definition plain_node :: "tnode \<Rightarrow> bool" where
  "plain_node nd \<longleftrightarrow> CHR 0x0A \<notin> set (n_prefix nd)
     \<and> CHR 0x0A \<notin> set (p_get_or (n_params nd) ''nets'' [])
     \<and> CHR 0x0A \<notin> set (p_get_or (n_params nd) ''vms'' [])"

lemma plain_node_dashed: "plain_node nd \<Longrightarrow> dashed (long_prefix nd)"
  by (auto simp: plain_node_def dashed_def long_prefix_def Let_def)

lemma available_parents_ready: "available_parents g n w = [] \<longleftrightarrow> is_setup_ready g n w"
  by (auto simp: available_parents_def is_setup_ready_def concerns_def filter_empty_conv list_all_iff)

lemma available_children_ready: "available_children g n w = [] \<longleftrightarrow> is_cleanup_ready g n w"
  by (auto simp: available_children_def is_cleanup_ready_def concerns_def filter_empty_conv list_all_iff)

text \<open>
  The best of some nodes: flat ones before others, then those with the fewest picks in a
  register.
\<close>

definition preferred :: "(edges \<Rightarrow> register) \<Rightarrow> tgraph \<Rightarrow> nid list \<Rightarrow> nid \<Rightarrow> bool" where
  "preferred picked g ns m \<longleftrightarrow> m \<in> set ns \<and> (\<forall>x \<in> set ns.
     (is_flat g x \<longrightarrow> is_flat g m)
     \<and> (is_flat g x = is_flat g m \<longrightarrow>
          get_counters (picked (edges_of g m)) None None \<le> get_counters (picked (edges_of g x)) None None))"

lemma sort_nodes_preferred:
  assumes "\<forall>n \<in> set ns. plain_node (g_node g n)" and "ns \<noteq> []"
  shows "\<exists>ms. sort_nodes picked g ns = Inr ms \<and> preferred picked g ns (hd ms)"
proof -
  have "\<exists>b. before g x y = Inr b" if xy: "x \<in> set ns" "y \<in> set ns" for x y
  proof -
    have "dashed (long_prefix (g_node g x))" "dashed (long_prefix (g_node g y))"
      using assms(1) xy by (simp_all add: plain_node_dashed)
    from prefix_priority_total [OF this]
    obtain i where "prefix_priority (long_prefix (g_node g x)) (long_prefix (g_node g y)) = Inr i" ..
    then show ?thesis by (simp add: before_def)
  qed
  then obtain ks where ks: "py_sorted (before g) ns = Inr ks" using py_sorted_total by blast
  have same: "set ks = set ns" using mset_eq_setD [OF py_sorted_mset [OF ks]] .
  then have "ks \<noteq> []" using assms(2) by auto
  define ms where "ms = sort_key (\<lambda>m. of_bool (\<not> is_flat g m) :: nat)
      (sort_key (\<lambda>m. get_counters (picked (edges_of g m)) None None) ks)"
  define m where "m = hd ms"
  have best: "m \<in> set ks \<and> (\<forall>x \<in> set ks. (of_bool (\<not> is_flat g m) :: nat) \<le> of_bool (\<not> is_flat g x)
      \<and> ((of_bool (\<not> is_flat g x) :: nat) = of_bool (\<not> is_flat g m) \<longrightarrow>
          get_counters (picked (edges_of g m)) None None \<le> get_counters (picked (edges_of g x)) None None))"
    by (rule hd_sort_twice [OF \<open>ks \<noteq> []\<close> m_def [unfolded ms_def]])
  have "preferred picked g ns m"
    unfolding preferred_def
  proof (intro conjI ballI)
    show "m \<in> set ns" using best same by simp
    fix x
    assume "x \<in> set ns"
    then have x: "x \<in> set ks" using same by simp
    with best have le: "(of_bool (\<not> is_flat g m) :: nat) \<le> of_bool (\<not> is_flat g x)" by blast
    then show "is_flat g x \<longrightarrow> is_flat g m" by (cases "is_flat g m"; cases "is_flat g x") simp_all
    show "is_flat g x = is_flat g m \<longrightarrow>
      get_counters (picked (edges_of g m)) None None \<le> get_counters (picked (edges_of g x)) None None"
      using best x by simp
  qed
  moreover have "sort_nodes picked g ns = Inr ms"
    unfolding sort_nodes_def ks bindE_simps Let_def ms_def by (rule refl)
  ultimately show ?thesis unfolding m_def by blast
qed

definition visit_parent_pick :: "nid \<Rightarrow> string \<Rightarrow> tgraph \<Rightarrow> nid \<Rightarrow> tgraph" where
  "visit_parent_pick n w g m = upd_edges (n_edges (g_node g m))
     (\<lambda>e. e\<lparr>picked_by_cleanup := register (node_key g n) w (picked_by_cleanup e)\<rparr>) g"

definition visit_child_pick :: "nid \<Rightarrow> string \<Rightarrow> tgraph \<Rightarrow> nid \<Rightarrow> tgraph" where
  "visit_child_pick n w g m = upd_edges (n_edges (g_node g m))
     (\<lambda>e. e\<lparr>picked_by_setup := register (node_key g n) w (picked_by_setup e)\<rparr>) g"

lemma pick_parent_run:
  assumes "\<not> is_setup_ready g n w" and "\<forall>m \<in> set (setup_nodes g n). plain_node (g_node g m)"
  shows "\<exists>m. pick_parent n w g = (Inr m, visit_parent_pick n w g m)
    \<and> preferred picked_by_cleanup g (available_parents g n w) m"
proof -
  have ne: "available_parents g n w \<noteq> []" using assms(1) by (simp add: available_parents_ready)
  have "\<forall>m \<in> set (available_parents g n w). plain_node (g_node g m)"
    using assms(2) by (simp add: available_parents_def)
  from sort_nodes_preferred [OF this ne, of picked_by_cleanup] obtain ms
    where "sort_nodes picked_by_cleanup g (available_parents g n w) = Inr ms"
      "preferred picked_by_cleanup g (available_parents g n w) (hd ms)" by blast
  then show ?thesis using ne by (simp add: pick_parent_def io_run bindM_def thenM_def visit_parent_pick_def Let_def)
qed

lemma pick_child_run:
  assumes "\<not> is_cleanup_ready g n w" and "\<forall>m \<in> set (cleanup_nodes g n). plain_node (g_node g m)"
  shows "\<exists>m. pick_child n w g = (Inr m, visit_child_pick n w g m)
    \<and> preferred picked_by_setup g (available_children g n w) m"
proof -
  have ne: "available_children g n w \<noteq> []" using assms(1) by (simp add: available_children_ready)
  have "\<forall>m \<in> set (available_children g n w). plain_node (g_node g m)"
    using assms(2) by (simp add: available_children_def)
  from sort_nodes_preferred [OF this ne, of picked_by_setup] obtain ms
    where "sort_nodes picked_by_setup g (available_children g n w) = Inr ms"
      "preferred picked_by_setup g (available_children g n w) (hd ms)" by blast
  then show ?thesis using ne by (simp add: pick_child_def io_run bindM_def thenM_def visit_child_pick_def Let_def)
qed

lemma preferred_parent:
  "preferred p g (available_parents g n w) m \<Longrightarrow>
   m \<in> set (setup_nodes g n) \<and> concerns g w m \<and> \<not> has_dropped_parent g w n m"
  by (auto simp: preferred_def available_parents_def concerns_def)

lemma preferred_child:
  "preferred p g (available_children g n w) m \<Longrightarrow>
   m \<in> set (cleanup_nodes g n) \<and> concerns g w m \<and> \<not> has_dropped_child g w n m"
  by (auto simp: preferred_def available_children_def concerns_def)


section \<open>Dependencies\<close>

text \<open>Every dependency is stored at both ends with the same objects.\<close>

definition edge_sym :: "tgraph \<Rightarrow> bool" where
  "edge_sym g \<longleftrightarrow> (\<forall>n p. map_of (n_setup (g_node g n)) p = map_of (n_cleanup (g_node g p)) n)"

definition depends :: "tgraph \<Rightarrow> (nid \<times> nid) set" where
  "depends g = {(p, n). p \<in> set (setup_nodes g n)}"

lemma setup_has: "p \<in> set (setup_nodes g n) \<longleftrightarrow> map_of (n_setup (g_node g n)) p \<noteq> None"
  by (simp add: setup_nodes_def dict_has_def flip: dict_has_iff)

lemma cleanup_has: "c \<in> set (cleanup_nodes g n) \<longleftrightarrow> map_of (n_cleanup (g_node g n)) c \<noteq> None"
  by (simp add: cleanup_nodes_def dict_has_def flip: dict_has_iff)

lemma edge_sym_nodes: "edge_sym g \<Longrightarrow> c \<in> set (cleanup_nodes g p) \<longleftrightarrow> p \<in> set (setup_nodes g c)"
  by (simp add: edge_sym_def setup_has cleanup_has)

lemma upd_node_simps [simp]:
  "g_node (upd_node n f g) m = (if m = n then f (g_node g n) else g_node g m)"
  "g_edges (upd_node n f g) = g_edges g"
  "g_nodes (upd_node n f g) = g_nodes g"
  "g_object (upd_node n f g) = g_object g"
  "g_worker (upd_node n f g) = g_worker g"
  "g_swarms (upd_node n f g) = g_swarms g"
  by (simp_all add: upd_node_def)

lemma upd_edges_simps [simp]:
  "g_edges (upd_edges a f g) b = (if b = a then f (g_edges g a) else g_edges g b)"
  "g_node (upd_edges a f g) = g_node g"
  "g_nodes (upd_edges a f g) = g_nodes g"
  "g_object (upd_edges a f g) = g_object g"
  "g_worker (upd_edges a f g) = g_worker g"
  "g_swarms (upd_edges a f g) = g_swarms g"
  by (simp_all add: upd_edges_def)

lemma descend_setup:
  "map_of (n_setup (g_node (descend_from_node n p ob g) m)) q =
    (if m = n \<and> q = p then Some (List.insert ob (dict_get (n_setup (g_node g n)) p []))
     else map_of (n_setup (g_node g m)) q)"
  by (auto simp: descend_from_node_def Let_def)

lemma descend_cleanup:
  "map_of (n_cleanup (g_node (descend_from_node n p ob g) m)) q =
    (if m = p \<and> q = n then Some (List.insert ob (dict_get (n_cleanup (g_node g p)) n []))
     else map_of (n_cleanup (g_node g m)) q)"
  by (auto simp: descend_from_node_def Let_def)

lemma edge_sym_descend:
  assumes "edge_sym g"
  shows "edge_sym (descend_from_node n p ob g)"
proof -
  have "dict_get (n_setup (g_node g n)) p [] = dict_get (n_cleanup (g_node g p)) n []"
    using assms by (simp add: edge_sym_def dict_get_def)
  then show ?thesis using assms unfolding edge_sym_def descend_setup descend_cleanup by auto
qed

lemma depends_descend: "depends (descend_from_node n p ob g) = insert (p, n) (depends g)"
  by (auto simp: depends_def setup_has descend_setup)

text \<open>Bridges go both ways, never from a node to itself, and bridged nodes share their registers.\<close>

definition bridges_ok :: "tgraph \<Rightarrow> bool" where
  "bridges_ok g \<longleftrightarrow> (\<forall>n m. m \<in> set (n_bridged (g_node g n)) \<longrightarrow>
     n \<in> set (n_bridged (g_node g m)) \<and> m \<noteq> n \<and> n_edges (g_node g m) = n_edges (g_node g n))"

lemma bridge_with_node_run:
  assumes "bridge_with_node n m g = (Inr (), g')"
  shows "g' = g \<and> (m = n \<or> m \<in> set (n_bridged (g_node g n))) \<or>
    m \<noteq> n \<and> m \<notin> set (n_bridged (g_node g n)) \<and>
    g_edges g' = g_edges g \<and>
    (\<forall>k. n_bridged (g_node g' k) = n_bridged (g_node g k)
            @ (if k = n then [m] else if k = m then [n] else [])) \<and>
    (\<forall>k. n_edges (g_node g' k) = (if k = n then n_edges (g_node g m) else n_edges (g_node g k))) \<and>
    (\<forall>k. n_name (g_node g' k) = n_name (g_node g k) \<and> node_key g' k = node_key g k)"
  using assms
  by (auto simp: bridge_with_node_def io_run bindM_def Let_def node_key_def bridged_form_def
      setless_form_def max_restr_def split: if_splits sum.splits)

lemma bridges_ok_bridge:
  assumes ok: "bridges_ok g" and run: "bridge_with_node n m g = (Inr (), g')"
    and share: "\<forall>k \<in> set (n_bridged (g_node g n)). n_edges (g_node g k) = n_edges (g_node g m)"
  shows "bridges_ok g'"
proof -
  from bridge_with_node_run [OF run] consider "g' = g"
    | "m \<noteq> n"
      "\<forall>k. n_bridged (g_node g' k) = n_bridged (g_node g k) @ (if k = n then [m] else if k = m then [n] else [])"
      "\<forall>k. n_edges (g_node g' k) = (if k = n then n_edges (g_node g m) else n_edges (g_node g k))"
    by blast
  then show ?thesis
  proof cases
    case 2
    show ?thesis
      unfolding bridges_ok_def
    proof (intro allI impI)
      fix a b
      assume "b \<in> set (n_bridged (g_node g' a))"
      then have "b \<in> set (n_bridged (g_node g a)) \<or> a = n \<and> b = m \<or> a = m \<and> b = n"
        using 2(2) by (auto split: if_splits)
      then show "a \<in> set (n_bridged (g_node g' b)) \<and> b \<noteq> a \<and> n_edges (g_node g' b) = n_edges (g_node g' a)"
      proof (elim disjE conjE)
        assume b: "b \<in> set (n_bridged (g_node g a))"
        then have a: "a \<in> set (n_bridged (g_node g b))" "b \<noteq> a" "n_edges (g_node g b) = n_edges (g_node g a)"
          using ok by (auto simp: bridges_ok_def)
        have "n_edges (g_node g' b) = n_edges (g_node g' a)"
          using 2(3) a share b by auto
        then show ?thesis using a 2(2) by simp
      qed (use 2 in auto)
    qed
  qed (use ok in simp)
qed


lemma bridge_with_node_equivalent:
  assumes "re_search (node_key g m) (n_name (g_node g n)) = Inr True"
  shows "\<exists>g'. bridge_with_node n m g = (Inr (), g')"
  using assms by (auto simp: bridge_with_node_def io_run bindM_def Let_def)

lemma bridge_all_nodes:
  assumes "bridges_ok g" and "n \<notin> set ms"
    and "\<forall>k \<in> set (n_bridged (g_node g n)). n_edges (g_node g k) = a"
    and "\<forall>m \<in> set ms. n_edges (g_node g m) = a
        \<and> re_search (node_key g m) (n_name (g_node g n)) = Inr True"
  shows "\<exists>g'. forM (bridge_with_node n) ms g = (Inr (), g') \<and> bridges_ok g' \<and> g_edges g' = g_edges g
    \<and> set (n_bridged (g_node g' n)) = set (n_bridged (g_node g n)) \<union> set ms
    \<and> (\<forall>k. k \<noteq> n \<longrightarrow> n_edges (g_node g' k) = n_edges (g_node g k))"
  using assms
proof (induction ms arbitrary: g)
  case Nil
  then show ?case by (auto simp: io_run)
next
  case (Cons m ms)
  obtain g1 where g1: "bridge_with_node n m g = (Inr (), g1)"
    using bridge_with_node_equivalent Cons.prems(4) by fastforce
  have ok: "bridges_ok g1"
    using bridges_ok_bridge [OF Cons.prems(1) g1] Cons.prems(3,4) by simp
  have mn: "m \<noteq> n" using Cons.prems(2) by auto
  have step: "g_edges g1 = g_edges g \<and> set (n_bridged (g_node g1 n)) = insert m (set (n_bridged (g_node g n)))
      \<and> (\<forall>k. k \<noteq> n \<longrightarrow> n_edges (g_node g1 k) = n_edges (g_node g k))
      \<and> (\<forall>k. n_name (g_node g1 k) = n_name (g_node g k) \<and> node_key g1 k = node_key g k)"
    using bridge_with_node_run [OF g1] mn by (auto simp: insert_absorb)
  have "n \<notin> set (n_bridged (g_node g1 n))" using ok by (auto simp: bridges_ok_def)
  then have all: "\<forall>k \<in> set (n_bridged (g_node g1 n)). n_edges (g_node g1 k) = a"
    using step Cons.prems(3,4) by (metis insertE list.set_intros(1))
  have "\<exists>g'. forM (bridge_with_node n) ms g1 = (Inr (), g') \<and> bridges_ok g' \<and> g_edges g' = g_edges g1
    \<and> set (n_bridged (g_node g' n)) = set (n_bridged (g_node g1 n)) \<union> set ms
    \<and> (\<forall>k. k \<noteq> n \<longrightarrow> n_edges (g_node g' k) = n_edges (g_node g1 k))"
    by (rule Cons.IH [OF ok _ all]) (use Cons.prems(2,4) step in auto)
  then obtain g' where g': "forM (bridge_with_node n) ms g1 = (Inr (), g')" "bridges_ok g'"
    "g_edges g' = g_edges g1" "set (n_bridged (g_node g' n)) = set (n_bridged (g_node g1 n)) \<union> set ms"
    "\<forall>k. k \<noteq> n \<longrightarrow> n_edges (g_node g' k) = n_edges (g_node g1 k)" by blast
  then have "forM (bridge_with_node n) (m # ms) g = (Inr (), g')"
    using g1 by (simp add: bindM_def thenM_def)
  then show ?case using g' step by auto
qed

section \<open>Properties of nodes\<close>

definition example_tnode :: "string \<Rightarrow> string \<Rightarrow> oid list \<Rightarrow> nat \<Rightarrow> tnode" where
  "example_tnode pre name obs a = \<lparr>n_prefix = pre, n_name = name,
     n_params = [(''pool_scope'', ''own swarm cluster shared''), (''nets_spawner'', ''lxc''),
                 (''nets'', ''net1''), (''vms'', ''vm1''), (''vms_base_dir'', ''/vms''),
                 (''main_restrictions'', ''all leaves'')],
     n_nets_cfg = ''net1'', n_should_run = DefaultPolicy, n_should_clean = DefaultPolicy,
     n_rerun_off = False, n_finished = None, n_started = None, n_bridged = [], n_cloned = [],
     n_incompatible = [], n_objects = obs, n_results = [], n_setup = [], n_cleanup = [],
     n_edges = a\<rparr>"

definition example_edges :: edges where
  "example_edges = \<lparr>picked_by_setup = [], picked_by_cleanup = [], dropped_setup = [], dropped_cleanup = []\<rparr>"

text \<open>
  A shared root (0), the installation of a machine (1) and two tests of it (2, 3) for the
  worker \<open>net1\<close>, and one of the tests for the worker \<open>net2\<close> (4).
\<close>

definition example_graph :: tgraph where
  "example_graph =
     descend_from_node 3 1 0 (descend_from_node 2 1 0 (descend_from_node 1 0 0
       \<lparr>g_nodes = [0, 1, 2, 3, 4],
        g_node = (\<lambda>n.
          if n = 0 then (example_tnode ''0'' ''all.internal.noop'' [] 0)\<lparr>n_should_run := Constant False,
              n_params := [(''shared_root'', ''yes'')]\<rparr>
          else if n = 1 then example_tnode ''1a'' ''all.install.vm1.net1'' [0] 1
          else if n = 2 then example_tnode ''2'' ''all.quicktest.vm1.net1'' [0] 2
          else if n = 3 then example_tnode ''10'' ''all.tutorial.vm1.net1'' [0] 3
          else example_tnode ''2'' ''all.quicktest.vm1.net2'' [0] n),
        g_object = (\<lambda>_. \<lparr>o_suffix = ''vm1'', o_long_suffix = ''vm1'', o_key = ''vms'', o_params = [],
                         o_composites = []\<rparr>),
        g_worker = (\<lambda>_. \<lparr>tw_swarm = ''localhost'', tw_net = ''net1'', tw_params = [], tw_restrs = []\<rparr>),
        g_swarms = [(''localhost'', [''net1'', ''net2''])],
        g_edges = (\<lambda>_. example_edges)\<rparr>))"

text \<open>C7:
  A worker at a node that still misses setup or cleanup always finds the next node. It is a
  parent (child) that concerns the worker and that the worker has not dropped yet; flat nodes
  are preferred, and then the nodes picked least often; the pick is registered in the chosen
  node and nothing else changes. When everything is dropped the pick raises and changes nothing.
\<close>

theorem pick_next_node:
  assumes "\<forall>m \<in> set (setup_nodes g n) \<union> set (cleanup_nodes g n). plain_node (g_node g m)"
  shows "(\<not> is_setup_ready g n w \<longrightarrow>
      (\<exists>m. pick_parent n w g = (Inr m, visit_parent_pick n w g m)
        \<and> m \<in> set (setup_nodes g n) \<and> concerns g w m \<and> \<not> has_dropped_parent g w n m
        \<and> preferred picked_by_cleanup g (available_parents g n w) m))
    \<and> (\<not> is_cleanup_ready g n w \<longrightarrow>
      (\<exists>m. pick_child n w g = (Inr m, visit_child_pick n w g m)
        \<and> m \<in> set (cleanup_nodes g n) \<and> concerns g w m \<and> \<not> has_dropped_child g w n m
        \<and> preferred picked_by_setup g (available_children g n w) m))
    \<and> (is_setup_ready g n w \<longrightarrow> pick_parent n w g = (Inl NoParentLeft, g))
    \<and> (is_cleanup_ready g n w \<longrightarrow> pick_child n w g = (Inl NoChildLeft, g))"
proof (intro conjI impI)
  assume "\<not> is_setup_ready g n w"
  then obtain m where "pick_parent n w g = (Inr m, visit_parent_pick n w g m)"
    "preferred picked_by_cleanup g (available_parents g n w) m"
    using pick_parent_run [of g n w] assms by auto
  then show "\<exists>m. pick_parent n w g = (Inr m, visit_parent_pick n w g m)
        \<and> m \<in> set (setup_nodes g n) \<and> concerns g w m \<and> \<not> has_dropped_parent g w n m
        \<and> preferred picked_by_cleanup g (available_parents g n w) m"
    using preferred_parent by blast
next
  assume "\<not> is_cleanup_ready g n w"
  then obtain m where "pick_child n w g = (Inr m, visit_child_pick n w g m)"
    "preferred picked_by_setup g (available_children g n w) m"
    using pick_child_run [of g n w] assms by auto
  then show "\<exists>m. pick_child n w g = (Inr m, visit_child_pick n w g m)
        \<and> m \<in> set (cleanup_nodes g n) \<and> concerns g w m \<and> \<not> has_dropped_child g w n m
        \<and> preferred picked_by_setup g (available_children g n w) m"
    using preferred_child by blast
next
  assume "is_setup_ready g n w"
  then show "pick_parent n w g = (Inl NoParentLeft, g)"
    by (simp add: pick_parent_def io_run bindM_def flip: available_parents_ready)
next
  assume "is_cleanup_ready g n w"
  then show "pick_child n w g = (Inl NoChildLeft, g)"
    by (simp add: pick_child_def io_run bindM_def flip: available_children_ready)
qed

lemma example_plain:
  "list_all (\<lambda>m. plain_node (g_node example_graph m)) (setup_nodes example_graph 1 @ cleanup_nodes example_graph 1)"
  by code_simp

lemma pick_next_node_witness:
  "\<not> is_cleanup_ready example_graph 1 ''net1'' \<and>
   (\<exists>m. pick_child 1 ''net1'' example_graph = (Inr m, visit_child_pick 1 ''net1'' example_graph m) \<and> m \<in> {2, 3})"
proof -
  have nodes: "\<forall>m \<in> set (setup_nodes example_graph 1) \<union> set (cleanup_nodes example_graph 1).
      plain_node (g_node example_graph m)"
    using example_plain unfolding list_all_iff set_append .
  have ready: "\<not> is_cleanup_ready example_graph 1 ''net1''" by code_simp
  have children: "cleanup_nodes example_graph 1 = [2, 3]" by code_simp
  show ?thesis using pick_next_node [OF nodes, of "''net1''"] ready unfolding children by auto
qed




text \<open>C39:
  A new dependency is stored at both ends, with the same objects, and nothing else changes in
  the graph of dependencies; it stays acyclic unless the new parent depended on the node.
\<close>

theorem new_dependency:
  assumes "edge_sym g" and "acyclic (depends g)" and "(n, p) \<notin> (depends g)\<^sup>*"
  shows "edge_sym (descend_from_node n p ob g)
    \<and> depends (descend_from_node n p ob g) = insert (p, n) (depends g)
    \<and> acyclic (depends (descend_from_node n p ob g))
    \<and> ob \<in> set (dict_get (n_setup (g_node (descend_from_node n p ob g) n)) p [])
    \<and> ob \<in> set (dict_get (n_cleanup (g_node (descend_from_node n p ob g) p)) n [])"
  using assms by (auto simp: edge_sym_descend depends_descend dict_get_def descend_setup descend_cleanup)

lemma new_dependency_witness:
  "edge_sym (descend_from_node 1 0 0 (example_graph\<lparr>g_node := (\<lambda>_. example_tnode [] [] [] 0)\<rparr>))
    \<and> acyclic (depends (descend_from_node 1 0 0 (example_graph\<lparr>g_node := (\<lambda>_. example_tnode [] [] [] 0)\<rparr>)))"
proof -
  let ?g = "example_graph\<lparr>g_node := (\<lambda>_. example_tnode [] [] [] 0)\<rparr>"
  have sym: "edge_sym ?g" by (simp add: edge_sym_def example_tnode_def)
  have empty: "depends ?g = {}" by (simp add: depends_def setup_has example_tnode_def)
  have acyc: "acyclic (depends ?g)" unfolding empty by (simp add: acyclic_def)
  have "(1, 0) \<notin> (depends ?g)\<^sup>*" unfolding empty by simp
  from new_dependency [OF sym acyc this, of 0] show ?thesis by blast
qed

lemma takeWhile_digits: "takeWhile is_digit (show_nat a @ r) = show_nat a @ takeWhile is_digit r"
  and dropWhile_digits: "dropWhile is_digit (show_nat a @ r) = dropWhile is_digit r"
  using show_nat_digits by (auto intro!: takeWhile_append2 dropWhile_append2)

lemma match_prefix_number:
  assumes "r \<noteq> []" and "\<not> is_digit (hd r)" and "CHR 0x0A \<notin> set r"
  shows "\<exists>alpha rest. prefix_groups (show_nat a @ r) = (show_nat a, alpha, rest)
    \<and> (hd r = CHR ''-'' \<longrightarrow> alpha = [] \<and> rest = r)"
proof -
  obtain c t where r: "r = c # t" "\<not> is_digit c" using assms by (cases r) auto
  have whole: "takeWhile (\<lambda>c. c \<noteq> CHR 0x0A) r = r" using assms(3) by (intro takeWhile_all) blast
  have "match_prefix (show_nat a @ r) =
      (if c \<in> set ''abcd'' \<and> t \<noteq> [] then Some (show_nat a, [c], t) else Some (show_nat a, [], c # t))"
    unfolding match_prefix_def Let_def takeWhile_digits dropWhile_digits
    using whole r by simp
  then show ?thesis using r by (auto simp: prefix_groups_def)
qed

lemma prefix_priority_numbers:
  assumes "r \<noteq> []" "\<not> is_digit (hd r)" "CHR 0x0A \<notin> set r"
    and "s \<noteq> []" "\<not> is_digit (hd s)" "CHR 0x0A \<notin> set s" and "a \<noteq> b"
  shows "prefix_priority (show_nat a @ r) (show_nat b @ s) = Inr (int a - int b)"
proof -
  obtain x e where r: "prefix_groups (show_nat a @ r) = (show_nat a, x, e)"
    using match_prefix_number [OF assms(1-3)] by blast
  obtain y e' where s: "prefix_groups (show_nat b @ s) = (show_nat b, y, e')"
    using match_prefix_number [OF assms(4-6)] by blast
  have digits: "str_isdigit (show_nat n)" for n
    using show_nat_digits by (auto simp: str_isdigit_def)
  have "show_nat a @ r \<noteq> show_nat b @ s"
  proof
    assume "show_nat a @ r = show_nat b @ s"
    then have "py_int (show_nat a) = py_int (show_nat b)" using r s by simp
    then show False using assms(7) by (simp add: py_int_show_nat)
  qed
  then show ?thesis using r s digits assms(7)
    by (subst prefix_priority.simps) (simp add: py_int_show_nat)
qed

text \<open>Prefixes that start with different numbers are ordered by these numbers, however many
  digits they have. For equal numbers followed by a dash the comparison is no order: of two
  different long prefixes each is larger than the other.
\<close>

theorem prefix_order:
  assumes "CHR 0x0A \<notin> set r" and "CHR 0x0A \<notin> set s"
  shows "(r \<noteq> [] \<and> \<not> is_digit (hd r) \<and> s \<noteq> [] \<and> \<not> is_digit (hd s) \<and> a \<noteq> b \<longrightarrow>
      prefix_priority (show_nat a @ r) (show_nat b @ s) = Inr (int a - int b))
    \<and> (r \<noteq> s \<longrightarrow>
      prefix_priority (show_nat a @ ''-'' @ r) (show_nat a @ ''-'' @ s) = Inr 1
      \<and> prefix_priority (show_nat a @ ''-'' @ s) (show_nat a @ ''-'' @ r) = Inr 1)"
proof (intro conjI impI)
  assume "r \<noteq> [] \<and> \<not> is_digit (hd r) \<and> s \<noteq> [] \<and> \<not> is_digit (hd s) \<and> a \<noteq> b"
  then show "prefix_priority (show_nat a @ r) (show_nat b @ s) = Inr (int a - int b)"
    using assms by (intro prefix_priority_numbers) simp_all
next
  have dash: "prefix_groups (show_nat a @ ''-'' @ t) = (show_nat a, [], ''-'' @ t)"
    if "CHR 0x0A \<notin> set t" for t
    using match_prefix_number [of "''-'' @ t" a] that by (auto simp: is_digit_def)
  have digits: "str_isdigit (show_nat a)" using show_nat_digits by (auto simp: str_isdigit_def)
  have one: "prefix_priority (show_nat a @ ''-'' @ t) (show_nat a @ ''-'' @ u) = Inr 1"
    if "CHR 0x0A \<notin> set t" "CHR 0x0A \<notin> set u" "t \<noteq> u" for t u
    by (subst prefix_priority.simps)
       (use dash [OF that(1)] dash [OF that(2)] digits that(3) in \<open>simp add: py_int_show_nat startswith_def\<close>)
  assume "r \<noteq> s"
  then show "prefix_priority (show_nat a @ ''-'' @ r) (show_nat a @ ''-'' @ s) = Inr 1"
    and "prefix_priority (show_nat a @ ''-'' @ s) (show_nat a @ ''-'' @ r) = Inr 1"
    using one assms by auto
qed

lemma prefix_order_witness:
  "prefix_priority (show_nat 2 @ ''a-net1.vm1'') (show_nat 10 @ ''-net1.vm1'') = Inr (- 8)
   \<and> prefix_priority (show_nat 1 @ ''-'' @ ''net1.vm1'') (show_nat 1 @ ''-'' @ ''net1.vm2'') = Inr 1"
proof -
  have "CHR 0x0A \<notin> set ''a-net1.vm1''" "CHR 0x0A \<notin> set ''-net1.vm1''"
    "CHR 0x0A \<notin> set ''net1.vm1''" "CHR 0x0A \<notin> set ''net1.vm2''" by simp_all
  note no = this
  show ?thesis
    using prefix_order [OF no(1,2), of 2 10] prefix_order [OF no(3,4), of 1 1] by (simp add: is_digit_def)
qed


definition cleanup_graph :: tgraph where
  "cleanup_graph = example_graph\<lparr>
     g_object := (\<lambda>ob.
       if ob = 1 then \<lparr>o_suffix = ''image1'', o_long_suffix = ''image1_vm1'', o_key = ''images'', o_params = [],
                       o_composites = [0]\<rparr>
       else if ob = 2 then \<lparr>o_suffix = ''image2'', o_long_suffix = ''image2_vm1'', o_key = ''images'',
                       o_params = [], o_composites = [0]\<rparr>
       else \<lparr>o_suffix = ''vm1'', o_long_suffix = ''vm1'', o_key = ''vms'', o_params = [], o_composites = []\<rparr>),
     g_node := (\<lambda>_. (example_tnode ''1'' ''all.quicktest.vm1.net1'' [1, 2] 0)\<lparr>n_params :=
       [(''set_state_image1'', ''s''), (''set_state_image2'', ''s''), (''unset_mode_image1'', ''fi''),
        (''unset_mode_image2'', ''ri''), (''shared_pool'', ''/pool''), (''suite_path'', ''/suite'')]\<rparr>)\<rparr>"


end
