(* ===== verification/Traversal.thy ===== *)
theory Traversal
  imports NodeChoice
begin

text \<open>
  Model of the traversal in \<open>virttest/cartgraph/graph.py\<close> with \<open>run_test_node\<close> of
  \<open>avocado_vt/plugins/runner.py\<close>. The workers are coroutines of one event loop: between two
  \<open>await\<close> expressions a worker runs alone, and at an \<open>await\<close> that waits the others may run.
  So the code is cut at the waits into sections on the graph, and a step of the system is one
  section of one worker. The only waits are the sleep before the next round of the loop and the
  run of a test; cleaning up never waits.
\<close>

section \<open>State of a worker\<close>

text \<open>
  Where a worker is: at the head of its loop, waiting for the configuration of an
  installation or for a test (with the direction it came from and the prefix to restore), at
  its end, or stopped by an exception. \<open>Down\<close> remembers whether there were unexplored nodes.
\<close>

datatype direction = Up | Down bool

datatype pc = Looping | Installing nid direction | Running nid direction string | Ended | Failed exc

text \<open>The path is kept with its end first; waiting times are in hundredths of a second.\<close>

record walker =
  w_path :: "nid list"
  w_occupied_at :: "nid list"
  w_wait :: int
  w_pc :: pc

text \<open>
  What the graph takes from outside: the surroundings of the nodes, results of previous jobs,
  the virtual machines selected, the parsing of flat nodes and the object lookups at the
  beginning of an installation (both not modelled).
\<close>

record job =
  j_surroundings :: surroundings
  j_previous :: "test_result list"
  j_vms :: "string option"
  j_all_vms :: "string list"
  j_parse :: "nid \<Rightarrow> string \<Rightarrow> (tgraph, unit) io"
  j_terminal :: "tgraph \<Rightarrow> nid \<Rightarrow> string \<Rightarrow> unit res"

text \<open>The end of a test: a result with a status, no result at all, or an exception.\<close>

datatype outcome = GotStatus string | NoResult | TaskRaises exc

text \<open>The errors of the traversal itself, which nothing else raises.\<close>

definition path_errors :: "exc set" where
  "path_errors = {DiscontinuousPath, UnfinishedPath, NoParentLeft, NoChildLeft}"

section \<open>Running one node\<close>

definition running_result :: "tnode \<Rightarrow> test_result" where
  "running_result nd = \<lparr>r_name = n_name nd, r_status = ''UNKNOWN'', r_running = True\<rparr>"

text \<open>\<open>run_test_node\<close> up to the wait for the task: the result is the prefix to restore.\<close>

definition run_test_begin :: "nid \<Rightarrow> (tgraph, string) io" where
  "run_test_begin n =
     bindM (getM id) (\<lambda>g.
       if is_flat g n then raiseM AssertionError
       else
         let nd = g_node g n; run_times = length (shared_results g n) in
         thenM (modifyM (upd_node n (\<lambda>nd. nd\<lparr>
             n_prefix := (if run_times > 0 then n_prefix nd @ ''r'' @ show_nat run_times else n_prefix nd),
             n_results := n_results nd @ [running_result nd]\<rparr>)))
           (retM (n_prefix nd)))"

text \<open>
  What follows the task. Its status is the one after the check of the duration; the
  placeholder is replaced by the result, and stays when no result was found in time.
\<close>

definition run_test_end :: "nid \<Rightarrow> string \<Rightarrow> outcome \<Rightarrow> (tgraph, bool) io" where
  "run_test_end n original_prefix result = (case result of
     TaskRaises e \<Rightarrow> raiseM e
   | GotStatus status \<Rightarrow>
       thenM (modifyM (upd_node n (\<lambda>nd. nd\<lparr>
           n_results := remove1 (running_result nd)
             (n_results nd @ [\<lparr>r_name = n_name nd, r_status = status, r_running = False\<rparr>]),
           n_prefix := original_prefix\<rparr>)))
         (retM (str_lower status \<notin> {''error'', ''fail''}))
   | NoResult \<Rightarrow>
       thenM (modifyM (upd_node n (\<lambda>nd. nd\<lparr>n_prefix := original_prefix\<rparr>))) (retM False))"

definition matching_results :: "string \<Rightarrow> test_result list \<Rightarrow> test_result list res" where
  "matching_results pattern rs = foldr (\<lambda>r acc.
     bindE (re_search pattern (r_name r)) (\<lambda>found.
     bindE acc (\<lambda>rs. Inr (if found then r # rs else rs)))) rs (Inr [])"

definition finish_node :: "nid \<Rightarrow> string \<Rightarrow> (tgraph, unit) io" where
  "finish_node n w = modifyM (upd_node n (\<lambda>nd. nd\<lparr>n_finished := Some w, n_started := None\<rparr>))"

text \<open>\<open>traverse_node\<close> up to its first wait: \<open>None\<close> when it returns without waiting.\<close>

definition traverse_begin :: "job \<Rightarrow> direction \<Rightarrow> nid \<Rightarrow> string \<Rightarrow> (tgraph, pc option) io" where
  "traverse_begin job dir n w =
     bindM (getM id) (\<lambda>g. bindM (liftM (is_occupied g n (Some w))) (\<lambda>occupied.
       if occupied then retM None
       else
         thenM (modifyM (upd_node n (\<lambda>nd. nd\<lparr>n_started := Some w\<rparr>)))
         (thenM (if n_results (g_node g n) = []
                 then bindM (liftM (matching_results (node_key g n) (j_previous job))) (\<lambda>rs.
                        modifyM (upd_node n (\<lambda>nd. nd\<lparr>n_results := rs\<rparr>)))
                 else retM ())
         (thenM (pull_locations n)
         (bindM (should_run (j_surroundings job) n w) (\<lambda>run.
           if \<not> run then thenM (finish_node n w) (retM None)
           else if is_object_root g n
             then bindM (getM id) (\<lambda>g. thenM (liftM (j_terminal job g n w)) (retM (Some (Installing n dir))))
             else bindM (run_test_begin n) (\<lambda>original. retM (Some (Running n dir original)))))))))"

text \<open>After the configuration of an installation: the installation itself, or the end.\<close>

definition install_end :: "direction \<Rightarrow> nid \<Rightarrow> string \<Rightarrow> outcome \<Rightarrow> (tgraph, pc option) io" where
  "install_end dir n w result =
     (let install =
        bindM (getM id) (\<lambda>g. bindM (liftM (p_getitem (n_params (g_node g n)) ''configure_install'')) (\<lambda>type.
          thenM (modifyM (upd_node n (\<lambda>nd. nd\<lparr>n_params := p_set ''type'' type (n_params nd)\<rparr>)))
            (bindM (run_test_begin n) (\<lambda>original. retM (Some (Running n dir original))))))
      in case result of
        TaskRaises e \<Rightarrow> raiseM e
      | NoResult \<Rightarrow> thenM (finish_node n w) (retM None)
      | GotStatus status \<Rightarrow>
          if str_lower status \<in> {''error'', ''fail''} then thenM (finish_node n w) (retM None)
          else install)"

definition run_end :: "nid \<Rightarrow> string \<Rightarrow> string \<Rightarrow> outcome \<Rightarrow> (tgraph, pc option) io" where
  "run_end n original w result =
     bindM (run_test_end n original result) (\<lambda>status. thenM (finish_node n w) (retM None))"

definition reverse_node :: "job \<Rightarrow> nid \<Rightarrow> string \<Rightarrow> (tgraph, unit) io" where
  "reverse_node job n w =
     bindM (getM id) (\<lambda>g. bindM (liftM (is_occupied g n (Some w))) (\<lambda>occupied.
       if occupied then retM ()
       else
         thenM (modifyM (upd_node n (\<lambda>nd. nd\<lparr>n_started := Some w\<rparr>)))
         (bindM (getM id) (\<lambda>g. bindM (liftM (should_clean g n w)) (\<lambda>clean.
           thenM (if clean \<and> get_stateful_objects g n ''set'' \<noteq> []
                  then bindM (liftM (sync_states g n (j_vms job) (j_all_vms job))) (\<lambda>_. retM ())
                  else retM ())
             (modifyM (upd_node n (\<lambda>nd. nd\<lparr>n_started := None\<rparr>)))))))) "

section \<open>The loop of a worker\<close>

primrec not_unrolled :: "tgraph \<Rightarrow> nid list \<Rightarrow> nid list res" where
  "not_unrolled g [] = Inr []"
| "not_unrolled g (n # ns) =
     bindE (if is_flat g n then bindE (is_unrolled g n None) (\<lambda>u. Inr (\<not> u)) else Inr False) (\<lambda>unexplored.
     bindE (not_unrolled g ns) (\<lambda>ns. Inr (if unexplored then n # ns else ns)))"

definition unexplored_nodes :: "tgraph \<Rightarrow> nid list res" where
  "unexplored_nodes g = not_unrolled g (g_nodes g)"

definition report_progress :: "tgraph \<Rightarrow> unit res" where
  "report_progress g =
     bindE (unexplored_nodes g) (\<lambda>_.
       if filter (is_flat g) (g_nodes g) = [] then Inl ZeroDivisionError else Inr ())"

text \<open>\<open>round(max(test_duration / 1000, 0.1), 2)\<close> in hundredths, ties to even.\<close>

definition occupied_timeout :: "int \<Rightarrow> int" where
  "occupied_timeout test_duration =
     (let d = max test_duration 100; q = d div 10; r = d mod 10
      in if r < 5 \<or> r = 5 \<and> even q then q else q + 1)"

definition step_back :: "nid \<Rightarrow> nid \<Rightarrow> walker \<Rightarrow> (tgraph, walker) io" where
  "step_back root n wk =
     bindM (getM (\<lambda>g. n_params (g_node g n))) (\<lambda>params.
     bindM (liftM (get_numeric params ''test_timeout'' 3600)) (\<lambda>test_timeout.
     bindM (liftM (get_numeric params ''max_tries'' 1)) (\<lambda>max_tries.
       let test_duration = test_timeout * max_tries;
           timeout = occupied_timeout test_duration;
           again = n \<in> set (w_occupied_at wk)
       in thenM (if again \<and> w_wait wk > 100 * test_duration
                 then bindM (liftM (get_numeric params ''max_concurrent_tries'' 0)) (\<lambda>tries.
                        modifyM (upd_node n (\<lambda>nd. nd\<lparr>n_params :=
                          p_set ''max_concurrent_tries'' (show_int (tries + 1)) (n_params nd)\<rparr>)))
                 else retM ())
            (retM (wk\<lparr>w_path := [root],
                      w_occupied_at := List.insert n (w_occupied_at wk),
                      w_wait := (if again then w_wait wk + timeout else 0),
                      w_pc := Looping\<rparr>)))))"

text \<open>What follows \<open>traverse_node\<close> when the node was reached from one of its children.\<close>

definition after_up :: "job \<Rightarrow> string \<Rightarrow> walker \<Rightarrow> nid \<Rightarrow> nid \<Rightarrow> (tgraph, walker) io" where
  "after_up job w wk n previous =
     bindM (should_run (j_surroundings job) n w) (\<lambda>run.
       thenM (if \<not> run then drop_parent previous n w else retM ())
         (retM (wk\<lparr>w_path := tl (w_path wk), w_pc := Looping\<rparr>)))"

text \<open>What follows it when the node was reached from one of its parents.\<close>

definition after_down :: "job \<Rightarrow> nid \<Rightarrow> string \<Rightarrow> walker \<Rightarrow> nid \<Rightarrow> bool \<Rightarrow> (tgraph, walker) io" where
  "after_down job root w wk n unexplored =
     bindM (should_run (j_surroundings job) n w) (\<lambda>run.
       if run then retM (wk\<lparr>w_path := tl (w_path wk), w_pc := Looping\<rparr>)
       else bindM (getM id) (\<lambda>g.
         if is_cleanup_ready g n w then
           thenM (liftM (report_progress g))
             (if \<not> is_flat g n \<and> unexplored then retM (wk\<lparr>w_path := [root], w_pc := Looping\<rparr>)
              else thenM (forM (\<lambda>setup. drop_child setup n w) (setup_nodes g n))
                     (thenM (reverse_node job n w)
                        (retM (wk\<lparr>w_path := tl (w_path wk), w_pc := Looping\<rparr>))))
         else bindM (pick_child n w) (\<lambda>c. retM (wk\<lparr>w_path := c # w_path wk, w_pc := Looping\<rparr>))))"

definition after_traverse :: "job \<Rightarrow> nid \<Rightarrow> string \<Rightarrow> walker \<Rightarrow> nid \<Rightarrow> nid \<Rightarrow> direction \<Rightarrow> (tgraph, walker) io" where
  "after_traverse job root w wk n previous dir = (case dir of
     Up \<Rightarrow> after_up job w wk n previous
   | Down unexplored \<Rightarrow> after_down job root w wk n unexplored)"

definition continue :: "job \<Rightarrow> nid \<Rightarrow> string \<Rightarrow> walker \<Rightarrow> nid \<Rightarrow> nid \<Rightarrow> direction \<Rightarrow> pc option \<Rightarrow> (tgraph, walker) io" where
  "continue job root w wk n previous dir suspended = (case suspended of
     Some pc \<Rightarrow> retM (wk\<lparr>w_pc := pc\<rparr>)
   | None \<Rightarrow> after_traverse job root w wk n previous dir)"

definition parse_if_needed :: "job \<Rightarrow> nid \<Rightarrow> string \<Rightarrow> bool \<Rightarrow> (tgraph, unit) io" where
  "parse_if_needed job n w unexplored =
     bindM (getM id) (\<lambda>g.
       if \<not> is_flat g n then retM ()
       else bindM (liftM (is_unrolled g n (Some w))) (\<lambda>unrolled.
         if unrolled then retM ()
         else bindM (if unexplored then retM True else liftM (should_parse g n)) (\<lambda>parse.
           if parse then j_parse job n w else retM ())))"

definition visit :: "job \<Rightarrow> nid \<Rightarrow> string \<Rightarrow> walker \<Rightarrow> nid \<Rightarrow> nid \<Rightarrow> bool \<Rightarrow> (tgraph, walker) io" where
  "visit job root w wk n previous unexplored =
     bindM (getM id) (\<lambda>g.
       let dir = (if previous \<in> set (cleanup_nodes g n) then Up else Down unexplored) in
       if previous \<notin> set (cleanup_nodes g n) \<and> previous \<notin> set (setup_nodes g n)
       then raiseM DiscontinuousPath
       else if \<not> is_setup_ready g n w
       then bindM (pick_parent n w) (\<lambda>p. retM (wk\<lparr>w_path := p # w_path wk, w_pc := Looping\<rparr>))
       else bindM (traverse_begin job dir n w) (continue job root w wk n previous dir))"

text \<open>One round of the loop, up to the first wait or the next round.\<close>

definition loop_section :: "job \<Rightarrow> nid \<Rightarrow> string \<Rightarrow> walker \<Rightarrow> (tgraph, walker) io" where
  "loop_section job root w wk =
     bindM (getM id) (\<lambda>g.
       if is_cleanup_ready g root w
       then (if w_path wk = [root] then retM (wk\<lparr>w_pc := Ended\<rparr>) else raiseM UnfinishedPath)
       else case w_path wk of
         [] \<Rightarrow> raiseM IndexError
       | [n] \<Rightarrow> bindM (pick_child n w) (\<lambda>c. retM (wk\<lparr>w_path := [c, n], w_pc := Looping\<rparr>))
       | n # previous # _ \<Rightarrow>
           bindM (liftM (unexplored_nodes g)) (\<lambda>unexplored.
           thenM (parse_if_needed job n w (unexplored \<noteq> []))
           (bindM (getM id) (\<lambda>g. bindM (liftM (is_occupied g n (Some w))) (\<lambda>occupied.
             if occupied then step_back root n wk
             else visit job root w (wk\<lparr>w_occupied_at := removeAll n (w_occupied_at wk)\<rparr>)
                    n previous (unexplored \<noteq> []))))))"

text \<open>What a worker does when the task it waits for is over.\<close>

definition resume_section :: "job \<Rightarrow> nid \<Rightarrow> string \<Rightarrow> walker \<Rightarrow> outcome \<Rightarrow> (tgraph, walker) io" where
  "resume_section job root w wk result = (case (w_pc wk, w_path wk) of
     (Installing n dir, _ # previous # _) \<Rightarrow>
       bindM (install_end dir n w result) (continue job root w wk n previous dir)
   | (Running n dir original, _ # previous # _) \<Rightarrow>
       bindM (run_end n original w result) (continue job root w wk n previous dir)
   | _ \<Rightarrow> retM wk)"

section \<open>The system of workers\<close>

record system =
  s_graph :: tgraph
  s_walker :: "string \<Rightarrow> walker"

definition settle :: "walker \<Rightarrow> walker res \<Rightarrow> walker" where
  "settle wk r = (case r of Inl e \<Rightarrow> wk\<lparr>w_pc := Failed e\<rparr> | Inr wk \<Rightarrow> wk)"

definition act :: "string \<Rightarrow> (walker \<Rightarrow> (tgraph, walker) io) \<Rightarrow> system \<Rightarrow> system" where
  "act w section s =
     (let (r, g) = section (s_walker s w) (s_graph s)
      in \<lparr>s_graph = g, s_walker = (s_walker s)(w := settle (s_walker s w) r)\<rparr>)"

definition waits :: "pc \<Rightarrow> bool" where
  "waits pc \<longleftrightarrow> (case pc of Installing _ _ \<Rightarrow> True | Running _ _ _ \<Rightarrow> True | _ \<Rightarrow> False)"

inductive step :: "job \<Rightarrow> nid \<Rightarrow> system \<Rightarrow> string \<Rightarrow> system \<Rightarrow> bool" for job root where
  turn: "w_pc (s_walker s w) = Looping \<Longrightarrow> step job root s w (act w (loop_section job root w) s)"
| resume: "waits (w_pc (s_walker s w)) \<Longrightarrow> (\<And>e. result = TaskRaises e \<Longrightarrow> e \<notin> path_errors) \<Longrightarrow>
    step job root s w (act w (\<lambda>wk. resume_section job root w wk result) s)"

inductive_cases step_cases: "step job root s w t"

definition start_walker :: "nid \<Rightarrow> walker" where
  "start_walker root = \<lparr>w_path = [root], w_occupied_at = [], w_wait = 0, w_pc = Looping\<rparr>"

definition start_system :: "nid \<Rightarrow> tgraph \<Rightarrow> system" where
  "start_system root g = \<lparr>s_graph = g, s_walker = (\<lambda>_. start_walker root)\<rparr>"

inductive reachable :: "job \<Rightarrow> nid \<Rightarrow> tgraph \<Rightarrow> system \<Rightarrow> bool" for job root g where
  start: "reachable job root g (start_system root g)"
| move: "reachable job root g s \<Longrightarrow> step job root s w t \<Longrightarrow> reachable job root g t"

end
