(* ===== verification/TraversalErrors.thy ===== *)
theory TraversalErrors
  imports Traversal
begin

text \<open>
  Nothing but the traversal raises the errors of the traversal: every decision and every
  operation on nodes fails with ordinary exceptions only.
\<close>

named_theorems ordinary_intros \<open>results without errors of the traversal\<close>

definition ordinary :: "'a res \<Rightarrow> bool" where
  "ordinary r \<longleftrightarrow> (\<forall>e. r = Inl e \<longrightarrow> e \<notin> path_errors)"

definition ordinary_io :: "('w, 'a) io \<Rightarrow> bool" where
  "ordinary_io m \<longleftrightarrow> (\<forall>w. ordinary (fst (m w)))"

lemma ordinary_Inr [simp, ordinary_intros]: "ordinary (Inr x)"
  by (simp add: ordinary_def)

lemma ordinary_Inl [simp]: "ordinary (Inl e) \<longleftrightarrow> e \<notin> path_errors"
  by (simp add: ordinary_def)

lemma no_path_error [simp]:
  "KeyError \<notin> path_errors" "IndexError \<notin> path_errors" "ValueError \<notin> path_errors"
  "RuntimeError \<notin> path_errors" "AssertionError \<notin> path_errors" "AttributeError \<notin> path_errors"
  "ParamNotFound \<notin> path_errors" "NotImplementedError \<notin> path_errors" "ZeroDivisionError \<notin> path_errors"
  by (simp_all add: path_errors_def)

lemma ordinary_bindE [ordinary_intros]: "ordinary r \<Longrightarrow> (\<And>x. r = Inr x \<Longrightarrow> ordinary (f x)) \<Longrightarrow> ordinary (bindE r f)"
  by (cases r) (auto simp: ordinary_def)

lemma ordinary_of_option [ordinary_intros]: "e \<notin> path_errors \<Longrightarrow> ordinary (of_option e v)"
  by (cases v) simp_all

lemma ordinary_if [ordinary_intros]: "(c \<Longrightarrow> ordinary x) \<Longrightarrow> (\<not> c \<Longrightarrow> ordinary y) \<Longrightarrow> ordinary (if c then x else y)"
  by simp

lemma ordinary_index_nth [ordinary_intros]: "ordinary (index_nth xs i)"
  by (simp add: index_nth_def)

lemma ordinary_getitem [ordinary_intros]: "ordinary (p_getitem p k)"
  by (simp add: p_getitem_simps split: option.splits)

lemma ordinary_io_bind [ordinary_intros]:
  "ordinary_io m \<Longrightarrow> (\<And>x. ordinary_io (f x)) \<Longrightarrow> ordinary_io (bindM m f)"
proof -
  assume m: "ordinary_io m" and f: "\<And>x. ordinary_io (f x)"
  have "ordinary (fst (bindM m f w))" for w
  proof (cases "m w")
    case (Pair r v)
    then show ?thesis
      using m f unfolding ordinary_io_def by (cases r) (auto simp: bindM_def dest: spec [of _ w])
  qed
  then show ?thesis by (simp add: ordinary_io_def)
qed

lemma ordinary_io_then [ordinary_intros]: "ordinary_io m \<Longrightarrow> ordinary_io k \<Longrightarrow> ordinary_io (thenM m k)"
  unfolding thenM_def by (intro ordinary_intros)

lemma ordinary_io_basic [simp, ordinary_intros]:
  "ordinary_io (retM x)" "ordinary_io (getM f)" "ordinary_io (modifyM h)"
  by (simp_all add: ordinary_io_def io_run)

lemma ordinary_io_raise [simp]: "ordinary_io (raiseM e) \<longleftrightarrow> e \<notin> path_errors"
  by (simp add: ordinary_io_def io_run)

lemma ordinary_io_lift [ordinary_intros]: "ordinary r \<Longrightarrow> ordinary_io (liftM r)"
  by (simp add: ordinary_io_def io_run)

lemma ordinary_io_if [ordinary_intros]:
  "(c \<Longrightarrow> ordinary_io x) \<Longrightarrow> (\<not> c \<Longrightarrow> ordinary_io y) \<Longrightarrow> ordinary_io (if c then x else y)"
  by simp

lemma ordinary_io_forM [ordinary_intros]: "(\<And>x. ordinary_io (f x)) \<Longrightarrow> ordinary_io (forM f xs)"
  by (induction xs) (auto intro!: ordinary_intros)

section \<open>Parameters and strings\<close>

lemma ordinary_py_int [ordinary_intros]: "ordinary (py_int s)" "ordinary (py_int0 s)"
  by (simp_all add: py_int_def py_int0_def Let_def split: prod.splits option.splits)

lemma ordinary_getters [ordinary_intros]:
  "ordinary (get_numeric p k i)" "ordinary (get_boolean p k b)"
  by (auto simp: get_numeric_def get_boolean_def Let_def intro: ordinary_py_int split: option.splits)

lemma ordinary_re_search [ordinary_intros]: "ordinary (re_search p s)"
  by (simp add: re_search_def split: option.splits)

lemma ordinary_matching [ordinary_intros]: "ordinary (matching_results p rs)"
  unfolding matching_results_def by (induction rs) (auto intro!: ordinary_intros)

section \<open>Decisions\<close>

lemma ordinary_is_unrolled [ordinary_intros]: "ordinary (is_unrolled g n w)"
  unfolding is_unrolled_def is_shared_root_def by (intro ordinary_intros) (auto split: option.splits)

lemma ordinary_sharing [ordinary_intros]: "ordinary (sharing_of nd w)"
  unfolding sharing_of_def by (auto intro!: ordinary_intros split: option.splits)

lemma ordinary_reaches [ordinary_intros]: "ordinary (reaches g n ws w t)"
  unfolding reaches_def Let_def
  by (intro ordinary_intros) (auto intro!: ordinary_intros split: sharing.splits option.splits)

lemma ordinary_started [ordinary_intros]:
  "ordinary (is_started g n w t)" "ordinary (is_finished g n w t)" "ordinary (is_occupied g n w)"
  unfolding is_started_def is_finished_def is_occupied_def by (auto intro!: ordinary_intros)

lemma ordinary_should_parse [ordinary_intros]: "ordinary (should_parse g n)"
proof -
  have "ordinary (stays_parsed g n vs)" for vs
    by (induction vs) (auto intro!: ordinary_intros)
  then show ?thesis unfolding should_parse_def by (auto intro!: ordinary_intros)
qed

lemma ordinary_filtered [ordinary_intros]: "ordinary (shared_filtered_results g n)"
  unfolding shared_filtered_results_def Let_def by (auto intro!: ordinary_intros)

lemma ordinary_should_rerun [ordinary_intros]: "ordinary (should_rerun g n w)"
  unfolding should_rerun_def rerun_results_def Let_def by (auto intro!: ordinary_intros)

lemma ordinary_scan [ordinary_intros]: "ordinary (scan_states sur g n)"
proof -
  have "ordinary (scan_objects g own obs is_leaf np)" for own obs is_leaf np
    by (induction g own obs is_leaf np rule: scan_objects.induct) (auto simp: Let_def intro!: ordinary_intros)
  then show ?thesis unfolding scan_states_def Let_def
    by (auto intro!: ordinary_intros split: option.splits check_outcome.splits prod.splits)
qed

lemma ordinary_should_run [ordinary_intros]: "ordinary_io (should_run sur n w)"
proof -
  have "ordinary_io (default_run_decision sur n w)"
    unfolding default_run_decision_def Let_def by (auto intro!: ordinary_intros)
  then show ?thesis unfolding should_run_def
    by (intro ordinary_intros) (auto intro!: ordinary_intros simp: is_shared_root_def split: policy.splits)
qed

lemma ordinary_should_clean [ordinary_intros]: "ordinary (should_clean g n w)"
proof -
  have rev: "ordinary (is_reversible g own obs)" for own obs
    by (induction obs) (auto simp: Let_def first_is_def intro!: ordinary_intros)
  have involved: "ordinary (involved_are_done g n w vs)" for vs
    by (induction vs) (auto simp: picked_node_def intro!: ordinary_intros)
  have "ordinary (default_clean_decision g n w)"
    unfolding default_clean_decision_def Let_def by (auto intro!: ordinary_intros rev involved)
  then show ?thesis unfolding should_clean_def is_shared_root_def
    by (auto intro!: ordinary_intros split: policy.splits)
qed

lemma ordinary_sync_images: "ordinary (sync_images vm p images np)"
  by (induction images arbitrary: np) (auto simp: Let_def intro!: ordinary_intros)

lemma ordinary_sync_scopes: "ordinary (sync_scopes p)"
  by (simp add: sync_scopes_def Let_def split: option.splits)

lemma ordinary_vm_of_object: "ordinary (vm_of_object g ob)"
  by (auto simp: vm_of_object_def intro!: ordinary_intros)

lemma ordinary_sync_objects: "ordinary (sync_objects g own vms all_vms obs clean do np)"
proof (induction obs arbitrary: clean "do" np)
  case (Cons ob obs)
  show ?case unfolding sync_objects.simps Let_def
    by (intro ordinary_intros Cons.IH ordinary_sync_images ordinary_sync_scopes ordinary_vm_of_object) simp_all
qed simp

lemma ordinary_sync [ordinary_intros]: "ordinary (sync_states g n vms all_vms)"
  unfolding sync_states_def Let_def
  by (auto intro!: ordinary_intros ordinary_sync_objects split: prod.splits)

lemma ordinary_pull [ordinary_intros]: "ordinary_io (pull_locations n)"
proof -
  have workers: "ordinary (pull_from_workers g cs path wids params)" for g cs path wids params
    by (induction wids arbitrary: params) (auto simp: worker_access_def intro!: ordinary_intros)
  have "ordinary (pull_from_nodes g n path ms params)" for g path ms params
    by (induction ms arbitrary: params) (auto simp: Let_def intro!: ordinary_intros workers)
  then show ?thesis unfolding pull_locations_def Let_def by (auto intro!: ordinary_intros)
qed

lemma ordinary_unexplored [ordinary_intros]: "ordinary (unexplored_nodes g)"
proof -
  have "ordinary (not_unrolled g ns)" for ns
    by (induction ns) (auto intro!: ordinary_intros)
  then show ?thesis by (simp add: unexplored_nodes_def)
qed

lemma ordinary_report [ordinary_intros]: "ordinary (report_progress g)"
  unfolding report_progress_def by (auto intro!: ordinary_intros)

section \<open>Operations\<close>

lemma ordinary_runs [ordinary_intros]:
  "ordinary_io (run_test_begin n)" "ordinary_io (finish_node n w)"
  "(\<And>e. result = TaskRaises e \<Longrightarrow> e \<notin> path_errors) \<Longrightarrow> ordinary_io (run_test_end n original result)"
  unfolding run_test_begin_def finish_node_def run_test_end_def Let_def
  by (auto intro!: ordinary_intros split: outcome.splits)

lemma ordinary_ends [ordinary_intros]:
  assumes "\<And>e. result = TaskRaises e \<Longrightarrow> e \<notin> path_errors"
  shows "ordinary_io (run_end n original w result)" "ordinary_io (install_end dir n w result)"
  unfolding run_end_def install_end_def Let_def
  by (auto intro!: ordinary_intros simp: assms split: outcome.splits)

lemma ordinary_drops [ordinary_intros]:
  "ordinary_io (drop_parent n m w)" "ordinary_io (drop_child n m w)"
  unfolding drop_parent_def drop_child_def by (auto intro!: ordinary_intros)

lemma ordinary_reverse [ordinary_intros]: "ordinary_io (reverse_node job n w)"
  unfolding reverse_node_def by (auto intro!: ordinary_intros)

lemma ordinary_step_back [ordinary_intros]: "ordinary_io (step_back root n wk)"
  unfolding step_back_def Let_def by (auto intro!: ordinary_intros)

lemma ordinary_traverse [ordinary_intros]:
  assumes "\<And>g n w. ordinary (j_terminal job g n w)"
  shows "ordinary_io (traverse_begin job dir n w)"
  unfolding traverse_begin_def by (auto intro!: ordinary_intros assms)

lemma ordinary_after_up [ordinary_intros]: "ordinary_io (after_up job w wk n previous)"
  unfolding after_up_def by (auto intro!: ordinary_intros)

end
