(* ===== verification/TraversalFrame.thy ===== *)
theory TraversalFrame
  imports TraversalErrors
begin

text \<open>
  What the sections of the traversal leave alone: names, objects, dependencies and registers
  of the nodes. All operations but dropping and parsing are calm in this sense.
\<close>

named_theorems calm_intros \<open>operations that keep the shape and the drops of the graph\<close>

section \<open>Calm operations\<close>

text \<open>The parameters that names and prefixes of nodes are computed from.\<close>

definition naming_keys :: "string set" where
  "naming_keys = {''main_restrictions'', ''nets'', ''vms''}"

definition same_naming :: "params \<Rightarrow> params \<Rightarrow> bool" where
  "same_naming p p' \<longleftrightarrow> (\<forall>k \<in> naming_keys. map_of p' k = map_of p k)"

definition same_node :: "tnode \<Rightarrow> tnode \<Rightarrow> bool" where
  "same_node nd nd' \<longleftrightarrow> n_name nd' = n_name nd \<and> n_objects nd' = n_objects nd
     \<and> n_nets_cfg nd' = n_nets_cfg nd \<and> n_setup nd' = n_setup nd \<and> n_cleanup nd' = n_cleanup nd
     \<and> n_edges nd' = n_edges nd \<and> n_bridged nd' = n_bridged nd \<and> same_naming (n_params nd) (n_params nd')
     \<and> (CHR 0x0A \<notin> set (n_prefix nd) \<longrightarrow> CHR 0x0A \<notin> set (n_prefix nd'))
     \<and> (n_finished nd \<noteq> None \<longrightarrow> n_finished nd' \<noteq> None)"

definition calm :: "tgraph \<Rightarrow> tgraph \<Rightarrow> bool" where
  "calm g g' \<longleftrightarrow> g_nodes g' = g_nodes g \<and> (\<forall>n. same_node (g_node g n) (g_node g' n))
     \<and> (\<forall>a. dropped_setup (g_edges g' a) = dropped_setup (g_edges g a)
          \<and> dropped_cleanup (g_edges g' a) = dropped_cleanup (g_edges g a))"

definition calm_io :: "(tgraph, 'a) io \<Rightarrow> bool" where
  "calm_io m \<longleftrightarrow> (\<forall>g. calm g (snd (m g)))"

lemma same_naming_refl [simp]: "same_naming p p"
  by (simp add: same_naming_def)

lemma same_naming_trans: "same_naming p q \<Longrightarrow> same_naming q r \<Longrightarrow> same_naming p r"
  by (simp add: same_naming_def)

lemma same_naming_set: "k \<notin> naming_keys \<Longrightarrow> same_naming p q \<Longrightarrow> same_naming p (p_set k v q)"
  by (auto simp: same_naming_def p_set_def)

lemma same_node_refl [simp]: "same_node nd nd"
  by (simp add: same_node_def)

lemma same_node_trans: "same_node a b \<Longrightarrow> same_node b c \<Longrightarrow> same_node a c"
  by (auto simp: same_node_def intro: same_naming_trans)

lemma calm_refl [simp]: "calm g g"
  by (simp add: calm_def)

lemma calm_trans: "calm g h \<Longrightarrow> calm h k \<Longrightarrow> calm g k"
  unfolding calm_def by (metis same_node_trans)

lemma calm_io_bind [calm_intros]: "calm_io m \<Longrightarrow> (\<And>x. calm_io (f x)) \<Longrightarrow> calm_io (bindM m f)"
proof -
  assume m: "calm_io m" and f: "\<And>x. calm_io (f x)"
  have "calm g (snd (bindM m f g))" for g
  proof (cases "m g")
    case (Pair r h)
    have "calm g h" using m Pair unfolding calm_io_def by (metis snd_conv)
    moreover have "calm h (snd (f x h))" for x using f unfolding calm_io_def by blast
    ultimately show ?thesis using Pair by (cases r) (auto simp: bindM_def intro: calm_trans)
  qed
  then show ?thesis by (simp add: calm_io_def)
qed

lemma calm_io_then [calm_intros]: "calm_io m \<Longrightarrow> calm_io k \<Longrightarrow> calm_io (thenM m k)"
  unfolding thenM_def by (intro calm_intros)

lemma calm_io_basic [simp, calm_intros]:
  "calm_io (retM x)" "calm_io (raiseM e)" "calm_io (liftM r)" "calm_io (getM f)"
  by (simp_all add: calm_io_def io_run)

lemma calm_io_if [calm_intros]:
  "(c \<Longrightarrow> calm_io x) \<Longrightarrow> (\<not> c \<Longrightarrow> calm_io y) \<Longrightarrow> calm_io (if c then x else y)"
  by simp

lemma calm_io_node [calm_intros]: "(\<And>nd. same_node nd (f nd)) \<Longrightarrow> calm_io (modifyM (upd_node n f))"
  by (simp add: calm_io_def io_run calm_def)

lemma calm_io_edges [calm_intros]:
  "(\<And>e. dropped_setup (f e) = dropped_setup e \<and> dropped_cleanup (f e) = dropped_cleanup e) \<Longrightarrow>
   calm_io (modifyM (upd_edges a f))"
  by (simp add: calm_io_def io_run calm_def)

lemma calm_ioD: "calm_io m \<Longrightarrow> m g = (r, g') \<Longrightarrow> calm g g'"
  unfolding calm_io_def by (metis snd_conv)

section \<open>What calm operations keep\<close>

lemma objects_naming: "same_naming p p' \<Longrightarrow> k \<in> naming_keys \<Longrightarrow> objects p' k = objects p k"
  by (simp add: objects_dedup same_naming_def p_get_or_def)

lemma same_node_key: "same_node nd nd' \<Longrightarrow> bridged_form nd' = bridged_form nd"
proof -
  assume "same_node nd nd'"
  then have same: "n_name nd' = n_name nd" "n_objects nd' = n_objects nd" "n_nets_cfg nd' = n_nets_cfg nd"
    "same_naming (n_params nd) (n_params nd')" by (simp_all add: same_node_def)
  have "objects (n_params nd') ''main_restrictions'' = objects (n_params nd) ''main_restrictions''"
    by (rule objects_naming [OF same(4)]) (simp add: naming_keys_def)
  then have "setless_form nd' = setless_form nd"
    using same by (simp add: setless_form_def max_restr_def)
  then show ?thesis using same by (simp add: bridged_form_def)
qed

lemma same_node_plain: "same_node nd nd' \<Longrightarrow> plain_node nd \<Longrightarrow> plain_node nd'"
  by (auto simp: same_node_def plain_node_def same_naming_def naming_keys_def p_get_or_def)

lemma calm_shape:
  assumes "calm g g'"
  shows "node_key g' n = node_key g n" "is_flat g' n = is_flat g n"
    "names_worker g' w n = names_worker g w n" "concerns g' w n = concerns g w n"
    "setup_nodes g' n = setup_nodes g n" "cleanup_nodes g' n = cleanup_nodes g n"
    "depends g' = depends g" "edge_sym g' = edge_sym g"
    "n_edges (g_node g' n) = n_edges (g_node g n)"
    "g_nodes g' = g_nodes g"
proof -
  have same: "same_node (g_node g m) (g_node g' m)" for m using assms by (simp add: calm_def)
  then have same': "n_name (g_node g' m) = n_name (g_node g m)" "n_objects (g_node g' m) = n_objects (g_node g m)"
    "n_setup (g_node g' m) = n_setup (g_node g m)" "n_cleanup (g_node g' m) = n_cleanup (g_node g m)"
    "n_edges (g_node g' m) = n_edges (g_node g m)" for m
    by (simp_all add: same_node_def)
  show "node_key g' n = node_key g n" using same_node_key [OF same] by (simp add: node_key_def)
  show flat: "is_flat g' n = is_flat g n" by (simp add: is_flat_def same')
  show names: "names_worker g' w n = names_worker g w n" by (simp add: names_worker_def same')
  show "concerns g' w n = concerns g w n" by (simp add: concerns_def flat names)
  show "setup_nodes g' n = setup_nodes g n" "cleanup_nodes g' n = cleanup_nodes g n"
    by (simp_all add: setup_nodes_def cleanup_nodes_def same')
  show "depends g' = depends g" by (simp add: depends_def setup_nodes_def same')
  show "edge_sym g' = edge_sym g" by (simp add: edge_sym_def same')
  show "n_edges (g_node g' n) = n_edges (g_node g n)" "g_nodes g' = g_nodes g"
    using assms by (simp_all add: same' calm_def)
qed

lemma calm_dropped:
  assumes "calm g g'"
  shows "has_dropped_parent g' w n p = has_dropped_parent g w n p"
    "has_dropped_child g' w n c = has_dropped_child g w n c"
    "is_setup_ready g' n w = is_setup_ready g n w" "is_cleanup_ready g' n w = is_cleanup_ready g n w"
proof -
  note shape = calm_shape [OF assms]
  show p: "has_dropped_parent g' w n p = has_dropped_parent g w n p" for p
    using assms by (simp add: has_dropped_parent_def shape calm_def)
  show c: "has_dropped_child g' w n c = has_dropped_child g w n c" for c
    using assms by (simp add: has_dropped_child_def shape calm_def)
  show "is_setup_ready g' n w = is_setup_ready g n w" "is_cleanup_ready g' n w = is_cleanup_ready g n w"
    by (simp_all add: is_setup_ready_def is_cleanup_ready_def shape p c)
qed

lemma calm_finished: "calm g g' \<Longrightarrow> n_finished (g_node g n) \<noteq> None \<Longrightarrow> n_finished (g_node g' n) \<noteq> None"
  unfolding calm_def same_node_def by blast

section \<open>Calm operations of the model\<close>

lemma not_naming [simp]:
  "''type'' \<notin> naming_keys" "''max_concurrent_tries'' \<notin> naming_keys"
  "''get_location_'' @ s \<notin> naming_keys"
  by (simp_all add: naming_keys_def)

lemma nets_not_naming: "startswith key ''nets_'' \<Longrightarrow> key @ s \<notin> naming_keys"
  by (auto simp: startswith_def naming_keys_def prefix_def)

lemma calm_picks [calm_intros]: "calm_io (pick_parent n w)" "calm_io (pick_child n w)"
  unfolding pick_parent_def pick_child_def Let_def by (intro calm_intros; simp)+

lemma calm_finish [calm_intros]: "calm_io (finish_node n w)"
  unfolding finish_node_def by (intro calm_intros) (simp add: same_node_def)

lemma calm_should_run [calm_intros]: "calm_io (should_run sur n w)"
proof -
  have "calm_io (default_run_decision sur n w)"
    unfolding default_run_decision_def Let_def by (intro calm_intros) (simp_all add: same_node_def)
  then show ?thesis unfolding should_run_def by (intro calm_intros) (auto intro!: calm_intros split: policy.splits)
qed

lemma same_naming_add: "k \<notin> naming_keys \<Longrightarrow> same_naming q p \<Longrightarrow> same_naming q (add_location k l p)"
  by (simp add: add_location_def same_naming_set)

lemma same_naming_object_locations:
  "same_naming q p \<Longrightarrow> same_naming q (object_locations g cs location p)"
proof (induction cs arbitrary: p)
  case (Cons c cs)
  have "same_naming q (add_location (''get_location_'' @ o_long_suffix (g_object g c)) location p)"
    by (rule same_naming_add [OF not_naming(3) Cons.prems])
  then show ?case using Cons by (simp add: object_locations_def)
qed (simp add: object_locations_def)

lemma same_naming_access:
  "worker_access g w p = Inr p' \<Longrightarrow> same_naming q p \<Longrightarrow> same_naming q p'"
proof -
  have "same_naming q (fold (\<lambda>(key, v) params. if startswith key ''nets_''
      then p_set (key @ ''_'' @ w) v params else params) kvs p)" if "same_naming q p" for kvs p
    using that by (induction kvs arbitrary: p) (auto simp: same_naming_set nets_not_naming)
  then show "worker_access g w p = Inr p' \<Longrightarrow> same_naming q p \<Longrightarrow> same_naming q p'"
    by (auto simp: worker_access_def split: if_splits)
qed

lemma same_naming_pull_workers:
  "pull_from_workers g cs path wids p = Inr p' \<Longrightarrow> same_naming q p \<Longrightarrow> same_naming q p'"
proof (induction wids arbitrary: p)
  case (Cons wid wids)
  then obtain p1 where "worker_access g wid (object_locations g cs (wid @ '':'' @ path) p) = Inr p1"
    "pull_from_workers g cs path wids p1 = Inr p'" by (auto simp: bindE_Inr_iff split: if_splits)
  then show ?case using Cons same_naming_access same_naming_object_locations by blast
qed simp

lemma same_naming_pull_nodes:
  "pull_from_nodes g n path ms p = Inr p' \<Longrightarrow> same_naming q p \<Longrightarrow> same_naming q p'"
proof (induction ms arbitrary: p)
  case (Cons m ms)
  then obtain cs p1 where "pull_from_workers g cs path (shared_result_worker_ids g m)
      (object_locations g cs ('':'' @ p_get_or p ''shared_pool'' ''.'') p) = Inr p1"
    "pull_from_nodes g n path ms p1 = Inr p'" by (auto simp: bindE_Inr_iff Let_def split: if_splits)
  then show ?case using Cons same_naming_pull_workers same_naming_object_locations by blast
qed simp

lemma calm_pull [calm_intros]: "calm_io (pull_locations n)"
proof -
  have "calm g (snd (pull_locations n g))" for g
  proof (cases "fst (pull_locations n g)")
    case (Inl e)
    then show ?thesis by (auto simp: pull_locations_def Let_def bindM_def io_run split: sum.splits prod.splits if_splits)
  next
    case (Inr u)
    show ?thesis
    proof (cases "is_flat g n")
      case True
      then show ?thesis by (simp add: pull_locations_def bindM_def io_run)
    next
      case False
      then obtain path p where "pull_from_nodes g n path (setup_nodes g n) (n_params (g_node g n)) = Inr p"
        and "snd (pull_locations n g) = upd_node n (\<lambda>nd. nd\<lparr>n_params := p\<rparr>) g"
        using Inr by (auto simp: pull_locations_def Let_def bindM_def io_run split: sum.splits prod.splits)
      moreover have "same_naming (n_params (g_node g n)) p"
        by (rule same_naming_pull_nodes [OF calculation(1)]) simp
      ultimately show ?thesis by (simp add: calm_def same_node_def)
    qed
  qed
  then show ?thesis by (simp add: calm_io_def)
qed

lemma show_nat_no_newline: "CHR 0x0A \<notin> set (show_nat k)"
  using show_nat_digits by (fastforce simp: is_digit_def)

lemma calm_run_begin [calm_intros]: "calm_io (run_test_begin n)"
  unfolding run_test_begin_def Let_def
  by (intro calm_intros) (auto simp: same_node_def show_nat_no_newline)

lemma calm_run_end [calm_intros]:
  "CHR 0x0A \<notin> set original \<Longrightarrow> calm_io (run_test_end n original result)"
  unfolding run_test_end_def by (cases result) (auto intro!: calm_intros simp: same_node_def)

lemma calm_ends [calm_intros]:
  "CHR 0x0A \<notin> set original \<Longrightarrow> calm_io (run_end n original w result)"
  "calm_io (install_end dir n w result)"
  unfolding run_end_def install_end_def Let_def
  by (auto intro!: calm_intros simp: same_node_def same_naming_set split: outcome.splits)

lemma calm_traverse [calm_intros]: "calm_io (traverse_begin job dir n w)"
  unfolding traverse_begin_def by (intro calm_intros) (simp_all add: same_node_def)

lemma calm_reverse [calm_intros]: "calm_io (reverse_node job n w)"
  unfolding reverse_node_def by (intro calm_intros) (simp_all add: same_node_def)

lemma calm_step_back [calm_intros]: "calm_io (step_back root n wk)"
  unfolding step_back_def Let_def by (intro calm_intros) (simp_all add: same_node_def same_naming_set)

end
