(* ===== verification/TraversalSafety.thy ===== *)
theory TraversalSafety
  imports TraversalFrame
begin

text \<open>
  The invariant of the traversal: the path of every worker is a chain of dependencies from the
  shared root, first down and then up, and its first node is still to be dropped. It holds
  under any interleaving of the workers.
\<close>

section \<open>Well-formed graphs\<close>

text \<open>
  Dependencies are stored at both ends and acyclic, names can be compared, the nodes that
  concern one worker differ in their keys, and the root shares its registers with no node.
\<close>

definition graph_ok :: "nid \<Rightarrow> tgraph \<Rightarrow> bool" where
  "graph_ok root g \<longleftrightarrow> root \<in> set (g_nodes g)
     \<and> (\<forall>p n. (p, n) \<in> depends g \<longrightarrow> p \<in> set (g_nodes g) \<and> n \<in> set (g_nodes g))
     \<and> edge_sym g \<and> acyclic (depends g)
     \<and> (\<forall>n \<in> set (g_nodes g). plain_node (g_node g n))
     \<and> (\<forall>w. \<forall>n \<in> set (g_nodes g). \<forall>m \<in> set (g_nodes g).
          concerns g w n \<and> concerns g w m \<and> node_key g n = node_key g m \<longrightarrow> n = m)
     \<and> (\<forall>n \<in> set (g_nodes g). n \<noteq> root \<longrightarrow> n_edges (g_node g n) \<noteq> n_edges (g_node g root))"

text \<open>A graph that grows keeps the known nodes with their dependencies.\<close>

definition extends :: "tgraph \<Rightarrow> tgraph \<Rightarrow> bool" where
  "extends g g' \<longleftrightarrow> set (g_nodes g) \<subseteq> set (g_nodes g') \<and> (\<forall>n \<in> set (g_nodes g).
     n_name (g_node g' n) = n_name (g_node g n) \<and> is_flat g' n = is_flat g n \<and> node_key g' n = node_key g n
     \<and> n_edges (g_node g' n) = n_edges (g_node g n)
     \<and> set (setup_nodes g n) \<subseteq> set (setup_nodes g' n) \<and> set (cleanup_nodes g n) \<subseteq> set (cleanup_nodes g' n)
     \<and> (n_finished (g_node g n) \<noteq> None \<longrightarrow> n_finished (g_node g' n) \<noteq> None))"

definition stable :: "tgraph \<Rightarrow> tgraph \<Rightarrow> bool" where
  "stable g g' \<longleftrightarrow> extends g g' \<and> (\<forall>n \<in> set (g_nodes g).
     dropped_setup (edges_of g' n) = dropped_setup (edges_of g n)
     \<and> dropped_cleanup (edges_of g' n) = dropped_cleanup (edges_of g n))"

text \<open>What a worker may do to the graph: other workers keep their drops, its own only grow.\<close>

definition only_by :: "string \<Rightarrow> register \<Rightarrow> register \<Rightarrow> bool" where
  "only_by w r r' \<longleftrightarrow> (\<forall>k. get_workers r (Some k) \<subseteq> get_workers r' (Some k)
     \<and> get_workers r' (Some k) \<subseteq> insert w (get_workers r (Some k)))"

definition moves :: "string \<Rightarrow> tgraph \<Rightarrow> tgraph \<Rightarrow> bool" where
  "moves w g g' \<longleftrightarrow> extends g g' \<and> (\<forall>n \<in> set (g_nodes g).
     only_by w (dropped_setup (edges_of g n)) (dropped_setup (edges_of g' n))
     \<and> only_by w (dropped_cleanup (edges_of g n)) (dropped_cleanup (edges_of g' n)))"

lemma extends_trans: "extends g h \<Longrightarrow> extends h k \<Longrightarrow> extends g k"
  unfolding extends_def by (metis (no_types, lifting) subset_iff)

lemma only_by_trans: "only_by w r s \<Longrightarrow> only_by w s t \<Longrightarrow> only_by w r t"
  unfolding only_by_def by blast

lemma only_by_refl [simp]: "only_by w r r"
  by (auto simp: only_by_def)

lemma extends_nodes: "extends g h \<Longrightarrow> n \<in> set (g_nodes g) \<Longrightarrow> n \<in> set (g_nodes h)"
  unfolding extends_def by blast

lemma moves_trans: "moves w g h \<Longrightarrow> moves w h k \<Longrightarrow> moves w g k"
  unfolding moves_def
proof (elim conjE, intro conjI ballI)
  assume gh: "extends g h" and hk: "extends h k"
  then show "extends g k" by (rule extends_trans)
  fix n
  assume 1: "\<forall>n \<in> set (g_nodes g). only_by w (dropped_setup (edges_of g n)) (dropped_setup (edges_of h n))
      \<and> only_by w (dropped_cleanup (edges_of g n)) (dropped_cleanup (edges_of h n))"
    and 2: "\<forall>n \<in> set (g_nodes h). only_by w (dropped_setup (edges_of h n)) (dropped_setup (edges_of k n))
      \<and> only_by w (dropped_cleanup (edges_of h n)) (dropped_cleanup (edges_of k n))"
    and n: "n \<in> set (g_nodes g)"
  note n' = extends_nodes [OF gh n]
  show "only_by w (dropped_setup (edges_of g n)) (dropped_setup (edges_of k n))"
    by (rule only_by_trans [OF bspec [OF 1 n, THEN conjunct1] bspec [OF 2 n', THEN conjunct1]])
  show "only_by w (dropped_cleanup (edges_of g n)) (dropped_cleanup (edges_of k n))"
    by (rule only_by_trans [OF bspec [OF 1 n, THEN conjunct2] bspec [OF 2 n', THEN conjunct2]])
qed

lemma stable_trans: "stable g h \<Longrightarrow> stable h k \<Longrightarrow> stable g k"
  unfolding stable_def
proof (elim conjE, intro conjI ballI)
  assume gh: "extends g h" and hk: "extends h k"
  then show "extends g k" by (rule extends_trans)
  fix n
  assume 1: "\<forall>n \<in> set (g_nodes g). dropped_setup (edges_of h n) = dropped_setup (edges_of g n)
      \<and> dropped_cleanup (edges_of h n) = dropped_cleanup (edges_of g n)"
    and 2: "\<forall>n \<in> set (g_nodes h). dropped_setup (edges_of k n) = dropped_setup (edges_of h n)
      \<and> dropped_cleanup (edges_of k n) = dropped_cleanup (edges_of h n)"
    and n: "n \<in> set (g_nodes g)"
  show "dropped_setup (edges_of k n) = dropped_setup (edges_of g n)"
    "dropped_cleanup (edges_of k n) = dropped_cleanup (edges_of g n)"
    using bspec [OF 1 n] bspec [OF 2 extends_nodes [OF gh n]] by simp_all
qed

lemma calm_stable: "calm g g' \<Longrightarrow> stable g g'"
proof -
  assume calm: "calm g g'"
  have "same_node (g_node g n) (g_node g' n)" for n using calm by (simp add: calm_def)
  then have "n_name (g_node g' n) = n_name (g_node g n)" for n by (simp add: same_node_def)
  then have "extends g g'"
    unfolding extends_def calm_shape [OF calm] using calm_finished [OF calm] by blast
  moreover have "dropped_setup (edges_of g' n) = dropped_setup (edges_of g n)
      \<and> dropped_cleanup (edges_of g' n) = dropped_cleanup (edges_of g n)" for n
    unfolding calm_shape(9) [OF calm] using calm by (simp add: calm_def)
  ultimately show ?thesis unfolding stable_def by blast
qed

lemma stable_moves: "stable g g' \<Longrightarrow> moves w g g'"
  by (simp add: stable_def moves_def)

lemma stable_refl [simp]: "stable g g"
  by (simp add: calm_stable)

lemma extendsD:
  assumes "extends g g'" and "n \<in> set (g_nodes g)"
  shows "n \<in> set (g_nodes g')" "node_key g' n = node_key g n"
    "n_edges (g_node g' n) = n_edges (g_node g n)"
    "m \<in> set (setup_nodes g n) \<Longrightarrow> m \<in> set (setup_nodes g' n)"
    "m \<in> set (cleanup_nodes g n) \<Longrightarrow> m \<in> set (cleanup_nodes g' n)"
    "n_finished (g_node g n) \<noteq> None \<Longrightarrow> n_finished (g_node g' n) \<noteq> None"
  using assms unfolding extends_def by blast+

lemma extends_concerns: "extends g g' \<Longrightarrow> n \<in> set (g_nodes g) \<Longrightarrow> concerns g' w n = concerns g w n"
  by (simp add: extends_def concerns_def names_worker_def)

lemma graph_ok_same:
  assumes ok: "graph_ok root g" and nodes: "g_nodes g' = g_nodes g" and deps: "depends g' = depends g"
    and sym: "edge_sym g' = edge_sym g" and plain: "\<And>n. plain_node (g_node g n) \<Longrightarrow> plain_node (g_node g' n)"
    and con: "\<And>w n. concerns g' w n = concerns g w n" and key: "\<And>n. node_key g' n = node_key g n"
    and edges: "\<And>n. n_edges (g_node g' n) = n_edges (g_node g n)"
  shows "graph_ok root g'"
  using ok plain unfolding graph_ok_def nodes deps sym con key edges by blast

lemma graph_ok_calm:
  assumes calm: "calm g g'" and ok: "graph_ok root g"
  shows "graph_ok root g'"
proof (rule graph_ok_same [OF ok])
  show "plain_node (g_node g n) \<Longrightarrow> plain_node (g_node g' n)" for n
    by (rule same_node_plain) (use calm in \<open>simp_all add: calm_def\<close>)
qed (simp_all add: calm_shape [OF calm])

lemma graph_ok_edge:
  assumes "graph_ok root g"
  shows "c \<in> set (cleanup_nodes g p) \<longleftrightarrow> p \<in> set (setup_nodes g c)"
    "p \<in> set (setup_nodes g c) \<Longrightarrow> p \<in> set (g_nodes g) \<and> c \<in> set (g_nodes g)"
    "(p, c) \<in> (depends g)\<^sup>+ \<Longrightarrow> (c, p) \<notin> (depends g)\<^sup>*"
proof -
  show "c \<in> set (cleanup_nodes g p) \<longleftrightarrow> p \<in> set (setup_nodes g c)"
    using assms by (simp add: graph_ok_def edge_sym_nodes)
  show "p \<in> set (setup_nodes g c) \<Longrightarrow> p \<in> set (g_nodes g) \<and> c \<in> set (g_nodes g)"
    using assms by (auto simp: graph_ok_def depends_def)
  show "(p, c) \<in> (depends g)\<^sup>+ \<Longrightarrow> (c, p) \<notin> (depends g)\<^sup>*"
    using assms unfolding graph_ok_def acyclic_def by (meson trancl_rtrancl_trancl)
qed

lemma pickable:
  assumes "graph_ok root g"
  shows "\<not> is_setup_ready g n w \<Longrightarrow> \<exists>m. pick_parent n w g = (Inr m, visit_parent_pick n w g m)
      \<and> m \<in> set (setup_nodes g n) \<and> concerns g w m"
    "\<not> is_cleanup_ready g n w \<Longrightarrow> \<exists>m. pick_child n w g = (Inr m, visit_child_pick n w g m)
      \<and> m \<in> set (cleanup_nodes g n) \<and> concerns g w m \<and> \<not> has_dropped_child g w n m"
proof -
  have "plain_node (g_node g m)" if "m \<in> set (setup_nodes g n) \<or> m \<in> set (cleanup_nodes g n)" for m
    using assms that graph_ok_edge [OF assms] unfolding graph_ok_def by blast
  then have plain: "\<forall>m \<in> set (setup_nodes g n). plain_node (g_node g m)"
    "\<forall>m \<in> set (cleanup_nodes g n). plain_node (g_node g m)" by blast+
  show "\<exists>m. pick_parent n w g = (Inr m, visit_parent_pick n w g m)
      \<and> m \<in> set (setup_nodes g n) \<and> concerns g w m" if "\<not> is_setup_ready g n w"
    using pick_parent_run [OF that plain(1)] preferred_parent by blast
  show "\<exists>m. pick_child n w g = (Inr m, visit_child_pick n w g m)
      \<and> m \<in> set (cleanup_nodes g n) \<and> concerns g w m \<and> \<not> has_dropped_child g w n m"
    if "\<not> is_cleanup_ready g n w"
    using pick_child_run [OF that plain(2)] preferred_child by blast
qed

lemma calm_visits: "calm g (visit_parent_pick n w g m)" "calm g (visit_child_pick n w g m)"
  by (simp_all add: calm_def visit_parent_pick_def visit_child_pick_def)

section \<open>Dropping\<close>

lemma workers_register:
  "get_workers (register k w r) (Some k') =
    (if k' = k then insert w (get_workers r (Some k')) else get_workers r (Some k'))"
  unfolding workers_of_key
  by (auto simp: register_def Let_def dict_set_keys dict_has_def dict_get_def simp flip: dict_has_iff
      split: option.splits)

lemma only_by_register: "only_by w r (register k w r)"
  by (auto simp: only_by_def workers_register)

text \<open>Only registers of drops change, and only for the worker.\<close>

definition drops :: "string \<Rightarrow> tgraph \<Rightarrow> tgraph \<Rightarrow> bool" where
  "drops w g g' \<longleftrightarrow> g_nodes g' = g_nodes g \<and> g_node g' = g_node g
     \<and> (\<forall>a. only_by w (dropped_setup (g_edges g a)) (dropped_setup (g_edges g' a))
          \<and> only_by w (dropped_cleanup (g_edges g a)) (dropped_cleanup (g_edges g' a)))"

lemma drops_refl [simp]: "drops w g g"
  by (simp add: drops_def)

lemma drops_trans: "drops w g h \<Longrightarrow> drops w h k \<Longrightarrow> drops w g k"
  unfolding drops_def by (auto intro: only_by_trans)

lemma drops_shape:
  assumes "drops w g g'"
  shows "node_key g' n = node_key g n" "is_flat g' n = is_flat g n" "names_worker g' v n = names_worker g v n"
    "concerns g' v n = concerns g v n" "setup_nodes g' n = setup_nodes g n"
    "cleanup_nodes g' n = cleanup_nodes g n" "depends g' = depends g" "edge_sym g' = edge_sym g"
  using assms by (simp_all add: drops_def node_key_def is_flat_def names_worker_def concerns_def
      setup_nodes_def cleanup_nodes_def depends_def edge_sym_def)

lemma drops_moves: "drops w g g' \<Longrightarrow> moves w g g'"
  unfolding moves_def extends_def using drops_shape [of w g g'] by (simp add: drops_def)

lemma graph_ok_drops: "drops w g g' \<Longrightarrow> graph_ok root g \<Longrightarrow> graph_ok root g'"
  by (erule graph_ok_same) (simp_all add: drops_shape, simp_all add: drops_def)

lemma drop_parent_drops:
  assumes "drop_parent n m w g = (r, g')"
  shows "drops w g g' \<and> (\<forall>a. dropped_cleanup (g_edges g' a) = dropped_cleanup (g_edges g a))"
  using assms by (auto simp: drop_parent_def bindM_def io_run drops_def only_by_register split: if_splits)

lemma drop_child_drops:
  assumes "drop_child n m w g = (r, g')"
  shows "drops w g g' \<and> (\<forall>a. dropped_setup (g_edges g' a) = dropped_setup (g_edges g a))
    \<and> (\<forall>a k. w \<in> get_workers (dropped_cleanup (g_edges g' a)) (Some k) \<longrightarrow>
         w \<in> get_workers (dropped_cleanup (g_edges g a)) (Some k) \<or> k = node_key g m \<and> a = n_edges (g_node g n))"
  using assms
  by (auto simp: drop_child_def bindM_def io_run drops_def only_by_register workers_register split: if_splits)

lemma drop_children_drops:
  assumes "forM (\<lambda>p. drop_child p m w) ps g = (r, g')"
  shows "drops w g g' \<and> (\<forall>a. dropped_setup (g_edges g' a) = dropped_setup (g_edges g a))
    \<and> (\<forall>a k. w \<in> get_workers (dropped_cleanup (g_edges g' a)) (Some k) \<longrightarrow>
         w \<in> get_workers (dropped_cleanup (g_edges g a)) (Some k)
         \<or> k = node_key g m \<and> (\<exists>p \<in> set ps. a = n_edges (g_node g p)))"
  using assms
proof (induction ps arbitrary: g)
  case (Cons p ps)
  obtain r1 g1 where g1: "drop_child p m w g = (r1, g1)" by (cases "drop_child p m w g")
  note first = drop_child_drops [OF g1]
  show ?case
  proof (cases r1)
    case (Inl e)
    then have "g' = g1" using Cons.prems g1 by (simp add: thenM_def bindM_def)
    then show ?thesis using first by auto
  next
    case (Inr u)
    then have rest: "forM (\<lambda>p. drop_child p m w) ps g1 = (r, g')"
      using Cons.prems g1 by (simp add: thenM_def bindM_def)
    have same: "g_node g1 = g_node g" "node_key g1 m = node_key g m"
      using first by (auto simp: drops_def node_key_def)
    show ?thesis using first Cons.IH [OF rest] drops_trans [of w g g1 g'] unfolding same by fastforce
  qed
qed (simp add: io_run)

section \<open>Paths\<close>

fun down_path :: "nid \<Rightarrow> tgraph \<Rightarrow> nid list \<Rightarrow> bool" where
  "down_path root g [] = False"
| "down_path root g [n] = (n = root)"
| "down_path root g (n # m # ps) = (m \<in> set (setup_nodes g n) \<and> down_path root g (m # ps))"

fun walk :: "nid \<Rightarrow> tgraph \<Rightarrow> nid list \<Rightarrow> bool" where
  "walk root g [] = False"
| "walk root g [n] = (n = root)"
| "walk root g (n # m # ps) =
     (m \<in> set (setup_nodes g n) \<and> down_path root g (m # ps) \<or> m \<in> set (cleanup_nodes g n) \<and> walk root g (m # ps))"

lemma down_path_walk: "down_path root g ps \<Longrightarrow> walk root g ps"
  by (induction root g ps rule: down_path.induct) auto

lemma walk_tl: "walk root g (n # m # ps) \<Longrightarrow> walk root g (m # ps)"
  using down_path_walk by auto

lemma walk_root: "walk root g ps \<Longrightarrow> last ps = root \<and> ps \<noteq> []"
proof (induction root g ps rule: walk.induct)
  case (3 root g n m ps)
  then show ?case using down_path_walk by fastforce
qed auto

lemma down_path_above: "down_path root g (n # ps) \<Longrightarrow> m \<in> set ps \<Longrightarrow> (m, n) \<in> (depends g)\<^sup>+"
proof (induction ps arbitrary: n)
  case (Cons p ps)
  have edge: "(p, n) \<in> depends g" using Cons.prems(1) by (simp add: depends_def)
  show ?case
  proof (cases "m = p")
    case True
    then show ?thesis using edge by simp
  next
    case False
    then have "(m, p) \<in> (depends g)\<^sup>+" using Cons by simp
    then show ?thesis using edge by (rule trancl_into_trancl)
  qed
qed simp

lemma down_path_mono:
  "down_path root g ps \<Longrightarrow> set ps \<subseteq> set (g_nodes g) \<Longrightarrow> extends g g' \<Longrightarrow> down_path root g' ps"
  by (induction root g ps rule: down_path.induct) (auto simp: extends_def)

lemma walk_mono:
  "walk root g ps \<Longrightarrow> set ps \<subseteq> set (g_nodes g) \<Longrightarrow> extends g g' \<Longrightarrow> walk root g' ps"
proof (induction root g ps rule: walk.induct)
  case (3 root g n m ps)
  then show ?case using down_path_mono [of root g "m # ps" g'] by (auto simp: extends_def)
qed auto

text \<open>The child of the root on a path.\<close>

definition first_child :: "nid list \<Rightarrow> nid" where
  "first_child path = last (butlast path)"

definition path_ok :: "nid \<Rightarrow> tgraph \<Rightarrow> string \<Rightarrow> nid list \<Rightarrow> bool" where
  "path_ok root g w path \<longleftrightarrow> walk root g path \<and> set path \<subseteq> set (g_nodes g)
     \<and> (\<forall>n \<in> set (butlast path). concerns g w n)
     \<and> (length path \<ge> 2 \<longrightarrow> first_child path \<in> set (cleanup_nodes g root)
          \<and> \<not> has_dropped_child g w root (first_child path))"

definition at_node :: "tgraph \<Rightarrow> nid \<Rightarrow> direction \<Rightarrow> nid list \<Rightarrow> bool" where
  "at_node g n dir path \<longleftrightarrow> (\<exists>previous ps. path = n # previous # ps \<and> (case dir of
     Up \<Rightarrow> previous \<in> set (cleanup_nodes g n) | Down _ \<Rightarrow> previous \<in> set (setup_nodes g n)))"

definition walker_ok :: "nid \<Rightarrow> tgraph \<Rightarrow> string \<Rightarrow> walker \<Rightarrow> bool" where
  "walker_ok root g w wk \<longleftrightarrow> (case w_pc wk of
     Failed e \<Rightarrow> e \<notin> path_errors
   | Ended \<Rightarrow> w_path wk = [root]
   | Looping \<Rightarrow> path_ok root g w (w_path wk)
   | Installing n dir \<Rightarrow> path_ok root g w (w_path wk) \<and> at_node g n dir (w_path wk)
   | Running n dir original \<Rightarrow> path_ok root g w (w_path wk) \<and> at_node g n dir (w_path wk)
       \<and> CHR 0x0A \<notin> set original)"

lemma first_child_Cons: "length path \<ge> 2 \<Longrightarrow> first_child (n # path) = first_child path"
  by (cases path rule: rev_cases) (auto simp: first_child_def butlast_append)

lemma first_child_in: "length path \<ge> 2 \<Longrightarrow> first_child path \<in> set (butlast path)"
  unfolding first_child_def by (rule last_in_set) (cases path rule: rev_cases; auto)

lemma path_ok_stable:
  assumes ok: "path_ok root g w path" and root: "root \<in> set (g_nodes g)"
    and ext: "extends g g'"
    and regs: "\<And>k. w \<in> get_workers (dropped_cleanup (edges_of g' root)) (Some k) \<longleftrightarrow>
                   w \<in> get_workers (dropped_cleanup (edges_of g root)) (Some k)"
  shows "path_ok root g' w path"
proof -
  have nodes: "set path \<subseteq> set (g_nodes g)" using ok by (simp add: path_ok_def)
  have known: "n \<in> set (g_nodes g)" if "n \<in> set (butlast path)" for n
    using that nodes in_set_butlastD by fast
  have "first_child path \<in> set (cleanup_nodes g' root) \<and> \<not> has_dropped_child g' w root (first_child path)"
    if len: "length path \<ge> 2"
  proof -
    have f: "first_child path \<in> set (g_nodes g)" using known first_child_in [OF len] by blast
    note key = extendsD(2) [OF ext f]
    have "has_dropped_child g' w root (first_child path) = has_dropped_child g w root (first_child path)"
      unfolding has_dropped_child_def key by (rule regs)
    moreover have "first_child path \<in> set (cleanup_nodes g root) \<and> \<not> has_dropped_child g w root (first_child path)"
      using ok len by (simp add: path_ok_def)
    ultimately show ?thesis using extendsD(5) [OF ext root] by blast
  qed
  moreover have "concerns g' w n" if "n \<in> set (butlast path)" for n
    using ok that extends_concerns [OF ext known [OF that]] by (simp add: path_ok_def)
  moreover have "set path \<subseteq> set (g_nodes g')" using nodes ext by (auto simp: extends_def)
  moreover have "walk root g' path" using walk_mono [OF _ nodes ext] ok by (simp add: path_ok_def)
  ultimately show ?thesis unfolding path_ok_def by blast
qed

lemma at_node_mono:
  assumes "at_node g n dir path" and "set path \<subseteq> set (g_nodes g)" and "extends g g'"
  shows "at_node g' n dir path"
proof -
  obtain previous ps where path: "path = n # previous # ps"
    and dir: "case dir of Up \<Rightarrow> previous \<in> set (cleanup_nodes g n) | Down _ \<Rightarrow> previous \<in> set (setup_nodes g n)"
    using assms(1) by (auto simp: at_node_def)
  have "n \<in> set (g_nodes g)" using assms(2) path by simp
  then have "case dir of Up \<Rightarrow> previous \<in> set (cleanup_nodes g' n) | Down _ \<Rightarrow> previous \<in> set (setup_nodes g' n)"
    using dir extendsD(4,5) [OF assms(3)] by (cases dir) simp_all
  then show ?thesis using path by (simp add: at_node_def)
qed

lemma walker_ok_stable:
  assumes ok: "walker_ok root g w wk" and root: "root \<in> set (g_nodes g)" and ext: "extends g g'"
    and regs: "\<And>k. w \<in> get_workers (dropped_cleanup (edges_of g' root)) (Some k) \<longleftrightarrow>
                   w \<in> get_workers (dropped_cleanup (edges_of g root)) (Some k)"
  shows "walker_ok root g' w wk"
proof -
  have "path_ok root g w (w_path wk) \<Longrightarrow> path_ok root g' w (w_path wk)"
    using path_ok_stable [OF _ root ext regs] by blast
  moreover have "path_ok root g w (w_path wk) \<Longrightarrow> at_node g n dir (w_path wk) \<Longrightarrow> at_node g' n dir (w_path wk)"
    for n dir
    using at_node_mono [OF _ _ ext] by (simp add: path_ok_def)
  ultimately show ?thesis using ok by (auto simp: walker_ok_def split: pc.splits)
qed

lemma walker_ok_other:
  assumes "walker_ok root g w wk" and "graph_ok root g" and "moves v g g'" and "v \<noteq> w"
  shows "walker_ok root g' w wk"
proof (rule walker_ok_stable [OF assms(1)])
  show root: "root \<in> set (g_nodes g)" using assms(2) by (simp add: graph_ok_def)
  show "extends g g'" using assms(3) by (simp add: moves_def)
  show "w \<in> get_workers (dropped_cleanup (edges_of g' root)) (Some k) \<longleftrightarrow>
      w \<in> get_workers (dropped_cleanup (edges_of g root)) (Some k)" for k
    using assms(3,4) root unfolding moves_def only_by_def by blast
qed

lemma path_ok_calm: "calm g g' \<Longrightarrow> graph_ok root g \<Longrightarrow> path_ok root g w path \<Longrightarrow> path_ok root g' w path"
  by (rule path_ok_stable) (use calm_stable in \<open>auto simp: graph_ok_def stable_def calm_def same_node_def\<close>)

end
