(* ===== verification/TraversalInvariant.thy ===== *)
theory TraversalInvariant
  imports TraversalSafety
begin

text \<open>
  Every section of a worker keeps the graph well-formed and the worker on its path.
\<close>

section \<open>Sections keep the invariant\<close>

text \<open>
  The registers of a new node are those of a known node, which it is bridged with, or empty.
\<close>

definition fresh_registers :: "tgraph \<Rightarrow> tgraph \<Rightarrow> bool" where
  "fresh_registers g g' \<longleftrightarrow> (\<forall>n \<in> set (g_nodes g'). n \<notin> set (g_nodes g) \<longrightarrow>
     (\<exists>m \<in> set (g_nodes g). n_edges (g_node g' n) = n_edges (g_node g m)) \<or> dropped_setup (edges_of g' n) = [])"

text \<open>What is assumed of the parser: it only adds to the graph.\<close>

definition well_behaved :: "nid \<Rightarrow> job \<Rightarrow> bool" where
  "well_behaved root job \<longleftrightarrow>
     (\<forall>g n w r g'. graph_ok root g \<and> j_parse job n w g = (r, g') \<longrightarrow>
        graph_ok root g' \<and> stable g g' \<and> fresh_registers g g' \<and> ordinary r)
     \<and> (\<forall>g n w. ordinary (j_terminal job g n w))"

text \<open>
  Whatever a worker has dropped as a parent is a finished node that concerns it.
\<close>

definition accounted :: "tgraph \<Rightarrow> bool" where
  "accounted g \<longleftrightarrow> (\<forall>a \<in> set (g_nodes g). \<forall>k w. w \<in> get_workers (dropped_setup (edges_of g a)) (Some k) \<longrightarrow>
     (\<exists>p \<in> set (g_nodes g). concerns g w p \<and> node_key g p = k \<and> n_finished (g_node g p) \<noteq> None))"

definition sound :: "nid \<Rightarrow> tgraph \<Rightarrow> bool" where
  "sound root g \<longleftrightarrow> graph_ok root g \<and> accounted g"

lemma soundD: "sound root g \<Longrightarrow> graph_ok root g"
  by (simp add: sound_def)

lemma accountedD:
  "accounted g \<Longrightarrow> a \<in> set (g_nodes g) \<Longrightarrow> w \<in> get_workers (dropped_setup (edges_of g a)) (Some k) \<Longrightarrow>
   \<exists>p \<in> set (g_nodes g). concerns g w p \<and> node_key g p = k \<and> n_finished (g_node g p) \<noteq> None"
  unfolding accounted_def by blast

lemma accounted_witness:
  assumes "p \<in> set (g_nodes g)" "concerns g w p" "n_finished (g_node g p) \<noteq> None" and ext: "extends g g'"
  shows "\<exists>q \<in> set (g_nodes g'). concerns g' w q \<and> node_key g' q = node_key g p \<and> n_finished (g_node g' q) \<noteq> None"
  using assms(1-3) extendsD(1,2,6) [OF ext assms(1)] extends_concerns [OF ext assms(1), of w]
  by (intro bexI [of _ p]) simp_all

lemma accounted_same:
  assumes acc: "accounted g" and ext: "extends g g'" and nodes: "g_nodes g' = g_nodes g"
    and regs: "\<And>a. a \<in> set (g_nodes g) \<Longrightarrow> dropped_setup (edges_of g' a) = dropped_setup (edges_of g a)"
  shows "accounted g'"
  unfolding accounted_def
proof (intro ballI allI impI)
  fix a k w assume a: "a \<in> set (g_nodes g')" and w: "w \<in> get_workers (dropped_setup (edges_of g' a)) (Some k)"
  have a': "a \<in> set (g_nodes g)" using a nodes by simp
  obtain p where p: "p \<in> set (g_nodes g)" "concerns g w p" "node_key g p = k" "n_finished (g_node g p) \<noteq> None"
    using accountedD [OF acc a' w [unfolded regs [OF a']]] by blast
  show "\<exists>p \<in> set (g_nodes g'). concerns g' w p \<and> node_key g' p = k \<and> n_finished (g_node g' p) \<noteq> None"
    using accounted_witness [OF p(1,2,4) ext] p(3) by simp
qed

lemma accounted_parsed:
  assumes acc: "accounted g" and st: "stable g g'" and fresh: "fresh_registers g g'"
  shows "accounted g'"
  unfolding accounted_def
proof (intro ballI allI impI)
  fix a k w assume a: "a \<in> set (g_nodes g')" and w: "w \<in> get_workers (dropped_setup (edges_of g' a)) (Some k)"
  have ext: "extends g g'" using st by (simp add: stable_def)
  have same: "dropped_setup (edges_of g' m) = dropped_setup (edges_of g m)" if "m \<in> set (g_nodes g)" for m
    using st that by (simp add: stable_def)
  have "\<exists>m \<in> set (g_nodes g). w \<in> get_workers (dropped_setup (edges_of g m)) (Some k)"
  proof (cases "a \<in> set (g_nodes g)")
    case True
    then show ?thesis using w same by auto
  next
    case False
    moreover have "dropped_setup (edges_of g' a) \<noteq> []" using w by (auto simp: workers_of_key dict_get_def dict_keys_def)
    ultimately obtain m where m: "m \<in> set (g_nodes g)" "n_edges (g_node g' a) = n_edges (g_node g m)"
      using fresh a unfolding fresh_registers_def by blast
    then have "edges_of g' a = edges_of g' m" using extendsD(3) [OF ext m(1)] by simp
    then show ?thesis using w same [OF m(1)] m(1) by auto
  qed
  then obtain m where m: "m \<in> set (g_nodes g)" "w \<in> get_workers (dropped_setup (edges_of g m)) (Some k)" by blast
  obtain p where p: "p \<in> set (g_nodes g)" "concerns g w p" "node_key g p = k" "n_finished (g_node g p) \<noteq> None"
    using accountedD [OF acc m] by blast
  show "\<exists>p \<in> set (g_nodes g'). concerns g' w p \<and> node_key g' p = k \<and> n_finished (g_node g' p) \<noteq> None"
    using accounted_witness [OF p(1,2,4) ext] p(3) by simp
qed

lemma sound_calm: "calm g g' \<Longrightarrow> sound root g \<Longrightarrow> sound root g'"
  unfolding sound_def using graph_ok_calm calm_stable [of g g']
  by (auto simp: stable_def calm_def intro: accounted_same)

lemma sound_drops:
  assumes "drops w g g'" and "\<forall>a. dropped_setup (g_edges g' a) = dropped_setup (g_edges g a)" and "sound root g"
  shows "sound root g'"
  using assms graph_ok_drops [OF assms(1)] drops_moves [OF assms(1)] accounted_same [of g g']
  by (simp add: sound_def drops_def moves_def)

lemma sound_drop_parent:
  assumes ok: "sound root g" and run: "drop_parent previous n w g = (r, g')"
    and n: "n \<in> set (g_nodes g)" "concerns g w n" "n_finished (g_node g n) \<noteq> None"
  shows "sound root g'"
proof -
  have drops: "drops w g g'" using drop_parent_drops [OF run] by blast
  have ext: "extends g g'" using drops_moves [OF drops] by (simp add: moves_def)
  have "accounted g'"
    unfolding accounted_def
  proof (intro ballI allI impI)
    fix a k v assume a: "a \<in> set (g_nodes g')" and v: "v \<in> get_workers (dropped_setup (edges_of g' a)) (Some k)"
    have a': "a \<in> set (g_nodes g)" using a drops by (simp add: drops_def)
    have "v \<in> get_workers (dropped_setup (edges_of g a)) (Some k) \<or> v = w \<and> k = node_key g n"
      using v run
      by (auto simp: drop_parent_def bindM_def io_run workers_register split: if_splits)
    then obtain p where p: "p \<in> set (g_nodes g)" "concerns g v p" "node_key g p = k" "n_finished (g_node g p) \<noteq> None"
      using accountedD [OF _ a'] ok n unfolding sound_def by blast
    show "\<exists>p \<in> set (g_nodes g'). concerns g' v p \<and> node_key g' p = k \<and> n_finished (g_node g' p) \<noteq> None"
      using accounted_witness [OF p(1,2,4) ext] p(3) by simp
  qed
  then show ?thesis using graph_ok_drops [OF drops] ok by (simp add: sound_def)
qed

definition section_ok :: "nid \<Rightarrow> string \<Rightarrow> walker \<Rightarrow> (tgraph, walker) io \<Rightarrow> tgraph \<Rightarrow> bool" where
  "section_ok root w wk m g \<longleftrightarrow> (case m g of (r, g') \<Rightarrow>
     sound root g' \<and> moves w g g' \<and> walker_ok root g' w (settle wk r))"

lemma section_bind:
  assumes "m g = (r, g1)" and "sound root g1" and "moves w g g1" and "ordinary r"
    and "\<And>x. r = Inr x \<Longrightarrow> section_ok root w wk (f x) g1"
  shows "section_ok root w wk (bindM m f) g"
proof (cases r)
  case (Inl e)
  then show ?thesis using assms(1-4) by (simp add: section_ok_def bindM_def settle_def walker_ok_def)
next
  case (Inr x)
  obtain r2 g2 where g2: "f x g1 = (r2, g2)" by (cases "f x g1")
  have "sound root g2 \<and> moves w g1 g2 \<and> walker_ok root g2 w (settle wk r2)"
    using assms(5) [OF Inr] g2 by (simp add: section_ok_def)
  then show ?thesis using assms(1,3) Inr g2 moves_trans by (auto simp: section_ok_def bindM_def)
qed

lemma section_calm:
  assumes "calm_io m" and "ordinary_io m" and "sound root g"
    and "\<And>x g1. m g = (Inr x, g1) \<Longrightarrow> calm g g1 \<Longrightarrow> sound root g1 \<Longrightarrow> section_ok root w wk (f x) g1"
  shows "section_ok root w wk (bindM m f) g"
proof -
  obtain r g1 where run: "m g = (r, g1)" by (cases "m g")
  have calm: "calm g g1" using calm_ioD [OF assms(1) run] .
  have "ordinary r" using assms(2) run unfolding ordinary_io_def by (metis fst_conv)
  then show ?thesis
    by (intro section_bind [of m g r g1 root w wk f, OF run sound_calm [OF calm assms(3)]
          stable_moves [OF calm_stable [OF calm]]]) (use assms(4) run calm sound_calm [OF calm assms(3)] in blast)+
qed

lemma section_get:
  "section_ok root w wk (f (h g)) g \<Longrightarrow> section_ok root w wk (bindM (getM h) f) g"
  by (simp add: section_ok_def bindM_def io_run)

lemma section_graph: "section_ok root w wk (f g) g \<Longrightarrow> section_ok root w wk (bindM (getM id) f) g"
  by (simp add: section_get)

lemma section_lift:
  assumes "ordinary r" and "sound root g" and "\<And>x. r = Inr x \<Longrightarrow> section_ok root w wk (f x) g"
  shows "section_ok root w wk (bindM (liftM r) f) g"
  by (rule section_bind [of _ _ r g]) (use assms in \<open>simp_all add: io_run stable_moves\<close>)

lemma section_ret: "sound root g \<Longrightarrow> walker_ok root g w wk' \<Longrightarrow> section_ok root w wk (retM wk') g"
  by (simp add: section_ok_def io_run settle_def stable_moves)

lemma path_ok_root: "graph_ok root g \<Longrightarrow> path_ok root g w [root]"
  by (simp add: path_ok_def graph_ok_def)

lemma path_ok_tl: "path_ok root g w (n # m # ps) \<Longrightarrow> path_ok root g w (m # ps)"
  using first_child_Cons [of "m # ps" n] walk_tl [of root g n m ps] by (auto simp: path_ok_def)

lemma path_ok_push:
  assumes ok: "path_ok root g w path" and len: "length path \<ge> 2" and n: "concerns g w n" "n \<in> set (g_nodes g)"
    and walk: "walk root g (n # path)"
  shows "path_ok root g w (n # path)"
  using assms first_child_Cons [OF len, of n] by (auto simp: path_ok_def butlast.simps)

lemma down_branch:
  assumes "graph_ok root g" and "walk root g (n # m # ps)" and "m \<in> set (setup_nodes g n)"
  shows "down_path root g (n # m # ps)"
proof -
  have "m \<notin> set (cleanup_nodes g n)"
  proof
    assume "m \<in> set (cleanup_nodes g n)"
    then have "(n, m) \<in> depends g" using graph_ok_edge(1) [OF assms(1)] by (simp add: depends_def)
    moreover have "(m, n) \<in> depends g" using assms(3) by (simp add: depends_def)
    ultimately show False using graph_ok_edge(3) [OF assms(1), of n m] by blast
  qed
  then show ?thesis using assms(2,3) by simp
qed

text \<open>Dropping the end of a path that only goes down leaves the first node undropped.\<close>

lemma path_ok_drop_children:
  assumes ok: "graph_ok root g" and path: "path_ok root g w (n # m # ps)" and down: "down_path root g (n # m # ps)"
    and run: "forM (\<lambda>p. drop_child p n w) (setup_nodes g n) g = (r, g')"
  shows "path_ok root g' w (m # ps)"
proof -
  note drops = drop_children_drops [OF run]
  have shape: "drops w g g'" using drops by blast
  have tl: "path_ok root g w (m # ps)" using path by (rule path_ok_tl)
  have "\<not> has_dropped_child g' w root (first_child (m # ps))" if len: "length (m # ps) \<ge> 2"
  proof
    let ?d = "first_child (m # ps)"
    assume "has_dropped_child g' w root ?d"
    then have "w \<in> get_workers (dropped_cleanup (g_edges g' (n_edges (g_node g root)))) (Some (node_key g ?d))"
      using shape by (simp add: has_dropped_child_def drops_shape [OF shape]) (simp add: drops_def)
    moreover have "\<not> has_dropped_child g w root ?d" using tl len by (simp add: path_ok_def)
    ultimately have key: "node_key g ?d = node_key g n" using drops unfolding has_dropped_child_def by blast
    have d: "?d \<in> set (butlast (m # ps))" using len by (rule first_child_in)
    then have "concerns g w ?d" "?d \<in> set (m # ps)"
      using tl in_set_butlastD unfolding path_ok_def by fast+
    moreover have "concerns g w n" "n \<in> set (g_nodes g)" "set (m # ps) \<subseteq> set (g_nodes g)"
      using path by (simp_all add: path_ok_def)
    ultimately have same: "?d = n" using ok key unfolding graph_ok_def by blast
    have "(n, n) \<in> (depends g)\<^sup>+"
      using down_path_above [OF down] \<open>?d \<in> set (m # ps)\<close> unfolding same by blast
    then show False using ok by (simp add: graph_ok_def acyclic_def)
  qed
  moreover have "walk root g' (m # ps)"
    using tl walk_mono [of root g "m # ps" g'] drops_moves [OF shape] by (simp add: path_ok_def moves_def)
  moreover have "set (m # ps) \<subseteq> set (g_nodes g')"
    using tl shape unfolding path_ok_def drops_def by simp
  moreover have "\<forall>k \<in> set (butlast (m # ps)). concerns g' w k"
    using tl unfolding path_ok_def drops_shape [OF shape] by blast
  moreover have "length (m # ps) \<ge> 2 \<longrightarrow> first_child (m # ps) \<in> set (cleanup_nodes g' root)"
    using tl unfolding path_ok_def drops_shape [OF shape] by blast
  ultimately show ?thesis unfolding path_ok_def by blast
qed

lemma looping_ok: "path_ok root g w path \<Longrightarrow> walker_ok root g w (wk\<lparr>w_path := path, w_pc := Looping\<rparr>)"
  by (simp add: walker_ok_def)

lemma after_up_ok:
  assumes ok: "sound root g" and path: "path_ok root g w (w_path wk)" "w_path wk = n # previous # ps"
    and finished: "n_finished (g_node g n) \<noteq> None"
  shows "section_ok root w wk (after_up job w wk n previous) g"
  unfolding after_up_def
proof (rule section_calm [OF calm_should_run ordinary_should_run ok])
  fix run g1
  assume calm: "calm g g1" and ok1: "sound root g1"
  obtain r g2 where run2: "(if \<not> run then drop_parent previous n w else retM ()) g1 = (r, g2)" by fastforce
  have drops: "drops w g1 g2 \<and> (\<forall>a. dropped_cleanup (g_edges g2 a) = dropped_cleanup (g_edges g1 a))"
    using run2 drop_parent_drops by (auto simp: io_run split: if_splits)
  then have shape: "drops w g1 g2" by blast
  have ord: "ordinary r"
  proof -
    have "ordinary_io (if \<not> run then drop_parent previous n w else retM ())" by (intro ordinary_intros)
    then show ?thesis using run2 unfolding ordinary_io_def by (metis fst_conv)
  qed
  have "path_ok root g1 w (previous # ps)"
    using path_ok_calm [OF calm soundD [OF ok] path(1)] path(2) path_ok_tl by simp
  then have tl2: "path_ok root g2 w (previous # ps)"
    by (rule path_ok_stable)
       (use soundD [OF ok1] drops drops_moves [OF shape] in \<open>auto simp: graph_ok_def moves_def drops_def\<close>)
  have "n \<in> set (g_nodes g1)" "concerns g1 w n"
    using path_ok_calm [OF calm soundD [OF ok] path(1)] path(2) by (simp_all add: path_ok_def)
  then have ok2: "sound root g2"
    using run2 ok1 sound_drop_parent [OF ok1 _ _ _ calm_finished [OF calm finished]] by (auto simp: io_run split: if_splits)
  show "section_ok root w wk (thenM (if \<not> run then drop_parent previous n w else retM ())
      (retM (wk\<lparr>w_path := tl (w_path wk), w_pc := Looping\<rparr>))) g1"
    unfolding thenM_def
    by (rule section_bind [where m = "if \<not> run then drop_parent previous n w else retM ()" and ?g1.0 = g2 and r = r])
       (use run2 ok2 drops_moves [OF shape] ord in
         \<open>simp_all add: section_ret path(2) looping_ok tl2\<close>)
qed

lemma after_down_ok:
  assumes ok: "sound root g" and path: "path_ok root g w (w_path wk)" "w_path wk = n # previous # ps"
    and prev: "previous \<in> set (setup_nodes g n)"
  shows "section_ok root w wk (after_down job root w wk n unexplored) g"
  unfolding after_down_def
proof (rule section_calm [OF calm_should_run ordinary_should_run ok])
  fix run g1
  assume calm: "calm g g1" and ok1: "sound root g1"
  have path1: "path_ok root g1 w (n # previous # ps)" using path_ok_calm [OF calm soundD [OF ok] path(1)] path(2) by simp
  have prev1: "previous \<in> set (setup_nodes g1 n)" using prev calm_shape(5) [OF calm] by simp
  have down: "down_path root g1 (n # previous # ps)"
    by (rule down_branch [OF soundD [OF ok1] _ prev1]) (use path1 in \<open>simp add: path_ok_def\<close>)
  let ?drop = "forM (\<lambda>setup. drop_child setup n w) (setup_nodes g1 n)"
  obtain r g2 where run2: "?drop g1 = (r, g2)" by fastforce
  have shape: "drops w g1 g2" using drop_children_drops [OF run2] by blast
  have ok2: "sound root g2" using sound_drops [OF shape _ ok1] drop_children_drops [OF run2] by blast
  have ord: "ordinary r"
  proof -
    have "ordinary_io ?drop" by (intro ordinary_intros)
    then show ?thesis using run2 unfolding ordinary_io_def by (metis fst_conv)
  qed
  have tl2: "path_ok root g2 w (previous # ps)"
    by (rule path_ok_drop_children [OF soundD [OF ok1] path1 down run2])
  have popped: "section_ok root w wk (thenM (reverse_node job n w)
      (retM (wk\<lparr>w_path := tl (w_path wk), w_pc := Looping\<rparr>))) g2"
    unfolding thenM_def
    by (rule section_calm [OF calm_reverse ordinary_reverse ok2])
       (simp add: path(2) section_ret looping_ok path_ok_calm [OF _ soundD [OF ok2] tl2])
  have dropped: "section_ok root w wk (thenM ?drop (thenM (reverse_node job n w)
      (retM (wk\<lparr>w_path := tl (w_path wk), w_pc := Looping\<rparr>)))) g1"
    unfolding thenM_def [of ?drop]
    by (rule section_bind [where m = ?drop and ?g1.0 = g2 and r = r, OF run2 ok2 drops_moves [OF shape] ord])
       (rule popped)
  show "section_ok root w wk (if run then retM (wk\<lparr>w_path := tl (w_path wk), w_pc := Looping\<rparr>)
      else bindM (getM id) (\<lambda>g.
        if is_cleanup_ready g n w then
          thenM (liftM (report_progress g))
            (if \<not> is_flat g n \<and> unexplored then retM (wk\<lparr>w_path := [root], w_pc := Looping\<rparr>)
             else thenM (forM (\<lambda>setup. drop_child setup n w) (setup_nodes g n))
                    (thenM (reverse_node job n w) (retM (wk\<lparr>w_path := tl (w_path wk), w_pc := Looping\<rparr>))))
        else bindM (pick_child n w) (\<lambda>c. retM (wk\<lparr>w_path := c # w_path wk, w_pc := Looping\<rparr>)))) g1"
  proof (cases run)
    case True
    then show ?thesis using path_ok_tl [OF path1] ok1 by (simp add: path(2) section_ret looping_ok)
  next
    case False
    have "section_ok root w wk (if is_cleanup_ready g1 n w then
          thenM (liftM (report_progress g1))
            (if \<not> is_flat g1 n \<and> unexplored then retM (wk\<lparr>w_path := [root], w_pc := Looping\<rparr>)
             else thenM ?drop
                    (thenM (reverse_node job n w) (retM (wk\<lparr>w_path := tl (w_path wk), w_pc := Looping\<rparr>))))
        else bindM (pick_child n w) (\<lambda>c. retM (wk\<lparr>w_path := c # w_path wk, w_pc := Looping\<rparr>))) g1"
    proof (cases "is_cleanup_ready g1 n w")
      case True
      then show ?thesis unfolding thenM_def [of "liftM _"]
        using dropped path_ok_root [OF soundD [OF ok1]]
        by (auto intro!: section_lift ordinary_report ok1 section_ret looping_ok)
    next
      case notready: False
      then obtain c where pick: "pick_child n w g1 = (Inr c, visit_child_pick n w g1 c)"
        and c: "c \<in> set (cleanup_nodes g1 n)" "concerns g1 w c" using pickable(2) [OF soundD [OF ok1]] by blast
      have edge: "n \<in> set (setup_nodes g1 c)" using c(1) graph_ok_edge(1) [OF soundD [OF ok1]] by simp
      have "path_ok root g1 w (c # n # previous # ps)"
      proof (rule path_ok_push [OF path1 _ c(2)])
        show "c \<in> set (g_nodes g1)" using graph_ok_edge(2) [OF soundD [OF ok1] edge] by simp
        show "walk root g1 (c # n # previous # ps)" using edge down by simp
      qed simp
      note pushed = path_ok_calm [OF calm_visits(2) soundD [OF ok1] this]
      have okv: "sound root (visit_child_pick n w g1 c)" by (rule sound_calm [OF calm_visits(2) ok1])
      show ?thesis
        unfolding if_not_P [OF notready]
        by (rule section_bind [where m = "pick_child n w" and ?g1.0 = "visit_child_pick n w g1 c" and r = "Inr c"])
           (simp_all add: pick okv stable_moves [OF calm_stable [OF calm_visits(2)]]
            section_ret [OF okv] looping_ok path(2) pushed)
    qed
    then show ?thesis unfolding if_not_P [OF False] by (rule section_graph)
  qed
qed


section \<open>How a visit ends\<close>

definition waits_for :: "nid \<Rightarrow> direction \<Rightarrow> pc \<Rightarrow> bool" where
  "waits_for n dir pc \<longleftrightarrow> (case pc of
     Installing m d \<Rightarrow> m = n \<and> d = dir
   | Running m d original \<Rightarrow> m = n \<and> d = dir \<and> CHR 0x0A \<notin> set original
   | _ \<Rightarrow> False)"

text \<open>A visit either leaves the worker waiting for the node or the node finished.\<close>

definition visited :: "nid \<Rightarrow> direction \<Rightarrow> (tgraph, pc option) io \<Rightarrow> bool" where
  "visited n dir m \<longleftrightarrow> (\<forall>g x g'. plain_node (g_node g n) \<and> m g = (Inr x, g') \<longrightarrow> (case x of
     None \<Rightarrow> n_finished (g_node g' n) \<noteq> None | Some pc \<Rightarrow> waits_for n dir pc))"

lemma visited_bind:
  assumes calm: "calm_io m" and rest: "\<And>x. visited n dir (f x)"
  shows "visited n dir (bindM m f)"
  unfolding visited_def
proof (intro allI impI, elim conjE)
  fix g x g' assume plain: "plain_node (g_node g n)" and run: "bindM m f g = (Inr x, g')"
  obtain y g1 where first: "m g = (Inr y, g1)" and second: "f y g1 = (Inr x, g')"
    using run by (auto simp: bindM_def split: prod.splits sum.splits)
  have "plain_node (g_node g1 n)"
    by (rule same_node_plain [OF _ plain]) (use calm_ioD [OF calm first] in \<open>simp add: calm_def\<close>)
  then show "case x of None \<Rightarrow> n_finished (g_node g' n) \<noteq> None | Some pc \<Rightarrow> waits_for n dir pc"
    using rest [of y] second unfolding visited_def by blast
qed

lemma visited_then: "calm_io m \<Longrightarrow> visited n dir k \<Longrightarrow> visited n dir (thenM m k)"
  unfolding thenM_def by (rule visited_bind)

lemma visited_if: "(c \<Longrightarrow> visited n dir x) \<Longrightarrow> (\<not> c \<Longrightarrow> visited n dir y) \<Longrightarrow> visited n dir (if c then x else y)"
  by simp

lemma visited_ends:
  "visited n dir (raiseM e)"
  "visited n dir (retM (Some (Installing n dir)))"
  "visited n dir (thenM (finish_node n w) (retM None))"
  "visited n dir (bindM (run_test_begin n) (\<lambda>original. retM (Some (Running n dir original))))"
  by (auto simp: visited_def waits_for_def io_run finish_node_def run_test_begin_def plain_node_def
      thenM_def bindM_def Let_def split: prod.splits sum.splits if_splits)

lemma visited_resumed:
  "CHR 0x0A \<notin> set original \<Longrightarrow> visited n dir (run_end n original w result)"
  "visited n dir (install_end dir n w result)"
  unfolding run_end_def install_end_def Let_def
  by (auto intro!: visited_bind visited_then visited_ends visited_if calm_intros
      simp: same_node_def same_naming_set split: outcome.splits)

lemma visited_traverse:
  assumes plain: "plain_node (g_node g n)" and free: "is_occupied g n (Some w) = Inr False"
    and run: "traverse_begin job dir n w g = (Inr x, g')"
  shows "case x of None \<Rightarrow> n_finished (g_node g' n) \<noteq> None | Some pc \<Rightarrow> waits_for n dir pc"
proof -
  let ?rest = "thenM (modifyM (upd_node n (\<lambda>nd. nd\<lparr>n_started := Some w\<rparr>)))
         (thenM (if n_results (g_node g n) = []
                 then bindM (liftM (matching_results (node_key g n) (j_previous job))) (\<lambda>rs.
                        modifyM (upd_node n (\<lambda>nd. nd\<lparr>n_results := rs\<rparr>)))
                 else retM ())
         (thenM (pull_locations n)
         (bindM (should_run (j_surroundings job) n w) (\<lambda>run.
           if \<not> run then thenM (finish_node n w) (retM None)
           else if is_object_root g n
             then bindM (getM id) (\<lambda>g. thenM (liftM (j_terminal job g n w)) (retM (Some (Installing n dir))))
             else bindM (run_test_begin n) (\<lambda>original. retM (Some (Running n dir original)))))))"
  have "visited n dir ?rest"
    by (intro visited_bind visited_then visited_ends visited_if calm_intros) (simp_all add: same_node_def)
  moreover have "?rest g = (Inr x, g')"
    using run free by (simp add: traverse_begin_def bindM_def io_run)
  ultimately show ?thesis using plain unfolding visited_def by blast
qed

lemma at_node_calm: "calm g g' \<Longrightarrow> at_node g n dir path \<Longrightarrow> at_node g' n dir path"
  unfolding at_node_def using calm_shape(5,6) [of g g' n] by (cases dir) simp_all

lemma waiting_ok:
  assumes "path_ok root g w (w_path wk)" and "at_node g n dir (w_path wk)" and "waits_for n dir pc"
  shows "walker_ok root g w (wk\<lparr>w_pc := pc\<rparr>)"
  using assms by (auto simp: walker_ok_def waits_for_def split: pc.splits)

text \<open>What a worker does after a visit, whether the visit waits or not.\<close>

lemma continue_ok:
  assumes ok: "sound root g" and path: "path_ok root g w (w_path wk)" "w_path wk = n # previous # ps"
    and at: "at_node g n dir (w_path wk)"
    and ended: "case x of None \<Rightarrow> n_finished (g_node g n) \<noteq> None | Some pc \<Rightarrow> waits_for n dir pc"
  shows "section_ok root w wk (continue job root w wk n previous dir x) g"
proof (cases x)
  case None
  then have finished: "n_finished (g_node g n) \<noteq> None" using ended by simp
  show ?thesis
  proof (cases dir)
    case Up
    then show ?thesis using None after_up_ok [OF ok path finished] by (simp add: continue_def after_traverse_def)
  next
    case (Down unexplored)
    then have "previous \<in> set (setup_nodes g n)" using at path(2) by (simp add: at_node_def)
    then show ?thesis using None Down after_down_ok [OF ok path] by (simp add: continue_def after_traverse_def)
  qed
next
  case (Some pc)
  then show ?thesis using ended waiting_ok [OF path(1) at] by (simp add: continue_def section_ret ok)
qed

text \<open>The invariant does not depend on the bookkeeping of the worker whose section fails.\<close>

lemma section_other_walker:
  "section_ok root w wk m g \<Longrightarrow> section_ok root w wk' m g"
  by (auto simp: section_ok_def settle_def walker_ok_def split: prod.splits sum.splits)

lemma resume_section_ok:
  assumes ok: "sound root g" and walker: "walker_ok root g w wk"
    and ends: "\<And>e. result = TaskRaises e \<Longrightarrow> e \<notin> path_errors"
  shows "section_ok root w wk (resume_section job root w wk result) g"
proof -
  have resumed: "section_ok root w wk (bindM m (continue job root w wk n previous dir)) g"
    if calm: "calm_io m" and ord: "ordinary_io m" and vis: "visited n dir m" and path: "path_ok root g w (w_path wk)"
      and at: "at_node g n dir (w_path wk)" and shape: "w_path wk = n # previous # ps"
    for m n dir previous ps
  proof (rule section_calm [OF calm ord ok])
    fix x g1 assume run: "m g = (Inr x, g1)" and c: "calm g g1" and ok1: "sound root g1"
    have "n \<in> set (g_nodes g)" using path shape by (simp add: path_ok_def)
    then have plain: "plain_node (g_node g n)" using soundD [OF ok] by (simp add: graph_ok_def)
    then have "case x of None \<Rightarrow> n_finished (g_node g1 n) \<noteq> None | Some pc \<Rightarrow> waits_for n dir pc"
      using vis run unfolding visited_def by blast
    then show "section_ok root w wk (continue job root w wk n previous dir x) g1"
      by (rule continue_ok [OF ok1 path_ok_calm [OF c soundD [OF ok] path] shape at_node_calm [OF c at]])
  qed
  show ?thesis
  proof (cases "w_pc wk")
    case (Installing n dir)
    then have w: "path_ok root g w (w_path wk)" "at_node g n dir (w_path wk)"
      using walker by (simp_all add: walker_ok_def)
    then obtain previous ps where shape: "w_path wk = n # previous # ps" by (auto simp: at_node_def)
    show ?thesis
      using resumed [OF calm_ends(2) ordinary_ends(2) [OF ends] visited_resumed(2) w shape] Installing shape
      by (simp add: resume_section_def)
  next
    case (Running n dir original)
    then have w: "path_ok root g w (w_path wk)" "at_node g n dir (w_path wk)" and no: "CHR 0x0A \<notin> set original"
      using walker by (simp_all add: walker_ok_def)
    then obtain previous ps where shape: "w_path wk = n # previous # ps" by (auto simp: at_node_def)
    show ?thesis
      using resumed [OF calm_ends(1) [OF no] ordinary_ends(1) [OF ends] visited_resumed(1) [OF no] w shape] Running shape
      by (simp add: resume_section_def)
  qed (use walker ok in \<open>simp_all add: resume_section_def section_ret\<close>)
qed

section \<open>A round of the loop\<close>

lemma step_back_path:
  assumes "step_back root n wk g = (Inr wk', g')"
  shows "w_path wk' = [root] \<and> w_pc wk' = Looping"
  using assms by (auto simp: step_back_def Let_def bindM_def thenM_def io_run split: sum.splits prod.splits)

lemma walk_edge: "walk root g (n # m # ps) \<Longrightarrow> m \<in> set (setup_nodes g n) \<or> m \<in> set (cleanup_nodes g n)"
  by auto

lemma is_occupied_value:
  assumes "liftM (is_occupied g n w) g = (Inr b, g1)"
  shows "is_occupied g n w = Inr b \<and> g1 = g"
  using assms by (auto simp: io_run)

lemma visit_ok:
  assumes ok: "sound root g" and path: "path_ok root g w (w_path wk)" "w_path wk = n # previous # ps"
    and len: "length (w_path wk) \<ge> 2"
    and free: "is_occupied g n (Some w) = Inr False"
    and terminal: "\<And>g n w. ordinary (j_terminal job g n w)"
  shows "section_ok root w wk (visit job root w wk n previous unexplored) g"
proof -
  let ?dir = "if previous \<in> set (cleanup_nodes g n) then Up else Down unexplored"
  have walk: "walk root g (n # previous # ps)" using path by (simp add: path_ok_def)
  have edge: "previous \<in> set (setup_nodes g n) \<or> previous \<in> set (cleanup_nodes g n)" by (rule walk_edge [OF walk])
  have at: "at_node g n ?dir (w_path wk)"
    using edge path(2) by (cases "previous \<in> set (cleanup_nodes g n)") (simp_all add: at_node_def)
  have plain: "plain_node (g_node g n)" using soundD [OF ok] path by (simp add: path_ok_def graph_ok_def)
  have "section_ok root w wk (if \<not> is_setup_ready g n w
      then bindM (pick_parent n w) (\<lambda>p. retM (wk\<lparr>w_path := p # w_path wk, w_pc := Looping\<rparr>))
      else bindM (traverse_begin job ?dir n w) (continue job root w wk n previous ?dir)) g"
  proof (cases "is_setup_ready g n w")
    case True
    have "section_ok root w wk (bindM (traverse_begin job ?dir n w) (continue job root w wk n previous ?dir)) g"
    proof (rule section_calm [OF calm_traverse ordinary_traverse [OF terminal] ok])
      fix x g1 assume run: "traverse_begin job ?dir n w g = (Inr x, g1)" and calm: "calm g g1" and ok1: "sound root g1"
      show "section_ok root w wk (continue job root w wk n previous ?dir x) g1"
        by (rule continue_ok [OF ok1 path_ok_calm [OF calm soundD [OF ok] path(1)] path(2)
              at_node_calm [OF calm at] visited_traverse [OF plain free run]])
    qed
    then show ?thesis using True by simp
  next
    case False
    then obtain p where pick: "pick_parent n w g = (Inr p, visit_parent_pick n w g p)"
      and p: "p \<in> set (setup_nodes g n)" "concerns g w p" using pickable(1) [OF soundD [OF ok]] by blast
    have up: "n \<in> set (cleanup_nodes g p)" using p(1) graph_ok_edge(1) [OF soundD [OF ok]] by simp
    have "path_ok root g w (p # n # previous # ps)"
    proof (rule path_ok_push [OF _ _ p(2)])
      show "path_ok root g w (n # previous # ps)" using path by simp
      show "p \<in> set (g_nodes g)" using graph_ok_edge(2) [OF soundD [OF ok] p(1)] by simp
      show "walk root g (p # n # previous # ps)" using up walk by simp
    qed simp
    note pushed = path_ok_calm [OF calm_visits(1) soundD [OF ok] this]
    have okv: "sound root (visit_parent_pick n w g p)" by (rule sound_calm [OF calm_visits(1) ok])
    have "section_ok root w wk (bindM (pick_parent n w) (\<lambda>p. retM (wk\<lparr>w_path := p # w_path wk, w_pc := Looping\<rparr>))) g"
      by (rule section_bind [where m = "pick_parent n w" and ?g1.0 = "visit_parent_pick n w g p" and r = "Inr p"])
         (simp_all add: pick okv stable_moves [OF calm_stable [OF calm_visits(1)]]
            section_ret [OF okv] looping_ok path(2) pushed)
    then show ?thesis using False by simp
  qed
  moreover have "\<not> (previous \<notin> set (cleanup_nodes g n) \<and> previous \<notin> set (setup_nodes g n))" using edge by blast
  ultimately show ?thesis unfolding visit_def Let_def
    by (intro section_graph) (simp only: if_False)
qed

lemma parse_effect:
  assumes wb: "well_behaved root job" and ok: "sound root g"
    and run: "parse_if_needed job n w unexplored g = (r, g')"
  shows "sound root g' \<and> stable g g' \<and> ordinary r"
proof -
  have parser: "sound root h \<and> stable g h \<and> ordinary q" if "j_parse job n w g = (q, h)" for q h
    using wb soundD [OF ok] that accounted_parsed ok unfolding well_behaved_def sound_def by blast
  have same: "sound root g \<and> stable g g" using ok by simp
  have ord: "ordinary (is_unrolled g n (Some w))" "ordinary (should_parse g n)" by (intro ordinary_intros)+
  show ?thesis
    using run parser same ord
    by (auto simp: parse_if_needed_def bindM_def io_run ordinary_def split: if_splits sum.splits)
qed

lemma path_ok_moved:
  assumes "stable g g'" and "graph_ok root g" and "path_ok root g w path"
  shows "path_ok root g' w path"
  by (rule path_ok_stable [OF assms(3)]) (use assms in \<open>simp_all add: stable_def graph_ok_def\<close>)

lemma loop_section_ok:
  assumes wb: "well_behaved root job" and ok: "sound root g" and path: "path_ok root g w (w_path wk)"
  shows "section_ok root w wk (loop_section job root w wk) g"
proof (cases "is_cleanup_ready g root w")
  case True
  have "w_path wk = [root]"
  proof (rule ccontr)
    assume "w_path wk \<noteq> [root]"
    then have "length (w_path wk) \<ge> 2"
      using path walk_root [of root g "w_path wk"] unfolding path_ok_def
      by (cases "w_path wk"; cases "tl (w_path wk)") auto
    then have c: "first_child (w_path wk) \<in> set (cleanup_nodes g root)"
      "\<not> has_dropped_child g w root (first_child (w_path wk))" "concerns g w (first_child (w_path wk))"
      using path first_child_in unfolding path_ok_def by blast+
    then show False using True by (auto simp: is_cleanup_ready_def list_all_iff)
  qed
  then show ?thesis unfolding loop_section_def
    by (intro section_graph) (simp add: True section_ret [OF ok] walker_ok_def)
next
  case notready: False
  consider (nil) "w_path wk = []" | (single) n where "w_path wk = [n]"
    | (long) n previous ps where "w_path wk = n # previous # ps"
    by (metis list.exhaust)
  then show ?thesis
  proof cases
    case nil
    then show ?thesis using path by (simp add: path_ok_def)
  next
    case (single n)
    then have shape: "w_path wk = [root]" using path by (simp add: path_ok_def)
    obtain c where pick: "pick_child root w g = (Inr c, visit_child_pick root w g c)"
      and c: "c \<in> set (cleanup_nodes g root)" "concerns g w c" "\<not> has_dropped_child g w root c"
      using pickable(2) [OF soundD [OF ok] notready] by blast
    have edge: "root \<in> set (setup_nodes g c)" using c(1) graph_ok_edge(1) [OF soundD [OF ok]] by simp
    then have "path_ok root g w [c, root]"
      using c path shape graph_ok_edge(2) [OF soundD [OF ok] edge] by (simp add: path_ok_def first_child_def)
    note pushed = path_ok_calm [OF calm_visits(2) soundD [OF ok] this]
    have okv: "sound root (visit_child_pick root w g c)" by (rule sound_calm [OF calm_visits(2) ok])
    have "section_ok root w wk (bindM (pick_child root w) (\<lambda>c. retM (wk\<lparr>w_path := [c, root], w_pc := Looping\<rparr>))) g"
      by (rule section_bind [where m = "pick_child root w" and ?g1.0 = "visit_child_pick root w g c" and r = "Inr c"])
         (simp_all add: pick okv stable_moves [OF calm_stable [OF calm_visits(2)]]
            section_ret [OF okv] looping_ok pushed)
    then show ?thesis unfolding loop_section_def
      by (intro section_graph) (simp add: notready shape)
  next
    case shape: (long n previous ps)
    have body: "section_ok root w wk (bindM (getM id) (\<lambda>g. bindM (liftM (is_occupied g n (Some w))) (\<lambda>occupied.
        if occupied then step_back root n wk
        else visit job root w (wk\<lparr>w_occupied_at := removeAll n (w_occupied_at wk)\<rparr>) n previous u))) g1"
      if ok1: "sound root g1" and path1: "path_ok root g1 w (w_path wk)" for g1 u
    proof (rule section_graph, rule section_lift)
      fix occupied assume occ: "is_occupied g1 n (Some w) = Inr occupied"
      show "section_ok root w wk (if occupied then step_back root n wk
          else visit job root w (wk\<lparr>w_occupied_at := removeAll n (w_occupied_at wk)\<rparr>) n previous u) g1"
      proof (cases occupied)
        case True
        have "section_ok root w wk (bindM (step_back root n wk) retM) g1"
        proof (rule section_calm [OF calm_step_back ordinary_step_back ok1])
          fix wk' g2 assume run: "step_back root n wk g1 = (Inr wk', g2)" and ok2: "sound root g2"
          show "section_ok root w wk (retM wk') g2"
            using step_back_path [OF run] path_ok_root [OF soundD [OF ok2]]
            by (intro section_ret ok2) (simp add: walker_ok_def)
        qed
        moreover have "bindM (step_back root n wk) retM = step_back root n wk"
          by (auto simp: bindM_def io_run fun_eq_iff split: prod.splits sum.splits)
        ultimately show ?thesis using True by simp
      next
        case False
        let ?wk = "wk\<lparr>w_occupied_at := removeAll n (w_occupied_at wk)\<rparr>"
        have "section_ok root w ?wk (visit job root w ?wk n previous u) g1"
          by (rule visit_ok [OF ok1]) (use path1 shape occ False wb in \<open>simp_all add: well_behaved_def\<close>)
        then show ?thesis unfolding if_not_P [OF False] by (rule section_other_walker)
      qed
    qed (intro ordinary_intros ok1)+
    have "section_ok root w wk (bindM (liftM (unexplored_nodes g)) (\<lambda>unexplored.
        thenM (parse_if_needed job n w (unexplored \<noteq> []))
        (bindM (getM id) (\<lambda>g. bindM (liftM (is_occupied g n (Some w))) (\<lambda>occupied.
        if occupied then step_back root n wk
        else visit job root w (wk\<lparr>w_occupied_at := removeAll n (w_occupied_at wk)\<rparr>) n previous (unexplored \<noteq> [])))))) g"
    proof (rule section_lift [OF ordinary_unexplored ok], unfold thenM_def)
      fix us :: "nid list"
      obtain r g1 where parse: "parse_if_needed job n w (us \<noteq> []) g = (r, g1)" by fastforce
      note eff = parse_effect [OF wb ok parse]
      show "section_ok root w wk (bindM (parse_if_needed job n w (us \<noteq> [])) (\<lambda>_.
        bindM (getM id) (\<lambda>g. bindM (liftM (is_occupied g n (Some w))) (\<lambda>occupied.
        if occupied then step_back root n wk
        else visit job root w (wk\<lparr>w_occupied_at := removeAll n (w_occupied_at wk)\<rparr>) n previous (us \<noteq> []))))) g"
        by (rule section_bind [where m = "parse_if_needed job n w (us \<noteq> [])" and ?g1.0 = g1 and r = r])
           (use eff parse body path_ok_moved [OF _ soundD [OF ok] path] in \<open>simp_all add: stable_moves\<close>)
    qed
    then show ?thesis unfolding loop_section_def
      by (intro section_graph) (simp add: notready shape)
  qed
qed

end
