(* ===== verification/TraversalReach.thy ===== *)
theory TraversalReach
  imports TraversalInvariant
begin

text \<open>
  What holds in every reachable state of the traversal, for any number of workers in any
  interleaving, and a run of one worker on a small graph.
\<close>


section \<open>Reachable states\<close>

text \<open>A graph at the beginning: well-formed, and nothing is dropped as a parent.\<close>

definition start_ok :: "nid \<Rightarrow> tgraph \<Rightarrow> bool" where
  "start_ok root g \<longleftrightarrow> graph_ok root g \<and> (\<forall>n \<in> set (g_nodes g). dropped_setup (edges_of g n) = [])"

definition system_ok :: "nid \<Rightarrow> system \<Rightarrow> bool" where
  "system_ok root s \<longleftrightarrow> sound root (s_graph s) \<and> (\<forall>w. walker_ok root (s_graph s) w (s_walker s w))"

lemma start_sound: "start_ok root g \<Longrightarrow> sound root g"
  by (simp add: start_ok_def sound_def accounted_def workers_of_key dict_get_def dict_keys_def)

lemma act_ok:
  assumes ok: "system_ok root s" and sec: "section_ok root w (s_walker s w) (m (s_walker s w)) (s_graph s)"
  shows "system_ok root (act w m s)"
proof -
  obtain r g' where run: "m (s_walker s w) (s_graph s) = (r, g')" by fastforce
  have new: "sound root g'" "moves w (s_graph s) g'" "walker_ok root g' w (settle (s_walker s w) r)"
    using sec run by (simp_all add: section_ok_def)
  have "walker_ok root g' v (s_walker s v)" if "v \<noteq> w" for v
    using walker_ok_other [OF _ _ new(2)] ok that by (simp add: system_ok_def sound_def)
  then show ?thesis using new run by (simp add: system_ok_def act_def)
qed

lemma step_ok:
  assumes wb: "well_behaved root job" and ok: "system_ok root s" and step: "step job root s w t"
  shows "system_ok root t"
  using step
proof cases
  case turn
  have inv: "sound root (s_graph s)" "walker_ok root (s_graph s) w (s_walker s w)" using ok by (simp_all add: system_ok_def)
  then have path: "path_ok root (s_graph s) w (w_path (s_walker s w))" using turn(2) by (simp add: walker_ok_def)
  show ?thesis unfolding turn(1) by (rule act_ok [OF ok, where m = "loop_section job root w"]) (rule loop_section_ok [OF wb inv(1) path])
next
  case (resume result)
  have inv: "sound root (s_graph s)" "walker_ok root (s_graph s) w (s_walker s w)" using ok by (simp_all add: system_ok_def)
  show ?thesis unfolding resume(1) by (rule act_ok [OF ok, where m = "\<lambda>wk. resume_section job root w wk result"]) (rule resume_section_ok [OF inv resume(3)])
qed

lemma reachable_ok:
  assumes "start_ok root g" and "well_behaved root job" and "reachable job root g s"
  shows "system_ok root s"
  using assms(3)
proof induction
  case start
  then show ?case using start_sound [OF assms(1)] path_ok_root assms(1)
    by (simp add: system_ok_def start_system_def start_walker_def walker_ok_def start_ok_def)
next
  case (move s w t)
  then show ?case using step_ok [OF assms(2)] by blast
qed

section \<open>Beginning a test\<close>

lemma after_traverse_loops:
  assumes "after_traverse job root w wk n previous dir g = (Inr wk', g')"
  shows "w_pc wk' = Looping"
proof (cases dir)
  case Up
  then show ?thesis using assms
    by (auto simp: after_traverse_def after_up_def thenM_def bindM_def io_run split: prod.splits sum.splits if_splits)
next
  case (Down u)
  then show ?thesis using assms
    by (auto simp: after_traverse_def after_down_def thenM_def bindM_def io_run split: prod.splits sum.splits if_splits)
qed

lemma continue_waits:
  assumes "continue job root w wk n previous dir x g = (Inr wk', g')" and "waits (w_pc wk')"
  shows "g' = g \<and> w_path wk' = w_path wk"
proof (cases x)
  case None
  then have "w_pc wk' = Looping" using assms(1) after_traverse_loops by (simp add: continue_def)
  then show ?thesis using assms(2) by (simp add: waits_def)
next
  case (Some pc)
  then show ?thesis using assms(1) by (auto simp: continue_def io_run)
qed

lemma visit_waits:
  assumes run: "visit job root w wk n previous unexplored g = (Inr wk', g')" and waits: "waits (w_pc wk')"
  shows "is_setup_ready g' n w \<and> w_path wk' = w_path wk"
proof -
  let ?dir = "if previous \<in> set (cleanup_nodes g n) then Up else Down unexplored"
  have ready: "is_setup_ready g n w"
  proof (rule ccontr)
    assume "\<not> is_setup_ready g n w"
    then have "w_pc wk' = Looping" using run
      by (auto simp: visit_def Let_def bindM_def io_run split: prod.splits sum.splits if_splits)
    then show False using waits by (simp add: waits_def)
  qed
  then have "bindM (traverse_begin job ?dir n w) (continue job root w wk n previous ?dir) g = (Inr wk', g')"
    using run by (auto simp: visit_def Let_def bindM_def [of "getM _"] io_run split: if_splits)
  then obtain x g1 where trav: "traverse_begin job ?dir n w g = (Inr x, g1)"
    and cont: "continue job root w wk n previous ?dir x g1 = (Inr wk', g')"
    by (auto simp: bindM_def split: prod.splits sum.splits)
  have "g' = g1 \<and> w_path wk' = w_path wk" by (rule continue_waits [OF cont waits])
  then show ?thesis using ready calm_dropped(3) [OF calm_ioD [OF calm_traverse trav]] by simp
qed

lemma loop_section_waits:
  assumes run: "loop_section job root w wk g = (Inr wk', g')" and waits: "waits (w_pc wk')"
  shows "\<exists>n ps. w_path wk' = n # ps \<and> is_setup_ready g' n w"
proof -
  have no: "w_pc wk' \<noteq> Looping" "w_pc wk' \<noteq> Ended" using waits by (auto simp: waits_def)
  have notready: "\<not> is_cleanup_ready g root w"
    using run no by (auto simp: loop_section_def bindM_def io_run split: if_splits)
  consider (nil) "w_path wk = []" | (single) n where "w_path wk = [n]"
    | (long) n previous ps where "w_path wk = n # previous # ps"
    by (metis list.exhaust)
  then show ?thesis
  proof cases
    case nil
    then show ?thesis using run notready by (simp add: loop_section_def bindM_def io_run)
  next
    case single
    then show ?thesis using run notready no
      by (auto simp: loop_section_def bindM_def io_run split: prod.splits sum.splits)
  next
    case (long n previous ps)
    obtain us u g1 occupied where parse: "parse_if_needed job n w us g = (Inr u, g1)"
      and rest: "(if occupied then step_back root n wk
        else visit job root w (wk\<lparr>w_occupied_at := removeAll n (w_occupied_at wk)\<rparr>) n previous us) g1 = (Inr wk', g')"
      using run notready long
      by (auto simp: loop_section_def bindM_def thenM_def io_run split: prod.splits sum.splits)
    have "\<not> occupied" using rest step_back_path no(1) by (auto split: if_splits)
    then show ?thesis using rest visit_waits [OF _ waits] long by auto
  qed
qed

definition busy_with :: "nid \<Rightarrow> walker \<Rightarrow> bool" where
  "busy_with n wk \<longleftrightarrow> (case w_pc wk of Installing m _ \<Rightarrow> m = n | Running m _ _ \<Rightarrow> m = n | _ \<Rightarrow> False)"

lemma busy_waits: "waits (w_pc wk) \<longleftrightarrow> (\<exists>n. busy_with n wk)"
  by (auto simp: waits_def busy_with_def split: pc.splits)

lemma busy_path:
  "walker_ok root g w wk \<Longrightarrow> busy_with n wk \<Longrightarrow> \<exists>previous ps. w_path wk = n # previous # ps \<and> n \<in> set (g_nodes g)"
  by (auto simp: walker_ok_def busy_with_def at_node_def path_ok_def split: pc.splits)

section \<open>A run on a small graph\<close>

definition tutorial_root :: tnode where
  "tutorial_root = (example_tnode ''0'' ''all.internal.noop'' [] 0)\<lparr>n_should_run := Constant False,
     n_params := [(''shared_root'', ''yes'')], n_cleanup := [(1, [0])]\<rparr>"

definition tutorial_leaf :: tnode where
  "tutorial_leaf = (example_tnode ''1'' ''all.tutorial.vm1.net1'' [0] 1)\<lparr>n_setup := [(0, [0])]\<rparr>"

definition tutorial_graph :: tgraph where
  "tutorial_graph = example_graph\<lparr>g_nodes := [0, 1], g_node := (\<lambda>_. example_tnode [] [] [] 2)(0 := tutorial_root, 1 := tutorial_leaf)\<rparr>"

lemma tutorial_nodes [simp]:
  "g_nodes tutorial_graph = [0, 1]" "g_node tutorial_graph = (\<lambda>_. example_tnode [] [] [] 2)(0 := tutorial_root, 1 := tutorial_leaf)"
  "g_edges tutorial_graph = (\<lambda>_. example_edges)"
  by (simp_all add: tutorial_graph_def example_graph_def descend_from_node_def Let_def upd_node_def)

lemma tutorial_fields [simp]:
  "n_objects tutorial_root = []" "n_objects tutorial_leaf = [0]" "n_edges tutorial_root = 0" "n_edges tutorial_leaf = 1"
  "n_setup tutorial_root = []" "n_setup tutorial_leaf = [(0, [0])]"
  "n_cleanup tutorial_root = [(1, [0])]" "n_cleanup tutorial_leaf = []"
  "n_name tutorial_leaf = ''all.tutorial.vm1.net1''" "n_should_run tutorial_root = Constant False"
  "n_results tutorial_root = []" "n_results tutorial_leaf = []" "n_started tutorial_root = None"
  "n_started tutorial_leaf = None" "n_bridged tutorial_root = []" "n_bridged tutorial_leaf = []"
  "n_prefix tutorial_leaf = ''1''" "n_should_run tutorial_leaf = DefaultPolicy"
  by (simp_all add: tutorial_root_def tutorial_leaf_def example_tnode_def)


definition tutorial_job :: job where
  "tutorial_job = \<lparr>j_surroundings = \<lparr>check_states_remotely = (\<lambda>_ _. StatesMissing), skip_tests = []\<rparr>,
     j_previous = [], j_vms = None, j_all_vms = [''vm1''],
     j_parse = (\<lambda>_ _. retM ()), j_terminal = (\<lambda>_ _ _. Inr ())\<rparr>"

lemma tutorial_job_ok: "well_behaved 0 tutorial_job"
  by (auto simp: well_behaved_def tutorial_job_def io_run fresh_registers_def)

lemma tutorial_depends: "depends tutorial_graph = {(0, 1)}"
  by (auto simp: depends_def setup_nodes_def dict_keys_def example_tnode_def split: if_splits)

lemma tutorial_keys [simp]:
  "bridged_form tutorial_root = ''allinternal.noop''"
  "bridged_form tutorial_leaf = CHR 0x5C # ''.tutorial.vm1..+$''"
  by code_simp+

lemma tutorial_start: "start_ok 0 tutorial_graph"
proof -
  have sym: "edge_sym tutorial_graph" by (simp add: edge_sym_def example_tnode_def)
  have plain: "plain_node tutorial_root" "plain_node tutorial_leaf" by code_simp+
  have acyc: "acyclic {(0, 1 :: nat)}"
    by (rule wf_acyclic) (rule wf_subset [OF wf_less_than], simp)
  show ?thesis
    unfolding start_ok_def graph_ok_def tutorial_depends
    using sym plain acyc by (simp add: node_key_def example_edges_def)
qed

lemma tutorial_worker [simp]: "str_in ''net1'' ''all.tutorial.vm1.net1''"
  by code_simp

lemma tutorial_params [simp]:
  "n_params tutorial_root = [(''shared_root'', ''yes'')]"
  "get_numeric (n_params tutorial_leaf) ''max_tries'' 1 = Inr 1"
  "get_numeric (n_params tutorial_leaf) ''max_concurrent_tries'' 1 = Inr 1"
  "sharing_of tutorial_leaf (Some ''net1'') = Inr Globally"
  "get_boolean [(''shared_root'', ''yes'')] ''shared_root'' False = Inr True"
  "get_numeric [(''shared_root'', ''yes'')] ''max_tries'' 1 = Inr 1"
  "get_numeric [(''shared_root'', ''yes'')] ''max_concurrent_tries'' 1 = Inr 1"
  by (simp add: tutorial_root_def, code_simp+)

lemma sort_single [simp]: "sort_nodes r g [m] = Inr [m]"
  by (simp add: sort_nodes_def py_sorted_def)

lemma tutorial_register [simp]: "register k w [] = [(k, [(w, 1)])]"
   by (simp add: register_def Let_def dict_has_def dict_get_def dict_set_def)

lemmas round_simps = loop_section_def bindM_def io_run thenM_def Let_def is_cleanup_ready_def is_setup_ready_def cleanup_nodes_def 
    setup_nodes_def dict_keys_def concerns_def is_flat_def names_worker_def has_dropped_child_def has_dropped_parent_def node_key_def example_edges_def
    pick_child_def available_children_def pick_parent_def available_parents_def workers_of_key dict_get_def upd_edges_def

definition graph1 :: tgraph where
  "graph1 = tutorial_graph\<lparr>g_edges := (\<lambda>_. example_edges)(1 := example_edges\<lparr>picked_by_setup := [(''allinternal.noop'', [(''net1'', 1)])]\<rparr>)\<rparr>"

lemma round1: "loop_section tutorial_job 0 ''net1'' (start_walker 0) tutorial_graph =
  (Inr (start_walker 0\<lparr>w_path := [1, 0]\<rparr>), graph1)"
  by (simp add: round_simps start_walker_def graph1_def)

lemma graph1_nodes [simp]:
  "g_nodes graph1 = [0, 1]" "g_node graph1 = (\<lambda>_. example_tnode [] [] [] 2)(0 := tutorial_root, 1 := tutorial_leaf)"
  "g_edges graph1 = (\<lambda>_. example_edges)(1 := example_edges\<lparr>picked_by_setup := [(''allinternal.noop'', [(''net1'', 1)])]\<rparr>)"
  by (simp_all add: graph1_def)

lemmas visit_simps = is_unrolled_def is_shared_root_def parse_if_needed_def visit_def is_occupied_def is_started_def reaches_def
   shared_started_workers_def unexplored_nodes_def 


definition graph2 :: tgraph where
  "graph2 = graph1\<lparr>g_edges := (g_edges graph1)(0 := example_edges\<lparr>picked_by_cleanup :=
     [(CHR 0x5C # ''.tutorial.vm1..+$'', [(''net1'', 1)])]\<rparr>)\<rparr>"

lemmas traverse_simps = traverse_begin_def pull_locations_def should_run_def tutorial_job_def
  matching_results_def finish_node_def continue_def after_traverse_def after_up_def upd_node_def
  is_object_root_def drop_parent_def

lemma round2: "loop_section tutorial_job 0 ''net1'' (start_walker 0\<lparr>w_path := [1, 0]\<rparr>) graph1 =
  (Inr (start_walker 0\<lparr>w_path := [0, 1, 0]\<rparr>), graph2)"
  by (simp add: round_simps start_walker_def visit_simps graph2_def)

lemma graph2_nodes [simp]:
  "g_nodes graph2 = [0, 1]" "g_node graph2 = (\<lambda>_. example_tnode [] [] [] 2)(0 := tutorial_root, 1 := tutorial_leaf)"
  "g_edges graph2 = (g_edges graph1)(0 := example_edges\<lparr>picked_by_cleanup :=
     [(CHR 0x5C # ''.tutorial.vm1..+$'', [(''net1'', 1)])]\<rparr>)"
  by (simp_all add: graph2_def)

definition traversed_root :: tnode where
  "traversed_root = tutorial_root\<lparr>n_finished := Some ''net1''\<rparr>"

lemma traversed_fields [simp]:
  "tutorial_root\<lparr>n_results := [], n_finished := Some ''net1'', n_started := None\<rparr> = traversed_root"
  "n_should_run traversed_root = Constant False" "n_objects traversed_root = []" "n_results traversed_root = []" "n_bridged traversed_root = []"
  "n_params traversed_root = [(''shared_root'', ''yes'')]" "n_edges traversed_root = 0"
  "n_cleanup traversed_root = [(1, [0])]" "n_finished traversed_root = Some ''net1''" "n_setup traversed_root = []"
  by (simp_all add: traversed_root_def tutorial_root_def example_tnode_def)

lemma traversed_key [simp]: "bridged_form traversed_root = ''allinternal.noop''"
  by code_simp

definition graph3 :: tgraph where
  "graph3 = graph2\<lparr>g_node := (\<lambda>_. example_tnode [] [] [] 2)(1 := tutorial_leaf, 0 := traversed_root),
     g_edges := (g_edges graph2)(1 := example_edges\<lparr>picked_by_setup := [(''allinternal.noop'', [(''net1'', 1)])],
       dropped_setup := [(''allinternal.noop'', [(''net1'', 1)])]\<rparr>)\<rparr>"

lemma round3: "loop_section tutorial_job 0 ''net1'' (start_walker 0\<lparr>w_path := [0, 1, 0]\<rparr>) graph2 =
  (Inr (start_walker 0\<lparr>w_path := [1, 0]\<rparr>), graph3)"
  by (simp add: round_simps start_walker_def visit_simps traverse_simps graph3_def)

lemma graph3_nodes [simp]:
  "g_nodes graph3 = [0, 1]" "g_node graph3 = (\<lambda>_. example_tnode [] [] [] 2)(1 := tutorial_leaf, 0 := traversed_root)"
  "g_edges graph3 = (g_edges graph2)(1 := example_edges\<lparr>picked_by_setup := [(''allinternal.noop'', [(''net1'', 1)])],
       dropped_setup := [(''allinternal.noop'', [(''net1'', 1)])]\<rparr>)"
  by (simp_all add: graph3_def)

lemma leaf_params [simp]:
  "p_getitem (n_params tutorial_leaf) ''vms_base_dir'' = Inr ''/vms''"
  "p_get_or (n_params tutorial_leaf) ''shared_pool'' ''.'' = ''.''"
  "p_get_or (n_params tutorial_leaf) ''swarm_pool'' ''/vms'' = ''/vms''"
  "dict_has (n_params tutorial_leaf) ''object_root'' = False"
  by code_simp+

definition located_params :: params where
  "located_params = p_set ''get_location_vm1'' '':.'' (n_params tutorial_leaf)"

lemma graph_objects [simp]:
  "g_object tutorial_graph 0 = \<lparr>o_suffix = ''vm1'', o_long_suffix = ''vm1'', o_key = ''vms'', o_params = [], o_composites = []\<rparr>"
  "g_object graph1 = g_object tutorial_graph" "g_object graph2 = g_object tutorial_graph"
  "g_object graph3 = g_object tutorial_graph"
  by (simp_all add: tutorial_graph_def graph1_def graph2_def graph3_def example_graph_def descend_from_node_def
      upd_node_def Let_def)

lemma leaf_locations [simp]: "add_location ''get_location_vm1'' '':.'' (n_params tutorial_leaf) = located_params"
  by code_simp

lemma located [simp]:
  "p_get_or located_params ''dry_run'' ''no'' = ''no''" "dict_has located_params ''object_root'' = False"
  "p_true (object_params (object_params located_params ''vm1'') ''vms'') ''set_state'' = False"
  by code_simp+

definition graph4 :: tgraph where
  "graph4 = graph3\<lparr>g_node := (g_node graph3)(1 := tutorial_leaf\<lparr>n_started := Some ''net1'',
     n_params := located_params, n_results := [\<lparr>r_name = ''all.tutorial.vm1.net1'', r_status = ''UNKNOWN'', r_running = True\<rparr>]\<rparr>)\<rparr>"

lemma round4: "loop_section tutorial_job 0 ''net1'' (start_walker 0\<lparr>w_path := [1, 0]\<rparr>) graph3 =
  (Inr (start_walker 0\<lparr>w_path := [1, 0], w_pc := Running 1 (Down False) ''1''\<rparr>), graph4)"
proof -
  have "n_cloned tutorial_leaf = []" by (simp add: tutorial_leaf_def example_tnode_def)
  then show ?thesis
    by (simp add: round_simps start_walker_def visit_simps traverse_simps default_run_decision_def run_test_begin_def
        object_locations_def shared_result_worker_ids_def shared_results_def get_stateful_objects_def
        object_typed_params_def is_dry_run_def running_result_def graph4_def)
qed

lemma tutorial_turn:
  assumes "reachable tutorial_job 0 tutorial_graph \<lparr>s_graph = g, s_walker = (\<lambda>_. start_walker 0)(''net1'' := wk)\<rparr>"
    and "loop_section tutorial_job 0 ''net1'' wk g = (Inr wk', g')" and "w_pc wk = Looping"
  shows "reachable tutorial_job 0 tutorial_graph \<lparr>s_graph = g', s_walker = (\<lambda>_. start_walker 0)(''net1'' := wk')\<rparr>"
    "step tutorial_job 0 \<lparr>s_graph = g, s_walker = (\<lambda>_. start_walker 0)(''net1'' := wk)\<rparr> ''net1''
       \<lparr>s_graph = g', s_walker = (\<lambda>_. start_walker 0)(''net1'' := wk')\<rparr>"
proof -
  let ?s = "\<lparr>s_graph = g, s_walker = (\<lambda>_. start_walker 0)(''net1'' := wk)\<rparr>"
  have "act ''net1'' (loop_section tutorial_job 0 ''net1'') ?s
      = \<lparr>s_graph = g', s_walker = (\<lambda>_. start_walker 0)(''net1'' := wk')\<rparr>"
    using assms(2) by (simp add: act_def settle_def)
  then show step: "step tutorial_job 0 ?s ''net1'' \<lparr>s_graph = g', s_walker = (\<lambda>_. start_walker 0)(''net1'' := wk')\<rparr>"
    using step.turn [of ?s "''net1''" tutorial_job 0] assms(3) by simp
  show "reachable tutorial_job 0 tutorial_graph \<lparr>s_graph = g', s_walker = (\<lambda>_. start_walker 0)(''net1'' := wk')\<rparr>"
    by (rule reachable.move [OF assms(1) step])
qed

definition at_graph3 :: system where
  "at_graph3 = \<lparr>s_graph = graph3, s_walker = (\<lambda>_. start_walker 0)(''net1'' := start_walker 0\<lparr>w_path := [1, 0]\<rparr>)\<rparr>"

definition at_graph4 :: system where
  "at_graph4 = \<lparr>s_graph = graph4, s_walker = (\<lambda>_. start_walker 0)(''net1'' :=
     start_walker 0\<lparr>w_path := [1, 0], w_pc := Running 1 (Down False) ''1''\<rparr>)\<rparr>"

lemma tutorial_run:
  "reachable tutorial_job 0 tutorial_graph at_graph3" "step tutorial_job 0 at_graph3 ''net1'' at_graph4"
proof -
  have "reachable tutorial_job 0 tutorial_graph
      \<lparr>s_graph = tutorial_graph, s_walker = (\<lambda>_. start_walker 0)(''net1'' := start_walker 0)\<rparr>"
    using reachable.start [of tutorial_job 0 tutorial_graph] by (simp add: start_system_def fun_upd_idem)
  note r1 = tutorial_turn(1) [OF this round1]
  have r1: "reachable tutorial_job 0 tutorial_graph \<lparr>s_graph = graph1, s_walker = (\<lambda>_. start_walker 0)(''net1'' := start_walker 0\<lparr>w_path := [1, 0]\<rparr>)\<rparr>"
    by (rule r1) (simp add: start_walker_def)
  have r2: "reachable tutorial_job 0 tutorial_graph \<lparr>s_graph = graph2, s_walker = (\<lambda>_. start_walker 0)(''net1'' := start_walker 0\<lparr>w_path := [0, 1, 0]\<rparr>)\<rparr>"
    by (rule tutorial_turn(1) [OF r1 round2]) (simp add: start_walker_def)
  show r3: "reachable tutorial_job 0 tutorial_graph at_graph3"
    unfolding at_graph3_def by (rule tutorial_turn(1) [OF r2 round3]) (simp add: start_walker_def)
  show "step tutorial_job 0 at_graph3 ''net1'' at_graph4"
    unfolding at_graph3_def at_graph4_def
    by (rule tutorial_turn(2) [OF r3 [unfolded at_graph3_def] round4]) (simp add: start_walker_def)
qed
section \<open>Properties\<close>





end
