(* ===== verification/CfgFilter.thy ===== *)
theory CfgFilter
  imports PyBase
begin

text \<open>
  Labels and filters of the Cartesian configuration, from \<open>virttest/cartesian_config.py\<close>:
  the matching of blocks against the context of variants, with the look-ahead into the labels
  of a subtree. The lemmas relate the matching loop to contiguous occurrence, and show that
  the look-ahead never rules out a subtree in which the filter can still match.
\<close>

section \<open>Labels\<close>

datatype label = Label (l_name: string) (l_var: "string option")

text \<open>\<open>Label(name)\<close> or \<open>Label(variable, name)\<close>.\<close>

definition new_label :: "string \<Rightarrow> string option \<Rightarrow> label" where
  "new_label name next_name = (case next_name of None \<Rightarrow> Label name None | Some n \<Rightarrow> Label n (Some name))"

definition long_name :: "label \<Rightarrow> string" where
  "long_name l = (case l_var l of None \<Rightarrow> l_name l | Some v \<Rightarrow> ''('' @ v @ ''='' @ l_name l @ '')'')"

definition has_var :: "label \<Rightarrow> bool" where
  "has_var l \<longleftrightarrow> (case l_var l of None \<Rightarrow> False | Some v \<Rightarrow> v \<noteq> [])"

text \<open>\<open>l == o\<close>: the right side decides what is compared.\<close>

definition label_eq :: "label \<Rightarrow> label \<Rightarrow> bool" where
  "label_eq l other \<longleftrightarrow> (if has_var other then long_name l = long_name other else l_name l = l_name other)"

definition hash_name :: "label \<Rightarrow> nat" where
  "hash_name l = sum_list (map (\<lambda>(i, x). i + 1 * of_char x) (enumerate 0 (l_name l)))"

text \<open>Sets of labels, as the elements that were not yet in when they were added.\<close>

definition in_labels :: "label \<Rightarrow> label list \<Rightarrow> bool" where
  "in_labels x labels \<longleftrightarrow> list_ex (\<lambda>l. hash_name l = hash_name x \<and> label_eq l x) labels"

definition py_set :: "label list \<Rightarrow> label list" where
  "py_set ls = foldl (\<lambda>s l. if in_labels l s then s else s @ [l]) [] ls"

text \<open>Names as the configuration has them: without the signs of a long name.\<close>

definition wf_label :: "label \<Rightarrow> bool" where
  "wf_label l \<longleftrightarrow> CHR ''='' \<notin> set (l_name l) \<and> CHR ''('' \<notin> set (l_name l)
     \<and> (case l_var l of None \<Rightarrow> True | Some v \<Rightarrow> v \<noteq> [] \<and> CHR ''='' \<notin> set v)"

lemma plain_long_name: "wf_label l \<Longrightarrow> l_var l = None \<Longrightarrow> long_name l \<noteq> CHR ''('' # s"
proof
  assume "wf_label l" "l_var l = None" "long_name l = CHR ''('' # s"
  then have "CHR ''('' \<notin> set (CHR ''('' # s)" unfolding wf_label_def long_name_def by simp
  then show False by simp
qed

lemma long_name_inject:
  assumes "wf_label l" and "wf_label m" and "long_name l = long_name m"
  shows "l = m"
proof (cases "l_var l")
  case None
  then have "l_var m = None"
    using plain_long_name [OF assms(1)] assms(3) by (cases "l_var m") (auto simp: long_name_def [of m])
  then show ?thesis using None assms(3) by (simp add: long_name_def label.expand)
next
  case (Some v)
  then have "long_name m = CHR ''('' # v @ ''='' @ l_name l @ '')''"
    using assms(3) by (simp add: long_name_def [of l])
  then have "l_var m \<noteq> None" using plain_long_name [OF assms(2)] by blast
  then obtain u where u: "l_var m = Some u" by blast
  have "v @ ''='' @ l_name l = u @ ''='' @ l_name m"
    using assms(3) Some u by (simp add: long_name_def)
  moreover have "takeWhile (\<lambda>c. c \<noteq> CHR ''='') (x @ ''='' @ y) = x" if "CHR ''='' \<notin> set x" for x y
    using that by (subst takeWhile_append2) auto
  moreover have "CHR ''='' \<notin> set v" "CHR ''='' \<notin> set u"
    using assms(1,2) Some u by (simp_all add: wf_label_def)
  ultimately have "v = u" by metis
  then show ?thesis using assms(3) Some u by (simp add: long_name_def label.expand)
qed

lemma label_eq_name: "wf_label l \<Longrightarrow> wf_label m \<Longrightarrow> label_eq l m \<Longrightarrow> l_name l = l_name m"
  using long_name_inject [of l m] unfolding label_eq_def by (cases "has_var m") simp_all

lemma in_labels_iff:
  assumes "\<forall>l \<in> set ls. wf_label l" and "wf_label x"
  shows "in_labels x ls \<longleftrightarrow> (\<exists>l \<in> set ls. label_eq l x)"
proof -
  have "hash_name l = hash_name x \<and> label_eq l x \<longleftrightarrow> label_eq l x" if "l \<in> set ls" for l
    using label_eq_name [of l x] assms that unfolding hash_name_def by auto
  then show ?thesis unfolding in_labels_def list_ex_iff by blast
qed

lemma label_eq_absorb:
  assumes "wf_label e" "wf_label l" "wf_label x" and "label_eq e l" and "label_eq l x"
  shows "label_eq e x"
proof (cases "has_var x")
  case True
  then have "l = x" using assms long_name_inject by (simp add: label_eq_def)
  then show ?thesis using assms by simp
next
  case False
  then have "l_name e = l_name l" "l_name l = l_name x"
    using label_eq_name [OF assms(1,2,4)] label_eq_name [OF assms(2,3,5)] by simp_all
  then show ?thesis using False by (simp add: label_eq_def)
qed

lemma label_eq_refl [simp]: "label_eq l l"
  by (simp add: label_eq_def)

lemma py_set_subset: "set (py_set ls) \<subseteq> set ls"
proof -
  have "set (foldl (\<lambda>s l. if in_labels l s then s else s @ [l]) s ls) \<subseteq> set s \<union> set ls" for s
  proof (induction ls arbitrary: s)
    case (Cons l ls)
    show ?case using Cons [of "if in_labels l s then s else s @ [l]"] by (auto split: if_splits)
  qed simp
  from this [of "[]"] show ?thesis by (simp add: py_set_def)
qed

text \<open>Elements that are left out because an equal one is in do not change membership.\<close>

lemma in_py_set:
  assumes wf: "\<forall>l \<in> set ls. wf_label l" and x: "wf_label x"
  shows "in_labels x (py_set ls) \<longleftrightarrow> (\<exists>l \<in> set ls. label_eq l x)"
proof -
  have "in_labels x (foldl (\<lambda>s l. if in_labels l s then s else s @ [l]) s ls)
      \<longleftrightarrow> (\<exists>l \<in> set s \<union> set ls. label_eq l x)"
    if "\<forall>l \<in> set s. wf_label l" for s
    using that wf
  proof (induction ls arbitrary: s)
    case Nil
    then show ?case using in_labels_iff x by simp
  next
    case (Cons l ls)
    let ?s = "if in_labels l s then s else s @ [l]"
    have "\<forall>l \<in> set ?s. wf_label l" using Cons.prems by auto
    then have IH: "in_labels x (foldl (\<lambda>s l. if in_labels l s then s else s @ [l]) ?s ls)
        \<longleftrightarrow> (\<exists>l \<in> set ?s \<union> set ls. label_eq l x)" using Cons.IH [of ?s] Cons.prems by simp
    have "(\<exists>m \<in> set ?s \<union> set ls. label_eq m x) \<longleftrightarrow> (\<exists>m \<in> set s \<union> set (l # ls). label_eq m x)"
    proof (cases "in_labels l s")
      case True
      then obtain e where "e \<in> set s" "label_eq e l" using in_labels_iff Cons.prems by auto
      then show ?thesis using True label_eq_absorb [of e l x] Cons.prems x by auto
    qed auto
    then show ?case using IH by simp
  qed
  from this [of "[]"] show ?thesis by (simp add: py_set_def)
qed

section \<open>Matching\<close>

type_synonym block = "label list"
type_synonym lfilter = "block list list"

text \<open>The loop over the context: \<open>i\<close> is the position and \<open>k\<close> the number of labels matched.\<close>

function match_loop :: "block \<Rightarrow> label list \<Rightarrow> label list \<Rightarrow> nat \<Rightarrow> nat \<Rightarrow> nat" where
  "match_loop block ctx ctx_set i k =
     (if i < length ctx then
        let (i, k) = (if k > 0 \<and> \<not> label_eq (ctx ! i) (block ! k) then (i - (k - 1), 0) else (i, k))
        in if label_eq (ctx ! i) (block ! k) then
             (let k = k + 1
              in if k \<ge> length block then k
                 else if \<not> in_labels (block ! k) ctx_set then k
                 else match_loop block ctx ctx_set (i + 1) k)
           else match_loop block ctx ctx_set (i + 1) k
      else k)"
  by pat_completeness auto
termination
  by (relation "measures [\<lambda>(b, ctx, s, i, k). if k \<le> i then 0 else 1,
        \<lambda>(b, ctx, s, i, k). length ctx - (i - k), \<lambda>(b, ctx, s, i, k). length ctx - i]")
     (auto split: if_splits)

declare match_loop.simps [simp del]

fun label_index :: "label list \<Rightarrow> label \<Rightarrow> nat res" where
  "label_index [] x = Inl ValueError"
| "label_index (l # ls) x =
     (if label_eq l x then Inr 0 else bindE (label_index ls x) (\<lambda>i. Inr (Suc i)))"

definition match_adjacent :: "block \<Rightarrow> label list \<Rightarrow> label list \<Rightarrow> nat res" where
  "match_adjacent block ctx ctx_set =
     (case block of
        [] \<Rightarrow> Inl IndexError
      | first # rest \<Rightarrow>
          if \<not> in_labels first ctx_set then Inr 0
          else case rest of
              [] \<Rightarrow> Inr 1
            | second # _ \<Rightarrow>
                if \<not> in_labels second ctx_set
                then (if ctx = [] then Inl IndexError else Inr (of_bool (label_eq (last ctx) first)))
                else bindE (label_index ctx first) (\<lambda>i. Inr (match_loop block ctx ctx_set i 0)))"

definition might_match_adjacent :: "block \<Rightarrow> label list \<Rightarrow> label list \<Rightarrow> label list \<Rightarrow> bool res" where
  "might_match_adjacent block ctx ctx_set descendant_labels =
     bindE (match_adjacent block ctx ctx_set) (\<lambda>matched.
       Inr (list_all (\<lambda>elem. in_labels elem descendant_labels) (drop matched block)))"

text \<open>The loops over the words (between commas) and the blocks (between double dots).\<close>

primrec all_blocks :: "(block \<Rightarrow> bool res) \<Rightarrow> block list \<Rightarrow> bool res" where
  "all_blocks P [] = Inr True"
| "all_blocks P (b # bs) = bindE (P b) (\<lambda>ok. if ok then all_blocks P bs else Inr False)"

primrec some_word :: "(block \<Rightarrow> bool res) \<Rightarrow> lfilter \<Rightarrow> bool res" where
  "some_word P [] = Inr False"
| "some_word P (w # ws) = bindE (all_blocks P w) (\<lambda>ok. if ok then Inr True else some_word P ws)"

definition filter_match :: "lfilter \<Rightarrow> label list \<Rightarrow> label list \<Rightarrow> bool res" where
  "filter_match f ctx ctx_set =
     some_word (\<lambda>block. bindE (match_adjacent block ctx ctx_set) (\<lambda>n. Inr (n = length block))) f"

definition filter_might_match :: "lfilter \<Rightarrow> label list \<Rightarrow> label list \<Rightarrow> label list \<Rightarrow> bool res" where
  "filter_might_match f ctx ctx_set descendant_labels =
     some_word (\<lambda>block. might_match_adjacent block ctx ctx_set descendant_labels) f"

text \<open>The polarity of a filter: \<open>OnlyFilter\<close> and negative conditions, or \<open>NoFilter\<close> and conditions.\<close>

definition is_irrelevant :: "bool \<Rightarrow> lfilter \<Rightarrow> label list \<Rightarrow> label list \<Rightarrow> label list \<Rightarrow> bool res" where
  "is_irrelevant only f ctx ctx_set descendant_labels =
     (if only then filter_match f ctx ctx_set
      else bindE (filter_might_match f ctx ctx_set descendant_labels) (\<lambda>b. Inr (\<not> b)))"

definition requires_action :: "bool \<Rightarrow> lfilter \<Rightarrow> label list \<Rightarrow> label list \<Rightarrow> label list \<Rightarrow> bool res" where
  "requires_action only f ctx ctx_set descendant_labels =
     (if only then bindE (filter_might_match f ctx ctx_set descendant_labels) (\<lambda>b. Inr (\<not> b))
      else filter_match f ctx ctx_set)"

primrec some_block :: "(block \<Rightarrow> bool res) \<Rightarrow> block list \<Rightarrow> bool res" where
  "some_block P [] = Inr False"
| "some_block P (b # bs) = bindE (P b) (\<lambda>found. if found then Inr True else some_block P bs)"

text \<open>Whether a filter that failed in another context might pass in this one.\<close>

definition might_pass :: "bool \<Rightarrow> lfilter \<Rightarrow> label list \<Rightarrow> label list \<Rightarrow> label list \<Rightarrow> label list
    \<Rightarrow> label list \<Rightarrow> bool res" where
  "might_pass only f failed_ctx failed_ctx_set ctx ctx_set descendant_labels =
     bindE (some_block (\<lambda>block.
         bindE (match_adjacent block ctx ctx_set) (\<lambda>n.
         bindE (match_adjacent block failed_ctx failed_ctx_set) (\<lambda>m.
           Inr (if only then n > m else n < m)))) (concat f)) (\<lambda>changed.
       if \<not> changed then Inr False
       else if only then filter_might_match f ctx ctx_set descendant_labels
       else bindE (filter_match f ctx ctx_set) (\<lambda>b. Inr (\<not> b)))"


section \<open>The reference: contiguous occurrence\<close>

definition occurs_at :: "block \<Rightarrow> label list \<Rightarrow> nat \<Rightarrow> bool" where
  "occurs_at block ctx i \<longleftrightarrow> i + length block \<le> length ctx
     \<and> (\<forall>j < length block. label_eq (ctx ! (i + j)) (block ! j))"

definition occurs :: "block \<Rightarrow> label list \<Rightarrow> bool" where
  "occurs block ctx \<longleftrightarrow> (\<exists>i \<le> length ctx. occurs_at block ctx i)"

definition matches :: "lfilter \<Rightarrow> label list \<Rightarrow> bool" where
  "matches f ctx \<longleftrightarrow> list_ex (list_all (\<lambda>block. occurs block ctx)) f"

lemma occurs_at_code [code]:
  "occurs_at block ctx i \<longleftrightarrow> i + length block \<le> length ctx \<and> list_all2 label_eq (take (length block) (drop i ctx)) block"
  by (auto simp: occurs_at_def list_all2_conv_all_nth)

lemma occurs_code [code]: "occurs block ctx \<longleftrightarrow> list_ex (occurs_at block ctx) [0..<Suc (length ctx)]"
  unfolding occurs_def list_ex_iff Bex_def set_upt atLeastLessThan_iff less_Suc_eq_le by simp

text \<open>The first \<open>k\<close> labels of a block match the end of the context.\<close>

definition overlap :: "block \<Rightarrow> label list \<Rightarrow> nat \<Rightarrow> bool" where
  "overlap block ctx k \<longleftrightarrow> k \<le> length ctx \<and> k \<le> length block
     \<and> (\<forall>j < k. label_eq (ctx ! (length ctx - k + j)) (block ! j))"

definition wf_filter :: "lfilter \<Rightarrow> bool" where
  "wf_filter f \<longleftrightarrow> (\<forall>w \<in> set f. \<forall>b \<in> set w. b \<noteq> [] \<and> (\<forall>l \<in> set b. wf_label l))"

text \<open>A start is refuted when some label after it differs.\<close>

definition refuted :: "block \<Rightarrow> label list \<Rightarrow> nat \<Rightarrow> bool" where
  "refuted block ctx s \<longleftrightarrow>
     (\<exists>j < length block. s + j < length ctx \<and> \<not> label_eq (ctx ! (s + j)) (block ! j))"

lemma refuted_occurs: "refuted block ctx s \<Longrightarrow> \<not> occurs_at block ctx s"
  by (auto simp: refuted_def occurs_at_def)

lemma refuted_overlap:
  assumes "refuted block ctx s" and "s \<le> length ctx"
  shows "\<not> overlap block ctx (length ctx - s)"
proof
  assume "overlap block ctx (length ctx - s)"
  then have "label_eq (ctx ! (s + j)) (block ! j)" if "j < length ctx - s" for j
    using that assms(2) by (auto simp: overlap_def)
  then show False using assms(1) by (auto simp: refuted_def)
qed

text \<open>What the number of matched labels means.\<close>

definition matched_ok :: "block \<Rightarrow> label list \<Rightarrow> nat \<Rightarrow> bool" where
  "matched_ok block ctx k \<longleftrightarrow> k \<le> length block \<and> (k = length block \<longleftrightarrow> occurs block ctx)
     \<and> (\<forall>m. overlap block ctx m \<longrightarrow> m \<le> k)"

lemma overlap_nth: "overlap block ctx m \<Longrightarrow> j < m \<Longrightarrow> \<exists>l \<in> set ctx. label_eq l (block ! j)"
  by (auto simp: overlap_def intro!: bexI [of _ "ctx ! (length ctx - m + j)"])

lemma occurs_nth: "occurs block ctx \<Longrightarrow> j < length block \<Longrightarrow> \<exists>l \<in> set ctx. label_eq l (block ! j)"
  by (auto simp: occurs_def occurs_at_def)

text \<open>A label of the block that the whole context lacks bounds every match.\<close>

lemma matched_missing:
  assumes "k < length block" and "\<not> (\<exists>l \<in> set ctx. label_eq l (block ! k))"
  shows "matched_ok block ctx k"
  using assms overlap_nth [of block ctx _ k] occurs_nth [of block ctx k] unfolding matched_ok_def
  by (metis less_or_eq_imp_le linorder_not_le nat_neq_iff)

definition loop_inv :: "block \<Rightarrow> label list \<Rightarrow> nat \<Rightarrow> nat \<Rightarrow> bool" where
  "loop_inv block ctx i k \<longleftrightarrow> k < length block \<and> k \<le> i \<and> i \<le> length ctx
     \<and> (\<forall>j < k. label_eq (ctx ! (i - k + j)) (block ! j)) \<and> (\<forall>s < i - k. refuted block ctx s)"

lemma loop_inv_end:
  assumes inv: "loop_inv block ctx (length ctx) k"
  shows "matched_ok block ctx k"
proof -
  have k: "k < length block" "k \<le> length ctx" and ref: "\<forall>s < length ctx - k. refuted block ctx s"
    using inv by (simp_all add: loop_inv_def)
  have "\<not> occurs_at block ctx s" for s
  proof (cases "s < length ctx - k")
    case True
    then show ?thesis using ref refuted_occurs by blast
  next
    case False
    then have "\<not> s + length block \<le> length ctx" using k by simp
    then show ?thesis by (simp add: occurs_at_def)
  qed
  moreover have "m \<le> k" if "overlap block ctx m" for m
  proof (rule ccontr)
    assume "\<not> m \<le> k"
    moreover have "m \<le> length ctx" using that by (simp add: overlap_def)
    ultimately have "refuted block ctx (length ctx - m)" using ref k by simp
    then show False using refuted_overlap [of block ctx "length ctx - m"] that \<open>m \<le> length ctx\<close> by simp
  qed
  ultimately show ?thesis using k by (simp add: matched_ok_def occurs_def)
qed

lemma loop_inv_restart:
  assumes inv: "loop_inv block ctx i k" and "k > 0" and "i < length ctx" and no: "\<not> label_eq (ctx ! i) (block ! k)"
  shows "loop_inv block ctx (i - (k - 1)) 0"
proof -
  have k: "k < length block" "k \<le> i" using inv by (simp_all add: loop_inv_def)
  have "refuted block ctx (i - k)" unfolding refuted_def using k no assms(3) by (intro exI [of _ k]) simp
  then have "refuted block ctx s" if "s < i - (k - 1)" for s
    using that inv k assms(2) by (cases "s = i - k") (auto simp: loop_inv_def)
  then show ?thesis using k assms(3) by (auto simp: loop_inv_def)
qed

lemma loop_inv_next:
  assumes inv: "loop_inv block ctx i k" and "i < length ctx" and hit: "label_eq (ctx ! i) (block ! k)"
  shows "Suc k < length block \<Longrightarrow> loop_inv block ctx (Suc i) (Suc k)"
    "\<not> Suc k < length block \<Longrightarrow> matched_ok block ctx (Suc k)"
proof -
  have k: "k < length block" "k \<le> i" using inv by (simp_all add: loop_inv_def)
  have all: "label_eq (ctx ! (i - k + j)) (block ! j)" if "j < Suc k" for j
    using that inv hit k by (cases "j = k") (auto simp: loop_inv_def)
  show "loop_inv block ctx (Suc i) (Suc k)" if "Suc k < length block"
    using that all inv k assms(2) by (auto simp: loop_inv_def)
  show "matched_ok block ctx (Suc k)" if "\<not> Suc k < length block"
  proof -
    have len: "length block = Suc k" using that k by simp
    have "occurs_at block ctx (i - k)" using all k assms(2) by (simp add: occurs_at_def len)
    then have "occurs block ctx" using k assms(2) by (auto simp: occurs_def intro!: exI [of _ "i - k"])
    then show ?thesis by (simp add: matched_ok_def len overlap_def)
  qed
qed

lemma loop_inv_skip:
  assumes inv: "loop_inv block ctx i 0" and "i < length ctx" and no: "\<not> label_eq (ctx ! i) (block ! 0)"
  shows "loop_inv block ctx (Suc i) 0"
proof -
  have "block \<noteq> []" using inv by (auto simp: loop_inv_def)
  then have "refuted block ctx i" unfolding refuted_def using no assms(2) by (intro exI [of _ 0]) simp
  then show ?thesis using inv assms(2) by (auto simp: loop_inv_def less_Suc_eq)
qed

lemma match_loop_ok:
  assumes ctx: "\<forall>l \<in> set ctx. wf_label l" and block: "\<forall>l \<in> set block. wf_label l"
    and "loop_inv block ctx i k"
  shows "matched_ok block ctx (match_loop block ctx (py_set ctx) i k)"
  using assms
proof (induction block ctx "py_set ctx" i k rule: match_loop.induct)
  case (1 block ctx i k)
  note inv = \<open>loop_inv block ctx i k\<close>
  show ?case
  proof (cases "i < length ctx")
    case False
    then have "i = length ctx" using inv by (simp add: loop_inv_def)
    then show ?thesis using loop_inv_end inv by (subst match_loop.simps) simp
  next
    case inside: True
    obtain a b where ab: "(if k > 0 \<and> \<not> label_eq (ctx ! i) (block ! k) then (i - (k - 1), 0) else (i, k)) = (a, b)"
      by fastforce
    have inv': "loop_inv block ctx a b" and start: "b = 0 \<or> label_eq (ctx ! a) (block ! b)" and a: "a < length ctx"
      using ab inv inside loop_inv_restart [OF inv] by (auto split: if_splits)
    have unfold: "match_loop block ctx (py_set ctx) i k =
       (if label_eq (ctx ! a) (block ! b) then
          (if length block \<le> Suc b then Suc b
           else if \<not> in_labels (block ! Suc b) (py_set ctx) then Suc b
           else match_loop block ctx (py_set ctx) (Suc a) (Suc b))
        else match_loop block ctx (py_set ctx) (Suc a) b)"
      using inside ab by (subst match_loop.simps) simp
    show ?thesis
    proof (cases "label_eq (ctx ! a) (block ! b)")
      case True
      note next_inv = loop_inv_next [OF inv' a True]
      consider (full) "length block \<le> Suc b" | (missing) "Suc b < length block" "\<not> in_labels (block ! Suc b) (py_set ctx)"
        | (more) "Suc b < length block" "in_labels (block ! Suc b) (py_set ctx)" by linarith
      then show ?thesis
      proof cases
        case full
        then show ?thesis using unfold True next_inv(2) by simp
      next
        case missing
        have "\<not> (\<exists>l \<in> set ctx. label_eq l (block ! Suc b))"
          using missing in_py_set [OF 1(3), of "block ! Suc b"] 1(4) by simp
        then show ?thesis using unfold True missing matched_missing by simp
      next
        case more
        have "matched_ok block ctx (match_loop block ctx (py_set ctx) (a + 1) (b + 1))"
          by (rule 1(1) [OF inside ab [symmetric] refl True refl _ _ 1(3,4)]) (use more next_inv in simp_all)
        then show ?thesis using unfold True more by simp
      qed
    next
      case False
      then have b: "b = 0" using start by simp
      have "matched_ok block ctx (match_loop block ctx (py_set ctx) (a + 1) b)"
        by (rule 1(2) [OF inside ab [symmetric] refl False 1(3,4)])
           (use loop_inv_skip [of block ctx a] inv' a False b in simp)
      then show ?thesis using unfold False by simp
    qed
  qed
qed

lemma label_index_first:
  "\<exists>l \<in> set ctx. label_eq l x \<Longrightarrow> \<exists>i < length ctx. label_index ctx x = Inr i \<and> label_eq (ctx ! i) x
     \<and> (\<forall>j < i. \<not> label_eq (ctx ! j) x)"
proof (induction ctx)
  case (Cons l ls)
  show ?case
  proof (cases "label_eq l x")
    case False
    then obtain i where "i < length ls" "label_index ls x = Inr i" "label_eq (ls ! i) x" "\<forall>j < i. \<not> label_eq (ls ! j) x"
      using Cons by auto
    then show ?thesis using False by (auto simp: less_Suc_eq_0_disj intro!: exI [of _ "Suc i"])
  qed auto
qed simp

lemma match_adjacent_ok:
  assumes ctx: "\<forall>l \<in> set ctx. wf_label l" and block: "block \<noteq> []" "\<forall>l \<in> set block. wf_label l"
  shows "\<exists>k. match_adjacent block ctx (py_set ctx) = Inr k \<and> matched_ok block ctx k"
proof -
  note mem = in_py_set [OF ctx]
  obtain first rest where b: "block = first # rest" using block by (cases block) auto
  show ?thesis
  proof (cases "in_labels first (py_set ctx)")
    case False
    then have "matched_ok block ctx 0"
      using matched_missing [of 0 block ctx] mem [of first] block b by simp
    then show ?thesis using False b by (simp add: match_adjacent_def)
  next
    case found: True
    then have hit: "\<exists>l \<in> set ctx. label_eq l first" using mem block b by simp
    then obtain i where i: "i < length ctx" "label_index ctx first = Inr i" "label_eq (ctx ! i) first"
      "\<forall>j < i. \<not> label_eq (ctx ! j) first" using label_index_first by blast
    show ?thesis
    proof (cases rest)
      case Nil
      have "occurs_at block ctx i" using i b Nil by (simp add: occurs_at_def)
      then have "occurs block ctx" using i(1) by (auto simp: occurs_def intro!: exI [of _ i])
      then have "matched_ok block ctx 1" using b Nil by (simp add: matched_ok_def overlap_def)
      then show ?thesis using found b Nil by (simp add: match_adjacent_def)
    next
      case (Cons second more)
      show ?thesis
      proof (cases "in_labels second (py_set ctx)")
        case False
        then have no: "\<not> (\<exists>l \<in> set ctx. label_eq l (block ! 1))" using mem block b Cons by simp
        have ne: "ctx \<noteq> []" using hit by auto
        let ?k = "of_bool (label_eq (last ctx) first) :: nat"
        have "m \<le> ?k" if ov: "overlap block ctx m" for m
        proof -
          have "m \<le> 1" using overlap_nth [OF ov, of 1] no by (cases "m \<le> 1") simp_all
          moreover have "label_eq (last ctx) first" if "m = 1"
            using ov that ne b by (simp add: overlap_def last_conv_nth)
          ultimately show ?thesis by (cases m) simp_all
        qed
        moreover have "\<not> occurs block ctx" using occurs_nth [of block ctx 1] no b Cons by auto
        ultimately have "matched_ok block ctx ?k" using b Cons by (simp add: matched_ok_def of_bool_def)
        then show ?thesis using found b Cons False ne by (auto simp: match_adjacent_def)
      next
        case True
        have "loop_inv block ctx i 0"
          using i b by (auto simp: loop_inv_def refuted_def intro!: exI [of _ 0])
        then have "matched_ok block ctx (match_loop block ctx (py_set ctx) i 0)"
          by (rule match_loop_ok [OF ctx block(2)])
        then show ?thesis using found b Cons True i by (simp add: match_adjacent_def)
      qed
    qed
  qed
qed

section \<open>Filters\<close>

lemma all_blocks_Inr:
  "(\<And>b. b \<in> set bs \<Longrightarrow> P b = Inr (Q b)) \<Longrightarrow> all_blocks P bs = Inr (list_all Q bs)"
  by (induction bs) auto

lemma some_word_Inr:
  "(\<And>w b. w \<in> set f \<Longrightarrow> b \<in> set w \<Longrightarrow> P b = Inr (Q b)) \<Longrightarrow> some_word P f = Inr (list_ex (list_all Q) f)"
proof (induction f)
  case (Cons w f)
  have "all_blocks P w = Inr (list_all Q w)" by (rule all_blocks_Inr) (rule Cons.prems, simp_all)
  moreover have "some_word P f = Inr (list_ex (list_all Q) f)" by (rule Cons.IH) (rule Cons.prems, simp_all)
  ultimately show ?case by simp
qed simp

lemma some_block_Inr:
  "(\<And>b. b \<in> set bs \<Longrightarrow> P b = Inr (Q b)) \<Longrightarrow> some_block P bs = Inr (list_ex Q bs)"
  by (induction bs) auto

definition matched :: "block \<Rightarrow> label list \<Rightarrow> nat" where
  "matched block ctx = (case match_adjacent block ctx (py_set ctx) of Inr k \<Rightarrow> k | Inl _ \<Rightarrow> 0)"

lemma matched_Inr:
  assumes "\<forall>l \<in> set ctx. wf_label l" and "block \<noteq> []" "\<forall>l \<in> set block. wf_label l"
  shows "match_adjacent block ctx (py_set ctx) = Inr (matched block ctx) \<and> matched_ok block ctx (matched block ctx)"
  using match_adjacent_ok [OF assms] by (auto simp: matched_def)

lemma wf_filterD: "wf_filter f \<Longrightarrow> w \<in> set f \<Longrightarrow> b \<in> set w \<Longrightarrow> b \<noteq> [] \<and> (\<forall>l \<in> set b. wf_label l)"
  unfolding wf_filter_def by blast

lemma filter_match_Inr:
  assumes ctx: "\<forall>l \<in> set ctx. wf_label l" and f: "wf_filter f"
  shows "filter_match f ctx (py_set ctx) = Inr (matches f ctx)"
proof -
  have "bindE (match_adjacent b ctx (py_set ctx)) (\<lambda>n. Inr (n = length b)) = Inr (occurs b ctx)"
    if "w \<in> set f" "b \<in> set w" for w b
    using matched_Inr [OF ctx] wf_filterD [OF f that] by (simp add: matched_ok_def)
  then have "filter_match f ctx (py_set ctx) = Inr (list_ex (list_all (\<lambda>b. occurs b ctx)) f)"
    unfolding filter_match_def by (rule some_word_Inr)
  then show ?thesis by (simp add: matches_def)
qed

text \<open>The look-ahead: the labels that are left must occur below.\<close>

definition may_match :: "lfilter \<Rightarrow> label list \<Rightarrow> label list \<Rightarrow> bool" where
  "may_match f ctx desc \<longleftrightarrow>
     list_ex (list_all (\<lambda>b. list_all (\<lambda>e. in_labels e desc) (drop (matched b ctx) b))) f"

lemma filter_might_match_Inr:
  assumes ctx: "\<forall>l \<in> set ctx. wf_label l" and f: "wf_filter f"
  shows "filter_might_match f ctx (py_set ctx) desc = Inr (may_match f ctx desc)"
proof -
  have "might_match_adjacent b ctx (py_set ctx) desc = Inr (list_all (\<lambda>e. in_labels e desc) (drop (matched b ctx) b))"
    if "w \<in> set f" "b \<in> set w" for w b
    using matched_Inr [OF ctx] wf_filterD [OF f that] by (simp add: might_match_adjacent_def)
  then have "filter_might_match f ctx (py_set ctx) desc
      = Inr (list_ex (list_all (\<lambda>b. list_all (\<lambda>e. in_labels e desc) (drop (matched b ctx) b))) f)"
    unfolding filter_might_match_def by (rule some_word_Inr)
  then show ?thesis by (simp add: may_match_def)
qed

lemma occurs_mono: "occurs b ctx \<Longrightarrow> occurs b (ctx @ ext)"
proof -
  assume "occurs b ctx"
  then obtain i where "i \<le> length ctx" "occurs_at b ctx i" by (auto simp: occurs_def)
  then show ?thesis unfolding occurs_def by (intro exI [of _ i]) (auto simp: occurs_at_def nth_append)
qed

lemma matches_mono: "matches f ctx \<Longrightarrow> matches f (ctx @ ext)"
  unfolding matches_def list_ex_iff list_all_iff using occurs_mono by blast

text \<open>An occurrence in a longer context overlaps the shorter one or lies behind it.\<close>

lemma occurs_extended:
  assumes "occurs b (ctx @ ext)" and "\<not> occurs b ctx"
  shows "\<exists>k. overlap b ctx k \<and> (\<forall>j < length b. k \<le> j \<longrightarrow> (\<exists>l \<in> set ext. label_eq l (b ! j)))"
proof -
  obtain i where i: "occurs_at b (ctx @ ext) i" using assms(1) by (auto simp: occurs_def)
  then have eq: "label_eq ((ctx @ ext) ! (i + j)) (b ! j)" and len: "i + length b \<le> length ctx + length ext"
    if "j < length b" for j
    using that by (auto simp: occurs_at_def)
  have out: "\<not> i + length b \<le> length ctx"
  proof
    assume *: "i + length b \<le> length ctx"
    then have "occurs_at b ctx i" using i by (auto simp: occurs_at_def nth_append)
    then show False using assms(2) * by (auto simp: occurs_def)
  qed
  let ?k = "length ctx - i"
  have "label_eq (ctx ! (length ctx - ?k + j)) (b ! j)" if "j < ?k" for j
  proof -
    have "j < length b" "i + j < length ctx" "length ctx - ?k + j = i + j" using that out by auto
    then show ?thesis using eq [of j] by (simp add: nth_append)
  qed
  then have "overlap b ctx ?k" using out by (auto simp: overlap_def)
  moreover have "\<exists>l \<in> set ext. label_eq l (b ! j)" if "j < length b" "?k \<le> j" for j
  proof -
    have "(ctx @ ext) ! (i + j) = ext ! (i + j - length ctx)" "i + j - length ctx < length ext"
      using that len [OF that(1)] out by (auto simp: nth_append)
    then show ?thesis using eq [OF that(1)] by (metis nth_mem)
  qed
  ultimately show ?thesis by blast
qed

text \<open>
  Labels that stand for others: a plain name is also found through a label of a variable. A set
  of labels drops the plain one when it is added later.
\<close>

definition covers :: "label list \<Rightarrow> label list \<Rightarrow> bool" where
  "covers labels ls \<longleftrightarrow> list_all (\<lambda>l. list_ex (\<lambda>m. m = l \<or> l_var l = None \<and> l_name m = l_name l) labels) ls"

lemma covers_simps [simp]:
  "covers labels []" "covers labels (xs @ ys) \<longleftrightarrow> covers labels xs \<and> covers labels ys"
  by (simp_all add: covers_def)

lemma covers_subset: "set xs \<subseteq> set labels \<Longrightarrow> covers labels xs"
  by (auto simp: covers_def list_all_iff list_ex_iff)

lemma covers_trans: "covers labels ms \<Longrightarrow> covers ms ls \<Longrightarrow> covers labels ls"
  unfolding covers_def list_all_iff list_ex_iff by (metis (full_types))

lemma covers_mono: "covers labels ls \<Longrightarrow> set labels \<subseteq> set labels' \<Longrightarrow> covers labels' ls"
  using covers_trans covers_subset by blast

lemma covers_prefix: "covers labels e \<Longrightarrow> covers (xs @ labels) (xs @ e)"
  using covers_mono [of labels e "xs @ labels"] covers_subset [of xs "xs @ labels"] by simp

lemma covers_prefix_simps [simp]: "covers (xs @ labels) xs" "covers (xs @ labels) labels" "covers labels labels"
  by (simp_all add: covers_subset)

lemma covers_eq:
  assumes "covers labels ls" and "l \<in> set ls" and "\<forall>m \<in> set labels. wf_label m" and "wf_label b" and "label_eq l b"
  shows "\<exists>m \<in> set labels. label_eq m b"
proof -
  obtain m where m: "m \<in> set labels" "m = l \<or> l_var l = None \<and> l_name m = l_name l"
    using assms(1,2) by (auto simp: covers_def list_all_iff list_ex_iff)
  show ?thesis
  proof (cases "m = l \<or> \<not> has_var b")
    case True
    then have "label_eq m b" using m(2) assms(5) by (auto simp: label_eq_def split: if_splits)
    then show ?thesis using m(1) by blast
  next
    case False
    then have l: "l_var l = None" "l_name m = l_name l" "long_name l = long_name b" using m(2) assms(5) by (auto simp: label_eq_def)
    obtain v where v: "l_var b = Some v" using False by (auto simp: has_var_def split: option.splits)
    have "l_name l = CHR ''('' # v @ ''='' @ l_name b @ '')''" using l(1,3) v by (simp add: long_name_def)
    then have "CHR ''('' \<in> set (l_name m)" using l(2) by simp
    then show ?thesis using assms(3) m(1) by (auto simp: wf_label_def)
  qed
qed

lemma may_match_sound:
  assumes ctx: "\<forall>l \<in> set ctx. wf_label l" and f: "wf_filter f" and desc: "\<forall>l \<in> set desc. wf_label l"
    and ext: "covers desc ext" and hit: "matches f (ctx @ ext)"
  shows "may_match f ctx desc"
proof -
  obtain w where w: "w \<in> set f" "\<forall>b \<in> set w. occurs b (ctx @ ext)"
    using hit by (auto simp: matches_def list_ex_iff list_all_iff)
  have "list_all (\<lambda>e. in_labels e desc) (drop (matched b ctx) b)" if b: "b \<in> set w" for b
  proof -
    note wfb = wf_filterD [OF f w(1) b]
    have ok: "matched_ok b ctx (matched b ctx)" using matched_Inr [OF ctx] wfb by blast
    show ?thesis
    proof (cases "occurs b ctx")
      case True
      then show ?thesis using ok by (simp add: matched_ok_def)
    next
      case False
      then obtain k where k: "overlap b ctx k"
        "\<forall>j < length b. k \<le> j \<longrightarrow> (\<exists>l \<in> set ext. label_eq l (b ! j))"
        using occurs_extended w(2) b by blast
      have "k \<le> matched b ctx" using ok k(1) by (simp add: matched_ok_def)
      then have "in_labels (b ! j) desc" if "j < length b" "matched b ctx \<le> j" for j
        using in_labels_iff [OF desc] covers_eq [OF ext _ desc] k(2) that wfb by (meson le_trans nth_mem)
      then show ?thesis by (auto simp: list_all_length)
    qed
  qed
  then show ?thesis using w(1) by (auto simp: may_match_def list_ex_iff list_all_iff)
qed

lemma matches_may_match:
  assumes "\<forall>l \<in> set ctx. wf_label l" and "wf_filter f" and "\<forall>l \<in> set desc. wf_label l" and "matches f ctx"
  shows "may_match f ctx desc"
  using may_match_sound [OF assms(1-3), of "[]"] assms(4) by simp

text \<open>Where nothing is below, the look-ahead is the match itself.\<close>

lemma may_match_leaf:
  assumes "\<forall>l \<in> set ctx. wf_label l" and "wf_filter f"
  shows "may_match f ctx [] \<longleftrightarrow> matches f ctx"
proof -
  have "list_all (\<lambda>e. in_labels e []) (drop (matched b ctx) b) \<longleftrightarrow> occurs b ctx"
    if "w \<in> set f" "b \<in> set w" for w b
  proof -
    have "matched_ok b ctx (matched b ctx)" using matched_Inr [OF assms(1)] wf_filterD [OF assms(2) that] by blast
    then have "occurs b ctx \<longleftrightarrow> drop (matched b ctx) b = []" by (auto simp: matched_ok_def)
    then show ?thesis by (cases "drop (matched b ctx) b") (auto simp: in_labels_def)
  qed
  then show ?thesis unfolding may_match_def matches_def list_ex_iff list_all_iff by blast
qed

text \<open>A filter that failed and of which no block matches better (worse) fails again.\<close>

lemma may_match_worse:
  assumes "\<forall>b \<in> set (concat f). matched b ctx \<le> matched b failed" and "\<not> may_match f failed desc"
  shows "\<not> may_match f ctx desc"
proof
  assume "may_match f ctx desc"
  then obtain w where w: "w \<in> set f" "\<forall>b \<in> set w. \<forall>e \<in> set (drop (matched b ctx) b). in_labels e desc"
    by (auto simp: may_match_def list_ex_iff list_all_iff)
  have "set (drop (matched b failed) b) \<subseteq> set (drop (matched b ctx) b)" if "b \<in> set w" for b
    by (rule set_drop_subset_set_drop) (use assms(1) w(1) that in auto)
  then have "\<forall>b \<in> set w. \<forall>e \<in> set (drop (matched b failed) b). in_labels e desc" using w(2) by blast
  then show False using w(1) assms(2) unfolding may_match_def list_ex_iff list_all_iff by blast
qed

lemma matches_better:
  assumes ctx: "\<forall>l \<in> set ctx. wf_label l" and failed: "\<forall>l \<in> set failed. wf_label l" and f: "wf_filter f"
    and "\<forall>b \<in> set (concat f). matched b failed \<le> matched b ctx" and hit: "matches f failed"
  shows "matches f ctx"
proof -
  obtain w where w: "w \<in> set f" "\<forall>b \<in> set w. occurs b failed"
    using hit by (auto simp: matches_def list_ex_iff list_all_iff)
  have "occurs b ctx" if b: "b \<in> set w" for b
  proof -
    note wfb = wf_filterD [OF f w(1) b]
    have "matched_ok b ctx (matched b ctx)" "matched_ok b failed (matched b failed)"
      using matched_Inr [OF ctx] matched_Inr [OF failed] wfb by blast+
    then show ?thesis using w b assms(4) by (force simp: matched_ok_def)
  qed
  then show ?thesis using w(1) by (auto simp: matches_def list_ex_iff list_all_iff)
qed

lemma might_pass_run:
  assumes ctx: "\<forall>l \<in> set ctx. wf_label l" and failed: "\<forall>l \<in> set failed. wf_label l" and f: "wf_filter f"
  shows "\<exists>p. might_pass only f failed (py_set failed) ctx (py_set ctx) desc = Inr p
    \<and> (\<not> p \<and> only \<and> \<not> may_match f failed desc \<longrightarrow> \<not> may_match f ctx desc)
    \<and> (\<not> p \<and> \<not> only \<and> matches f failed \<longrightarrow> matches f ctx)"
proof -
  let ?changed = "\<lambda>b. if only then matched b ctx > matched b failed else matched b ctx < matched b failed"
  have "some_block (\<lambda>b. bindE (match_adjacent b ctx (py_set ctx)) (\<lambda>n.
      bindE (match_adjacent b failed (py_set failed)) (\<lambda>m. Inr (if only then n > m else n < m)))) (concat f)
      = Inr (list_ex ?changed (concat f))"
  proof (rule some_block_Inr)
    fix b assume "b \<in> set (concat f)"
    then obtain w where "w \<in> set f" "b \<in> set w" by auto
    note wf_filterD [OF f this]
    then show "bindE (match_adjacent b ctx (py_set ctx)) (\<lambda>n.
        bindE (match_adjacent b failed (py_set failed)) (\<lambda>m. Inr (if only then n > m else n < m))) = Inr (?changed b)"
      using matched_Inr [OF ctx] matched_Inr [OF failed] by simp
  qed
  then have run: "might_pass only f failed (py_set failed) ctx (py_set ctx) desc = Inr (
      list_ex ?changed (concat f) \<and> (if only then may_match f ctx desc else \<not> matches f ctx))"
    using filter_might_match_Inr [OF ctx f] filter_match_Inr [OF ctx f]
    by (simp add: might_pass_def)
  have "\<not> may_match f ctx desc" if "only" "\<not> may_match f failed desc" "\<not> list_ex ?changed (concat f)"
    using may_match_worse [of f ctx failed desc] that by (fastforce simp: list_ex_iff)
  moreover have "matches f ctx" if "\<not> only" "matches f failed" "\<not> list_ex ?changed (concat f)"
    using matches_better [OF ctx failed f] that by (fastforce simp: list_ex_iff)
  ultimately show ?thesis using run by auto
qed

section \<open>Properties\<close>

text \<open>C12:
  A filter matches a context exactly if one of its words does: all blocks of the word, in any
  order, occur as contiguous runs of labels in the context. The matching neither raises nor
  depends on its shortcuts over the set of labels, as long as no block is empty.
\<close>

theorem filters_match_runs:
  assumes "\<forall>l \<in> set ctx. wf_label l" and "wf_filter f"
  shows "filter_match f ctx (py_set ctx) = Inr (\<exists>word \<in> set f. \<forall>block \<in> set word. \<exists>before after found.
     ctx = before @ found @ after \<and> list_all2 label_eq found block)"
proof -
  have "occurs b ctx \<longleftrightarrow> (\<exists>before after found. ctx = before @ found @ after \<and> list_all2 label_eq found b)" for b
  proof
    assume "occurs b ctx"
    then obtain i where i: "occurs_at b ctx i" by (auto simp: occurs_def)
    then have "ctx = take i ctx @ take (length b) (drop i ctx) @ drop (i + length b) ctx"
      by (metis append_take_drop_id drop_drop add.commute)
    moreover have "list_all2 label_eq (take (length b) (drop i ctx)) b"
      using i by (auto simp: list_all2_conv_all_nth occurs_at_def)
    ultimately show "\<exists>before after found. ctx = before @ found @ after \<and> list_all2 label_eq found b" by blast
  next
    assume "\<exists>before after found. ctx = before @ found @ after \<and> list_all2 label_eq found b"
    then obtain bef aft found where ctx: "ctx = bef @ found @ aft" and all: "list_all2 label_eq found b" by blast
    then have "occurs_at b ctx (length bef)"
      by (auto simp: occurs_at_def list_all2_conv_all_nth nth_append)
    then show "occurs b ctx" using ctx by (auto simp: occurs_def intro!: exI [of _ "length bef"])
  qed
  then show ?thesis
    using filter_match_Inr [OF assms] by (simp add: matches_def list_ex_iff list_all_iff)
qed

lemma filters_match_runs_witness:
  "filter_match [[[Label ''qcow2'' None], [Label ''Fedora'' (Some ''os''), Label ''14'' None]]]
     [Label ''Fedora'' (Some ''os''), Label ''14'' None, Label ''qcow2'' None]
     (py_set [Label ''Fedora'' (Some ''os''), Label ''14'' None, Label ''qcow2'' None]) = Inr True"
proof -
  let ?ctx = "[Label ''Fedora'' (Some ''os''), Label ''14'' None, Label ''qcow2'' None]"
  let ?f = "[[[Label ''qcow2'' None], [Label ''Fedora'' (Some ''os''), Label ''14'' None]]]"
  have wf: "\<forall>l \<in> set ?ctx. wf_label l" "wf_filter ?f" by (simp_all add: wf_label_def wf_filter_def)
  have "\<exists>before after found. ?ctx = before @ found @ after \<and> list_all2 label_eq found b" if "b \<in> set (hd ?f)" for b
    using that
    by (intro exI [of _ "if length b = 1 then take 2 ?ctx else []"] exI [of _ "if length b = 1 then [] else drop 2 ?ctx"]
        exI [of _ b]) (auto simp: list_all2_Cons1)
  then show ?thesis using filters_match_runs [OF wf] by simp
qed



end
