(* ===== verification/CfgDict.thy ===== *)
theory CfgDict
  imports PyBase Complex_Main
begin

text \<open>
  The dictionaries of the Cartesian configuration and the operators that build them, from
  \<open>virttest/cartesian_config.py\<close>: assignments with substitution of references, the operators
  over regular expressions, suffixes and their merging, and the limits \<open>_min\<close>, \<open>_max\<close> and
  \<open>_fixed\<close>. The module is used as a library, so the options of its command line are unset.
\<close>

section \<open>Keys and values\<close>

text \<open>
  A plain key is a list of one string. A key with suffixes is the tuple of the key and its
  suffixes. Only the reserved keys have values that are no text.
\<close>

type_synonym dkey = "string list"

datatype dval = Text string | Names "string list" | FileMap "(string, string) dict"

type_synonym cdict = "(dkey, dval) dict"

definition reserved_keys :: "string list" where
  "reserved_keys = [''name'', ''shortname'', ''dep'', ''_short_name_map_file'', ''_name_map_file'']"

definition is_reserved :: "dkey \<Rightarrow> bool" where
  "is_reserved key \<longleftrightarrow> key \<in> set (map (\<lambda>k. [k]) reserved_keys)"

definition text_of :: "dval \<Rightarrow> string res" where
  "text_of v = (case v of Text s \<Rightarrow> Inr s | _ \<Rightarrow> Inl TypeError)"

text \<open>
  Two parts of Python's library are left open: compiled regular expressions (the match at the
  beginning of a string) and the value of \<open>float\<close>, whose products with powers of two are exact.
\<close>

record pylib =
  re_compile :: "string \<Rightarrow> (string \<Rightarrow> bool) res"
  to_float :: "string \<Rightarrow> rat res"

section \<open>Suffixes\<close>

definition flat_key :: "dkey \<Rightarrow> string" where
  "flat_key key = concat (take 1 key @ rev (drop 1 key))"

definition same_for_all :: "cdict \<Rightarrow> dkey \<Rightarrow> bool" where
  "same_for_all d key \<longleftrightarrow>
     list_all (\<lambda>k. hd key = hd k \<longrightarrow> map_of d key = map_of d k) (dict_keys d)"

definition drop_step :: "cdict \<Rightarrow> dkey \<Rightarrow> cdict \<Rightarrow> cdict" where
  "drop_step d key d_flat =
     (if length key \<le> 1 then d_flat
      else if dict_has d [hd key] \<and> map_of d [hd key] = map_of d key then dict_del key d_flat
      else
        let new_key = (if same_for_all d key then [hd key] else [flat_key key])
        in case map_of d_flat key of
             None \<Rightarrow> d_flat
           | Some v \<Rightarrow> dict_set new_key v (dict_del key d_flat))"

definition drop_suffixes :: "cdict \<Rightarrow> cdict" where
  "drop_suffixes d = fold (drop_step d) (dict_keys d) d"

section \<open>Substitution\<close>

text \<open>The regular expression of a reference, with the shortest non-empty name.\<close>

fun until_brace :: "string \<Rightarrow> (string \<times> string) option" where
  "until_brace [] = None"
| "until_brace (c # cs) =
     (if c = CHR ''}'' then Some ([], cs)
      else if c = CHR 0x0A then None
      else map_option (\<lambda>(name, rest). (c # name, rest)) (until_brace cs))"

fun ref_here :: "string \<Rightarrow> (string \<times> string) option" where
  "ref_here (a # b # c # rest) =
     (if a = CHR ''$'' \<and> b = CHR ''{'' \<and> c \<noteq> CHR 0x0A
      then map_option (\<lambda>(name, rest). (c # name, rest)) (until_brace rest) else None)"
| "ref_here _ = None"

fun split_ref :: "string \<Rightarrow> (string \<times> string \<times> string) option" where
  "split_ref [] = None"
| "split_ref (c # cs) =
     (case ref_here (c # cs) of
        Some (name, rest) \<Rightarrow> Some ([], name, rest)
      | None \<Rightarrow> map_option (\<lambda>(pre, name, rest). (c # pre, name, rest)) (split_ref cs))"

lemma until_brace_length: "until_brace s = Some (name, rest) \<Longrightarrow> length rest < length s"
  by (induction s arbitrary: name rest) (fastforce split: if_splits)+

lemma split_ref_length: "split_ref s = Some (pre, name, rest) \<Longrightarrow> length rest < length s"
proof (induction s arbitrary: pre name rest)
  case (Cons c cs)
  have "length r < length (c # cs)" if "ref_here (c # cs) = Some (n, r)" for n r
    using that by (cases "(c # cs)" rule: ref_here.cases) (auto dest!: until_brace_length split: if_splits)
  then show ?case using Cons by (fastforce split: option.splits)
qed simp

text \<open>\<open>str\<close> of a value; the representation of strings without quotes and special characters.\<close>

definition py_repr :: "string \<Rightarrow> string res" where
  "py_repr s = (if list_all (\<lambda>c. (of_char c :: nat) \<ge> 32 \<and> (of_char c :: nat) < 127
        \<and> c \<noteq> CHR 0x27 \<and> c \<noteq> CHR 0x5C) s
      then Inr ([CHR 0x27] @ s @ [CHR 0x27]) else Inl NotImplementedError)"

primrec reprs :: "string list \<Rightarrow> string list res" where
  "reprs [] = Inr []"
| "reprs (s # ss) = bindE (py_repr s) (\<lambda>r. bindE (reprs ss) (\<lambda>rs. Inr (r # rs)))"

definition py_str :: "dval \<Rightarrow> string res" where
  "py_str v = (case v of
     Text s \<Rightarrow> Inr s
   | Names ss \<Rightarrow> bindE (reprs ss) (\<lambda>rs. Inr (''['' @ join '', '' rs @ '']''))
   | FileMap m \<Rightarrow> bindE (reprs (map fst m)) (\<lambda>ks. bindE (reprs (map snd m)) (\<lambda>vs.
       Inr (''{'' @ join '', '' (map (\<lambda>(k, v). k @ '': '' @ v) (zip ks vs)) @ ''}''))))"

text \<open>An unknown name ends the substitution; what follows is kept as it is.\<close>

function substitute_all :: "cdict \<Rightarrow> string \<Rightarrow> string res" where
  "substitute_all d_flat value =
     (case split_ref value of
        None \<Rightarrow> Inr value
      | Some (pre, name, rest) \<Rightarrow>
          (case map_of d_flat [name] of
             None \<Rightarrow> Inr value
           | Some v \<Rightarrow> bindE (py_str v) (\<lambda>s. bindE (substitute_all d_flat rest) (\<lambda>t. Inr (pre @ s @ t)))))"
  by pat_completeness auto
termination
  by (relation "measure (\<lambda>(d, s). length s)") (auto dest: split_ref_length)

declare substitute_all.simps [simp del]

definition substitute_refs :: "string \<Rightarrow> cdict \<Rightarrow> string res" where
  "substitute_refs value d =
     (if CHR ''$'' \<in> set value then substitute_all (drop_suffixes d) value else Inr value)"

section \<open>Operators\<close>

datatype oper =
    SetOp string string | AppendOp string string | PrependOp string string | LazySetOp string string
  | RegExpSet string string | RegExpAppend string string | RegExpPrepend string string
  | DelOp string | ApplyPreDict "(string, string) dict"
  | UpdateFileMap string string string
  | SuffixOp string

definition keystr :: "dkey \<Rightarrow> string" where
  "keystr key = concat key"

text \<open>The keys that a regular expression selects, reserved ones apart.\<close>

definition selected_keys :: "(string \<Rightarrow> bool) \<Rightarrow> cdict \<Rightarrow> dkey list" where
  "selected_keys rx d = filter (\<lambda>key. \<not> is_reserved key \<and> rx (keystr key)) (dict_keys d)"

primrec update_texts :: "(string \<Rightarrow> string) \<Rightarrow> dkey list \<Rightarrow> cdict \<Rightarrow> cdict res" where
  "update_texts f [] d = Inr d"
| "update_texts f (key # keys) d =
     bindE (of_option KeyError (map_of d key)) (\<lambda>v. bindE (text_of v) (\<lambda>s.
       update_texts f keys (dict_set key (Text (f s)) d)))"

definition old_text :: "cdict \<Rightarrow> string \<Rightarrow> string res" where
  "old_text d name = (case map_of d [name] of None \<Rightarrow> Inr [] | Some v \<Rightarrow> text_of v)"

definition apply_assign :: "oper \<Rightarrow> cdict \<Rightarrow> cdict res" where
  "apply_assign op d = (case op of
     SetOp name value \<Rightarrow>
       if is_reserved [name] then Inr d
       else bindE (substitute_refs value d) (\<lambda>s. Inr (dict_set [name] (Text s) d))
   | AppendOp name value \<Rightarrow>
       if is_reserved [name] then Inr d
       else bindE (old_text d name) (\<lambda>old. bindE (substitute_refs value d) (\<lambda>s.
              Inr (dict_set [name] (Text (old @ s)) d)))
   | PrependOp name value \<Rightarrow>
       if is_reserved [name] then Inr d
       else bindE (substitute_refs value d) (\<lambda>s. bindE (old_text d name) (\<lambda>old.
              Inr (dict_set [name] (Text (s @ old)) d)))
   | LazySetOp name value \<Rightarrow>
       if is_reserved [name] \<or> dict_has d [name] then Inr d
       else bindE (substitute_refs value d) (\<lambda>s. Inr (dict_set [name] (Text s) d))
   | _ \<Rightarrow> Inr d)"

definition apply_regexp :: "pylib \<Rightarrow> string \<Rightarrow> string \<Rightarrow> (string \<Rightarrow> string \<Rightarrow> string) \<Rightarrow> cdict \<Rightarrow> cdict res" where
  "apply_regexp lib name value f d =
     bindE (re_compile lib (name @ ''$'')) (\<lambda>rx.
     bindE (substitute_refs value d) (\<lambda>s. update_texts (f s) (selected_keys rx d) d))"

definition apply_suffix :: "string \<Rightarrow> cdict \<Rightarrow> cdict" where
  "apply_suffix sfx d =
     fold (\<lambda>(key, v) d. if is_reserved key then d
         else case map_of d key of
             None \<Rightarrow> d
           | Some v \<Rightarrow> dict_set (key @ [sfx]) v (dict_del key d)) d d"

definition update_file_map :: "string \<Rightarrow> string \<Rightarrow> string \<Rightarrow> cdict \<Rightarrow> cdict res" where
  "update_file_map shortname name dest d =
     (case (case map_of d [dest] of None \<Rightarrow> FileMap [] | Some v \<Rightarrow> v) of
        FileMap m \<Rightarrow>
          Inr (dict_set [dest] (FileMap (dict_set shortname
            (case map_of m shortname of None \<Rightarrow> name | Some old_name \<Rightarrow> name @ ''.'' @ old_name) m)) d)
      | _ \<Rightarrow> Inl TypeError)"

definition apply_oper :: "pylib \<Rightarrow> oper \<Rightarrow> cdict \<Rightarrow> cdict res" where
  "apply_oper lib op d = (case op of
     RegExpSet name value \<Rightarrow> apply_regexp lib name value (\<lambda>s old. s) d
   | RegExpAppend name value \<Rightarrow> apply_regexp lib name value (\<lambda>s old. old @ s) d
   | RegExpPrepend name value \<Rightarrow> apply_regexp lib name value (\<lambda>s old. s @ old) d
   | DelOp name \<Rightarrow> bindE (re_compile lib (name @ ''$'')) (\<lambda>rx. Inr (fold dict_del (selected_keys rx d) d))
   | ApplyPreDict pre \<Rightarrow> Inr (fold (\<lambda>(k, v). dict_set [k] (Text v)) pre d)
   | UpdateFileMap f name dst \<Rightarrow> update_file_map f name dst d
   | SuffixOp sfx \<Rightarrow> Inr (apply_suffix sfx d)
   | _ \<Rightarrow> apply_assign op d)"

primrec apply_opers :: "pylib \<Rightarrow> oper list \<Rightarrow> cdict \<Rightarrow> cdict res" where
  "apply_opers lib [] d = Inr d"
| "apply_opers lib (op # ops) d = bindE (apply_oper lib op d) (apply_opers lib ops)"

section \<open>Limits\<close>

definition unit_letters :: "string" where
  "unit_letters = ''BbKkMmGgTt''"

definition order_of_unit :: "char \<Rightarrow> int" where
  "order_of_unit c =
     (if c \<in> set ''Bb'' then 1 else if c \<in> set ''Kk'' then 1024
      else if c \<in> set ''Mm'' then 1024 * 1024 else if c \<in> set ''Gg'' then 1024 * 1024 * 1024
      else 1024 * 1024 * 1024 * 1024)"

text \<open>\<open>int\<close> of a float, towards zero.\<close>

definition int_of_float :: "rat \<Rightarrow> int" where
  "int_of_float x = (if x \<ge> 0 then floor x else ceiling x)"

definition convert_data_size :: "pylib \<Rightarrow> string \<Rightarrow> char \<Rightarrow> int res" where
  "convert_data_size lib str default_sufix =
     (if str = [] then Inl IndexError
      else
        let (sz, order) = (if last str \<in> set unit_letters then (str, last str)
                             else (str @ [default_sufix], default_sufix))
        in bindE (to_float lib (butlast sz)) (\<lambda>x.
             Inr (int_of_float (x * of_int (order_of_unit order)))))"

definition compare_string :: "pylib \<Rightarrow> string \<Rightarrow> string \<Rightarrow> int res" where
  "compare_string lib str1 str2 =
     (let value = (if (\<exists>c \<in> set (str1 @ str2). c \<in> set unit_letters)
                   then (\<lambda>s. convert_data_size lib s (CHR ''M'')) else py_int)
      in bindE (value str1) (\<lambda>value1. bindE (value str2) (\<lambda>value2.
           Inr (if value1 < value2 then - 1 else if value1 = value2 then 0 else 1))))"

text \<open>The new value for a limit: the limit when there is no value or it violates the limit.\<close>

definition limit_step :: "pylib \<Rightarrow> cdict \<Rightarrow> dkey \<Rightarrow> cdict \<Rightarrow> cdict res" where
  "limit_step lib dic key tmp_dict =
     (if length key \<noteq> 1 then Inr tmp_dict
      else
        let k = hd key; v = dict_get dic key (Text []);
            unless = (\<lambda>base violates.
              case map_of dic [base] of
                None \<Rightarrow> Inr (dict_set [base] v tmp_dict)
              | Some old \<Rightarrow>
                  bindE (text_of old) (\<lambda>s. bindE (text_of v) (\<lambda>t. bindE (compare_string lib s t) (\<lambda>c.
                    Inr (if violates c then dict_set [base] v tmp_dict else tmp_dict)))))
        in if endswith k ''_max'' then unless (before_first ''_max'' k) (\<lambda>c. c > 0)
           else if endswith k ''_min'' then unless (before_first ''_min'' k) (\<lambda>c. c < 0)
           else if endswith k ''_fixed'' then Inr (dict_set [before_first ''_fixed'' k] v tmp_dict)
           else Inr tmp_dict)"

primrec limits :: "pylib \<Rightarrow> cdict \<Rightarrow> dkey list \<Rightarrow> cdict \<Rightarrow> cdict res" where
  "limits lib dic [] tmp_dict = Inr tmp_dict"
| "limits lib dic (key # keys) tmp_dict =
     bindE (limit_step lib dic key tmp_dict) (limits lib dic keys)"

definition postfix_parse :: "pylib \<Rightarrow> cdict \<Rightarrow> cdict res" where
  "postfix_parse lib dic =
     bindE (limits lib dic (dict_keys dic) []) (\<lambda>tmp_dict. Inr (dict_update dic tmp_dict))"

section \<open>Merging suffixes loses no value\<close>

text \<open>Flattened names do not collide with each other or with the names that carry no suffix.\<close>

definition separate_keys :: "cdict \<Rightarrow> bool" where
  "separate_keys d \<longleftrightarrow> (\<forall>k \<in> set (dict_keys d). k \<noteq> [] \<and> (length k > 1 \<longrightarrow>
     (\<forall>k' \<in> set (dict_keys d). flat_key k \<noteq> hd k' \<and> (length k' > 1 \<and> flat_key k = flat_key k' \<longrightarrow> k = k'))))"

definition is_general :: "cdict \<Rightarrow> dkey \<Rightarrow> bool" where
  "is_general d k \<longleftrightarrow> dict_has d [hd k] \<and> map_of d [hd k] = map_of d k"

definition merged_key :: "cdict \<Rightarrow> dkey \<Rightarrow> dkey" where
  "merged_key d k =
     (if length k \<le> 1 then k else if is_general d k \<or> same_for_all d k then [hd k] else [flat_key k])"

lemma merged_key_length: "length (merged_key d k) \<le> 1"
  by (simp add: merged_key_def)

lemma same_for_allD: "same_for_all d k \<Longrightarrow> k' \<in> set (dict_keys d) \<Longrightarrow> hd k' = hd k \<Longrightarrow> map_of d k' = map_of d k"
  by (auto simp: same_for_all_def list_all_iff)

lemma separate_plain: "separate_keys d \<Longrightarrow> k \<in> set (dict_keys d) \<Longrightarrow> length k \<le> 1 \<Longrightarrow> k = [hd k]"
  by (cases k) (auto simp: separate_keys_def)

text \<open>Keys that are merged into the same key have the same value.\<close>

lemma merged_key_value:
  assumes sep: "separate_keys d" and k: "k \<in> set (dict_keys d)" and k': "k' \<in> set (dict_keys d)"
    and eq: "merged_key d k = merged_key d k'"
  shows "map_of d k = map_of d k'"
proof -
  have cases: "merged_key d j = [hd j] \<and> (is_general d j \<or> same_for_all d j \<or> j = [hd j])
      \<or> merged_key d j = [flat_key j] \<and> length j > 1" if "j \<in> set (dict_keys d)" for j
    using separate_plain [OF sep that] by (auto simp: merged_key_def)
  have flat: "flat_key j \<noteq> hd j'" "length j' > 1 \<Longrightarrow> flat_key j = flat_key j' \<Longrightarrow> j = j'"
    if "j \<in> set (dict_keys d)" "j' \<in> set (dict_keys d)" "length j > 1" for j j'
    using sep that by (auto simp: separate_keys_def)
  have general: "map_of d j = map_of d [hd j]" if "is_general d j \<or> j = [hd j]" for j
    using that by (auto simp: is_general_def)
  consider "merged_key d k = [hd k]" "merged_key d k' = [hd k']" | "merged_key d k = [flat_key k]" "length k > 1"
      "merged_key d k' = [flat_key k']" "length k' > 1" | "merged_key d k = [flat_key k]" "length k > 1" "merged_key d k' = [hd k']"
    | "merged_key d k = [hd k]" "merged_key d k' = [flat_key k']" "length k' > 1"
    using cases [OF k] cases [OF k'] by blast
  then show ?thesis
  proof cases
    case 1
    then have hd: "hd k = hd k'" using eq by simp
    have value_hd: "map_of d j = map_of d [hd j]" if "j \<in> set (dict_keys d)" "merged_key d j = [hd j]" "\<not> same_for_all d j" for j
      using cases [OF that(1)] flat(1) [OF that(1) that(1)] that(2,3) general [of j] by auto
    consider "same_for_all d k" | "same_for_all d k'" | "\<not> same_for_all d k" "\<not> same_for_all d k'" by blast
    then show ?thesis
    proof cases
      case 1
      then show ?thesis using same_for_allD [of d k k'] k' hd by simp
    next
      case 2
      then show ?thesis using same_for_allD [of d k' k] k hd by simp
    next
      case 3
      then show ?thesis using value_hd [OF k \<open>merged_key d k = [hd k]\<close>] value_hd [OF k' \<open>merged_key d k' = [hd k']\<close>] hd by simp
    qed
  next
    case 2
    then have "k = k'" by (intro flat(2) [OF k k']) (use eq in simp_all)
    then show ?thesis by simp
  next
    case 3
    then show ?thesis using flat(1) [OF k k'] eq by simp
  next
    case 4
    then show ?thesis using flat(1) [OF k' k] eq by simp
  qed
qed

text \<open>What holds when the keys in \<open>P\<close> have been merged.\<close>

definition merged :: "cdict \<Rightarrow> dkey set \<Rightarrow> cdict \<Rightarrow> bool" where
  "merged d P r \<longleftrightarrow>
     (\<forall>k \<in> set (dict_keys d). (length k \<le> 1 \<or> k \<notin> P \<longrightarrow> map_of r k = map_of d k)
        \<and> (k \<in> P \<longrightarrow> map_of r (merged_key d k) = map_of d k))
     \<and> (\<forall>k. length k > 1 \<longrightarrow> map_of r k \<noteq> None \<longrightarrow> k \<in> set (dict_keys d) - P)"

lemma merged_keep: "merged d P r \<Longrightarrow> k \<in> set (dict_keys d) \<Longrightarrow> length k \<le> 1 \<or> k \<notin> P \<Longrightarrow> map_of r k = map_of d k"
  unfolding merged_def by blast

lemma merged_in: "merged d P r \<Longrightarrow> k \<in> set (dict_keys d) \<Longrightarrow> k \<in> P \<Longrightarrow> map_of r (merged_key d k) = map_of d k"
  unfolding merged_def by blast

lemma merged_long: "merged d P r \<Longrightarrow> length k > 1 \<Longrightarrow> map_of r k \<noteq> None \<Longrightarrow> k \<in> set (dict_keys d) - P"
  unfolding merged_def by blast

lemma mergedI:
  assumes "\<And>k. k \<in> set (dict_keys d) \<Longrightarrow> length k \<le> 1 \<or> k \<notin> P \<Longrightarrow> map_of r k = map_of d k"
    and "\<And>k. k \<in> set (dict_keys d) \<Longrightarrow> k \<in> P \<Longrightarrow> map_of r (merged_key d k) = map_of d k"
    and "\<And>k. length k > 1 \<Longrightarrow> map_of r k \<noteq> None \<Longrightarrow> k \<in> set (dict_keys d) - P"
  shows "merged d P r"
  using assms unfolding merged_def by blast

lemma merged_step:
  assumes sep: "separate_keys d" and m: "merged d P r" and k: "k \<in> set (dict_keys d)" "k \<notin> P"
  shows "merged d (insert k P) (drop_step d k r)"
proof (cases "length k \<le> 1")
  case True
  then have step: "drop_step d k r = r" "merged_key d k = k" by (simp_all add: drop_step_def merged_key_def)
  show ?thesis
    unfolding step
  proof (rule mergedI)
    fix j assume j: "j \<in> set (dict_keys d)" "j \<in> insert k P"
    then show "map_of r (merged_key d j) = map_of d j"
      using merged_in [OF m j(1)] merged_keep [OF m k(1)] True step(2) by (cases "j = k") simp_all
  qed (use merged_keep [OF m] merged_long [OF m] True in auto)
next
  case long: False
  have r: "map_of r k = map_of d k" using merged_keep [OF m] k by simp
  obtain v where v: "map_of d k = Some v"
    using k(1) by (cases "map_of d k") (auto simp: dict_keys_def map_of_eq_None_iff)
  have ne: "merged_key d j \<noteq> k" for j using merged_key_length [of d j] long by auto
  show ?thesis
  proof (cases "is_general d k")
    case True
    then have step: "drop_step d k r = dict_del k r" "merged_key d k = [hd k]"
      using long by (simp_all add: drop_step_def is_general_def merged_key_def)
    have "[hd k] \<in> set (dict_keys d)" "map_of d [hd k] = map_of d k"
      using True by (simp_all add: is_general_def dict_has_iff)
    then have general: "map_of r [hd k] = map_of d k" using merged_keep [OF m] by simp
    show ?thesis
      unfolding step(1)
    proof (rule mergedI)
      fix j assume j: "j \<in> set (dict_keys d)" "j \<in> insert k P"
      show "map_of (dict_del k r) (merged_key d j) = map_of d j"
        using merged_in [OF m j(1)] j(2) general step(2) ne [of j] by (cases "j = k") simp_all
    next
      fix j :: dkey assume "1 < length j" "map_of (dict_del k r) j \<noteq> None"
      then show "j \<in> set (dict_keys d) - insert k P" using merged_long [OF m, of j] by (cases "j = k") simp_all
    qed (use merged_keep [OF m] long in auto)
  next
    case False
    let ?r = "dict_set (merged_key d k) v (dict_del k r)"
    have key: "merged_key d k = (if same_for_all d k then [hd k] else [flat_key k])"
      using False long by (simp add: merged_key_def)
    have step: "drop_step d k r = ?r"
    proof -
      have "(dict_has d [hd k] \<and> map_of d [hd k] = map_of d k) = False" using False by (simp add: is_general_def)
      then show ?thesis using long unfolding drop_step_def key by (simp add: r v Let_def del: de_Morgan_conj)
    qed
    have same: "map_of d j = Some v" if "j \<in> set (dict_keys d)" "merged_key d j = merged_key d k" for j
      using merged_key_value [OF sep that(1) k(1) that(2)] v by simp
    show ?thesis
      unfolding step
    proof (rule mergedI)
      fix j assume j: "j \<in> set (dict_keys d)" "length j \<le> 1 \<or> j \<notin> insert k P"
      show "map_of ?r j = map_of d j"
      proof (cases "j = merged_key d k")
        case True
        then have "length j \<le> 1" using merged_key_length [of d k] by simp
        then have "merged_key d j = merged_key d k" using True by (simp add: merged_key_def)
        then show ?thesis using same [OF j(1)] True by simp
      next
        case False
        then show ?thesis using merged_keep [OF m j(1)] j(2) long by auto
      qed
    next
      fix j assume j: "j \<in> set (dict_keys d)" "j \<in> insert k P"
      show "map_of ?r (merged_key d j) = map_of d j"
      proof (cases "merged_key d j = merged_key d k")
        case True
        then show ?thesis using same [OF j(1)] by simp
      next
        case False
        then show ?thesis using merged_in [OF m j(1)] j(2) ne [of j] by auto
      qed
    next
      fix j :: dkey assume j: "1 < length j" "map_of ?r j \<noteq> None"
      then have "j \<noteq> merged_key d k" using merged_key_length [of d k] by auto
      then show "j \<in> set (dict_keys d) - insert k P" using j merged_long [OF m j(1)] by (cases "j = k") simp_all
    qed
  qed
qed

lemma merged_fold:
  "separate_keys d \<Longrightarrow> merged d P r \<Longrightarrow> set ks \<subseteq> set (dict_keys d) \<Longrightarrow> distinct ks \<Longrightarrow> set ks \<inter> P = {}
   \<Longrightarrow> merged d (P \<union> set ks) (fold (drop_step d) ks r)"
proof (induction ks arbitrary: P r)
  case (Cons k ks)
  then have "merged d (insert k P) (drop_step d k r)" by (simp add: merged_step)
  then have "merged d (insert k P \<union> set ks) (fold (drop_step d) ks (drop_step d k r))"
    by (rule Cons.IH [OF Cons.prems(1)]) (use Cons.prems in auto)
  then show ?case by simp
qed simp



section \<open>Values within their limits\<close>

text \<open>The keys that limit a name.\<close>

definition limits_name :: "string \<Rightarrow> dkey \<Rightarrow> bool" where
  "limits_name base key \<longleftrightarrow> length key = 1 \<and>
     (if endswith (hd key) ''_max'' then before_first ''_max'' (hd key) = base
      else if endswith (hd key) ''_min'' then before_first ''_min'' (hd key) = base
      else endswith (hd key) ''_fixed'' \<and> before_first ''_fixed'' (hd key) = base)"

definition at_most :: "pylib \<Rightarrow> string \<Rightarrow> string \<Rightarrow> bool" where
  "at_most lib s t \<longleftrightarrow> s = t \<or> compare_string lib s t \<in> {Inr (- 1), Inr 0}"

lemma compare_range: "compare_string lib s t = Inr c \<Longrightarrow> c \<in> {- 1, 0, 1}"
  unfolding compare_string_def Let_def bindE_Inr_iff by (elim exE conjE) (simp split: if_splits)

lemma compare_swap: "compare_string lib s t = Inr c \<Longrightarrow> compare_string lib t s = Inr (- c)"
proof -
  define num where "num = (if \<exists>c \<in> set (s @ t). c \<in> set unit_letters
      then (\<lambda>s. convert_data_size lib s (CHR ''M'')) else py_int)"
  have "set (t @ s) = set (s @ t)" by auto
  then have run: "compare_string lib s t = bindE (num s) (\<lambda>v. bindE (num t) (\<lambda>w. Inr (if v < w then - 1 else if v = w then 0 else 1)))"
    "compare_string lib t s = bindE (num t) (\<lambda>v. bindE (num s) (\<lambda>w. Inr (if v < w then - 1 else if v = w then 0 else 1)))"
    unfolding compare_string_def Let_def num_def by simp_all
  show "compare_string lib s t = Inr c \<Longrightarrow> ?thesis"
    unfolding run by (cases "num s"; cases "num t") (auto split: if_splits)
qed

lemma limit_step_other:
  assumes "limit_step lib dic key tmp = Inr tmp'" and "\<not> limits_name base key"
  shows "map_of tmp' [base] = map_of tmp [base]"
  using assms
  by (auto simp: limit_step_def limits_name_def Let_def bindE_Inr_iff split: if_splits option.splits)

lemma endswith_sep:
  "endswith (base @ ''_max'') ''_max''" "endswith (base @ ''_min'') ''_min''" "\<not> endswith (base @ ''_min'') ''_max''"
proof -
  show "endswith (base @ ''_max'') ''_max''" "endswith (base @ ''_min'') ''_min''" by (simp_all only: endswith_def suffix_def) blast+
  have "last (base @ ''_min'') \<noteq> last (u @ ''_max'')" for u by simp
  then show "\<not> endswith (base @ ''_min'') ''_max''" unfolding endswith_def suffix_def by metis
qed

lemma limit_key_split:
  assumes "limits_name base [base @ ''_max'']" shows "before_first ''_max'' (base @ ''_max'') = base"
  using assms by (simp add: limits_name_def endswith_sep)

lemma min_key_split:
  assumes "limits_name base [base @ ''_min'']" shows "before_first ''_min'' (base @ ''_min'') = base"
  using assms by (simp add: limits_name_def endswith_sep)

lemma limit_step_max:
  assumes "limit_step lib dic [base @ ''_max''] tmp = Inr tmp'" and "limits_name base [base @ ''_max'']"
    and "map_of dic [base @ ''_max''] = Some (Text hi)"
  shows "map_of tmp' [base] = Some (Text hi) \<or> map_of tmp' [base] = map_of tmp [base]
    \<and> (\<exists>s. map_of dic [base] = Some (Text s) \<and> at_most lib s hi)"
proof (cases "map_of dic [base]")
  case None
  then show ?thesis
    using assms limit_key_split [OF assms(2)] by (auto simp: limit_step_def Let_def endswith_sep dict_get_def text_of_def)
next
  case (Some old)
  have "bindE (text_of old) (\<lambda>s. bindE (compare_string lib s hi) (\<lambda>c.
      Inr (if c > 0 then dict_set [base] (Text hi) tmp else tmp))) = Inr tmp'"
    using assms(1,3) limit_key_split [OF assms(2)] Some
    by (simp add: limit_step_def Let_def endswith_sep dict_get_def text_of_def cong: if_cong)
  then obtain s c where s: "text_of old = Inr s" "compare_string lib s hi = Inr c"
    "tmp' = (if c > 0 then dict_set [base] (Text hi) tmp else tmp)" by (auto simp: bindE_Inr_iff)
  moreover have "old = Text s" using s(1) by (cases old) (simp_all add: text_of_def)
  ultimately show ?thesis using Some compare_range [OF s(2)] by (auto simp: at_most_def)
qed

lemma limit_step_min:
  assumes "limit_step lib dic [base @ ''_min''] tmp = Inr tmp'" and "limits_name base [base @ ''_min'']"
    and "map_of dic [base @ ''_min''] = Some (Text lo)"
  shows "map_of tmp' [base] = Some (Text lo) \<or> map_of tmp' [base] = map_of tmp [base]
    \<and> (\<exists>s. map_of dic [base] = Some (Text s) \<and> at_most lib lo s)"
proof (cases "map_of dic [base]")
  case None
  then show ?thesis
    using assms min_key_split [OF assms(2)] by (auto simp: limit_step_def Let_def endswith_sep dict_get_def text_of_def)
next
  case (Some old)
  have "bindE (text_of old) (\<lambda>s. bindE (compare_string lib s lo) (\<lambda>c.
      Inr (if c < 0 then dict_set [base] (Text lo) tmp else tmp))) = Inr tmp'"
    using assms(1,3) min_key_split [OF assms(2)] Some
    by (simp add: limit_step_def Let_def endswith_sep dict_get_def text_of_def cong: if_cong)
  then obtain s c where s: "text_of old = Inr s" "compare_string lib s lo = Inr c"
    "tmp' = (if c < 0 then dict_set [base] (Text lo) tmp else tmp)" by (auto simp: bindE_Inr_iff)
  moreover have "old = Text s" using s(1) by (cases old) (simp_all add: text_of_def)
  ultimately show ?thesis using Some compare_range [OF s(2)] compare_swap [OF s(2)] by (auto simp: at_most_def)
qed

text \<open>What holds when the keys in \<open>P\<close> have been looked at.\<close>

definition limited :: "pylib \<Rightarrow> cdict \<Rightarrow> string \<Rightarrow> string \<Rightarrow> string \<Rightarrow> dkey set \<Rightarrow> cdict \<Rightarrow> bool" where
  "limited lib dic base lo hi P tmp \<longleftrightarrow> map_of tmp [base] \<in> {Some (Text lo), Some (Text hi)}
     \<or> map_of tmp [base] = None
       \<and> ([base @ ''_max''] \<in> P \<longrightarrow> (\<exists>s. map_of dic [base] = Some (Text s) \<and> at_most lib s hi))
       \<and> ([base @ ''_min''] \<in> P \<longrightarrow> (\<exists>s. map_of dic [base] = Some (Text s) \<and> at_most lib lo s))"

lemma limited_run:
  assumes keys: "{k. k \<in> set (dict_keys dic) \<and> limits_name base k} = {[base @ ''_max''], [base @ ''_min'']}"
    and hi: "map_of dic [base @ ''_max''] = Some (Text hi)" and lo: "map_of dic [base @ ''_min''] = Some (Text lo)"
  shows "limits lib dic ks tmp = Inr tmp' \<Longrightarrow> set ks \<subseteq> set (dict_keys dic) \<Longrightarrow> limited lib dic base lo hi P tmp
    \<Longrightarrow> limited lib dic base lo hi (P \<union> set ks) tmp'"
proof (induction ks arbitrary: tmp P)
  case (Cons k ks)
  from Cons.prems(1) obtain t where t: "limit_step lib dic k tmp = Inr t" "limits lib dic ks t = Inr tmp'"
    by (auto simp: bindE_Inr_iff)
  have names: "limits_name base [base @ ''_max'']" "limits_name base [base @ ''_min'']" using keys by blast+
  consider "k = [base @ ''_max'']" | "k = [base @ ''_min'']" | "\<not> limits_name base k"
    using keys Cons.prems(2) by auto
  then have "limited lib dic base lo hi (insert k P) t"
  proof cases
    case 1
    then show ?thesis using limit_step_max [OF t(1) [unfolded 1] names(1) hi] Cons.prems(3) by (auto simp: limited_def)
  next
    case 2
    then show ?thesis using limit_step_min [OF t(1) [unfolded 2] names(2) lo] Cons.prems(3) by (auto simp: limited_def)
  next
    case 3
    then have "k \<noteq> [base @ ''_max'']" "k \<noteq> [base @ ''_min'']" using names by auto
    then show ?thesis using limit_step_other [OF t(1) 3] Cons.prems(3) by (auto simp: limited_def)
  qed
  with Cons.IH [OF t(2), of "insert k P"] Cons.prems(2)
  have "limited lib dic base lo hi (insert k P \<union> set ks) tmp'" by simp
  then show ?case by simp
qed simp

lemma limits_distinct:
  "limits lib dic ks tmp = Inr tmp' \<Longrightarrow> distinct (dict_keys tmp) \<Longrightarrow> distinct (dict_keys tmp')"
proof (induction ks arbitrary: tmp)
  case (Cons k ks)
  from Cons.prems(1) obtain t where t: "limit_step lib dic k tmp = Inr t" "limits lib dic ks t = Inr tmp'"
    by (auto simp: bindE_Inr_iff)
  then have "distinct (dict_keys t)"
    using Cons.prems(2) by (auto simp: limit_step_def Let_def bindE_Inr_iff split: if_splits option.splits)
  then show ?case using Cons.IH [OF t(2)] by simp
qed simp

lemma map_of_dict_update:
  "distinct (map fst e) \<Longrightarrow> map_of (dict_update d e) k = (case map_of e k of None \<Rightarrow> map_of d k | Some v \<Rightarrow> Some v)"
proof (induction e arbitrary: d)
  case (Cons kv e)
  obtain k' v where kv: "kv = (k', v)" by (cases kv)
  have "map_of e k' = None" using Cons.prems kv by (simp add: map_of_eq_None_iff)
  then show ?case using Cons.IH [of "dict_set k' v d"] Cons.prems kv by (auto simp: dict_update_def split: option.split)
qed (simp add: dict_update_def)

text \<open>C18:
  A name with a minimum and a maximum ends up within both when its dictionary is finished: a
  value outside is replaced by the limit it violates, and a missing one by a limit. It needs
  that the minimum is at most the maximum and that no other key limits the name.
\<close>

theorem limits_are_respected:
  assumes "{k. k \<in> set (dict_keys dic) \<and> limits_name base k} = {[base @ ''_max''], [base @ ''_min'']}"
    and "map_of dic [base @ ''_max''] = Some (Text hi)" and "map_of dic [base @ ''_min''] = Some (Text lo)"
    and "compare_string lib lo hi \<in> {Inr (- 1), Inr 0}"
    and "postfix_parse lib dic = Inr dic'"
  shows "\<exists>s. map_of dic' [base] = Some (Text s) \<and> at_most lib lo s \<and> at_most lib s hi
    \<and> (map_of dic [base] = Some (Text s) \<or> s \<in> {lo, hi})"
proof -
  obtain tmp where tmp: "limits lib dic (dict_keys dic) [] = Inr tmp" "dic' = dict_update dic tmp"
    using assms(5) by (auto simp: postfix_parse_def bindE_Inr_iff)
  have "limited lib dic base lo hi {} []" by (simp add: limited_def)
  from limited_run [OF assms(1-3) tmp(1) subset_refl this]
  have l: "limited lib dic base lo hi (set (dict_keys dic)) tmp" by simp
  have d: "distinct (map fst tmp)" using limits_distinct [OF tmp(1)] by (simp add: dict_keys_def)
  have new: "map_of dic' [base] = (case map_of tmp [base] of None \<Rightarrow> map_of dic [base] | Some v \<Rightarrow> Some v)"
    using map_of_dict_update [OF d] by (simp add: tmp(2))
  have "[base @ ''_max''] \<in> set (dict_keys dic)" "[base @ ''_min''] \<in> set (dict_keys dic)" using assms(1) by blast+
  then show ?thesis using l new assms(4) unfolding limited_def by (auto simp: at_most_def)
qed

lemma limits_are_respected_witness:
  "\<exists>s. map_of [([''mem''], Text ''512''), ([''mem_min''], Text ''256''), ([''mem_max''], Text ''512'')] [''mem''] = Some (Text s)
    \<and> at_most \<lparr>re_compile = (\<lambda>_. Inl ValueError), to_float = (\<lambda>_. Inl ValueError)\<rparr> ''256'' s
    \<and> at_most \<lparr>re_compile = (\<lambda>_. Inl ValueError), to_float = (\<lambda>_. Inl ValueError)\<rparr> s ''512'' \<and> (s = ''4096'' \<or> s \<in> {''256'', ''512''})"
proof -
  let ?lib = "\<lparr>re_compile = (\<lambda>_. Inl ValueError), to_float = (\<lambda>_. Inl ValueError)\<rparr>"
  let ?dic = "[([''mem''], Text ''4096''), ([''mem_min''], Text ''256''), ([''mem_max''], Text ''512'')]"
  let ?dic' = "[([''mem''], Text ''512''), ([''mem_min''], Text ''256''), ([''mem_max''], Text ''512'')]"
  have int: "py_int ''4096'' = Inr 4096" "py_int ''256'' = Inr 256" "py_int ''512'' = Inr 512" by code_simp+
  have compare: "compare_string ?lib ''4096'' ''256'' = Inr 1" "compare_string ?lib ''4096'' ''512'' = Inr 1"
    "compare_string ?lib ''256'' ''512'' = Inr (- 1)"
    by (simp_all add: compare_string_def int unit_letters_def)
  have "{k. k \<in> set (dict_keys ?dic) \<and> limits_name ''mem'' k} = {[''mem'' @ ''_max''], [''mem'' @ ''_min'']}"
    by (auto simp: dict_keys_def limits_name_def endswith_def suffix_def)
  moreover have "postfix_parse ?lib ?dic = Inr ?dic'"
    by (simp add: postfix_parse_def dict_keys_def limit_step_def Let_def endswith_def suffix_to_prefix dict_get_def
        text_of_def compare dict_update_def dict_set_def)
  ultimately show ?thesis
    using limits_are_respected [of ?dic "''mem''" "''512''" "''256''" ?lib ?dic'] compare by simp
qed

end
