(* ===== verification/CfgTree.thy ===== *)
theory CfgTree
  imports CfgFilter CfgDict
begin

text \<open>
  The enumeration of the Cartesian product, from \<open>Parser.get_dicts\<close>,
  \<open>Parser.get_dicts_plain\<close> and \<open>Parser.multiply_join\<close> in \<open>virttest/cartesian_config.py\<close>.
  The nested functions of \<open>get_dicts_plain\<close> (\<open>process_content\<close>, \<open>might_pass\<close>,
  \<open>add_failed_case\<close>) are definitions of their own.

  A generator is an iteration: what its caller does with a dictionary is a function of the
  dictionary that is run at every \<open>yield\<close>. Generators are consumed to their end.
\<close>

section \<open>Contents of nodes\<close>

datatype item = Item (i_file: string) (i_line: int) (i_obj: iobj)
  and iobj = Oper oper | OnlyF lfilter | NoF lfilter | JoinF lfilter
    | CondF lfilter "item list" | NotCondF lfilter "item list"

text \<open>
  Equality of items: of the class, of the filters and of the position; operators are compared
  by identity and never with a filter. The left side is the one in the list.
\<close>

definition filter_eq :: "lfilter \<Rightarrow> lfilter \<Rightarrow> bool" where
  "filter_eq = list_all2 (list_all2 (list_all2 label_eq))"

fun obj_eq :: "iobj \<Rightarrow> iobj \<Rightarrow> bool" where
  "obj_eq (OnlyF f) (OnlyF g) = filter_eq f g"
| "obj_eq (NoF f) (NoF g) = filter_eq f g"
| "obj_eq (JoinF f) (JoinF g) = filter_eq f g"
| "obj_eq (CondF f _) (CondF g _) = filter_eq f g"
| "obj_eq (NotCondF f _) (NotCondF g _) = filter_eq f g"
| "obj_eq _ _ = False"

definition item_eq :: "item \<Rightarrow> item \<Rightarrow> bool" where
  "item_eq a b \<longleftrightarrow> i_file a = i_file b \<and> i_line a = i_line b \<and> obj_eq (i_obj a) (i_obj b)"

definition in_items :: "item \<Rightarrow> item list \<Rightarrow> bool" where
  "in_items t items \<longleftrightarrow> list_ex (\<lambda>e. item_eq e t) items"

section \<open>Processing the content of a node\<close>

record pstate =
  new_content :: "item list"
  new_external :: "item list"
  new_internal :: "item list"

definition add_failed :: "bool \<Rightarrow> item \<Rightarrow> pstate \<Rightarrow> pstate" where
  "add_failed external t st =
     (if external then st\<lparr>new_external := new_external st @ [t]\<rparr>
      else st\<lparr>new_internal := new_internal st @ [t]\<rparr>)"

definition keep_item :: "item \<Rightarrow> pstate \<Rightarrow> pstate" where
  "keep_item t st = st\<lparr>new_content := new_content st @ [t]\<rparr>"

text \<open>
  \<open>external\<close> says which of the two lists is \<open>failed_filters\<close>; the content of a condition
  always fails into the internal one. A \<open>JoinFilter\<close> has no \<open>requires_action\<close>.
\<close>

fun process_content :: "label list \<Rightarrow> label list \<Rightarrow> label list \<Rightarrow> bool \<Rightarrow> item list \<Rightarrow> pstate
    \<Rightarrow> (bool \<times> pstate) res" where
  "process_content ctx ctx_set labels external [] st = Inr (True, st)"
| "process_content ctx ctx_set labels external (Item file_name line obj # ts) st =
     (let t = Item file_name line obj;
          others = process_content ctx ctx_set labels external ts;
          fails = (\<lambda>st. Inr (False, add_failed external t st));
          check = (\<lambda>only f action.
            bindE (requires_action only f ctx ctx_set labels) (\<lambda>act.
              if act then action
              else bindE (is_irrelevant only f ctx ctx_set labels) (\<lambda>irrelevant.
                others (if irrelevant then st else keep_item t st))))
      in case obj of
        Oper op \<Rightarrow> others (keep_item t st)
      | OnlyF f \<Rightarrow> check True f (fails st)
      | NoF f \<Rightarrow> check False f (fails st)
      | JoinF f \<Rightarrow> Inl AttributeError
      | CondF f content \<Rightarrow> check False f
          (bindE (process_content ctx ctx_set labels False content st) (\<lambda>(ok, st).
             if ok then others st else fails st))
      | NotCondF f content \<Rightarrow> check True f
          (bindE (process_content ctx ctx_set labels False content st) (\<lambda>(ok, st).
             if ok then others st else fails st)))"

section \<open>The generators\<close>

text \<open>
  Contexts, their sets and the filters that failed in them. The content of a node is a
  reference to a list object, since \<open>multiply_join\<close> extends such lists in place while other
  frames refer to them; reference \<open>r\<close> is the \<open>r\<close>-th list. Nodes are numbered.
\<close>

type_synonym fcase = "label list \<times> label list \<times> item list \<times> item list"

record gen =
  lists :: "item list list"
  content_ref :: "nat list"
  failed_cases :: "fcase list list"
  parent_generator :: bool
  yielded :: "cdict list"

record ninfo =
  n_name :: "label list"
  n_var :: "string option"
  n_dep :: lfilter
  n_labels :: "label list"
  n_append :: bool
  n_default :: bool

datatype cnode = CNode (n_id: nat) (n_info: ninfo) (n_children: "cnode list")

record popts =
  defaults :: bool
  expand_defaults :: "string list"
  pylib :: pylib

definition own_content :: "nat \<Rightarrow> gen \<Rightarrow> item list" where
  "own_content i g = lists g ! (content_ref g ! i)"

definition set_content :: "nat \<Rightarrow> item list \<Rightarrow> gen \<Rightarrow> gen" where
  "set_content i items g =
     g\<lparr>lists := lists g @ [items], content_ref := (content_ref g)[i := length (lists g)]\<rparr>"

definition extend_content :: "nat \<Rightarrow> item list \<Rightarrow> gen \<Rightarrow> gen" where
  "extend_content i items g =
     (let r = content_ref g ! i in g\<lparr>lists := (lists g)[r := lists g ! r @ items]\<rparr>)"

text \<open>Failed cases: look them up before a node is entered, put the one that applies in front.\<close>

fun obj_might_pass :: "iobj \<Rightarrow> label list \<Rightarrow> label list \<Rightarrow> label list \<Rightarrow> label list \<Rightarrow> label list \<Rightarrow> bool res" where
  "obj_might_pass (OnlyF f) = might_pass True f"
| "obj_might_pass (NotCondF f _) = might_pass True f"
| "obj_might_pass (NoF f) = might_pass False f"
| "obj_might_pass (CondF f _) = might_pass False f"
| "obj_might_pass _ = (\<lambda>_ _ _ _ _. Inl AttributeError)"

primrec all_might_pass :: "(item \<Rightarrow> bool res) \<Rightarrow> item list \<Rightarrow> bool res" where
  "all_might_pass P [] = Inr True"
| "all_might_pass P (t # ts) = bindE (P t) (\<lambda>ok. if ok then all_might_pass P ts else Inr False)"

definition case_might_pass :: "label list \<Rightarrow> label list \<Rightarrow> label list \<Rightarrow> item list \<Rightarrow> item list \<Rightarrow> fcase \<Rightarrow> bool res" where
  "case_might_pass ctx ctx_set labels content own fc =
     (case fc of (failed_ctx, failed_ctx_set, external, internal) \<Rightarrow>
        let passes = (\<lambda>t. obj_might_pass (i_obj t) failed_ctx failed_ctx_set ctx ctx_set labels)
        in if list_ex (\<lambda>t. \<not> in_items t (content @ own)) (external @ internal) then Inr True
           else bindE (all_might_pass passes external) (\<lambda>ok.
             if \<not> ok then Inr False
             else if list_ex (\<lambda>t. \<not> in_items t own) internal then Inr True
             else all_might_pass passes internal))"

text \<open>The cases with the applicable one in front, if there is one.\<close>

fun find_failed :: "(fcase \<Rightarrow> bool res) \<Rightarrow> fcase list \<Rightarrow> fcase list \<Rightarrow> fcase list option res" where
  "find_failed passes pre [] = Inr None"
| "find_failed passes pre (fc # fcs) =
     bindE (passes fc) (\<lambda>ok. if ok then find_failed passes (pre @ [fc]) fcs
       else Inr (Some (fc # pre @ fcs)))"

definition num_failed_cases :: nat where
  "num_failed_cases = 5"

definition add_failed_case :: "nat \<Rightarrow> fcase \<Rightarrow> gen \<Rightarrow> gen" where
  "add_failed_case i fc g =
     (let fcs = fc # failed_cases g ! i
      in g\<lparr>failed_cases := (failed_cases g)[i := if length fcs > num_failed_cases then butlast fcs else fcs]\<rparr>)"

text \<open>
  What is run at a \<open>yield\<close>: the list carries the values of the variables \<open>count\<close> of the
  enclosing frames. A generator takes context, content, shortname and dependencies.
\<close>

type_synonym body = "nat list \<Rightarrow> cdict \<Rightarrow> (gen, nat list) io"

type_synonym generator = "label list \<Rightarrow> item list \<Rightarrow> label list \<Rightarrow> string list \<Rightarrow> body \<Rightarrow> nat list \<Rightarrow> (gen, nat list) io"

definition dotted :: "label list \<Rightarrow> string" where
  "dotted ls = join ''.'' (map long_name ls)"

definition node_dep :: "label list \<Rightarrow> lfilter \<Rightarrow> string list \<Rightarrow> string list" where
  "node_dep ctx deps dep = dep @ concat (map (map (\<lambda>dd. dotted (ctx @ dd))) deps)"

primrec apply_items :: "CfgDict.pylib \<Rightarrow> item list \<Rightarrow> cdict \<Rightarrow> cdict res" where
  "apply_items lib [] d = Inr d"
| "apply_items lib (t # ts) d =
     (case i_obj t of Oper op \<Rightarrow> bindE (apply_oper lib op d) (apply_items lib ts) | _ \<Rightarrow> Inl AttributeError)"

definition start_dict :: "label list \<Rightarrow> label list \<Rightarrow> string list \<Rightarrow> cdict" where
  "start_dict ctx shortname dep =
     [([''name''], Text (dotted ctx)), ([''dep''], Names dep), ([''shortname''], Text (join ''.'' (map l_name shortname)))]"

definition get_dicts_plain :: "popts \<Rightarrow> nat \<Rightarrow> ninfo \<Rightarrow> bool \<Rightarrow> generator \<Rightarrow> generator" where
  "get_dicts_plain opts i info leaf children ctx0 content shortname0 dep0 body counts =
     (let dep = node_dep ctx0 (n_dep info) dep0; ctx = ctx0 @ n_name info; ctx_set = py_set ctx;
          labels = n_labels info
      in bindM (getM (own_content i)) (\<lambda>own.
         bindM (getM (\<lambda>g. failed_cases g ! i)) (\<lambda>fcs.
         bindM (liftM (find_failed (case_might_pass ctx ctx_set labels content own) [] fcs)) (\<lambda>found.
         case found of
           Some fcs \<Rightarrow> bindM (modifyM (\<lambda>g. g\<lparr>failed_cases := (failed_cases g)[i := fcs]\<rparr>)) (\<lambda>_. retM counts)
         | None \<Rightarrow>
             bindM (liftM (
               bindE (process_content ctx ctx_set labels False own
                   \<lparr>new_content = [], new_external = [], new_internal = []\<rparr>) (\<lambda>(ok, st).
                 if \<not> ok then Inr (False, st) else process_content ctx ctx_set labels True content st)))
               (\<lambda>(ok, st).
             if \<not> ok then
               bindM (modifyM (add_failed_case i (ctx, ctx_set, new_external st, new_internal st))) (\<lambda>_. retM counts)
             else
               let shortname = (if n_append info then shortname0 @ n_name info else shortname0)
               in bindM (children ctx (new_content st) shortname dep body counts) (\<lambda>counts.
                  if \<not> leaf then retM counts
                  else bindM (liftM (bindE (apply_items (pylib opts) (new_content st) (start_dict ctx shortname dep))
                      (postfix_parse (pylib opts)))) (body counts)))))))"

text \<open>The name of the combination of two dictionaries; names hold no characters special to \<open>re\<close> but parentheses and dots.\<close>
fun common_prefix :: "string \<Rightarrow> string \<Rightarrow> string res" where
  "common_prefix (a # as) (b # bs) =
     (if a = b then bindE (common_prefix as bs) (\<lambda>p. Inr (a # p)) else Inr [])"
| "common_prefix _ _ = Inl ValueError"

text \<open>A common part with parentheses is a group as a regular expression and never matches.\<close>

definition without_prefix :: "string \<Rightarrow> string \<Rightarrow> string" where
  "without_prefix cp n = (if CHR ''('' \<in> set cp then n else drop (length cp) n)"

definition mk_name :: "string \<Rightarrow> string \<Rightarrow> string res" where
  "mk_name n1 n2 =
     bindE (common_prefix n1 n2) (\<lambda>p.
       let cp = join ''.'' (butlast (split_on (CHR ''.'') p));
           p1 = without_prefix cp n1; p2 = without_prefix cp n2
       in Inr (if cp \<noteq> [] then cp @ p1 @ p2 else p1 @ ''.'' @ p2))"

definition name_of :: "string \<Rightarrow> cdict \<Rightarrow> string res" where
  "name_of key d = bindE (of_option KeyError (map_of d [key])) text_of"

definition product_dict :: "cdict \<Rightarrow> cdict \<Rightarrow> cdict res" where
  "product_dict d1 d2 =
     bindE (name_of ''name'' d1) (\<lambda>m1. bindE (name_of ''name'' d2) (\<lambda>m2. bindE (mk_name m1 m2) (\<lambda>name.
     bindE (name_of ''shortname'' d1) (\<lambda>s1. bindE (name_of ''shortname'' d2) (\<lambda>s2. bindE (mk_name s1 s2) (\<lambda>shortname.
       Inr (dict_set [''shortname''] (Text shortname) (dict_set [''name''] (Text name) (dict_update d1 d2)))))))))"

text \<open>
  The list object that was the content (\<open>node.content[:]\<close>) is kept by the frame as \<open>r\<close>. The
  node refers to it again before each inner enumeration, which extends it in place.
\<close>

primrec multiply_join :: "nat \<Rightarrow> generator \<Rightarrow> item list \<Rightarrow> generator" where
  "multiply_join i plain [] ctx content shortname dep body counts = plain ctx content shortname dep body counts"
| "multiply_join i plain (only # remains) ctx content shortname dep body counts =
     bindM (getM (\<lambda>g. length (lists g))) (\<lambda>r.
     bindM (modifyM (\<lambda>g. extend_content i [only] (g\<lparr>lists := lists g @ [own_content i g]\<rparr>))) (\<lambda>_.
     if remains = [] then plain ctx content shortname dep body counts
     else plain ctx content shortname dep (\<lambda>counts d1.
       bindM (modifyM (\<lambda>g. g\<lparr>content_ref := (content_ref g)[i := r]\<rparr>)) (\<lambda>_.
       multiply_join i plain remains ctx content shortname dep (\<lambda>counts d2.
         bindM (liftM (product_dict d1 d2)) (body counts)) counts)) counts))"

definition is_join :: "item \<Rightarrow> bool" where
  "is_join t = (case i_obj t of JoinF f \<Rightarrow> True | _ \<Rightarrow> False)"

definition onlys_of :: "item \<Rightarrow> item list" where
  "onlys_of t = (case i_obj t of
     JoinF f \<Rightarrow> map (\<lambda>word. Item (i_file t) (i_line t) (OnlyF [word])) f | _ \<Rightarrow> [])"

definition get_dicts_node :: "nat \<Rightarrow> generator \<Rightarrow> generator" where
  "get_dicts_node i plain ctx content shortname dep body counts =
     bindM (getM parent_generator) (\<lambda>parent.
     bindM (modifyM (\<lambda>g. g\<lparr>parent_generator := False\<rparr>)) (\<lambda>_.
     bindM (getM (own_content i)) (\<lambda>own.
       let joins = filter is_join own;
           body' = (\<lambda>counts d. body counts (if parent then drop_suffixes d else d))
       in if joins = [] then plain ctx content shortname dep body' counts
          else bindM (modifyM (set_content i (filter (\<lambda>t. \<not> is_join t) own))) (\<lambda>_.
               bindM (multiply_join i plain (concat (map onlys_of joins)) ctx content shortname dep body' counts) (\<lambda>counts.
               bindM (modifyM (set_content i own)) (\<lambda>_. retM counts))))))"

definition only_default :: "popts \<Rightarrow> ninfo \<Rightarrow> bool" where
  "only_default opts info \<longleftrightarrow> defaults opts
     \<and> (case n_var info of None \<Rightarrow> True | Some v \<Rightarrow> v \<notin> set (expand_defaults opts))"

text \<open>The children of a node, with \<open>count\<close> on top of the variables of the enclosing frames.\<close>

definition counted :: "(nat list \<Rightarrow> cdict \<Rightarrow> ('w, nat list) io) \<Rightarrow> nat list \<Rightarrow> cdict \<Rightarrow> ('w, nat list) io" where
  "counted body counts d =
     bindM (body (tl counts) d) (\<lambda>counts'. retM (Suc (hd counts) # counts'))"

primrec get_dicts :: "popts \<Rightarrow> cnode \<Rightarrow> generator"
  and get_children :: "popts \<Rightarrow> bool \<Rightarrow> cnode list \<Rightarrow> generator"
where
  "get_dicts opts (CNode i info cs) =
     get_dicts_node i (get_dicts_plain opts i info (cs = [])
       (\<lambda>ctx content shortname dep body counts.
         bindM (get_children opts (only_default opts info) cs ctx content shortname dep (counted body) (0 # counts))
           (\<lambda>counts. retM (tl counts))))"
| "get_children opts defaults_only [] = (\<lambda>ctx content shortname dep body counts. retM counts)"
| "get_children opts defaults_only (n # ns) = (\<lambda>ctx content shortname dep body counts.
     bindM (get_dicts opts n ctx content shortname dep body counts) (\<lambda>counts.
       if defaults_only \<and> n_default (n_info n) \<and> hd counts > 0 then retM counts
       else get_children opts defaults_only ns ctx content shortname dep body counts))"

text \<open>\<open>list(parser.get_dicts())\<close>: the dictionaries are in the state, also those before an exception.\<close>

definition all_dicts :: "popts \<Rightarrow> cnode \<Rightarrow> (gen, unit) io" where
  "all_dicts opts tree =
     bindM (get_dicts opts tree [] [] [] []
       (\<lambda>counts d. bindM (modifyM (\<lambda>g. g\<lparr>yielded := yielded g @ [d]\<rparr>)) (\<lambda>_. retM counts)) [])
       (\<lambda>_. retM ())"


end
