(* ===== verification/CfgEnum.thy ===== *)
theory CfgEnum
  imports CfgTree
begin

text \<open>
  What the enumeration of the Cartesian product computes: its filters could as well be
  evaluated at the leaves, with the whole context. The look-ahead, the early removal of
  filters, the early unpacking of conditions and the cache of failed cases do not change the
  dictionaries or their order, for configurations without joins whose lines are distinct.
\<close>

section \<open>The reference: filters at the leaves\<close>

definition append_opers :: "oper list option \<Rightarrow> oper list option \<Rightarrow> oper list option" where
  "append_opers a b = (case a of None \<Rightarrow> None | Some ops \<Rightarrow> map_option ((@) ops) b)"

fun resolve :: "label list \<Rightarrow> item list \<Rightarrow> oper list option" where
  "resolve ctx [] = Some []"
| "resolve ctx (Item file_name line obj # ts) =
     (case obj of
        Oper op \<Rightarrow> map_option ((#) op) (resolve ctx ts)
      | OnlyF f \<Rightarrow> if matches f ctx then resolve ctx ts else None
      | NoF f \<Rightarrow> if matches f ctx then None else resolve ctx ts
      | JoinF f \<Rightarrow> None
      | CondF f content \<Rightarrow>
          if matches f ctx then append_opers (resolve ctx content) (resolve ctx ts) else resolve ctx ts
      | NotCondF f content \<Rightarrow>
          if matches f ctx then resolve ctx ts else append_opers (resolve ctx content) (resolve ctx ts))"

type_synonym leaf = "label list \<times> label list \<times> string list \<times> oper list"

text \<open>The leaves in order, with \<open>default\<close> variants taken alone where that is asked for.\<close>

primrec leaves :: "popts \<Rightarrow> (nat \<Rightarrow> item list) \<Rightarrow> cnode \<Rightarrow> label list \<Rightarrow> item list \<Rightarrow> label list \<Rightarrow> string list \<Rightarrow> leaf list"
  and leaves_list :: "popts \<Rightarrow> (nat \<Rightarrow> item list) \<Rightarrow> bool \<Rightarrow> cnode list \<Rightarrow> nat
    \<Rightarrow> label list \<Rightarrow> item list \<Rightarrow> label list \<Rightarrow> string list \<Rightarrow> leaf list"
where
  "leaves opts own (CNode i info cs) = (\<lambda>ctx0 raw shortname0 dep0.
     let dep = node_dep ctx0 (n_dep info) dep0; ctx = ctx0 @ n_name info;
         shortname = (if n_append info then shortname0 @ n_name info else shortname0)
     in if cs = [] then
          (case resolve ctx (own i @ raw) of None \<Rightarrow> [] | Some ops \<Rightarrow> [(ctx, shortname, dep, ops)])
        else leaves_list opts own (only_default opts info) cs 0 ctx (own i @ raw) shortname dep)"
| "leaves_list opts own defaults_only [] = (\<lambda>count ctx raw shortname dep. [])"
| "leaves_list opts own defaults_only (n # ns) = (\<lambda>count ctx raw shortname dep.
     let ls = leaves opts own n ctx raw shortname dep; count = count + length ls
     in ls @ (if defaults_only \<and> n_default (n_info n) \<and> count > 0 then []
              else leaves_list opts own defaults_only ns count ctx raw shortname dep))"

definition leaf_dict :: "popts \<Rightarrow> leaf \<Rightarrow> cdict res" where
  "leaf_dict opts l = (case l of (ctx, shortname, dep, ops) \<Rightarrow>
     bindE (apply_opers (pylib opts) ops (start_dict ctx shortname dep)) (postfix_parse (pylib opts)))"

primrec run_leaves :: "popts \<Rightarrow> (nat list \<Rightarrow> cdict \<Rightarrow> ('w, nat list) io) \<Rightarrow> leaf list \<Rightarrow> nat list \<Rightarrow> ('w, nat list) io" where
  "run_leaves opts b [] counts = retM counts"
| "run_leaves opts b (l # ls) counts =
     bindM (liftM (leaf_dict opts l)) (\<lambda>d. bindM (b counts d) (run_leaves opts b ls))"

section \<open>Filters and conditions\<close>

text \<open>The filters and conditions in a list of items, also those within conditions.\<close>

fun flat :: "item list \<Rightarrow> item list" where
  "flat [] = []"
| "flat (Item file_name line obj # ts) =
     (case obj of Oper op \<Rightarrow> [] | _ \<Rightarrow> [Item file_name line obj])
       @ (case obj of CondF f c \<Rightarrow> flat c | NotCondF f c \<Rightarrow> flat c | _ \<Rightarrow> []) @ flat ts"

definition itself :: "item \<Rightarrow> item list" where
  "itself t = (case i_obj t of Oper op \<Rightarrow> [] | _ \<Rightarrow> [t])"

fun inner :: "iobj \<Rightarrow> item list" where
  "inner (CondF f c) = c"
| "inner (NotCondF f c) = c"
| "inner _ = []"

fun obj_ok :: "iobj \<Rightarrow> bool" where
  "obj_ok (Oper op) \<longleftrightarrow> True"
| "obj_ok (OnlyF f) \<longleftrightarrow> wf_filter f"
| "obj_ok (NoF f) \<longleftrightarrow> wf_filter f"
| "obj_ok (JoinF f) \<longleftrightarrow> False"
| "obj_ok (CondF f c) \<longleftrightarrow> wf_filter f"
| "obj_ok (NotCondF f c) \<longleftrightarrow> wf_filter f"

definition items_ok :: "item list \<Rightarrow> bool" where
  "items_ok ts \<longleftrightarrow> list_all (\<lambda>t. obj_ok (i_obj t)) (flat ts)"

lemma itself_simps:
  "i_obj t = Oper op \<Longrightarrow> itself t = []" "\<forall>op. i_obj t \<noteq> Oper op \<Longrightarrow> itself t = [t]"
  by (auto simp: itself_def split: iobj.split)

lemma itself_cases: "itself t = [] \<and> (\<exists>op. i_obj t = Oper op) \<or> itself t = [t] \<and> (\<forall>op. i_obj t \<noteq> Oper op)"
  by (cases "i_obj t") (simp_all add: itself_def)

lemma itself_inner: "s \<in> set (flat (inner (i_obj t))) \<Longrightarrow> itself t = [t]"
  by (cases "i_obj t") (simp_all add: itself_def)

lemma flat_Cons: "flat (t # ts) = itself t @ flat (inner (i_obj t)) @ flat ts"
  by (cases t; cases "i_obj t") (simp_all add: itself_def)

lemma flat_append: "flat (xs @ ys) = flat xs @ flat ys"
  by (induction xs) (simp_all add: flat_Cons)

lemma flat_itself: "t \<in> set (flat ts) \<Longrightarrow> itself t = [t]"
  by (induction ts rule: flat.induct) (auto simp: itself_def split: iobj.splits)

lemma flat_top: "t \<in> set ts \<Longrightarrow> itself t = [t] \<Longrightarrow> t \<in> set (flat ts)"
  by (induction ts) (auto simp: flat_Cons)

lemma flat_inner: "t \<in> set ts \<Longrightarrow> set (flat (inner (i_obj t))) \<subseteq> set (flat ts)"
  by (induction ts) (auto simp: flat_Cons)

lemma flat_nested:
  "distinct (flat ts) \<Longrightarrow> c \<in> set ts \<Longrightarrow> f \<in> set ts \<Longrightarrow> f \<notin> set (flat (inner (i_obj c)))"
proof (induction ts)
  case (Cons t ts)
  show ?case
  proof
    assume f: "f \<in> set (flat (inner (i_obj c)))"
    note self = flat_itself [OF f] and self_c = itself_inner [OF f]
    have d: "set (itself t) \<inter> set (flat (inner (i_obj t))) = {}" "set (itself t) \<inter> set (flat ts) = {}"
      "set (flat (inner (i_obj t))) \<inter> set (flat ts) = {}" "distinct (flat ts)"
      using Cons.prems(1) by (auto simp: flat_Cons)
    consider "c = t" "f = t" | "c = t" "f \<in> set ts" | "c \<in> set ts" "f = t" | "c \<in> set ts" "f \<in> set ts"
      using Cons.prems(2,3) by auto
    then show False
    proof cases
      case 1
      then show False using d(1) f self by auto
    next
      case 2
      then show False using flat_top [OF 2(2) self] d(3) f by auto
    next
      case 3
      then show False using flat_inner [OF 3(1)] d(2) f self by auto
    next
      case 4
      then show False using Cons.IH [OF d(4)] f by blast
    qed
  qed
qed simp

lemma items_ok_Cons: "items_ok (t # ts) \<longleftrightarrow> obj_ok (i_obj t) \<and> items_ok (inner (i_obj t)) \<and> items_ok ts"
  using itself_cases [of t] by (auto simp: items_ok_def flat_Cons)

lemma items_ok_append: "items_ok (xs @ ys) \<longleftrightarrow> items_ok xs \<and> items_ok ys"
  by (simp add: items_ok_def flat_append)

lemma append_opers_simps [simp]:
  "append_opers None b = None" "append_opers a None = None" "append_opers (Some []) b = b"
  "append_opers (Some (op # ops)) b = map_option ((#) op) (append_opers (Some ops) b)"
  by (cases a; cases b; simp add: append_opers_def)+

lemma append_opers_assoc: "append_opers (append_opers a b) c = append_opers a (append_opers b c)"
  by (cases a; cases b; cases c) (simp_all add: append_opers_def)

lemma append_opers_cons: "append_opers (map_option ((#) op) a) b = map_option ((#) op) (append_opers a b)"
  by (cases a) (simp_all)

lemma resolve_append: "resolve ctx (xs @ ys) = append_opers (resolve ctx xs) (resolve ctx ys)"
proof (induction xs)
  case (Cons t ts)
  then show ?case by (cases t; cases "i_obj t") (simp_all add: append_opers_assoc append_opers_cons)
qed simp

section \<open>Filters that fail\<close>

definition failing :: "iobj \<Rightarrow> label list \<Rightarrow> label list \<Rightarrow> bool" where
  "failing obj ctx labels = (case obj of
     OnlyF f \<Rightarrow> \<not> may_match f ctx labels | NoF f \<Rightarrow> matches f ctx | _ \<Rightarrow> False)"

definition wf_labels :: "label list \<Rightarrow> bool" where
  "wf_labels ls \<longleftrightarrow> (\<forall>l \<in> set ls. wf_label l)"

lemma wf_labels_append [simp]: "wf_labels (xs @ ys) \<longleftrightarrow> wf_labels xs \<and> wf_labels ys"
  by (auto simp: wf_labels_def)

lemma resolve_obj:
  "i_obj t = Oper op \<Longrightarrow> resolve ctx (t # ts) = map_option ((#) op) (resolve ctx ts)"
  "i_obj t = OnlyF f \<Longrightarrow> resolve ctx (t # ts) = (if matches f ctx then resolve ctx ts else None)"
  "i_obj t = NoF f \<Longrightarrow> resolve ctx (t # ts) = (if matches f ctx then None else resolve ctx ts)"
  "i_obj t = CondF f c \<Longrightarrow> resolve ctx (t # ts) =
     (if matches f ctx then append_opers (resolve ctx c) (resolve ctx ts) else resolve ctx ts)"
  "i_obj t = NotCondF f c \<Longrightarrow> resolve ctx (t # ts) =
     (if matches f ctx then resolve ctx ts else append_opers (resolve ctx c) (resolve ctx ts))"
  by (cases t; simp)+

lemma failing_resolve:
  assumes "wf_labels ctx" and "wf_labels labels" and "covers labels e" and "items_ok ts"
    and "t \<in> set ts" and "failing (i_obj t) ctx labels"
  shows "resolve (ctx @ e) ts = None"
  using assms(4,5)
proof (induction ts)
  case (Cons s ts)
  show ?case
  proof (cases "t = s")
    case True
    have ok: "obj_ok (i_obj s)" using Cons.prems(1) by (simp add: items_ok_Cons)
    show ?thesis
    proof (cases "i_obj s")
      case (OnlyF f)
      then have "\<not> matches f (ctx @ e)"
        using may_match_sound [of ctx f labels e] assms(1-3,6) ok True by (auto simp: failing_def wf_labels_def)
      then show ?thesis using OnlyF by (simp add: resolve_obj)
    next
      case (NoF f)
      then have "matches f (ctx @ e)" using matches_mono assms(6) True by (simp add: failing_def)
      then show ?thesis using NoF by (simp add: resolve_obj)
    qed (use assms(6) True in \<open>simp_all add: failing_def\<close>)
  next
    case False
    then have "resolve (ctx @ e) ts = None" using Cons by (simp add: items_ok_Cons)
    then show ?thesis using resolve_append [of "ctx @ e" "[s]" ts] by simp
  qed
qed simp

lemma filter_runs:
  assumes "wf_labels ctx" and "wf_filter f"
  shows "requires_action True f ctx (py_set ctx) labels = Inr (\<not> may_match f ctx labels)"
    "is_irrelevant True f ctx (py_set ctx) labels = Inr (matches f ctx)"
    "requires_action False f ctx (py_set ctx) labels = Inr (matches f ctx)"
    "is_irrelevant False f ctx (py_set ctx) labels = Inr (\<not> may_match f ctx labels)"
  using filter_match_Inr [of ctx f] filter_might_match_Inr [of ctx f labels] assms
  by (simp_all add: requires_action_def is_irrelevant_def wf_labels_def)

section \<open>Processing content keeps its meaning\<close>

text \<open>What a list of items becomes in a context, above a subtree with these labels.\<close>

definition kept :: "label list \<Rightarrow> label list \<Rightarrow> item list \<Rightarrow> item list \<Rightarrow> bool" where
  "kept ctx labels ts nc \<longleftrightarrow>
     (\<forall>e. covers labels e \<longrightarrow> resolve (ctx @ e) nc = resolve (ctx @ e) ts)
     \<and> set (flat nc) \<subseteq> set (flat ts) \<and> (distinct (flat ts) \<longrightarrow> distinct (flat nc))
     \<and> (labels = [] \<longrightarrow> (\<forall>t \<in> set nc. \<exists>op. i_obj t = Oper op))"

definition rejected :: "label list \<Rightarrow> label list \<Rightarrow> bool \<Rightarrow> item list \<Rightarrow> item list \<Rightarrow> item list \<Rightarrow> bool" where
  "rejected ctx labels external ts xs ys \<longleftrightarrow>
     (\<forall>e. covers labels e \<longrightarrow> resolve (ctx @ e) ts = None) \<and> set (xs @ ys) \<subseteq> set (flat ts)
     \<and> (\<not> external \<longrightarrow> xs = [])
     \<and> ((\<exists>t. xs = (if external then [t] else []) \<and> ys = (if external then [] else [t]) \<and> failing (i_obj t) ctx labels)
        \<or> (\<exists>c f. c \<in> set (xs @ ys) \<and> f \<in> set (xs @ ys) \<and> f \<in> set (flat (inner (i_obj c)))))"

definition outcome :: "label list \<Rightarrow> label list \<Rightarrow> bool \<Rightarrow> item list \<Rightarrow> pstate \<Rightarrow> bool \<times> pstate \<Rightarrow> bool" where
  "outcome ctx labels external ts st res = (case res of (ok, st') \<Rightarrow>
     if ok then \<exists>nc. st' = st\<lparr>new_content := new_content st @ nc\<rparr> \<and> kept ctx labels ts nc
     else \<exists>nc xs ys. st' = st\<lparr>new_content := nc, new_external := new_external st @ xs,
         new_internal := new_internal st @ ys\<rparr> \<and> rejected ctx labels external ts xs ys)"

lemma kept_Nil: "kept ctx labels [] []"
  by (simp add: kept_def)

lemma kept_append:
  assumes "kept ctx labels xs xs'" and "kept ctx labels ys ys'"
  shows "kept ctx labels (xs @ ys) (xs' @ ys')"
  using assms unfolding kept_def by (auto simp: resolve_append flat_append)

lemma kept_one:
  assumes "\<And>e. covers labels e \<Longrightarrow> resolve (ctx @ e) nc = resolve (ctx @ e) [t]"
    and "nc = [] \<or> nc = [t] \<and> (labels = [] \<longrightarrow> (\<exists>op. i_obj t = Oper op))
      \<or> kept ctx labels (inner (i_obj t)) nc"
  shows "kept ctx labels [t] nc"
  using assms itself_cases [of t] unfolding kept_def by (auto simp: flat_Cons)

lemma outcome_Cons:
  assumes one: "kept ctx labels [t] nc"
    and others: "outcome ctx labels external ts (st\<lparr>new_content := new_content st @ nc\<rparr>) res"
  shows "outcome ctx labels external (t # ts) st res"
proof -
  obtain ok st' where res: "res = (ok, st')" by (cases res)
  show ?thesis
  proof (cases ok)
    case True
    then obtain nc' where "st' = st\<lparr>new_content := new_content st @ nc @ nc'\<rparr>" "kept ctx labels ts nc'"
      using others res by (auto simp: outcome_def)
    then show ?thesis using kept_append [OF one] res True by (auto simp: outcome_def)
  next
    case False
    then obtain nc' xs ys where r: "st' = st\<lparr>new_content := nc', new_external := new_external st @ xs,
        new_internal := new_internal st @ ys\<rparr>" "rejected ctx labels external ts xs ys"
      using others res by (auto simp: outcome_def)
    have "resolve (ctx @ e) (t # ts) = None" if "covers labels e" for e
      using r(2) that resolve_append [of "ctx @ e" "[t]" ts] by (simp add: rejected_def)
    then have "rejected ctx labels external (t # ts) xs ys"
      using r(2) unfolding rejected_def by (auto simp: flat_Cons)
    then show ?thesis using r(1) res False by (auto simp: outcome_def)
  qed
qed

lemma outcome_fails:
  assumes "\<And>e. covers labels e \<Longrightarrow> resolve (ctx @ e) (t # ts) = None"
    and "st' = st\<lparr>new_content := nc, new_internal := new_internal st @ zs\<rparr>"
    and "set zs \<subseteq> set (flat (inner (i_obj t)))" and "zs = [] \<longrightarrow> failing (i_obj t) ctx labels"
  shows "outcome ctx labels external (t # ts) st (False, add_failed external t st')"
proof -
  let ?xs = "if external then [t] else []" and ?ys = "if external then zs else zs @ [t]"
  have "rejected ctx labels external (t # ts) ?xs ?ys"
  proof (cases "zs = []")
    case False
    then obtain f where "f \<in> set zs" by (cases zs) auto
    then have "t \<in> set (?xs @ ?ys) \<and> f \<in> set (?xs @ ?ys) \<and> f \<in> set (flat (inner (i_obj t)))"
      using assms(3) by auto
    moreover have "set (?xs @ ?ys) \<subseteq> set (flat (t # ts))"
      using assms(3) itself_inner [of f t] \<open>f \<in> set zs\<close> by (auto simp: flat_Cons)
    moreover have "\<not> external \<longrightarrow> ?xs = []" by simp
    ultimately show ?thesis using assms(1) unfolding rejected_def by blast
  next
    case True
    then have "itself t = [t]" using assms(4) by (cases "i_obj t") (simp_all add: failing_def itself_def)
    then show ?thesis using assms True by (simp add: rejected_def flat_Cons)
  qed
  moreover have "add_failed external t st' = st\<lparr>new_content := nc, new_external := new_external st @ ?xs,
      new_internal := new_internal st @ ?ys\<rparr>"
    by (simp add: assms(2) add_failed_def)
  ultimately show ?thesis unfolding outcome_def by (simp only: prod.case if_False) blast
qed

lemma leaf_decides: "wf_labels ctx \<Longrightarrow> wf_filter f \<Longrightarrow> may_match f ctx labels \<Longrightarrow> \<not> matches f ctx \<Longrightarrow> labels \<noteq> []"
  using may_match_leaf by (auto simp: wf_labels_def)

lemma no_match_below:
  "wf_labels ctx \<Longrightarrow> wf_labels labels \<Longrightarrow> wf_filter f \<Longrightarrow> \<not> may_match f ctx labels \<Longrightarrow> covers labels e
   \<Longrightarrow> \<not> matches f (ctx @ e)"
  using may_match_sound by (auto simp: wf_labels_def)

text \<open>A condition that is unpacked.\<close>

lemma unpack_outcome:
  assumes content: "process_content ctx (py_set ctx) labels False (inner (i_obj t)) st = Inr res"
      "outcome ctx labels False (inner (i_obj t)) st res"
    and others: "\<And>st. \<exists>res. process_content ctx (py_set ctx) labels external ts st = Inr res
      \<and> outcome ctx labels external ts st res"
    and unpack: "\<And>e ts. covers labels e \<Longrightarrow> resolve (ctx @ e) (t # ts)
      = append_opers (resolve (ctx @ e) (inner (i_obj t))) (resolve (ctx @ e) ts)"
  shows "\<exists>res. bindE (process_content ctx (py_set ctx) labels False (inner (i_obj t)) st) (\<lambda>(ok, st).
      if ok then process_content ctx (py_set ctx) labels external ts st
      else Inr (False, add_failed external t st)) = Inr res \<and> outcome ctx labels external (t # ts) st res"
proof -
  obtain ok st' where res: "res = (ok, st')" by (cases res)
  show ?thesis
  proof (cases ok)
    case True
    then obtain nc where nc: "st' = st\<lparr>new_content := new_content st @ nc\<rparr>" "kept ctx labels (inner (i_obj t)) nc"
      using content(2) res by (auto simp: outcome_def)
    have "resolve (ctx @ e) nc = resolve (ctx @ e) [t]" if "covers labels e" for e
    proof -
      have "append_opers r (Some []) = r" for r by (cases r) (simp_all add: append_opers_def)
      then show ?thesis using unpack [OF that, of "[]"] nc(2) that by (simp add: kept_def)
    qed
    then have "kept ctx labels [t] nc" using kept_one nc(2) by blast
    moreover obtain res' where "process_content ctx (py_set ctx) labels external ts st' = Inr res'"
        "outcome ctx labels external ts st' res'" using others by blast
    ultimately show ?thesis using outcome_Cons nc(1) content(1) res True by auto
  next
    case False
    then obtain nc xs ys where r: "st' = st\<lparr>new_content := nc, new_external := new_external st @ xs,
        new_internal := new_internal st @ ys\<rparr>" "rejected ctx labels False (inner (i_obj t)) xs ys"
      using content(2) res by (auto simp: outcome_def)
    have ys: "xs = []" "ys \<noteq> []" "set ys \<subseteq> set (flat (inner (i_obj t)))" using r(2) by (auto simp: rejected_def)
    have none: "resolve (ctx @ e) (t # ts) = None" if "covers labels e" for e
      using unpack [OF that] r(2) that by (simp add: rejected_def)
    have "st' = st\<lparr>new_content := nc, new_internal := new_internal st @ ys\<rparr>" using r(1) ys(1) by simp
    from outcome_fails [OF none this ys(3)] ys(2)
    have "outcome ctx labels external (t # ts) st (False, add_failed external t st')" by blast
    then show ?thesis using content(1) res False by simp
  qed
qed

lemma process_content_outcome:
  assumes ctx: "wf_labels ctx" and labels: "wf_labels labels"
  shows "items_ok ts \<Longrightarrow> \<exists>res. process_content ctx (py_set ctx) labels external ts st = Inr res
    \<and> outcome ctx labels external ts st res"
proof (induction ts arbitrary: external st rule: flat.induct)
  case 1
  show ?case by (auto simp: outcome_def intro!: exI [of _ "[]"] kept_Nil)
next
  case (2 fn ln obj ts)
  let ?t = "Item fn ln obj"
  have ok: "obj_ok obj" "items_ok (inner obj)" "items_ok ts" using 2(4) by (simp_all add: items_ok_Cons)
  have rest: "\<exists>res. process_content ctx (py_set ctx) labels external ts (st\<lparr>new_content := new_content st @ nc\<rparr>) = Inr res
      \<and> outcome ctx labels external (?t # ts) st res"
    if "kept ctx labels [?t] nc" for nc
    using 2(3) [OF ok(3)] outcome_Cons [OF that] by blast
  have drop: "\<exists>res. process_content ctx (py_set ctx) labels external ts st = Inr res
      \<and> outcome ctx labels external (?t # ts) st res"
    if "\<And>e. covers labels e \<Longrightarrow> resolve (ctx @ e) [?t] = Some []"
    using rest [of "[]"] kept_one [of labels ctx "[]" ?t] that by simp
  have keep: "\<exists>res. process_content ctx (py_set ctx) labels external ts (keep_item ?t st) = Inr res
      \<and> outcome ctx labels external (?t # ts) st res"
    if "labels = [] \<longrightarrow> (\<exists>op. obj = Oper op)"
    using rest [of "[?t]"] kept_one [of labels ctx "[?t]" ?t] that by (simp add: keep_item_def)
  have fails: "outcome ctx labels external (?t # ts) st (False, add_failed external ?t st)"
    if "failing obj ctx labels"
    using outcome_fails [where t = ?t and st' = st and nc = "new_content st" and zs = "[]"]
      failing_resolve [OF ctx labels _ 2(4), of _ ?t] that by simp
  note runs = filter_runs [OF ctx] and below = no_match_below [OF ctx labels] and at_leaf = leaf_decides [OF ctx]
  show ?case
  proof (cases obj)
    case (Oper op)
    then show ?thesis using keep by simp
  next
    case (OnlyF f)
    then have f: "wf_filter f" using ok(1) by simp
    show ?thesis
      using OnlyF fails drop keep runs [OF f, of labels] at_leaf [OF f, of labels]
      by (cases "may_match f ctx labels"; cases "matches f ctx")
         (simp_all add: failing_def matches_mono)
  next
    case (NoF f)
    then have f: "wf_filter f" using ok(1) by simp
    show ?thesis
      using NoF fails drop keep runs [OF f, of labels] at_leaf [OF f, of labels] below [OF f]
      by (cases "matches f ctx"; cases "may_match f ctx labels") (simp_all add: failing_def)
  next
    case (JoinF f)
    then show ?thesis using ok(1) by simp
  next
    case (CondF f c)
    then have f: "wf_filter f" using ok(1) by simp
    show ?thesis
    proof (cases "matches f ctx")
      case True
      obtain res where "process_content ctx (py_set ctx) labels False (inner (i_obj ?t)) st = Inr res"
          "outcome ctx labels False (inner (i_obj ?t)) st res"
        using 2(1) [OF CondF, of False st] ok(2) CondF by (auto simp del: split_paired_Ex)
      from unpack_outcome [OF this 2(3) [OF ok(3)], of external] CondF True
      show ?thesis unfolding CondF using runs [OF f, of labels] by (simp add: matches_mono)
    next
      case False
      then show ?thesis
        using CondF drop keep runs [OF f, of labels] at_leaf [OF f, of labels] below [OF f]
        by (cases "may_match f ctx labels") simp_all
    qed
  next
    case (NotCondF f c)
    then have f: "wf_filter f" using ok(1) by simp
    show ?thesis
    proof (cases "may_match f ctx labels")
      case False
      obtain res where "process_content ctx (py_set ctx) labels False (inner (i_obj ?t)) st = Inr res"
          "outcome ctx labels False (inner (i_obj ?t)) st res"
        using 2(2) [OF NotCondF, of False st] ok(2) NotCondF by (auto simp del: split_paired_Ex)
      from unpack_outcome [OF this 2(3) [OF ok(3)], of external] NotCondF False
      show ?thesis unfolding NotCondF using runs [OF f, of labels] below [OF f] by simp
    next
      case True
      then show ?thesis
        using NotCondF drop keep runs [OF f, of labels] at_leaf [OF f, of labels]
        by (cases "matches f ctx") (simp_all add: matches_mono)
    qed
  qed
qed


section \<open>Failed cases\<close>

text \<open>
  The items of a configuration: the filters are well-formed, there are no joins, and items
  that Python finds equal are the same item.
\<close>

definition lines_ok :: "item list \<Rightarrow> bool" where
  "lines_ok U \<longleftrightarrow> list_all (\<lambda>t. obj_ok (i_obj t)) U \<and> list_all (\<lambda>a. list_all (\<lambda>b. item_eq a b \<longrightarrow> a = b) U) U"

definition fcase_ok :: "item list \<Rightarrow> label list \<Rightarrow> fcase \<Rightarrow> bool" where
  "fcase_ok U labels fc = (case fc of (ctx, ctx_set, external, internal) \<Rightarrow>
     wf_labels ctx \<and> ctx_set = py_set ctx \<and> set (external @ internal) \<subseteq> set U
     \<and> ((\<exists>t. (external = [t] \<and> internal = [] \<or> external = [] \<and> internal = [t]) \<and> failing (i_obj t) ctx labels)
        \<or> (\<exists>c f. c \<in> set (external @ internal) \<and> f \<in> set (external @ internal) \<and> f \<in> set (flat (inner (i_obj c))))))"

lemma lines_ok_in_items:
  assumes "lines_ok U" and "t \<in> set U" and "\<forall>s \<in> set items. itself s = [s] \<longrightarrow> s \<in> set U"
  shows "in_items t items \<longrightarrow> t \<in> set items"
proof
  assume "in_items t items"
  then obtain s where s: "s \<in> set items" "item_eq s t" by (auto simp: in_items_def list_ex_iff)
  then have "itself s = [s]" by (cases "i_obj s") (auto simp: item_eq_def itself_def)
  then have "s = t" using assms s unfolding lines_ok_def list_all_iff by blast
  then show "t \<in> set items" using s(1) by simp
qed

lemma lines_ok_items: "lines_ok U \<Longrightarrow> set (flat ts) \<subseteq> set U \<Longrightarrow> items_ok ts"
  unfolding lines_ok_def items_ok_def list_all_iff by blast

text \<open>A filter that failed and cannot pass here fails here.\<close>

lemma obj_might_pass_run:
  assumes "wf_labels ctx" and "wf_labels failed" and "obj_ok obj" and "failing obj failed labels"
  shows "\<exists>p. obj_might_pass obj failed (py_set failed) ctx (py_set ctx) labels = Inr p
    \<and> (\<not> p \<longrightarrow> failing obj ctx labels)"
proof (cases obj)
  case (OnlyF f)
  then show ?thesis
    using might_pass_run [of ctx failed f True labels] assms by (auto simp: failing_def wf_labels_def)
next
  case (NoF f)
  then show ?thesis
    using might_pass_run [of ctx failed f False labels] assms by (auto simp: failing_def wf_labels_def)
qed (use assms(4) in \<open>simp_all add: failing_def\<close>)

lemma case_might_pass_run:
  assumes ctx: "wf_labels ctx" and U: "lines_ok U" and fc: "fcase_ok U labels fc"
    and items: "set (flat (own @ content)) \<subseteq> set U" and dist: "distinct (flat (own @ content))"
  shows "\<exists>p. case_might_pass ctx (py_set ctx) labels content own fc = Inr p
    \<and> (\<not> p \<longrightarrow> (\<exists>t \<in> set (own @ content). failing (i_obj t) ctx labels))"
proof -
  obtain fctx fset ext int where f: "fc = (fctx, fset, ext, int)" by (cases fc)
  have fset: "fset = py_set fctx" "wf_labels fctx" and sub: "set (ext @ int) \<subseteq> set U" using fc f by (simp_all add: fcase_ok_def)
  have top: "\<forall>s \<in> set (own @ content). itself s = [s] \<longrightarrow> s \<in> set U"
    using items flat_top [of _ "own @ content"] by blast
  consider (one) t where "ext = [t] \<and> int = [] \<or> ext = [] \<and> int = [t]" "failing (i_obj t) fctx labels"
    | (two) c g where "c \<in> set (ext @ int)" "g \<in> set (ext @ int)" "g \<in> set (flat (inner (i_obj c)))"
    using fc f by (auto simp: fcase_ok_def)
  then show ?thesis
  proof cases
    case one
    then have t: "t \<in> set U" using sub by auto
    then have "obj_ok (i_obj t)" using U by (auto simp: lines_ok_def list_all_iff)
    then obtain p where p: "obj_might_pass (i_obj t) fctx (py_set fctx) ctx (py_set ctx) labels = Inr p"
        "\<not> p \<longrightarrow> failing (i_obj t) ctx labels"
      using obj_might_pass_run [OF ctx fset(2) _ one(2)] by blast
    have "in_items t items \<longrightarrow> t \<in> set items" if "set items \<subseteq> set (own @ content)" for items
      using lines_ok_in_items [OF U t] top that by blast
    from this [of "content @ own"] this [of own]
    have "in_items t (content @ own) \<longrightarrow> t \<in> set (own @ content)" "in_items t own \<longrightarrow> t \<in> set (own @ content)"
      by (simp_all add: Un_commute)
    moreover have "case_might_pass ctx (py_set ctx) labels content own fc
        = Inr (\<not> in_items t (content @ own) \<or> p) \<or> case_might_pass ctx (py_set ctx) labels content own fc
        = Inr (\<not> in_items t (content @ own) \<or> \<not> in_items t own \<or> p)"
      using one(1) p(1) by (cases p) (auto simp: case_might_pass_def f fset Let_def)
    ultimately show ?thesis using p(2) by blast
  next
    case two
    have "\<not> (in_items c (content @ own) \<and> in_items g (content @ own))"
    proof
      assume "in_items c (content @ own) \<and> in_items g (content @ own)"
      then have "c \<in> set (content @ own)" "g \<in> set (content @ own)"
        using lines_ok_in_items [OF U, of c "content @ own"] lines_ok_in_items [OF U, of g "content @ own"] two(1,2) sub top
        by auto
      then show False using flat_nested [OF dist, of c g] two(3) by auto
    qed
    then have "list_ex (\<lambda>t. \<not> in_items t (content @ own)) (ext @ int)" using two(1,2) unfolding list_ex_iff by blast
    then show ?thesis by (intro exI [of _ True]) (simp add: case_might_pass_def f)
  qed
qed

lemma find_failed_run:
  assumes "\<And>fc. fc \<in> set fcs \<Longrightarrow> \<exists>p. passes fc = Inr p \<and> (\<not> p \<longrightarrow> Q)"
  shows "\<exists>res. find_failed passes pre fcs = Inr res
    \<and> (\<forall>fcs'. res = Some fcs' \<longrightarrow> Q \<and> set fcs' = set (pre @ fcs))"
  using assms
proof (induction fcs arbitrary: pre)
  case (Cons fc fcs)
  obtain p where p: "passes fc = Inr p" "\<not> p \<longrightarrow> Q" using Cons.prems [of fc] by auto
  show ?case
  proof (cases p)
    case True
    then show ?thesis using p(1) Cons.IH [of "pre @ [fc]"] Cons.prems by simp
  next
    case False
    then show ?thesis using p by auto
  qed
qed simp

section \<open>Simulation\<close>

text \<open>
  The enumeration runs in a state with contents and failed cases, the reference over the list
  of dictionaries alone.
\<close>

definition sim_at :: "(gen \<Rightarrow> bool) \<Rightarrow> gen \<Rightarrow> (gen, 'a) io \<Rightarrow> (cdict list, 'a) io \<Rightarrow> bool" where
  "sim_at I g m n \<longleftrightarrow> n (yielded g) = (fst (m g), yielded (snd (m g))) \<and> I (snd (m g))"

definition simulates :: "(gen \<Rightarrow> bool) \<Rightarrow> (gen, 'a) io \<Rightarrow> (cdict list, 'a) io \<Rightarrow> bool" where
  "simulates I m n \<longleftrightarrow> (\<forall>g. I g \<longrightarrow> sim_at I g m n)"

lemma simulatesD: "simulates I m n \<Longrightarrow> I g \<Longrightarrow> sim_at I g m n"
  by (simp add: simulates_def)

lemma sim_at_ret: "I g \<Longrightarrow> sim_at I g (retM x) (retM x)"
  by (simp add: sim_at_def io_run)

lemma sim_at_lift_bind:
  assumes "I g" and "\<And>x. r = Inr x \<Longrightarrow> sim_at I g (m x) (n x)"
  shows "sim_at I g (bindM (liftM r) m) (bindM (liftM r) n)"
  using assms by (cases r) (simp_all add: sim_at_def io_run)

lemma sim_at_get: "sim_at I g (bindM (getM f) m) n \<longleftrightarrow> sim_at I g (m (f g)) n"
  by (simp add: sim_at_def bindM_def io_run)

lemma sim_at_modify: "yielded (h g) = yielded g \<Longrightarrow> sim_at I g (bindM (modifyM h) m) n \<longleftrightarrow> sim_at I (h g) (m ()) n"
  by (simp add: sim_at_def bindM_def io_run)

lemma sim_at_bind:
  assumes "sim_at I g m n" and "\<And>x. simulates I (f x) (h x)"
  shows "sim_at I g (bindM m f) (bindM n h)"
proof -
  obtain r g' where m: "m g = (r, g')" by fastforce
  then have n: "n (yielded g) = (r, yielded g')" "I g'" using assms(1) by (auto simp: sim_at_def)
  show ?thesis
    using assms(2) m n by (cases r) (auto simp: bindM_def simulates_def sim_at_def)
qed

lemma simulates_bind: "simulates I m n \<Longrightarrow> (\<And>x. simulates I (f x) (h x)) \<Longrightarrow> simulates I (bindM m f) (bindM n h)"
  unfolding simulates_def by (blast intro: sim_at_bind [unfolded simulates_def])

lemma simulates_ret: "simulates I (retM x) (retM x)"
  by (simp add: simulates_def sim_at_ret)

lemma simulates_counted:
  assumes "\<And>counts d. simulates I (body counts d) (b counts d)"
  shows "simulates I (counted body counts d) (counted b counts d)"
  unfolding counted_def by (intro simulates_bind assms simulates_ret)

lemma run_leaves_append:
  "run_leaves opts b (xs @ ys) counts = bindM (run_leaves opts b xs counts) (run_leaves opts b ys)"
proof (induction xs arbitrary: counts)
  case (Cons x xs)
  then have "run_leaves opts b (xs @ ys) = (\<lambda>c. bindM (run_leaves opts b xs c) (run_leaves opts b ys))" by blast
  then show ?case by (simp add: bindM_assoc)
qed simp

lemma run_leaves_counted:
  "run_leaves opts (counted b) ls (n # counts)
   = bindM (run_leaves opts b ls counts) (\<lambda>counts'. retM ((n + length ls) # counts'))"
proof (induction ls arbitrary: n counts)
  case (Cons l ls)
  have "bindM (counted b (n # counts) d) (run_leaves opts (counted b) ls)
      = bindM (b counts d) (\<lambda>c. bindM (run_leaves opts b ls c) (\<lambda>c. retM ((n + length (l # ls)) # c)))" for d
    by (simp add: counted_def [of b "n # counts" d] bindM_assoc Cons.IH)
  then show ?case by (simp add: bindM_assoc)
qed simp


section \<open>Well-formed configurations\<close>

text \<open>
  The labels of a node are those of its subtree; nodes with the same number are the same node.
\<close>

fun tree_ok :: "(nat \<Rightarrow> label list) \<Rightarrow> nat \<Rightarrow> cnode \<Rightarrow> bool" where
  "tree_ok labels_of n (CNode i info cs) \<longleftrightarrow> i < n \<and> n_labels info = labels_of i
     \<and> wf_labels (n_name info) \<and> wf_labels (n_labels info) \<and> (cs = [] \<longrightarrow> n_labels info = [])
     \<and> list_all (\<lambda>c. covers (n_labels info) (n_name (n_info c) @ n_labels (n_info c))) cs
     \<and> list_all (tree_ok labels_of n) cs"

text \<open>No item comes twice on a path.\<close>

fun path_ok :: "(nat \<Rightarrow> item list) \<Rightarrow> cnode \<Rightarrow> item list \<Rightarrow> bool" where
  "path_ok own (CNode i info cs) seen \<longleftrightarrow> distinct (flat (own i)) \<and> set (flat (own i)) \<inter> set seen = {}
     \<and> list_all (\<lambda>c. path_ok own c (flat (own i) @ seen)) cs"

text \<open>What stays as it is, and what holds of the failed cases.\<close>

definition gen_ok :: "item list list \<Rightarrow> nat list \<Rightarrow> (nat \<Rightarrow> label list) \<Rightarrow> gen \<Rightarrow> bool" where
  "gen_ok L R labels_of g \<longleftrightarrow> lists g = L \<and> content_ref g = R \<and> \<not> parent_generator g
     \<and> length (failed_cases g) = length R
     \<and> (\<forall>i < length R. \<forall>fc \<in> set (failed_cases g ! i). fcase_ok (concat (map flat L)) (labels_of i) fc)"

lemma gen_ok_set:
  assumes "gen_ok L R labels_of g" and "\<forall>fc \<in> set fcs. fcase_ok (concat (map flat L)) (labels_of i) fc"
  shows "gen_ok L R labels_of (g\<lparr>failed_cases := (failed_cases g)[i := fcs]\<rparr>)"
proof -
  have "fcase_ok (concat (map flat L)) (labels_of j) fc" if "j < length R" "fc \<in> set ((failed_cases g)[i := fcs] ! j)" for j fc
    using assms that by (cases "j = i") (simp_all add: gen_ok_def)
  then show ?thesis using assms(1) by (simp add: gen_ok_def)
qed

lemma gen_ok_add:
  assumes "gen_ok L R labels_of g" and "i < length R" and "fcase_ok (concat (map flat L)) (labels_of i) fc"
  shows "gen_ok L R labels_of (add_failed_case i fc g)"
proof -
  have "\<forall>fc \<in> set (fc # failed_cases g ! i). fcase_ok (concat (map flat L)) (labels_of i) fc"
    using assms by (auto simp: gen_ok_def)
  then have "\<forall>fc \<in> set (butlast (fc # failed_cases g ! i)). fcase_ok (concat (map flat L)) (labels_of i) fc"
    using in_set_butlastD by fast
  then show ?thesis
    using gen_ok_set [OF assms(1)] \<open>\<forall>fc \<in> set (fc # failed_cases g ! i). _ fc\<close> by (simp add: add_failed_case_def Let_def)
qed

text \<open>A leaf below which every filter has been decided.\<close>

lemma apply_items_opers:
  assumes "\<forall>t \<in> set ts. \<exists>op. i_obj t = Oper op"
  shows "\<exists>ops. resolve ctx ts = Some ops \<and> (\<forall>d. apply_items lib ts d = apply_opers lib ops d)"
  using assms
proof (induction ts)
  case (Cons t ts)
  obtain op where op: "i_obj t = Oper op" using Cons.prems by auto
  obtain ops where "resolve ctx ts = Some ops" "\<forall>d. apply_items lib ts d = apply_opers lib ops d"
    using Cons by auto
  moreover from this have "apply_items lib ts = apply_opers lib ops" by blast
  ultimately have "\<forall>d. apply_items lib (t # ts) d = apply_opers lib (op # ops) d" "resolve ctx (t # ts) = Some (op # ops)"
    using op by (simp_all add: resolve_obj)
  then show ?case by blast
qed simp

text \<open>Where no context below resolves, there is no leaf.\<close>

lemma no_leaves:
  "tree_ok labels_of m t \<Longrightarrow> (\<And>e. covers (n_name (n_info t) @ n_labels (n_info t)) e \<Longrightarrow> resolve (ctx @ e) raw = None)
   \<Longrightarrow> leaves opts own t ctx raw shortname dep = []"
  "list_all (tree_ok labels_of m) ts \<Longrightarrow> (\<And>t e. t \<in> set ts \<Longrightarrow> covers (n_name (n_info t) @ n_labels (n_info t)) e
     \<Longrightarrow> resolve (ctx @ e) raw = None)
   \<Longrightarrow> leaves_list opts own defaults_only ts cnt ctx raw shortname dep = []"
proof (induction t and ts arbitrary: ctx raw shortname dep and defaults_only ctx raw shortname dep cnt rule: leaves.induct leaves_list.induct)
  case (CNode i info cs)
  have none: "resolve (ctx @ n_name info) (own i @ raw) = None" using CNode(3) [of "n_name info"] by (simp add: resolve_append)
  have "leaves_list opts own (only_default opts info) cs 0 (ctx @ n_name info) (own i @ raw) sn dp = []" for sn dp
  proof (rule CNode(1))
    show "list_all (tree_ok labels_of m) cs" using CNode(2) by simp
    fix t e assume t: "t \<in> set cs" "covers (n_name (n_info t) @ n_labels (n_info t)) e"
    have "covers (n_labels info) (n_name (n_info t) @ n_labels (n_info t))"
      using CNode(2) t(1) unfolding tree_ok.simps list_all_iff by blast
    from covers_trans [OF this t(2)] have "covers (n_name info @ n_labels info) (n_name info @ e)" by (rule covers_prefix)
    then show "resolve ((ctx @ n_name info) @ e) (own i @ raw) = None" using CNode(3) [of "n_name info @ e"] by (simp add: resolve_append)
  qed
  then show ?case using none by (simp add: Let_def)
next
  case (Cons_cnode t ts)
  have "leaves opts own t ctx raw shortname dep = []"
    if "\<And>e. covers (n_name (n_info t) @ n_labels (n_info t)) e \<Longrightarrow> resolve (ctx @ e) raw = None"
    for ctx raw shortname dep
    using Cons_cnode(1,3) that by simp
  moreover have "leaves_list opts own defaults_only ts (cnt + 0) ctx raw shortname dep = []"
    by (rule Cons_cnode(2)) (use Cons_cnode(3,4) in auto)
  moreover have "resolve (ctx @ e) raw = None" if "covers (n_name (n_info t) @ n_labels (n_info t)) e" for e
    using Cons_cnode(4) [of t e] that by simp
  ultimately have "leaves opts own t ctx raw shortname dep = []" by blast
  then show ?case using \<open>leaves_list opts own defaults_only ts (cnt + 0) ctx raw shortname dep = []\<close> by (simp add: Let_def)
qed simp

lemma rejected_none: "rejected ctx labels external ts xs ys \<Longrightarrow> covers labels e \<Longrightarrow> resolve (ctx @ e) ts = None"
  by (simp add: rejected_def)

lemma rejected_fcase:
  "rejected ctx labels external ts xs ys \<Longrightarrow> wf_labels ctx \<Longrightarrow> set (flat ts) \<subseteq> set U
   \<Longrightarrow> fcase_ok U labels (ctx, py_set ctx, xs, ys)"
  unfolding rejected_def fcase_ok_def by (cases external) auto

text \<open>Both lists of items, as a node processes them.\<close>

lemma process_both:
  assumes ctx: "wf_labels ctx" and labels: "wf_labels labels" and U: "lines_ok U"
    and items: "set (flat (own @ content)) \<subseteq> set U"
  shows "\<exists>ok st. bindE (process_content ctx (py_set ctx) labels False own
      \<lparr>new_content = [], new_external = [], new_internal = []\<rparr>) (\<lambda>(ok, st).
        if \<not> ok then Inr (False, st) else process_content ctx (py_set ctx) labels True content st) = Inr (ok, st)
    \<and> (if ok then kept ctx labels (own @ content) (new_content st)
       else fcase_ok U labels (ctx, py_set ctx, new_external st, new_internal st)
         \<and> (\<forall>e. covers labels e \<longrightarrow> resolve (ctx @ e) (own @ content) = None))"
proof -
  let ?st = "\<lparr>new_content = [], new_external = [], new_internal = []\<rparr>"
  have ok: "items_ok own" "items_ok content" and sub: "set (flat own) \<subseteq> set U" "set (flat content) \<subseteq> set U"
    using lines_ok_items [OF U items] items by (simp_all add: items_ok_append flat_append)
  obtain ok1 st1 where r1: "process_content ctx (py_set ctx) labels False own ?st = Inr (ok1, st1)"
      "outcome ctx labels False own ?st (ok1, st1)" using process_content_outcome [OF ctx labels ok(1)] by (metis surj_pair)
  show ?thesis
  proof (cases ok1)
    case False
    then have "\<exists>nc xs ys. st1 = \<lparr>new_content = nc, new_external = xs, new_internal = ys\<rparr> \<and> rejected ctx labels False own xs ys"
      using r1(2) by (simp add: outcome_def)
    then have rej: "rejected ctx labels False own (new_external st1) (new_internal st1)" by auto
    have "\<forall>e. covers labels e \<longrightarrow> resolve (ctx @ e) (own @ content) = None"
      using rejected_none [OF rej] by (simp add: resolve_append)
    with rejected_fcase [OF rej ctx sub(1)]
    show ?thesis using r1(1) False by auto
  next
    case True
    then obtain nc where nc: "st1 = ?st\<lparr>new_content := nc\<rparr>" "kept ctx labels own nc"
      using r1(2) by (auto simp: outcome_def)
    obtain ok2 st2 where r2: "process_content ctx (py_set ctx) labels True content st1 = Inr (ok2, st2)"
        "outcome ctx labels True content st1 (ok2, st2)" using process_content_outcome [OF ctx labels ok(2)] by (metis surj_pair)
    show ?thesis
    proof (cases ok2)
      case True
      then have "kept ctx labels (own @ content) (new_content st2)"
        using r2(2) kept_append [OF nc(2)] nc(1) by (auto simp: outcome_def)
      then show ?thesis using r1(1) r2(1) \<open>ok1\<close> True by auto
    next
      case False
      then have "\<exists>nc xs ys. st2 = \<lparr>new_content = nc, new_external = xs, new_internal = ys\<rparr> \<and> rejected ctx labels True content xs ys"
        using r2(2) nc(1) by (simp add: outcome_def)
      then have rej: "rejected ctx labels True content (new_external st2) (new_internal st2)" by auto
      have "\<forall>e. covers labels e \<longrightarrow> resolve (ctx @ e) (own @ content) = None"
        using rejected_none [OF rej] by (simp add: resolve_append)
      with rejected_fcase [OF rej ctx sub(2)]
      show ?thesis using r1(1) r2(1) \<open>ok1\<close> False by auto
    qed
  qed
qed


section \<open>The enumeration agrees with the reference\<close>

lemma simulates_bind_map:
  assumes m: "simulates I m (bindM n (\<lambda>c. retM (p c)))" and f: "\<And>c. simulates I (f (p c)) (h c)"
  shows "simulates I (bindM m f) (bindM n h)"
  unfolding simulates_def sim_at_def
proof (intro allI impI)
  fix g assume g: "I g"
  obtain r ys where n: "n (yielded g) = (r, ys)" by fastforce
  show "bindM n h (yielded g) = (fst (bindM m f g), yielded (snd (bindM m f g))) \<and> I (snd (bindM m f g))"
  proof (cases r)
    case (Inl e)
    then show ?thesis using m g n by (cases "m g") (auto simp: simulates_def sim_at_def bindM_def)
  next
    case (Inr c)
    then obtain g' where "m g = (Inr (p c), g')" "yielded g' = ys" "I g'"
      using m g n by (cases "m g") (auto simp: simulates_def sim_at_def bindM_def io_run)
    then show ?thesis using f [of c] n Inr by (auto simp: simulates_def sim_at_def bindM_def)
  qed
qed

lemma run_leaves_Nil: "run_leaves opts b [] = retM"
  by (rule ext) simp

lemma kept_none: "kept ctx labels ts nc \<Longrightarrow> covers labels e \<Longrightarrow> resolve (ctx @ e) nc = resolve (ctx @ e) ts"
  by (simp add: kept_def)

text \<open>
  One node: it is pruned or rejected only when nothing below resolves; else its children are
  enumerated with a content that means the same.
\<close>

lemma plain_simulates:
  fixes L R labels_of defines "I \<equiv> gen_ok L R labels_of" and "U \<equiv> concat (map flat L)"
  assumes U: "lines_ok U" and g: "I g" and i: "i < length R" and ctx: "wf_labels (ctx0 @ n_name info)"
    and labels: "wf_labels (n_labels info)" "n_labels info = labels_of i"
    and items: "set (flat (L ! (R ! i) @ content)) \<subseteq> set U" "distinct (flat (L ! (R ! i) @ content))"
    and leaf: "leaf \<Longrightarrow> n_labels info = [] \<and> (\<forall>ctx content sn dep body counts. children ctx content sn dep body counts = retM counts)
      \<and> ls = (case resolve (ctx0 @ n_name info) (L ! (R ! i) @ content) of None \<Rightarrow> []
          | Some ops \<Rightarrow> [(ctx0 @ n_name info, sn, node_dep ctx0 (n_dep info) dep0, ops)])"
    and sn: "sn = (if n_append info then sn0 @ n_name info else sn0)"
    and none: "(\<And>e. covers (n_labels info) e \<Longrightarrow> resolve (ctx0 @ n_name info @ e) (L ! (R ! i) @ content) = None) \<Longrightarrow> ls = []"
    and children: "\<And>nc. \<not> leaf \<Longrightarrow> kept (ctx0 @ n_name info) (n_labels info) (L ! (R ! i) @ content) nc
      \<Longrightarrow> simulates I (children (ctx0 @ n_name info) nc sn (node_dep ctx0 (n_dep info) dep0) body counts) (run_leaves opts b ls counts)"
    and body: "\<And>counts d. simulates I (body counts d) (b counts d)"
  shows "sim_at I g (get_dicts_plain opts i info leaf children ctx0 content sn0 dep0 body counts) (run_leaves opts b ls counts)"
proof -
  let ?ctx = "ctx0 @ n_name info" and ?own = "L ! (R ! i)" and ?labels = "n_labels info"
  let ?passes = "case_might_pass ?ctx (py_set ?ctx) ?labels content ?own"
  have own: "own_content i g = ?own" and fcs: "\<forall>fc \<in> set (failed_cases g ! i). fcase_ok U ?labels fc"
    using g i labels(2) by (simp_all add: I_def U_def gen_ok_def own_content_def)
  let ?Q = "\<exists>t \<in> set (?own @ content). failing (i_obj t) ?ctx ?labels"
  have passes: "\<exists>p. ?passes fc = Inr p \<and> (\<not> p \<longrightarrow> ?Q)"
    if "fc \<in> set (failed_cases g ! i)" for fc
    using case_might_pass_run [OF ctx U _ items] fcs that by blast
  have "\<exists>res. find_failed ?passes [] (failed_cases g ! i) = Inr res
      \<and> (\<forall>fcs'. res = Some fcs' \<longrightarrow> ?Q \<and> set fcs' = set ([] @ failed_cases g ! i))"
    by (rule find_failed_run) (rule passes)
  then obtain found where found: "find_failed ?passes [] (failed_cases g ! i) = Inr found"
    "\<And>fcs'. found = Some fcs' \<Longrightarrow> (\<exists>t \<in> set (?own @ content). failing (i_obj t) ?ctx ?labels)
      \<and> set fcs' = set (failed_cases g ! i)" by auto
  have ok: "items_ok (?own @ content)" using lines_ok_items [OF U items(1)] .
  show ?thesis
  proof (cases found)
    case (Some fcs')
    then obtain t where t: "t \<in> set (?own @ content)" "failing (i_obj t) ?ctx ?labels" using found(2) by blast
    then have "ls = []" using none failing_resolve [OF ctx labels(1) _ ok t] by simp
    moreover have "I (g\<lparr>failed_cases := (failed_cases g)[i := fcs']\<rparr>)"
      using found(2) [OF Some] fcs g labels(2) unfolding I_def U_def by (intro gen_ok_set) simp_all
    ultimately show ?thesis
      by (simp add: get_dicts_plain_def Let_def sim_at_get own found(1) Some sim_at_modify sim_at_ret)
  next
    case None
    obtain ok st where run: "bindE (process_content ?ctx (py_set ?ctx) ?labels False ?own
        \<lparr>new_content = [], new_external = [], new_internal = []\<rparr>) (\<lambda>(ok, st).
          if \<not> ok then Inr (False, st) else process_content ?ctx (py_set ?ctx) ?labels True content st) = Inr (ok, st)"
      and res: "if ok then kept ?ctx ?labels (?own @ content) (new_content st)
         else fcase_ok U ?labels (?ctx, py_set ?ctx, new_external st, new_internal st)
           \<and> (\<forall>e. covers ?labels e \<longrightarrow> resolve (?ctx @ e) (?own @ content) = None)"
      using process_both [OF ctx labels(1) U items(1)] by blast
    let ?rest = "if \<not> ok then
        bindM (modifyM (add_failed_case i (?ctx, py_set ?ctx, new_external st, new_internal st))) (\<lambda>_. retM counts)
      else bindM (children ?ctx (new_content st) sn (node_dep ctx0 (n_dep info) dep0) body counts) (\<lambda>counts.
        if \<not> leaf then retM counts
        else bindM (liftM (bindE (apply_items (pylib opts) (new_content st) (start_dict ?ctx sn (node_dep ctx0 (n_dep info) dep0)))
            (postfix_parse (pylib opts)))) (body counts))"
    have unfold: "sim_at I g (get_dicts_plain opts i info leaf children ctx0 content sn0 dep0 body counts) n \<longleftrightarrow> sim_at I g ?rest n" for n
      using run by (simp add: get_dicts_plain_def Let_def sim_at_get own found(1) None sn [symmetric])
    show ?thesis
      unfolding unfold
    proof (cases ok)
      case False
      then have "ls = []" using none res by simp
      moreover have "I (add_failed_case i (?ctx, py_set ?ctx, new_external st, new_internal st) g)"
        using res False g i labels(2) unfolding I_def U_def by (intro gen_ok_add) simp_all
      moreover have "yielded (add_failed_case i fc g) = yielded g" for fc by (simp add: add_failed_case_def Let_def)
      ultimately show "sim_at I g ?rest (run_leaves opts b ls counts)"
        using False by (simp add: sim_at_modify sim_at_ret)
    next
      case True
      then have kept: "kept ?ctx ?labels (?own @ content) (new_content st)" using res by simp
      show "sim_at I g ?rest (run_leaves opts b ls counts)"
      proof (cases leaf)
        case False
        then show ?thesis using simulatesD [OF children [OF False kept] g] True by simp
      next
        case leaf': True
        note l = leaf [OF leaf']
        have "\<forall>t \<in> set (new_content st). \<exists>op. i_obj t = Oper op" using kept l by (simp add: kept_def)
        from apply_items_opers [OF this]
        obtain ops where ops: "resolve ?ctx (new_content st) = Some ops"
          "\<forall>d. apply_items (pylib opts) (new_content st) d = apply_opers (pylib opts) ops d" by blast
        have "resolve ?ctx (?own @ content) = Some ops" using kept_none [OF kept, of "[]"] ops(1) by simp
        then have ls: "ls = [(?ctx, sn, node_dep ctx0 (n_dep info) dep0, ops)]" using l by simp
        have "sim_at I g (bindM (liftM r) (body counts)) (bindM (liftM r) (b counts))" for r
          by (rule sim_at_lift_bind) (use g simulatesD [OF body g] in simp_all)
        moreover have "?rest = bindM (liftM (leaf_dict opts (?ctx, sn, node_dep ctx0 (n_dep info) dep0, ops))) (body counts)"
          using True leaf' l by (simp add: leaf_dict_def ops(2))
        ultimately show ?thesis by (simp add: ls run_leaves_Nil)
      qed
    qed
  qed
qed

text \<open>The whole tree, by induction: the content at a node means the same as all items above it.\<close>

lemma get_dicts_simulates:
  fixes L R labels_of defines "I \<equiv> gen_ok L R labels_of" and "U \<equiv> concat (map flat L)" and "own \<equiv> \<lambda>i. L ! (R ! i)"
  assumes U: "lines_ok U" and own_in: "\<And>i. i < length R \<Longrightarrow> R ! i < length L"
  shows "tree_ok labels_of (length R) t \<Longrightarrow> path_ok own t seen \<Longrightarrow> wf_labels ctx
    \<Longrightarrow> (\<And>e. covers (n_name (n_info t) @ n_labels (n_info t)) e \<Longrightarrow> resolve (ctx @ e) content = resolve (ctx @ e) raw)
    \<Longrightarrow> distinct (flat content) \<Longrightarrow> set (flat content) \<subseteq> set seen \<Longrightarrow> set seen \<subseteq> set U
    \<Longrightarrow> (\<And>counts d. simulates I (body counts d) (b counts d))
    \<Longrightarrow> simulates I (get_dicts opts t ctx content sn dep body counts) (run_leaves opts b (leaves opts own t ctx raw sn dep) counts)"
   "list_all (tree_ok labels_of (length R)) ts \<Longrightarrow> list_all (\<lambda>t. path_ok own t seen) ts \<Longrightarrow> wf_labels ctx
    \<Longrightarrow> (\<And>t e. t \<in> set ts \<Longrightarrow> covers (n_name (n_info t) @ n_labels (n_info t)) e
        \<Longrightarrow> resolve (ctx @ e) content = resolve (ctx @ e) raw)
    \<Longrightarrow> distinct (flat content) \<Longrightarrow> set (flat content) \<subseteq> set seen \<Longrightarrow> set seen \<subseteq> set U
    \<Longrightarrow> (\<And>counts d. simulates I (body counts d) (b counts d))
    \<Longrightarrow> simulates I (get_children opts defaults_only ts ctx content sn dep (counted body) (n # counts))
        (run_leaves opts (counted b) (leaves_list opts own defaults_only ts n ctx raw sn dep) (n # counts))"
proof (induction t and ts arbitrary: seen ctx content raw sn dep body b counts
    and seen defaults_only ctx content raw sn dep body b n counts rule: leaves.induct leaves_list.induct)
  case (CNode i info cs)
  let ?ctx = "ctx @ n_name info" and ?dep = "node_dep ctx (n_dep info) dep" and ?own = "L ! (R ! i)"
  let ?sn = "if n_append info then sn @ n_name info else sn"
  let ?list = "leaves_list opts own (only_default opts info) cs 0 ?ctx (own i @ raw) ?sn ?dep"
  let ?children = "\<lambda>ctx content shortname dep body counts.
      bindM (get_children opts (only_default opts info) cs ctx content shortname dep (counted body) (0 # counts))
        (\<lambda>counts. retM (tl counts))"
  note tree = CNode.prems(1) [simplified] and path = CNode.prems(2) [simplified]
  define ls where "ls = leaves opts own (CNode i info cs) ctx raw sn dep"
  have ls: "ls = (if cs = [] then (case resolve ?ctx (own i @ raw) of None \<Rightarrow> [] | Some ops \<Rightarrow> [(?ctx, ?sn, ?dep, ops)]) else ?list)"
    by (simp add: ls_def Let_def)
  have i: "i < length R" and names: "wf_labels (n_name info)" and labels: "wf_labels (n_labels info)" "n_labels info = labels_of i"
    using tree by blast+
  have ctx: "wf_labels ?ctx" using names CNode.prems(3) by simp
  have own: "own i = ?own" "?own \<in> set L" using own_in [OF i] by (simp_all add: own_def)
  have own_U: "set (flat ?own) \<subseteq> set U" using own(2) by (auto simp: U_def)
  have items: "set (flat (?own @ content)) \<subseteq> set U" "distinct (flat (?own @ content))"
    using own own_U path CNode.prems(5-7) by (auto simp: flat_append)
  have same: "resolve (?ctx @ e) (?own @ content) = resolve (?ctx @ e) (own i @ raw)" if "covers (n_labels info) e" for e
  proof -
    have "covers (n_name info @ n_labels info) (n_name info @ e)" using that by (rule covers_prefix)
    then have "resolve (?ctx @ e) content = resolve (?ctx @ e) raw" using CNode.prems(4) [of "n_name info @ e"] by simp
    then show ?thesis using own(1) by (simp add: resolve_append)
  qed
  have child: "covers (n_labels info) (n_name (n_info c) @ n_labels (n_info c))" if "c \<in> set cs" for c
    using tree that unfolding list_all_iff covers_simps by blast
  have children: "simulates I (?children ?ctx nc ?sn ?dep body counts) (run_leaves opts b ls counts)"
    if "cs \<noteq> []" and kept: "kept ?ctx (n_labels info) (?own @ content) nc" for nc
  proof -
    have "simulates I (get_children opts (only_default opts info) cs ?ctx nc ?sn ?dep (counted body) (0 # counts))
        (run_leaves opts (counted b) ?list (0 # counts))"
    proof (rule CNode.IH [where seen = "flat (own i) @ seen"])
      show "resolve (?ctx @ e) nc = resolve (?ctx @ e) (own i @ raw)"
        if "c \<in> set cs" "covers (n_name (n_info c) @ n_labels (n_info c)) e" for c e
      proof -
        have e: "covers (n_labels info) e" using child [OF that(1)] that(2) by (rule covers_trans)
        show ?thesis using kept_none [OF kept e] same [OF e] by simp
      qed
      show "distinct (flat nc)" "set (flat nc) \<subseteq> set (flat (own i) @ seen)"
        using kept items(2) CNode.prems(6) own(1) by (auto simp: kept_def flat_append)
      show "set (flat (own i) @ seen) \<subseteq> set U" using own own_U CNode.prems(7) by simp
    qed (use tree path ctx CNode.prems(8) in simp_all)
    then have "simulates I (?children ?ctx nc ?sn ?dep body counts)
        (bindM (run_leaves opts (counted b) ?list (0 # counts)) (\<lambda>counts. retM (tl counts)))"
      by (rule simulates_bind) (rule simulates_ret)
    then show ?thesis using that(1) by (simp add: run_leaves_counted bindM_assoc ls)
  qed
  have none: "ls = []" if all_none: "\<And>e. covers (n_labels info) e \<Longrightarrow> resolve (ctx @ n_name info @ e) (?own @ content) = None"
  proof -
    have no: "resolve (?ctx @ e) (own i @ raw) = None" if "covers (n_labels info) e" for e
      using all_none [OF that] same [OF that] by simp
    have "?list = []"
    proof (rule no_leaves(2) [where m = "length R"])
      show "list_all (tree_ok labels_of (length R)) cs" using tree by blast
      show "resolve (?ctx @ e) (own i @ raw) = None"
        if "c \<in> set cs" "covers (n_name (n_info c) @ n_labels (n_info c)) e" for c e
        using no covers_trans [OF child [OF that(1)] that(2)] .
    qed
    then show ?thesis using no [of "[]"] by (simp add: ls)
  qed
  have plain: "sim_at I g (get_dicts_plain opts i info (cs = []) ?children ctx content sn dep body counts) (run_leaves opts b ls counts)"
    if g: "I g" for g
    unfolding I_def
  proof (rule plain_simulates [where sn = ?sn])
    show "lines_ok (concat (map flat L))" "gen_ok L R labels_of g" using U g by (simp_all add: U_def I_def)
    show "i < length R" "wf_labels ?ctx" "wf_labels (n_labels info)" "n_labels info = labels_of i"
      by (rule i ctx labels)+
    show "set (flat (?own @ content)) \<subseteq> set (concat (map flat L))" "distinct (flat (?own @ content))"
      using items by (simp_all add: U_def)
    show "n_labels info = [] \<and> (\<forall>ctx content sn dep body counts. ?children ctx content sn dep body counts = retM counts)
      \<and> ls = (case resolve ?ctx (?own @ content) of None \<Rightarrow> [] | Some ops \<Rightarrow> [(?ctx, ?sn, ?dep, ops)])" if "cs = []"
    proof -
      have "n_labels info = []" using tree that by blast
      then show ?thesis using that same [of "[]"] by (simp add: ls)
    qed
    show "ls = []" if "\<And>e. covers (n_labels info) e \<Longrightarrow> resolve (ctx @ n_name info @ e) (?own @ content) = None"
      by (rule none) (rule that)
    show "simulates (gen_ok L R labels_of) (?children ?ctx nc ?sn ?dep body counts) (run_leaves opts b ls counts)"
      if "cs \<noteq> []" "kept ?ctx (n_labels info) (?own @ content) nc" for nc
      using children [OF that] by (simp only: I_def)
    show "simulates (gen_ok L R labels_of) (body counts d) (b counts d)" for counts d using CNode.prems(8) by (simp add: I_def)
  qed simp
  have steady: "filter is_join (own_content i g) = []" "g\<lparr>parent_generator := False\<rparr> = g" "\<not> parent_generator g" if "I g" for g
  proof -
    have c: "own_content i g = ?own" "\<not> parent_generator g" using that by (simp_all add: I_def gen_ok_def own_content_def)
    have "items_ok ?own" using lines_ok_items [OF U own_U] .
    then have "\<not> is_join t" if "t \<in> set ?own" for t
      using flat_top [of t ?own] that by (cases "i_obj t") (auto simp: items_ok_def list_all_iff is_join_def itself_def)
    then show "filter is_join (own_content i g) = []" by (simp add: c(1) filter_empty_conv)
    show "g\<lparr>parent_generator := False\<rparr> = g" "\<not> parent_generator g" using c(2) by (cases g; simp)+
  qed
  show ?case
    unfolding simulates_def ls_def [symmetric]
  proof (intro allI impI)
    fix g assume g: "I g"
    show "sim_at I g (get_dicts opts (CNode i info cs) ctx content sn dep body counts) (run_leaves opts b ls counts)"
      using plain [OF g] by (simp add: get_dicts_node_def sim_at_get sim_at_modify Let_def steady [OF g])
  qed
next
  case Nil_cnode
  then show ?case by (simp add: simulates_ret)
next
  case (Cons_cnode t ts)
  let ?ls = "leaves opts own t ctx raw sn dep"
  have same: "resolve (ctx @ e) content = resolve (ctx @ e) raw"
    if "covers (n_name (n_info t) @ n_labels (n_info t)) e" for e
    using Cons_cnode.prems(4) [of t e] that by simp
  have first: "simulates I (get_dicts opts t ctx content sn dep (counted body) (n # counts)) (run_leaves opts (counted b) ?ls (n # counts))"
    by (rule Cons_cnode.IH(1) [where seen = seen]) (use Cons_cnode.prems same simulates_counted in simp_all)
  have others: "simulates I (get_children opts defaults_only ts ctx content sn dep (counted body) (m # c))
        (run_leaves opts (counted b) (leaves_list opts own defaults_only ts m ctx raw sn dep) (m # c))" for m c
  proof (rule Cons_cnode.IH(2) [where seen = seen])
    show "resolve (ctx @ e) content = resolve (ctx @ e) raw"
      if "t' \<in> set ts" "covers (n_name (n_info t') @ n_labels (n_info t')) e" for t' e
      using Cons_cnode.prems(4) [of t' e] that by simp
  qed (use Cons_cnode.prems(1-3,5-8) in simp_all)
  let ?m = "n + length ?ls"
  have first': "simulates I (get_dicts opts t ctx content sn dep (counted body) (n # counts))
      (bindM (run_leaves opts b ?ls counts) (\<lambda>c. retM (?m # c)))"
    using first by (simp add: run_leaves_counted)
  let ?stop = "defaults_only \<and> n_default (n_info t) \<and> ?m > 0"
  let ?rest = "if ?stop then [] else leaves_list opts own defaults_only ts ?m ctx raw sn dep"
  have "simulates I (get_children opts defaults_only (t # ts) ctx content sn dep (counted body) (n # counts))
      (bindM (run_leaves opts b ?ls counts) (\<lambda>c. run_leaves opts (counted b) ?rest (?m # c)))"
    unfolding get_children.simps
  proof (rule simulates_bind_map [OF first'])
    fix c
    show "simulates I (if defaults_only \<and> n_default (n_info t) \<and> 0 < hd (?m # c) then retM (?m # c)
        else get_children opts defaults_only ts ctx content sn dep (counted body) (?m # c))
      (run_leaves opts (counted b) ?rest (?m # c))"
    proof (cases ?stop)
      case True
      then have "?rest = []" by simp
      then show ?thesis using True by (simp only: list.sel if_True run_leaves.simps(1) simulates_ret simp_thms)
    next
      case False
      then have "?rest = leaves_list opts own defaults_only ts ?m ctx raw sn dep" by (rule if_not_P)
      then show ?thesis using others [of ?m c] False by (simp only: list.sel if_False)
    qed
  qed
  moreover have "bindM (run_leaves opts b ?ls counts) (\<lambda>c. run_leaves opts (counted b) ?rest (?m # c))
      = run_leaves opts (counted b) (?ls @ ?rest) (n # counts)"
    by (simp add: run_leaves_append run_leaves_counted bindM_assoc)
  ultimately show ?case by (simp add: Let_def)
qed

end
