(* ===== verification/CfgProduct.thy ===== *)
theory CfgProduct
  imports CfgEnum
begin

text \<open>
  Whole enumerations of the Cartesian product: the equivalence with the reference for every
  well-formed configuration, what a second enumeration of the same parser yields, and the
  joins of filters.
\<close>

section \<open>All dictionaries\<close>

text \<open>The dictionaries of the leaves, up to the first one that raises.\<close>

primrec dicts_of :: "popts \<Rightarrow> (cdict \<Rightarrow> cdict) \<Rightarrow> leaf list \<Rightarrow> unit res \<times> cdict list" where
  "dicts_of opts f [] = (Inr (), [])"
| "dicts_of opts f (l # ls) =
     (case leaf_dict opts l of
        Inl e \<Rightarrow> (Inl e, [])
      | Inr d \<Rightarrow> (fst (dicts_of opts f ls), f d # snd (dicts_of opts f ls)))"

definition well_formed :: "(nat \<Rightarrow> label list) \<Rightarrow> cnode \<Rightarrow> gen \<Rightarrow> bool" where
  "well_formed labels_of t g \<longleftrightarrow>
     lines_ok (concat (map flat (lists g))) \<and> list_all (\<lambda>r. r < length (lists g)) (content_ref g)
     \<and> tree_ok labels_of (length (content_ref g)) t \<and> path_ok (\<lambda>i. own_content i g) t []"

lemma run_leaves_collect:
  "bindM (run_leaves opts (\<lambda>counts d. bindM (modifyM (\<lambda>ds. ds @ [f d])) (\<lambda>_. retM counts)) ls counts) (\<lambda>_. retM ()) ds
   = (fst (dicts_of opts f ls), ds @ snd (dicts_of opts f ls))"
proof (induction ls arbitrary: ds)
  case (Cons l ls)
  show ?case
  proof (cases "leaf_dict opts l")
    case (Inr d)
    have "bindM (modifyM (\<lambda>ds. ds @ [f d])) (\<lambda>_. m) ds = m (ds @ [f d])"
      for m :: "(cdict list, unit) io" by (simp add: bindM_def io_run)
    then show ?thesis using Inr Cons.IH [of "ds @ [f d]"] by (simp add: bindM_assoc)
  qed (simp add: bindM_def io_run)
qed (simp add: io_run)

lemma get_dicts_parent:
  "get_dicts opts t ctx content sn dep body counts g
   = get_dicts opts t ctx content sn dep (\<lambda>counts d. body counts (if parent_generator g then drop_suffixes d else d)) counts
       (g\<lparr>parent_generator := False\<rparr>)"
  by (cases t) (simp add: get_dicts_node_def bindM_def io_run Let_def cong: if_cong)

text \<open>One enumeration, from any state whose failed cases are ones.\<close>

lemma all_dicts_run:
  assumes wf: "well_formed labels_of t g"
    and ok: "gen_ok (lists g) (content_ref g) labels_of (g\<lparr>parent_generator := False\<rparr>)"
  shows "fst (all_dicts opts t g) = fst (dicts_of opts (if parent_generator g then drop_suffixes else id) (leaves opts (\<lambda>i. own_content i g) t [] [] [] []))"
    and "yielded (snd (all_dicts opts t g)) = yielded g
       @ snd (dicts_of opts (if parent_generator g then drop_suffixes else id) (leaves opts (\<lambda>i. own_content i g) t [] [] [] []))"
    and "gen_ok (lists g) (content_ref g) labels_of (snd (all_dicts opts t g))"
proof -
  let ?f = "if parent_generator g then drop_suffixes else id" and ?I = "gen_ok (lists g) (content_ref g) labels_of"
  let ?own = "\<lambda>i. lists g ! (content_ref g ! i)"
  let ?body = "\<lambda>counts d. bindM (modifyM (\<lambda>g. g\<lparr>yielded := yielded g @ [?f d]\<rparr>)) (\<lambda>_. retM counts)"
  let ?b = "\<lambda>counts d. bindM (modifyM (\<lambda>ds. ds @ [?f d])) (\<lambda>_. retM counts)"
  have own: "(\<lambda>i. own_content i g) = ?own" by (simp add: own_content_def)
  have body: "simulates ?I (?body counts d) (?b counts d)" for counts :: "nat list" and d
    by (auto simp: simulates_def sim_at_def bindM_def io_run gen_ok_def)
  have "simulates ?I (get_dicts opts t [] [] [] [] ?body []) (run_leaves opts ?b (leaves opts ?own t [] [] [] []) [])"
    by (rule get_dicts_simulates(1) [where seen = "[]"])
       (use wf body own in \<open>auto simp: well_formed_def wf_labels_def list_all_length\<close>)
  then have "simulates ?I (bindM (get_dicts opts t [] [] [] [] ?body []) (\<lambda>_. retM ()))
      (bindM (run_leaves opts ?b (leaves opts ?own t [] [] [] []) []) (\<lambda>_. retM ()))"
    by (rule simulates_bind) (rule simulates_ret)
  from simulatesD [OF this ok]
  have sim: "sim_at ?I (g\<lparr>parent_generator := False\<rparr>) (bindM (get_dicts opts t [] [] [] [] ?body []) (\<lambda>_. retM ()))
      (bindM (run_leaves opts ?b (leaves opts ?own t [] [] [] []) []) (\<lambda>_. retM ()))" .
  have "get_dicts opts t [] [] [] [] (\<lambda>counts d. bindM (modifyM (\<lambda>g. g\<lparr>yielded := yielded g @ [d]\<rparr>)) (\<lambda>_. retM counts)) [] g
      = get_dicts opts t [] [] [] [] ?body [] (g\<lparr>parent_generator := False\<rparr>)"
    by (subst get_dicts_parent) (cases "parent_generator g"; simp)
  then have "all_dicts opts t g = bindM (get_dicts opts t [] [] [] [] ?body []) (\<lambda>_. retM ()) (g\<lparr>parent_generator := False\<rparr>)"
    by (simp add: all_dicts_def bindM_def)
  then show "fst (all_dicts opts t g) = fst (dicts_of opts ?f (leaves opts (\<lambda>i. own_content i g) t [] [] [] []))"
    "yielded (snd (all_dicts opts t g)) = yielded g @ snd (dicts_of opts ?f (leaves opts (\<lambda>i. own_content i g) t [] [] [] []))"
    "?I (snd (all_dicts opts t g))"
    using sim run_leaves_collect [of opts ?f "leaves opts ?own t [] [] [] []" "[]" "yielded g"]
    unfolding sim_at_def own by simp_all
qed

text \<open>C8:
  The enumeration of a configuration without joins whose items are all different yields the
  dictionaries of exactly those leaves whose whole context passes all filters on their path,
  in order: the look-ahead into the labels of a subtree, the removal of decided filters, the
  early unpacking of conditions and the cache of failed cases make no difference. An exception
  comes where the first such leaf raises, after the dictionaries before it.
\<close>

theorem enumeration_is_exact:
  assumes "well_formed labels_of t g" and "failed_cases g = replicate (length (content_ref g)) []"
    and "yielded g = []"
  shows "(fst (all_dicts opts t g), yielded (snd (all_dicts opts t g)))
    = dicts_of opts (if parent_generator g then drop_suffixes else id)
        (leaves opts (\<lambda>i. own_content i g) t [] [] [] [])"
proof -
  have "gen_ok (lists g) (content_ref g) labels_of (g\<lparr>parent_generator := False\<rparr>)"
    using assms(2) by (simp add: gen_ok_def)
  from all_dicts_run(1,2) [OF assms(1) this, of opts] assms(3) show ?thesis by (simp add: prod_eq_iff)
qed

text \<open>A second enumeration of the same parser comes to the same end but yields the dictionaries
  before their suffixes are merged: the flag that marks the outermost generator is cleared by
  the first enumeration and never set again. The failed cases that the first one leaves
  behind make no difference.
\<close>

theorem second_enumeration_keeps_suffixes:
  assumes "well_formed labels_of t g" and "failed_cases g = replicate (length (content_ref g)) []"
    and "parent_generator g" and "yielded g = []"
    and "g' = (snd (all_dicts opts t g))\<lparr>yielded := []\<rparr>"
  shows "fst (all_dicts opts t g') = fst (all_dicts opts t g)
    \<and> yielded (snd (all_dicts opts t g)) = map drop_suffixes (yielded (snd (all_dicts opts t g')))"
proof -
  have "gen_ok (lists g) (content_ref g) labels_of (g\<lparr>parent_generator := False\<rparr>)"
    using assms(2) by (simp add: gen_ok_def)
  note first = all_dicts_run [OF assms(1) this, of opts]
  have same: "lists g' = lists g" "content_ref g' = content_ref g" "\<not> parent_generator g'" "yielded g' = []"
    using first(3) assms(5) by (simp_all add: gen_ok_def)
  have own: "own_content i g' = own_content i g" for i by (simp add: own_content_def same)
  have wf: "well_formed labels_of t g'" using assms(1) by (simp add: well_formed_def same own)
  have "gen_ok (lists g') (content_ref g') labels_of (g'\<lparr>parent_generator := False\<rparr>)"
    using first(3) assms(5) by (simp add: gen_ok_def)
  note second = all_dicts_run(1,2) [OF wf this, of opts]
  have "snd (dicts_of opts drop_suffixes ls) = map drop_suffixes (snd (dicts_of opts id ls))
      \<and> fst (dicts_of opts drop_suffixes ls) = fst (dicts_of opts id ls)" for ls
    by (induction ls) (simp_all split: sum.split)
  then show ?thesis using first(1,2) second assms(3,4) same by (simp add: own)
qed

section \<open>A configuration\<close>

text \<open>
  A leaf with a parameter, variants \<open>a\<close> (with a suffix) and \<open>b\<close> over it, variants \<open>x\<close> and
  \<open>y\<close> over those, and at the end a filter and a condition.
\<close>

definition plain_label :: "string \<Rightarrow> label" where
  "plain_label s = Label s None"

definition variant_info :: "string list \<Rightarrow> string list \<Rightarrow> ninfo" where
  "variant_info names labels = \<lparr>n_name = map plain_label names, n_var = None, n_dep = [],
     n_labels = map plain_label labels, n_append = names \<noteq> [], n_default = False\<rparr>"

definition example_labels :: "nat \<Rightarrow> label list" where
  "example_labels i = map plain_label ([[], [], [], [''a'', ''b''], [''a'', ''b''], [''a'', ''b''], [''x'', ''y'', ''a'', ''b'']] ! i)"

definition example_tree :: cnode where
  "example_tree =
     (let leaf = CNode 0 (variant_info [] []) [];
          lower = CNode 3 (variant_info [] [''a'', ''b''])
            [CNode 1 (variant_info [''a''] []) [leaf], CNode 2 (variant_info [''b''] []) [leaf]]
      in CNode 6 (variant_info [] [''x'', ''y'', ''a'', ''b''])
           [CNode 4 (variant_info [''x''] [''a'', ''b'']) [lower], CNode 5 (variant_info [''y''] [''a'', ''b'']) [lower]])"

definition example_state :: gen where
  "example_state = \<lparr>
     lists = [[Item ''t.cfg'' 1 (Oper (SetOp ''mem'' ''512''))],
       [Item ''t.cfg'' 4 (Oper (SetOp ''disk'' ''qcow2'')), Item ''t.cfg'' 5 (Oper (SuffixOp ''_vm1''))],
       [], [], [], [],
       [Item ''t.cfg'' 10 (NoF [[[plain_label ''y'', plain_label ''b'']]]),
        Item ''t.cfg'' 11 (CondF [[[plain_label ''x'']]] [Item ''t.cfg'' 11 (Oper (SetOp ''mem'' ''1024''))])]],
     content_ref = [0, 1, 2, 3, 4, 5, 6], failed_cases = replicate 7 [], parent_generator = True, yielded = []\<rparr>"

definition example_opts :: popts where
  "example_opts = \<lparr>defaults = False, expand_defaults = [],
     pylib = \<lparr>re_compile = (\<lambda>_. Inl ValueError), to_float = (\<lambda>_. Inl ValueError)\<rparr>\<rparr>"

lemma example_well_formed: "well_formed example_labels example_tree example_state"
  by code_simp

lemma example_start:
  "failed_cases example_state = replicate (length (content_ref example_state)) []"
  "parent_generator example_state" "yielded example_state = []"
  by code_simp+

definition example_dicts :: "cdict list" where
  "example_dicts =
     [[([''name''], Text ''x.a''), ([''dep''], Names []), ([''shortname''], Text ''x.a''), ([''mem''], Text ''1024''),
       ([''mem_vm1''], Text ''512''), ([''disk''], Text ''qcow2'')],
      [([''name''], Text ''x.b''), ([''dep''], Names []), ([''shortname''], Text ''x.b''), ([''mem''], Text ''1024'')],
      [([''name''], Text ''y.a''), ([''dep''], Names []), ([''shortname''], Text ''y.a''), ([''mem''], Text ''512''),
       ([''disk''], Text ''qcow2'')]]"

lemma example_leaves:
  "dicts_of example_opts drop_suffixes (leaves example_opts (\<lambda>i. own_content i example_state) example_tree [] [] [] [])
   = (Inr (), example_dicts)"
  by code_simp

lemma enumeration_is_exact_witness:
  "yielded (snd (all_dicts example_opts example_tree example_state)) = example_dicts"
  using enumeration_is_exact [OF example_well_formed example_start(1,3), of example_opts] example_start(2) example_leaves by simp

lemma second_enumeration_keeps_suffixes_witness:
  "map drop_suffixes (yielded (snd (all_dicts example_opts example_tree
     ((snd (all_dicts example_opts example_tree example_state))\<lparr>yielded := []\<rparr>)))) = example_dicts"
proof -
  have "gen_ok (lists example_state) (content_ref example_state) example_labels (example_state\<lparr>parent_generator := False\<rparr>)"
    using example_start(1) by (simp add: gen_ok_def)
  then have "yielded (snd (all_dicts example_opts example_tree example_state)) = example_dicts"
    using all_dicts_run(2) [OF example_well_formed, of example_opts] example_start example_leaves by simp
  then show ?thesis
    using second_enumeration_keeps_suffixes [OF example_well_formed example_start refl, of example_opts] by simp
qed

section \<open>Duplicate lines\<close>

text \<open>
  Two calls of \<open>parse_string\<close> both count lines from one. Here a condition that holds such
  a filter and the same filter at the top level look equal to the cache of failed cases.
\<close>

definition twice_state :: gen where
  "twice_state = example_state\<lparr>lists := [[], [], [], [], [], [],
     [Item ''<string>'' 1 (CondF [[[plain_label ''b'']]] [Item ''<string>'' 1 (OnlyF [[[plain_label ''a'', plain_label ''b'']]])]),
      Item ''<string>'' 1 (OnlyF [[[plain_label ''a'', plain_label ''b'']]])]]\<rparr>"

text \<open>Variants \<open>c\<close> and \<open>a\<close> over \<open>b\<close> and \<open>a\<close>.\<close>

definition twice_tree :: cnode where
  "twice_tree =
     (let leaf = CNode 0 (variant_info [] []) [];
          lower = CNode 3 (variant_info [] [''b'', ''a''])
            [CNode 1 (variant_info [''b''] []) [leaf], CNode 2 (variant_info [''a''] []) [leaf]]
      in CNode 6 (variant_info [] [''c'', ''a'', ''b''])
           [CNode 4 (variant_info [''c''] [''b'', ''a'']) [lower], CNode 5 (variant_info [''a''] [''b'', ''a'']) [lower]])"

text \<open>A configuration whose lines are not distinct can lose a dictionary: with \<open>b: only a.b\<close> and
  \<open>only a.b\<close> parsed as two strings, the variant \<open>a.b\<close> passes every filter, but nothing is
  yielded, because a condition that matches again is taken for a filter that fails again.
\<close>

theorem duplicate_lines_lose_variants:
  "yielded (snd (all_dicts example_opts twice_tree twice_state)) = []
   \<and> map (\<lambda>(ctx, _). dotted ctx) (leaves example_opts (\<lambda>i. own_content i twice_state) twice_tree [] [] [] []) = [''a.b'']"
  by code_simp

section \<open>Joins\<close>

text \<open>Three variants, \<open>x.a\<close>, \<open>x.b\<close> and \<open>c\<close>, and a join of filters at the end.\<close>

definition join_tree :: cnode where
  "join_tree =
     (let leaf = CNode 0 (variant_info [] []) []
      in CNode 4 (variant_info [] [''x'', ''a'', ''b'', ''c''])
           [CNode 1 (variant_info [''x'', ''a''] []) [leaf], CNode 2 (variant_info [''x'', ''b''] []) [leaf],
            CNode 3 (variant_info [''c''] []) [leaf]])"

definition join_state :: "string list list \<Rightarrow> gen" where
  "join_state fs = \<lparr>lists = [[], [], [], [], [Item ''t.cfg'' 1 (JoinF (map (\<lambda>f. [map plain_label f]) fs))]],
     content_ref = [0, 1, 2, 3, 4], failed_cases = replicate 5 [], parent_generator = True, yielded = []\<rparr>"

definition join_names :: "string list list \<Rightarrow> dval option list" where
  "join_names fs = map (\<lambda>d. map_of d [''name'']) (yielded (snd (all_dicts example_opts join_tree (join_state fs))))"


text \<open>A filter joined with itself raises, for there is no position where equal names differ.\<close>

lemma common_prefix_raises: "common_prefix n (n @ s) = Inl ValueError" "common_prefix (n @ s) n = Inl ValueError"
proof (induction n)
  case Nil
  show "common_prefix [] ([] @ s) = Inl ValueError" "common_prefix ([] @ s) [] = Inl ValueError" by (cases s; simp)+
qed simp_all

lemma product_of_same_name_raises:
  assumes "map_of d1 [''name''] = Some (Text n)" and "map_of d2 [''name''] = Some (Text (n @ s))"
  shows "product_dict d1 d2 = Inl ValueError" and "product_dict d2 d1 = Inl ValueError"
  using assms by (simp_all add: product_dict_def name_of_def mk_name_def text_of_def common_prefix_raises)

lemma join_of_same_filter_raises:
  "fst (all_dicts example_opts join_tree (join_state [[''c''], [''c'']])) = Inl ValueError"
  by code_simp

end
