(* ===== verification/CfgLexer.thy ===== *)
theory CfgLexer
  imports CfgTree
begin

text \<open>
  The reader and the lexer of the Cartesian configuration language, \<open>StrReader\<close> and
  \<open>Lexer\<close> in \<open>virttest/cartesian_config.py\<close>. The lexer is a generator that the parser steers
  through attributes between two tokens (the indentation of the block, the fast mode, the
  request for the rest of the line), so that it is modelled as a machine: a state holds the
  point where the generator is suspended, and \<open>next_token\<close> runs it up to the next \<open>yield\<close>.
\<close>

section \<open>Lines\<close>

text \<open>\<open>splitlines\<close>, with all the line boundaries among 8-bit characters.\<close>

definition is_line_end :: "char \<Rightarrow> bool" where
  "is_line_end c \<longleftrightarrow> c \<in> set [CHR 0x0A, CHR 0x0B, CHR 0x0C, CHR 0x0D, CHR 0x1C, CHR 0x1D, CHR 0x1E, CHR 0x85]"

fun split_lines :: "string \<Rightarrow> string \<Rightarrow> string list" where
  "split_lines acc [] = (if acc = [] then [] else [acc])"
| "split_lines acc [c] = (if is_line_end c then [acc] else [acc @ [c]])"
| "split_lines acc (c # d # cs) =
     (if c = CHR 0x0D \<and> d = CHR 0x0A then acc # split_lines [] cs
      else if is_line_end c then acc # split_lines [] (d # cs)
      else split_lines (acc @ [c]) (d # cs))"

definition lstrip :: "string \<Rightarrow> string" where
  "lstrip s = dropWhile is_ws s"

definition rstrip :: "string \<Rightarrow> string" where
  "rstrip s = rev (dropWhile is_ws (rev s))"

fun expand_tabs :: "nat \<Rightarrow> string \<Rightarrow> string" where
  "expand_tabs col [] = []"
| "expand_tabs col (c # cs) =
     (if c = CHR 0x09 then let n = 8 - col mod 8 in replicate n (CHR '' '') @ expand_tabs (col + n) cs
      else c # expand_tabs (col + 1) cs)"

type_synonym line = "string \<times> int \<times> int"

definition read_line :: "nat \<Rightarrow> string \<Rightarrow> line list" where
  "read_line linenum text =
     (let line = expand_tabs 0 (rstrip text); stripped_line = lstrip line
      in if stripped_line = [] \<or> startswith stripped_line ''#'' \<or> startswith stripped_line ''//'' then []
         else [(stripped_line, int (length line - length stripped_line), int linenum + 1)])"

record reader =
  r_lines :: "line list"
  r_stored :: "line option"

definition str_reader :: "string \<Rightarrow> reader" where
  "str_reader s = \<lparr>r_lines = concat (map (\<lambda>(i, l). read_line i l) (enumerate 0 (split_lines [] s))), r_stored = None\<rparr>"

definition get_next_line :: "int \<Rightarrow> reader \<Rightarrow> (string option \<times> int \<times> int) \<times> reader" where
  "get_next_line prev_indent r =
     (case r_stored r of
        Some (l, indent, n) \<Rightarrow> ((Some l, indent, n), r\<lparr>r_stored := None\<rparr>)
      | None \<Rightarrow>
          (case r_lines r of
             [] \<Rightarrow> ((None, - 1, - 1), r)
           | (l, indent, n) # ls \<Rightarrow>
               if indent \<le> prev_indent then ((None, indent, n), r)
               else ((Some l, indent, n), r\<lparr>r_lines := ls\<rparr>)))"

definition set_next_line :: "string \<Rightarrow> int \<Rightarrow> int \<Rightarrow> reader \<Rightarrow> reader" where
  "set_next_line text indent linenum r =
     (if strip_ws text = [] then r else r\<lparr>r_stored := Some (strip_ws text, indent, linenum)\<rparr>)"

section \<open>Tokens\<close>

datatype opkind = KSet | KLazySet | KAppend | KPrepend | KRegExpSet | KRegExpAppend | KRegExpPrepend

datatype token =
    TIndent int | TEndBlock int | TEndL | TIdent string | TWhite | TString string
  | TColon | TVariants | TDot | TVariant | TDefault | TOnly | TSuffix | TJoin | TNo | TNotCond
  | TComa | TLBracket | TRBracket | TLLBracket | TRRBracket | TInclude | TOp opkind | TDel

fun is_alnum :: "char \<Rightarrow> bool" where
  "is_alnum c \<longleftrightarrow> (let n = (of_char c :: nat) in
     48 \<le> n \<and> n \<le> 57 \<or> 65 \<le> n \<and> n \<le> 90 \<or> 97 \<le> n \<and> n \<le> 122
     \<or> n \<in> set [170, 178, 179, 181, 185, 186, 188, 189, 190]
     \<or> 192 \<le> n \<and> n \<noteq> 215 \<and> n \<noteq> 247)"

definition spec_iden :: string where
  "spec_iden = ''_-''"

definition spec_oper :: string where
  "spec_oper = ''+<?~''"

definition iden_char :: "char \<Rightarrow> bool" where
  "iden_char c \<longleftrightarrow> is_alnum c \<or> c \<in> set spec_iden"

definition tokens_map :: "(char \<times> token) list" where
  "tokens_map = [(CHR ''-'', TVariant), (CHR ''.'', TDot), (CHR '':'', TColon), (CHR ''@'', TDefault),
     (CHR '','', TComa), (CHR ''['', TLBracket), (CHR '']'', TRBracket), (CHR ''('', TLLBracket),
     (CHR '')'', TRRBracket), (CHR ''!'', TNotCond)]"

definition tokens_oper :: "(string \<times> opkind) list" where
  "tokens_oper = [([], KSet), (''~'', KLazySet), (''+'', KAppend), (''<'', KPrepend), (''?'', KRegExpSet),
     (''?+'', KRegExpAppend), (''?<'', KRegExpPrepend)]"

text \<open>The leftmost operator of a line: what is before it, its kind and what is after it.\<close>

fun search_oper :: "string \<Rightarrow> (string \<times> string \<times> opkind \<times> string) option" where
  "search_oper [] = None"
| "search_oper (c # cs) =
     (case filter (\<lambda>(o', k). prefix (o' @ ''='') (c # cs)) tokens_oper of
        (o', k) # _ \<Rightarrow> Some ([], o' @ ''='', k, drop (length o' + 1) (c # cs))
      | [] \<Rightarrow> map_option (\<lambda>(pre, rest). (c # pre, rest)) (search_oper cs))"

section \<open>The lexer\<close>

text \<open>
  Where the generator is suspended: before a line; after \<open>LIndent\<close>; between the two tokens of
  \<open>variants:\<close>; after the keyword of a line, at a position; with tokens that are already determined; and within the loop over the
  characters, with the remaining characters, the identifier and the operator collected so far
  (at the top of the loop, before an operator character, before another character, at the
  character after white space, and at the end of an iteration).
\<close>

datatype point =
    AtLine | AtMatch string | AtColon string | AfterKeyword string nat | Fixed "token list"
  | AtTop string string string | AtOper char string | AtSpecial char string string
  | AtChar char string string string | AtRest string string string

record lexer =
  l_reader :: reader
  l_filename :: string
  l_linenum :: int
  l_prev_indent :: int
  l_fast :: bool
  l_rest :: bool
  l_point :: point

definition new_lexer :: "string \<Rightarrow> reader \<Rightarrow> lexer" where
  "new_lexer file_name r = \<lparr>l_reader = r, l_filename = file_name, l_linenum = 0, l_prev_indent = 0,
     l_fast = False, l_rest = False, l_point = AtLine\<rparr>"

definition end_tokens :: "string \<Rightarrow> token list" where
  "end_tokens chars = (if chars \<noteq> [] then [TIdent chars] else []) @ [TEndL]"

text \<open>
  Within the loop, up to the next token: the token, the next point, and whether the rest of
  the line is still asked for. A string without its closing quote ends the iterator inside
  the generator, which is a \<open>RuntimeError\<close>.
\<close>

definition fixed :: "bool \<Rightarrow> token list \<Rightarrow> (token \<times> point \<times> bool) res" where
  "fixed rest_as toks = (case toks of t # ts \<Rightarrow> Inr (t, Fixed ts, rest_as) | [] \<Rightarrow> Inl RuntimeError)"

function lex_top :: "bool \<Rightarrow> string \<Rightarrow> string \<Rightarrow> string \<Rightarrow> (token \<times> point \<times> bool) res"
  and lex_special :: "bool \<Rightarrow> char \<Rightarrow> string \<Rightarrow> string \<Rightarrow> (token \<times> point \<times> bool) res"
  and lex_char :: "bool \<Rightarrow> char \<Rightarrow> string \<Rightarrow> string \<Rightarrow> string \<Rightarrow> (token \<times> point \<times> bool) res"
  and lex_rest :: "bool \<Rightarrow> string \<Rightarrow> string \<Rightarrow> string \<Rightarrow> (token \<times> point \<times> bool) res"
where
  "lex_top rest_as [] chars oper = fixed rest_as (end_tokens chars)"
| "lex_top rest_as (c # cs) chars oper =
     (if iden_char c then lex_top rest_as cs (chars @ [c]) oper
      else if c \<in> set spec_oper then
        (if chars \<noteq> [] then Inr (TIdent chars, AtOper c cs, rest_as)
         else lex_top rest_as cs [] (oper @ [c]))
      else if chars \<noteq> [] then Inr (TIdent chars, AtSpecial c cs oper, rest_as)
      else lex_special rest_as c cs oper)"
| "lex_special rest_as c cs oper =
     (if is_ws c then
        (case dropWhile is_ws cs of
           [] \<Rightarrow> Inl LexerError
         | d # ds \<Rightarrow> Inr (TWhite, AtChar d ds [] oper, rest_as))
      else lex_char rest_as c cs [] oper)"
| "lex_char rest_as c cs chars oper =
     (if iden_char c then lex_rest rest_as cs (chars @ [c]) oper
      else if c = CHR ''='' then
        (case map_of tokens_oper oper of
           Some k \<Rightarrow> Inr (TOp k, AtRest cs chars [], rest_as)
         | None \<Rightarrow> Inl LexerError)
      else case map_of tokens_map c of
          Some t \<Rightarrow> Inr (t, AtRest cs chars oper, rest_as)
        | None \<Rightarrow>
            if c = CHR 0x22 then
              (case dropWhile (\<lambda>d. d \<noteq> CHR 0x22) cs of
                 [] \<Rightarrow> Inl RuntimeError
               | d # ds \<Rightarrow> let str = takeWhile (\<lambda>d. d \<noteq> CHR 0x22) cs in Inr (TString str, AtRest ds str oper, rest_as))
            else if c = CHR ''#'' then fixed rest_as (end_tokens chars)
            else if c \<in> set spec_oper then lex_rest rest_as cs chars (oper @ [c])
            else Inl LexerError)"
| "lex_rest rest_as cs chars oper =
     (if rest_as then Inr (TString (lstrip cs), Fixed (end_tokens chars), False)
      else lex_top rest_as cs chars oper)"
  by pat_completeness auto
termination
  by (relation "measure (\<lambda>p. case p of
       Inl (Inl (f, cs, _)) \<Rightarrow> 4 * length cs
     | Inl (Inr (f, c, cs, _)) \<Rightarrow> 4 * length cs + 3
     | Inr (Inl (f, c, cs, _)) \<Rightarrow> 4 * length cs + 2
     | Inr (Inr (f, cs, _)) \<Rightarrow> 4 * length cs + 1)") auto

text \<open>Before the loop: the keyword of a line, and the fast path for assignments.\<close>

definition line_keywords :: "(string \<times> token \<times> bool) list" where
  "line_keywords = [(''only '', TOnly, True), (''no '', TNo, True), (''include '', TInclude, False), (''del '', TDel, True),
     (''suffix '', TSuffix, True), (''join '', TJoin, True)]"

definition after_keyword :: "bool \<Rightarrow> bool \<Rightarrow> string \<Rightarrow> nat \<Rightarrow> (token \<times> point \<times> bool) res" where
  "after_keyword fast rest_as text pos =
     (let m = (if fast \<and> pos = 0 then search_oper text else None)
      in if rest_as then Inr (TString (lstrip (drop pos text)), Fixed [TEndL], False)
         else case m of
           Some (pre, oper, k, post) \<Rightarrow>
             if CHR '':'' \<notin> set text \<or> length (takeWhile (\<lambda>c. c \<noteq> CHR '':'') text) > length (pre @ oper)
             then Inr (TIdent (rstrip pre), Fixed [TOp k, TString (lstrip post), TEndL], False)
             else lex_top rest_as text [] []
         | None \<Rightarrow> lex_top rest_as (drop pos text) [] [])"

definition lex_match :: "bool \<Rightarrow> bool \<Rightarrow> string \<Rightarrow> (token \<times> point \<times> bool) res" where
  "lex_match fast rest_as text =
     (if startswith text ''variants:'' then Inr (TVariants, AtColon text, rest_as)
      else if startswith text ''variants '' then Inr (TVariants, AfterKeyword text 8, rest_as)
      else if startswith text ''-'' then Inr (TVariant, AfterKeyword text 1, rest_as)
      else case filter (\<lambda>(w, _). startswith text w) line_keywords of
          (w, t, skip) # _ \<Rightarrow>
            let pos = length w - 1
            in Inr (t, AfterKeyword text (if skip then pos + length (takeWhile is_ws (drop pos text)) else pos), rest_as)
        | [] \<Rightarrow> after_keyword fast rest_as text 0)"

definition read_next :: "lexer \<Rightarrow> token \<times> lexer" where
  "read_next lx =
     (case get_next_line (l_prev_indent lx) (l_reader lx) of
        ((None, indent, linenum), r) \<Rightarrow> (TEndBlock indent, lx\<lparr>l_reader := r, l_linenum := linenum, l_point := AtLine\<rparr>)
      | ((Some text, indent, linenum), r) \<Rightarrow>
          (TIndent indent, lx\<lparr>l_reader := r, l_linenum := linenum, l_point := AtMatch text\<rparr>))"

definition next_token :: "lexer \<Rightarrow> (token \<times> lexer) res" where
  "next_token lx =
     (let run = (\<lambda>r. bindE r (\<lambda>(t, p, rest_as). Inr (t, lx\<lparr>l_point := p, l_rest := rest_as\<rparr>)));
          f = l_rest lx
      in case l_point lx of
           AtLine \<Rightarrow> Inr (read_next lx)
         | Fixed [] \<Rightarrow> Inr (read_next lx)
         | Fixed (t # ts) \<Rightarrow> Inr (t, lx\<lparr>l_point := Fixed ts\<rparr>)
         | AtMatch text \<Rightarrow> run (lex_match (l_fast lx) f text)
         | AtColon text \<Rightarrow> run (Inr (TColon, AfterKeyword text 9, f))
         | AfterKeyword text pos \<Rightarrow> run (after_keyword (l_fast lx) f text pos)
         | AtTop cs chars oper \<Rightarrow> run (lex_top f cs chars oper)
         | AtOper c cs \<Rightarrow> run (lex_top f cs [] [c])
         | AtSpecial c cs oper \<Rightarrow> run (lex_special f c cs oper)
         | AtChar c cs chars oper \<Rightarrow> run (lex_char f c cs chars oper)
         | AtRest cs chars oper \<Rightarrow> run (lex_rest f cs chars oper))"

section \<open>Reading tokens\<close>

text \<open>
  How many tokens can come before the reader is at its end; a loop that reads more only gets
  \<open>LEndBlock\<close> and never ends.
\<close>

definition point_size :: "point \<Rightarrow> nat" where
  "point_size p = (case p of
     AtLine \<Rightarrow> 0 | AtMatch text \<Rightarrow> 3 * length text + 8 | AtColon text \<Rightarrow> 3 * length text + 7
   | AfterKeyword text pos \<Rightarrow> 3 * length text + 6
   | Fixed ts \<Rightarrow> length ts | AtTop cs chars oper \<Rightarrow> 3 * length cs + 6 | AtOper c cs \<Rightarrow> 3 * length cs + 6
   | AtSpecial c cs oper \<Rightarrow> 3 * length cs + 8 | AtChar c cs chars oper \<Rightarrow> 3 * length cs + 8
   | AtRest cs chars oper \<Rightarrow> 3 * length cs + 6)"

definition line_size :: "line \<Rightarrow> nat" where
  "line_size l = 3 * length (fst l) + 9"

definition lexer_size :: "lexer \<Rightarrow> nat" where
  "lexer_size lx = point_size (l_point lx) + sum_list (map line_size (r_lines (l_reader lx)))
     + (case r_stored (l_reader lx) of None \<Rightarrow> 0 | Some l \<Rightarrow> line_size l)"

primrec read_until :: "nat \<Rightarrow> (token \<Rightarrow> bool) \<Rightarrow> lexer \<Rightarrow> (token list \<times> lexer) res" where
  "read_until 0 stop lx = Inl OutOfFuel"
| "read_until (Suc n) stop lx =
     bindE (next_token lx) (\<lambda>(t, lx). if stop t then Inr ([t], lx)
       else bindE (read_until n stop lx) (\<lambda>(ts, lx). Inr (t # ts, lx)))"

definition get_until :: "(token \<Rightarrow> bool) \<Rightarrow> lexer \<Rightarrow> (token list \<times> lexer) res" where
  "get_until stop lx = read_until (Suc (lexer_size lx)) stop lx"

definition get_until_no_white :: "(token \<Rightarrow> bool) \<Rightarrow> lexer \<Rightarrow> (token list \<times> lexer) res" where
  "get_until_no_white stop lx = bindE (get_until stop lx) (\<lambda>(ts, lx). Inr (filter (\<lambda>t. t \<noteq> TWhite) ts, lx))"

text \<open>\<open>get_until_check\<close> raises at the first token that is neither allowed nor at the end.\<close>

definition get_until_check :: "(token \<Rightarrow> bool) \<Rightarrow> (token \<Rightarrow> bool) \<Rightarrow> lexer \<Rightarrow> (token list \<times> lexer) res" where
  "get_until_check ok stop lx =
     bindE (get_until (\<lambda>t. stop t \<or> \<not> ok t) lx) (\<lambda>(ts, lx). if stop (last ts) then Inr (ts, lx) else Inl ParserError)"

definition rest_line :: "lexer \<Rightarrow> (token list \<times> lexer) res" where
  "rest_line lx = bindE (get_until (\<lambda>t. t = TEndL) lx) (\<lambda>(ts, lx). Inr (butlast ts, lx))"

definition token_text :: "token \<Rightarrow> string res" where
  "token_text t = (case t of TString s \<Rightarrow> Inr s | TIdent s \<Rightarrow> Inr s | TWhite \<Rightarrow> Inr [] | _ \<Rightarrow> Inl AttributeError)"

definition rest_line_as_string :: "lexer \<Rightarrow> (token \<times> lexer) res" where
  "rest_line_as_string lx =
     bindE (next_token (lx\<lparr>l_rest := True\<rparr>)) (\<lambda>(t, lx). bindE (next_token lx) (\<lambda>(_, lx). Inr (t, lx)))"

definition get_next_check :: "(token \<Rightarrow> bool) \<Rightarrow> lexer \<Rightarrow> (token \<times> lexer) res" where
  "get_next_check ok lx = bindE (next_token lx) (\<lambda>(t, lx). if ok t then Inr (t, lx) else Inl ParserError)"

definition get_next_check_nw :: "(token \<Rightarrow> bool) \<Rightarrow> lexer \<Rightarrow> (token \<times> lexer) res" where
  "get_next_check_nw ok lx =
     bindE (get_until (\<lambda>t. t \<noteq> TWhite) lx) (\<lambda>(ts, lx). if ok (last ts) then Inr (last ts, lx) else Inl ParserError)"

section \<open>Filters\<close>

definition skip_white :: "token list \<Rightarrow> token list" where
  "skip_white ts = dropWhile (\<lambda>t. t = TWhite) ts"

text \<open>A label in parentheses: \<open>(name)\<close> or \<open>(variable=name)\<close>.\<close>

definition bracket_label :: "token list \<Rightarrow> (label \<times> token list) res" where
  "bracket_label ts =
     (case skip_white ts of
        TIdent ident # ts \<Rightarrow>
          (case skip_white ts of
             TRRBracket # ts \<Rightarrow> Inr (new_label ident None, ts)
           | TOp KSet # ts \<Rightarrow>
               (case skip_white ts of
                  t # ts \<Rightarrow>
                    (case (t, skip_white ts) of
                       (TIdent v, TRRBracket # ts) \<Rightarrow> Inr (new_label ident (Some v), ts)
                     | (TString v, TRRBracket # ts) \<Rightarrow> Inr (new_label ident (Some v), ts)
                     | _ \<Rightarrow> Inl ParserError)
                | [] \<Rightarrow> Inl ParserError)
           | _ \<Rightarrow> Inl ParserError)
      | _ \<Rightarrow> Inl ParserError)"

lemma skip_white_Cons: "skip_white ts = t # ts' \<Longrightarrow> length ts' < length ts"
  using length_dropWhile_le [of "\<lambda>t. t = TWhite" ts] by (simp add: skip_white_def)

lemma bracket_label_length: "bracket_label ts = Inr (l, ts') \<Longrightarrow> length ts' < length ts"
  by (auto simp: bracket_label_def dest!: skip_white_Cons split: list.splits token.splits opkind.splits)

text \<open>
  The loop: the current token, the remaining ones, the number of dots since the last label,
  and the lists collected so far. The tokens end with \<open>LEndL\<close>, so that the iterator is
  never exhausted.
\<close>

definition close_word :: "block \<Rightarrow> block list \<Rightarrow> lfilter \<Rightarrow> lfilter" where
  "close_word con_filter and_filter or_filters =
     (if and_filter \<noteq> [] then or_filters @ [and_filter @ (if con_filter \<noteq> [] then [con_filter] else [])]
      else if con_filter \<noteq> [] then or_filters @ [[con_filter]] else or_filters)"

definition add_label :: "label \<Rightarrow> nat \<Rightarrow> block \<Rightarrow> block list \<Rightarrow> (block \<times> block list) res" where
  "add_label l dots con_filter and_filter =
     (if dots = 1 then Inr (con_filter @ [l], and_filter)
      else if dots = 2 then Inr ([l], and_filter @ [con_filter])
      else Inl ParserError)"

function filter_loop :: "token \<Rightarrow> token list \<Rightarrow> nat \<Rightarrow> block \<Rightarrow> block list \<Rightarrow> lfilter \<Rightarrow> lfilter res" where
  "filter_loop t ts dots con_filter and_filter or_filters =
     (case t of
        TEndL \<Rightarrow> Inr (close_word con_filter and_filter or_filters)
      | TIdent s \<Rightarrow>
          (case (add_label (new_label s None) dots con_filter and_filter, ts) of
             (Inr (con_filter, and_filter), t # ts) \<Rightarrow> filter_loop t ts 0 con_filter and_filter or_filters
           | (Inr _, []) \<Rightarrow> Inl RuntimeError
           | (Inl e, _) \<Rightarrow> Inl e)
      | TLLBracket \<Rightarrow>
          (case bracket_label ts of
             Inl e \<Rightarrow> Inl e
           | Inr (l, ts') \<Rightarrow>
               (case (add_label l dots con_filter and_filter, ts') of
                  (Inr (con_filter, and_filter), t # ts) \<Rightarrow> filter_loop t ts 0 con_filter and_filter or_filters
                | (Inr _, []) \<Rightarrow> Inl RuntimeError
                | (Inl e, _) \<Rightarrow> Inl e))
      | TDot \<Rightarrow>
          (case ts of
             [] \<Rightarrow> Inl RuntimeError
           | t # ts \<Rightarrow> filter_loop t ts (dots + 1) con_filter and_filter or_filters)
      | _ \<Rightarrow>
          if t \<noteq> TComa \<and> t \<noteq> TWhite \<or> dots > 0 \<or> and_filter = [] \<and> con_filter = [] then Inl ParserError
          else
            (case skip_white ts of
               [] \<Rightarrow> Inl RuntimeError
             | t # ts \<Rightarrow> filter_loop t ts 1 [] [] (close_word con_filter and_filter or_filters)))"
  by pat_completeness auto
termination
  by (relation "measure (\<lambda>(t, ts, _). length ts)") (auto dest!: bracket_label_length skip_white_Cons)

declare filter_loop.simps [simp del]

definition is_ident :: "token \<Rightarrow> bool" where
  "is_ident t \<longleftrightarrow> (case t of TIdent s \<Rightarrow> True | _ \<Rightarrow> False)"

definition parse_filter :: "token list \<Rightarrow> lfilter res" where
  "parse_filter tokens =
     (case tokens @ [TEndL] of
        t # ts \<Rightarrow> if is_ident t \<or> t \<in> {TLLBracket, TEndL, TWhite} then filter_loop t ts 1 [] [] []
                else Inl ParserError
      | [] \<Rightarrow> Inl RuntimeError)"

section \<open>Filters and their text\<close>

definition label_tokens :: "label \<Rightarrow> token list" where
  "label_tokens l = (case l_var l of
     None \<Rightarrow> [TIdent (l_name l)] | Some v \<Rightarrow> [TLLBracket, TIdent v, TOp KSet, TIdent (l_name l), TRRBracket])"

text \<open>The lists of tokens with a separator between them.\<close>

fun sep_tokens :: "token list \<Rightarrow> token list list \<Rightarrow> token list" where
  "sep_tokens sep [] = []"
| "sep_tokens sep [ts] = ts"
| "sep_tokens sep (ts # tss) = ts @ sep @ sep_tokens sep tss"

definition block_tokens :: "block \<Rightarrow> token list" where
  "block_tokens b = sep_tokens [TDot] (map label_tokens b)"

definition word_tokens :: "block list \<Rightarrow> token list" where
  "word_tokens w = sep_tokens [TDot, TDot] (map block_tokens w)"

definition filter_tokens :: "lfilter \<Rightarrow> token list" where
  "filter_tokens f = sep_tokens [TComa, TWhite] (map word_tokens f)"

definition show_block :: "block \<Rightarrow> string" where
  "show_block b = join ''.'' (map long_name b)"

definition show_filter :: "lfilter \<Rightarrow> string" where
  "show_filter f = join '', '' (map (\<lambda>w. join ''..'' (map show_block w)) f)"

text \<open>Filters as a configuration writes them.\<close>

definition plain_word :: "string \<Rightarrow> bool" where
  "plain_word s \<longleftrightarrow> s \<noteq> [] \<and> list_all iden_char s"

definition written_filter :: "lfilter \<Rightarrow> bool" where
  "written_filter f \<longleftrightarrow> f \<noteq> [] \<and> (\<forall>w \<in> set f. w \<noteq> [] \<and> (\<forall>b \<in> set w. b \<noteq> [] \<and> (\<forall>l \<in> set b.
     plain_word (l_name l) \<and> (case l_var l of None \<Rightarrow> True | Some v \<Rightarrow> plain_word v))))"

section \<open>Reading back a filter: from the tokens\<close>

lemma sep_tokens_Cons: "sep_tokens sep (x # xs) = x @ concat (map (\<lambda>y. sep @ y) xs)"
  by (induction xs arbitrary: x) simp_all

definition loop_on :: "token list \<Rightarrow> nat \<Rightarrow> block \<Rightarrow> block list \<Rightarrow> lfilter \<Rightarrow> lfilter res" where
  "loop_on ts = filter_loop (hd ts) (tl ts)"

lemma loop_label:
  "loop_on (label_tokens l @ t # ts) 1 con ands ors = loop_on (t # ts) 0 (con @ [l]) ands ors"
  "loop_on (label_tokens l @ t # ts) 2 con ands ors = loop_on (t # ts) 0 [l] (ands @ [con]) ors"
  by (cases l; cases "l_var l"; simp add: loop_on_def label_tokens_def filter_loop.simps [of "TIdent _"]
      filter_loop.simps [of TLLBracket] add_label_def bracket_label_def skip_white_def new_label_def)+

lemma loop_dot: "loop_on (TDot # t # ts) dots con ands ors = loop_on (t # ts) (dots + 1) con ands ors"
  by (simp add: loop_on_def filter_loop.simps [of TDot])

lemma label_tokens_Cons: "\<exists>t ts. label_tokens l = t # ts \<and> t \<noteq> TWhite"
  by (cases "l_var l") (simp_all add: label_tokens_def)

lemma loop_dots:
  "loop_on (concat (map (\<lambda>y. [TDot] @ label_tokens y) ls) @ t # ts) 0 con ands ors = loop_on (t # ts) 0 (con @ ls) ands ors"
proof (induction ls arbitrary: con)
  case (Cons l ls)
  obtain u us where u: "label_tokens l = u # us" using label_tokens_Cons by blast
  obtain v vs where v: "concat (map (\<lambda>y. [TDot] @ label_tokens y) ls) @ t # ts = v # vs"
    by (cases "concat (map (\<lambda>y. [TDot] @ label_tokens y) ls) @ t # ts") simp_all
  have "loop_on (TDot # label_tokens l @ v # vs) 0 con ands ors = loop_on (v # vs) 0 (con @ [l]) ands ors"
    using loop_dot [of u "us @ v # vs" 0] loop_label(1) [of l v vs] by (simp add: u)
  then show ?case using Cons.IH [of "con @ [l]"] v by simp
qed simp

lemma loop_block:
  assumes "b \<noteq> []"
  shows "loop_on (block_tokens b @ t # ts) 1 con ands ors = loop_on (t # ts) 0 (con @ b) ands ors"
    "loop_on (block_tokens b @ t # ts) 2 con ands ors = loop_on (t # ts) 0 b (ands @ [con]) ors"
proof -
  obtain l ls where b: "b = l # ls" using assms by (cases b) simp_all
  obtain v vs where v: "concat (map (\<lambda>y. [TDot] @ label_tokens y) ls) @ t # ts = v # vs"
    by (cases "concat (map (\<lambda>y. [TDot] @ label_tokens y) ls) @ t # ts") simp_all
  have tokens: "block_tokens b @ t # ts = label_tokens l @ v # vs"
    using v by (simp add: block_tokens_def b sep_tokens_Cons comp_def)
  show "loop_on (block_tokens b @ t # ts) 1 con ands ors = loop_on (t # ts) 0 (con @ b) ands ors"
    "loop_on (block_tokens b @ t # ts) 2 con ands ors = loop_on (t # ts) 0 b (ands @ [con]) ors"
    unfolding tokens loop_label by (simp_all add: v [symmetric] loop_dots [simplified] b)
qed

lemma block_tokens_Cons: "b \<noteq> [] \<Longrightarrow> \<exists>t ts. block_tokens b = t # ts \<and> t \<noteq> TWhite"
proof -
  assume "b \<noteq> []"
  then obtain l ls where b: "b = l # ls" by (cases b) simp_all
  then show ?thesis using label_tokens_Cons [of l] by (auto simp: block_tokens_def sep_tokens_Cons)
qed

lemma loop_blocks:
  assumes "\<forall>b \<in> set bs. b \<noteq> []"
  shows "loop_on (concat (map (\<lambda>y. [TDot, TDot] @ block_tokens y) bs) @ t # ts) 0 con ands ors
    = loop_on (t # ts) 0 (last (con # bs)) (ands @ butlast (con # bs)) ors"
  using assms
proof (induction bs arbitrary: con ands)
  case (Cons b bs)
  obtain u us where u: "block_tokens b = u # us" using block_tokens_Cons Cons.prems by fastforce
  obtain v vs where v: "concat (map (\<lambda>y. [TDot, TDot] @ block_tokens y) bs) @ t # ts = v # vs"
    by (cases "concat (map (\<lambda>y. [TDot, TDot] @ block_tokens y) bs) @ t # ts") simp_all
  have "loop_on (TDot # TDot # block_tokens b @ v # vs) 0 con ands ors = loop_on (block_tokens b @ v # vs) 2 con ands ors"
    using loop_dot [of TDot "u # us @ v # vs" 0] loop_dot [of u "us @ v # vs" 1] by (simp add: u numeral_2_eq_2)
  also have "\<dots> = loop_on (v # vs) 0 b (ands @ [con]) ors" using loop_block(2) Cons.prems by simp
  finally show ?case using Cons.IH [of b "ands @ [con]"] Cons.prems v by simp
qed simp

lemma loop_word:
  assumes "w \<noteq> []" and "\<forall>b \<in> set w. b \<noteq> []"
  shows "loop_on (word_tokens w @ t # ts) 1 [] [] ors = loop_on (t # ts) 0 (last w) (butlast w) ors"
proof -
  obtain b bs where w: "w = b # bs" using assms(1) by (cases w) simp_all
  obtain v vs where v: "concat (map (\<lambda>y. [TDot, TDot] @ block_tokens y) bs) @ t # ts = v # vs"
    by (cases "concat (map (\<lambda>y. [TDot, TDot] @ block_tokens y) bs) @ t # ts") simp_all
  have "word_tokens w @ t # ts = block_tokens b @ v # vs"
    using v by (simp add: word_tokens_def w sep_tokens_Cons comp_def)
  then show ?thesis
    using loop_block(1) [of b v vs "[]"] loop_blocks [of bs t ts b "[]"] assms(2) v by (simp add: w)
qed

lemma close_last_word:
  "w \<noteq> [] \<Longrightarrow> \<forall>b \<in> set w. b \<noteq> [] \<Longrightarrow> close_word (last w) (butlast w) ors = ors @ [w]"
  by (cases w rule: rev_cases) (simp_all add: close_word_def)

lemma word_tokens_Cons: "w \<noteq> [] \<Longrightarrow> \<forall>b \<in> set w. b \<noteq> [] \<Longrightarrow> \<exists>t ts. word_tokens w = t # ts \<and> t \<noteq> TWhite"
proof -
  assume w: "w \<noteq> []" "\<forall>b \<in> set w. b \<noteq> []"
  then obtain b bs where b: "w = b # bs" by (cases w) simp_all
  then show ?thesis using block_tokens_Cons [of b] w by (auto simp: word_tokens_def sep_tokens_Cons)
qed

lemma loop_words:
  assumes "\<forall>w \<in> set (w # ws). w \<noteq> [] \<and> (\<forall>b \<in> set w. b \<noteq> [])"
  shows "loop_on (concat (map (\<lambda>y. [TComa, TWhite] @ word_tokens y) ws) @ [TEndL]) 0 (last w) (butlast w) ors
    = Inr (ors @ w # ws)"
  using assms
proof (induction ws arbitrary: w ors)
  case Nil
  then show ?case by (simp add: loop_on_def filter_loop.simps [of TEndL] close_last_word)
next
  case (Cons w' ws)
  obtain u us where u: "word_tokens w' = u # us" "u \<noteq> TWhite" using word_tokens_Cons [of w'] Cons.prems by auto
  obtain v vs where v: "concat (map (\<lambda>y. [TComa, TWhite] @ word_tokens y) ws) @ [TEndL] = v # vs"
    by (cases "concat (map (\<lambda>y. [TComa, TWhite] @ word_tokens y) ws) @ [TEndL]") simp_all
  have "\<not> (butlast w = [] \<and> last w = [])" using Cons.prems by (cases w rule: rev_cases) auto
  then have "loop_on (TComa # TWhite # word_tokens w' @ v # vs) 0 (last w) (butlast w) ors
      = loop_on (word_tokens w' @ v # vs) 1 [] [] (ors @ [w])"
    using Cons.prems close_last_word [of w ors] u
    by (simp add: loop_on_def filter_loop.simps [of TComa] skip_white_def)
  also have "\<dots> = loop_on (v # vs) 0 (last w') (butlast w') (ors @ [w])" using loop_word Cons.prems by simp
  finally show ?case using Cons.IH [of w' "ors @ [w]"] Cons.prems v by simp
qed

lemma parse_filter_tokens:
  assumes "f \<noteq> []" and "\<forall>w \<in> set f. w \<noteq> [] \<and> (\<forall>b \<in> set w. b \<noteq> [])"
  shows "parse_filter (filter_tokens f) = Inr f"
proof -
  obtain w ws where f: "f = w # ws" using assms(1) by (cases f) simp_all
  obtain v vs where v: "concat (map (\<lambda>y. [TComa, TWhite] @ word_tokens y) ws) @ [TEndL] = v # vs"
    by (cases "concat (map (\<lambda>y. [TComa, TWhite] @ word_tokens y) ws) @ [TEndL]") simp_all
  have tokens: "filter_tokens f @ [TEndL] = word_tokens w @ v # vs"
    using v by (simp add: filter_tokens_def f sep_tokens_Cons comp_def)
  have "loop_on (word_tokens w @ v # vs) 1 [] [] [] = Inr f"
    using loop_word [of w v vs "[]"] loop_words [of w ws "[]"] assms(2) v by (simp add: f)
  moreover have "\<exists>u us. word_tokens w = u # us \<and> ((\<exists>s. u = TIdent s) \<or> u = TLLBracket)"
  proof -
    obtain b bs where "w = b # bs" "b \<noteq> []" using assms(2) f by (cases w) auto
    moreover then obtain l ls where "b = l # ls" by (cases b) simp_all
    ultimately show ?thesis
      by (cases "l_var l") (simp_all add: word_tokens_def block_tokens_def sep_tokens_Cons label_tokens_def)
  qed
  ultimately show ?thesis unfolding parse_filter_def tokens by (auto simp: loop_on_def is_ident_def)
qed

section \<open>Reading back a filter: from its text\<close>

text \<open>What comes at the next token of a suspended generator.\<close>

definition resume :: "point \<Rightarrow> (token \<times> point \<times> bool) res" where
  "resume p = (case p of
     Fixed (t # ts) \<Rightarrow> Inr (t, Fixed ts, False)
   | AfterKeyword text pos \<Rightarrow> if pos = 0 then Inl RuntimeError else lex_top False (drop pos text) [] []
   | AtTop cs chars oper \<Rightarrow> lex_top False cs chars oper
   | AtOper c cs \<Rightarrow> lex_top False cs [] [c]
   | AtSpecial c cs oper \<Rightarrow> lex_special False c cs oper
   | AtChar c cs chars oper \<Rightarrow> lex_char False c cs chars oper
   | AtRest cs chars oper \<Rightarrow> lex_rest False cs chars oper
   | _ \<Rightarrow> Inl RuntimeError)"

text \<open>\<open>lexed cs ts cs'\<close>: from the characters \<open>cs\<close> come the tokens \<open>ts\<close>, and \<open>cs'\<close> is left.\<close>

inductive lexed :: "string \<Rightarrow> token list \<Rightarrow> string \<Rightarrow> bool" where
  lexed_refl: "lexed cs [] cs"
| lexed_step: "lex_top False cs [] [] = Inr (t, p, False) \<Longrightarrow> resume p = lex_top False cs' [] [] \<Longrightarrow> length cs' < length cs
    \<Longrightarrow> lexed cs' ts cs'' \<Longrightarrow> lexed cs (t # ts) cs''"

lemma lexed_trans [trans]: "lexed a ts b \<Longrightarrow> lexed b us c \<Longrightarrow> lexed a (ts @ us) c"
  by (induction rule: lexed.induct) (auto intro: lexed_step)

lemma lexed_one:
  "lex_top False cs [] [] = Inr (t, p, False) \<Longrightarrow> resume p = lex_top False cs' [] [] \<Longrightarrow> length cs' < length cs \<Longrightarrow> lexed cs [t] cs'"
  using lexed_step [OF _ _ _ lexed_refl] .

lemma not_iden_char:
  "list_all (\<lambda>c. \<not> iden_char c) ([CHR 0x09, CHR 0x0A, CHR 0x0B, CHR 0x0C, CHR 0x0D, CHR 0x1C, CHR 0x1D,
     CHR 0x1E, CHR 0x1F, CHR '' '', CHR 0x85, CHR 0xA0] @ spec_oper)"
  by code_simp

lemma iden_char_plain:
  assumes "iden_char c"
  shows "\<not> is_ws c" "\<not> is_line_end c" "c \<noteq> CHR 0x09" "c \<notin> set spec_oper"
proof -
  have no: "c \<notin> set ([CHR 0x09, CHR 0x0A, CHR 0x0B, CHR 0x0C, CHR 0x0D, CHR 0x1C, CHR 0x1D,
     CHR 0x1E, CHR 0x1F, CHR '' '', CHR 0x85, CHR 0xA0] @ spec_oper)"
    using not_iden_char assms unfolding list_all_iff by blast
  then show "\<not> is_ws c" "\<not> is_line_end c" "c \<noteq> CHR 0x09" "c \<notin> set spec_oper"
    by (auto simp only: is_ws_def is_line_end_def set_append list.set insert_iff Un_iff empty_iff)
qed

lemma lex_iden:
  "list_all iden_char w \<Longrightarrow> lex_top f (w @ cs) chars oper = lex_top f cs (chars @ w) oper"
  by (induction w arbitrary: chars) simp_all

text \<open>A character with a token of its own.\<close>

definition punctuation :: "char \<Rightarrow> token \<Rightarrow> bool" where
  "punctuation c t \<longleftrightarrow> \<not> iden_char c \<and> c \<notin> set spec_oper \<and> \<not> is_ws c
     \<and> (\<forall>cs. lex_special False c cs [] = Inr (t, AtRest cs [] [], False))"

lemma punctuation_chars:
  "punctuation (CHR ''.'') TDot" "punctuation (CHR '','') TComa" "punctuation (CHR ''('') TLLBracket"
  "punctuation (CHR '')'') TRRBracket" "punctuation (CHR ''='') (TOp KSet)"
  by (simp_all add: punctuation_def iden_char_def spec_iden_def spec_oper_def is_ws_def tokens_map_def tokens_oper_def)

lemma lexed_punctuation:
  assumes "punctuation c t"
  shows "lexed (c # cs) [t] cs"
proof -
  have "lex_top False (c # cs) [] [] = Inr (t, AtRest cs [] [], False)"
    using assms by (simp add: punctuation_def del: lex_special.simps)
  then show ?thesis by (rule lexed_one) (simp_all add: resume_def)
qed

lemma lexed_word:
  assumes w: "plain_word w" and c: "punctuation c t"
  shows "lexed (w @ c # cs) [TIdent w] (c # cs)"
proof (rule lexed_one)
  show "lex_top False (w @ c # cs) [] [] = Inr (TIdent w, AtSpecial c cs [], False)"
    using w c by (simp add: plain_word_def lex_iden punctuation_def del: lex_special.simps)
  show "resume (AtSpecial c cs []) = lex_top False (c # cs) [] []"
    using c by (simp add: resume_def punctuation_def)
  show "length (c # cs) < length (w @ c # cs)" using w by (simp add: plain_word_def)
qed

lemma lexed_last_word:
  assumes w: "plain_word w"
  shows "lexed w [TIdent w] []"
proof (rule lexed_one)
  show "lex_top False w [] [] = Inr (TIdent w, Fixed [TEndL], False)"
    using w lex_iden [of w False "[]" "[]" "[]"] by (simp add: plain_word_def end_tokens_def fixed_def)
  show "resume (Fixed [TEndL]) = lex_top False [] [] []" by (simp add: resume_def end_tokens_def fixed_def)
  show "length [] < length w" using w by (simp add: plain_word_def)
qed

lemma lexed_white:
  assumes "iden_char c \<or> punctuation c t"
  shows "lexed (CHR '' '' # c # cs) [TWhite] (c # cs)"
proof (rule lexed_one)
  have c: "\<not> is_ws c" "c \<notin> set spec_oper" using assms iden_char_plain by (auto simp: punctuation_def)
  then show "lex_top False (CHR '' '' # c # cs) [] [] = Inr (TWhite, AtChar c cs [] [], False)"
    by (simp add: iden_char_def spec_iden_def spec_oper_def is_ws_def)
  show "resume (AtChar c cs [] []) = lex_top False (c # cs) [] []"
    using assms c by (auto simp: resume_def punctuation_def)
qed simp

text \<open>Labels, blocks, words and filters: what follows is punctuation or the end of the line.\<close>

definition ends_word :: "string \<Rightarrow> bool" where
  "ends_word cs \<longleftrightarrow> cs = [] \<or> (\<exists>t. punctuation (hd cs) t)"

lemma lexed_label:
  assumes "plain_word (l_name l)" and "case l_var l of None \<Rightarrow> True | Some v \<Rightarrow> plain_word v" and cs: "ends_word cs"
  shows "lexed (long_name l @ cs) (label_tokens l) cs"
proof (cases "l_var l")
  case None
  show ?thesis
  proof (cases cs)
    case Nil
    then show ?thesis using None assms(1) by (simp add: long_name_def label_tokens_def lexed_last_word)
  next
    case (Cons c cs')
    then show ?thesis using None assms(1) cs by (auto simp: long_name_def label_tokens_def ends_word_def lexed_word)
  qed
next
  case (Some v)
  let ?n = "l_name l"
  have w: "plain_word v" "plain_word ?n" using assms(1,2) Some by simp_all
  have "lexed (CHR ''('' # v @ CHR ''='' # ?n @ CHR '')'' # cs) [TLLBracket] (v @ CHR ''='' # ?n @ CHR '')'' # cs)"
    by (rule lexed_punctuation) (rule punctuation_chars)
  also have "lexed (v @ CHR ''='' # ?n @ CHR '')'' # cs) [TIdent v] (CHR ''='' # ?n @ CHR '')'' # cs)"
    by (rule lexed_word [OF w(1)]) (rule punctuation_chars)
  also have "lexed (CHR ''='' # ?n @ CHR '')'' # cs) [TOp KSet] (?n @ CHR '')'' # cs)"
    by (rule lexed_punctuation) (rule punctuation_chars)
  also have "lexed (?n @ CHR '')'' # cs) [TIdent ?n] (CHR '')'' # cs)"
    by (rule lexed_word [OF w(2)]) (rule punctuation_chars)
  also have "lexed (CHR '')'' # cs) [TRRBracket] cs"
    by (rule lexed_punctuation) (rule punctuation_chars)
  finally show ?thesis using Some by (simp add: long_name_def label_tokens_def)
qed

lemma ends_word_Cons [simp]: "ends_word []" "ends_word (CHR ''.'' # cs)" "ends_word (CHR '','' # cs)"
  using punctuation_chars by (auto simp: ends_word_def)

text \<open>If the parts and the separator are read back, then so is the joined text.\<close>

lemma lexed_join:
  assumes parts: "\<And>x cs. x \<in> set xs \<Longrightarrow> ends_word cs \<Longrightarrow> lexed (shown x @ cs) (toks x) cs"
    and sep: "\<And>x cs. x \<in> set xs \<Longrightarrow> lexed (sep @ shown x @ cs) sep_toks (shown x @ cs)" "\<And>cs. ends_word (sep @ cs)"
    and "xs \<noteq> []" and "ends_word cs"
  shows "lexed (join sep (map shown xs) @ cs) (sep_tokens sep_toks (map toks xs)) cs"
  using parts sep(1) assms(4)
proof (induction xs)
  case (Cons x xs)
  show ?case
  proof (cases xs)
    case Nil
    then show ?thesis using Cons.prems(1) [of x cs] assms(5) by simp
  next
    case (Cons y ys)
    let ?rest = "join sep (map shown xs) @ cs"
    have rest: "\<exists>ds. ?rest = shown y @ ds" by (cases ys) (simp_all add: Cons)
    have "lexed (shown x @ sep @ ?rest) (toks x) (sep @ ?rest)" using Cons.prems(1) sep(2) by simp
    also have "lexed (sep @ ?rest) sep_toks ?rest" using rest Cons.prems(2) [of y] Cons by auto
    also have "lexed ?rest (sep_tokens sep_toks (map toks xs)) cs" using Cons.IH Cons.prems Cons by simp
    finally show ?thesis using Cons by simp
  qed
qed simp

definition readable_label :: "label \<Rightarrow> bool" where
  "readable_label l \<longleftrightarrow> plain_word (l_name l) \<and> (case l_var l of None \<Rightarrow> True | Some v \<Rightarrow> plain_word v)"

lemma long_name_first: "readable_label l \<Longrightarrow> \<exists>c ds. long_name l = c # ds \<and> (iden_char c \<or> (\<exists>t. punctuation c t))"
  using punctuation_chars(3)
  by (cases "l_var l"; cases "l_name l") (auto simp: long_name_def readable_label_def plain_word_def)

lemma lexed_block:
  assumes "b \<noteq> []" and "\<forall>l \<in> set b. readable_label l" and "ends_word cs"
  shows "lexed (show_block b @ cs) (block_tokens b) cs"
  unfolding show_block_def block_tokens_def
proof (rule lexed_join [OF _ _ _ assms(1,3)])
  show "lexed (long_name l @ ds) (label_tokens l) ds" if "l \<in> set b" "ends_word ds" for l ds
    using that assms(2) lexed_label by (auto simp: readable_label_def)
  show "lexed (''.'' @ long_name l @ ds) [TDot] (long_name l @ ds)" for l ds
    using lexed_punctuation [OF punctuation_chars(1)] by simp
qed simp

lemma lexed_words:
  assumes "w \<noteq> []" and "\<forall>b \<in> set w. b \<noteq> [] \<and> (\<forall>l \<in> set b. readable_label l)" and "ends_word cs"
  shows "lexed (join ''..'' (map show_block w) @ cs) (word_tokens w) cs"
  unfolding word_tokens_def
proof (rule lexed_join [OF _ _ _ assms(1,3)])
  show "lexed (show_block b @ ds) (block_tokens b) ds" if "b \<in> set w" "ends_word ds" for b ds
    using that assms(2) lexed_block by auto
  show "lexed (''..'' @ show_block b @ ds) [TDot, TDot] (show_block b @ ds)" for b ds
    using lexed_trans [OF lexed_punctuation [OF punctuation_chars(1)] lexed_punctuation [OF punctuation_chars(1)]] by simp
qed simp

lemma join_first: "xs \<noteq> [] \<Longrightarrow> \<exists>ds. join sep xs = hd xs @ ds"
  by (cases xs; cases "tl xs") auto

lemma shown_word_first:
  assumes "w \<noteq> []" and "\<forall>b \<in> set w. b \<noteq> [] \<and> (\<forall>l \<in> set b. readable_label l)"
  shows "\<exists>c ds. join ''..'' (map show_block w) = c # ds \<and> (iden_char c \<or> (\<exists>t. punctuation c t))"
proof -
  obtain b bs where w: "w = b # bs" using assms(1) by (cases w) simp_all
  obtain l ls where b: "b = l # ls" using assms(2) w by (cases b) simp_all
  obtain ds where "join ''..'' (map show_block w) = show_block b @ ds"
    using join_first [of "map show_block w" "''..''"] w by auto
  moreover obtain ds' where "show_block b = long_name l @ ds'"
    using join_first [of "map long_name b" "''.''"] b by (auto simp: show_block_def)
  moreover obtain c ds'' where "long_name l = c # ds''" "iden_char c \<or> (\<exists>t. punctuation c t)"
    using long_name_first [of l] assms(2) w b by auto
  ultimately show ?thesis by simp
qed

lemma lexed_filter:
  assumes "written_filter f"
  shows "lexed (show_filter f) (filter_tokens f) []"
proof -
  have f: "f \<noteq> []" "\<And>w. w \<in> set f \<Longrightarrow> w \<noteq> [] \<and> (\<forall>b \<in> set w. b \<noteq> [] \<and> (\<forall>l \<in> set b. readable_label l))"
    using assms unfolding written_filter_def readable_label_def by blast+
  have "lexed (join '', '' (map (\<lambda>w. join ''..'' (map show_block w)) f) @ []) (sep_tokens [TComa, TWhite] (map word_tokens f)) []"
  proof (rule lexed_join)
    show "lexed (join ''..'' (map show_block w) @ ds) (word_tokens w) ds" if "w \<in> set f" "ends_word ds" for w ds
      using lexed_words [of w ds] f(2) [of w] that by simp
    show "lexed ('', '' @ join ''..'' (map show_block w) @ ds) [TComa, TWhite] (join ''..'' (map show_block w) @ ds)"
      if w: "w \<in> set f" for w ds
    proof -
      obtain c cs where c: "join ''..'' (map show_block w) = c # cs" "iden_char c \<or> (\<exists>t. punctuation c t)"
        using shown_word_first [OF conjunct1 [OF f(2) [OF w]] conjunct2 [OF f(2) [OF w]]] by auto
      have "lexed (CHR '','' # CHR '' '' # c # cs @ ds) [TComa] (CHR '' '' # c # cs @ ds)"
        by (rule lexed_punctuation) (rule punctuation_chars)
      also have "lexed (CHR '' '' # c # cs @ ds) [TWhite] (c # cs @ ds)"
        using c(2) lexed_white by blast
      finally show ?thesis using c(1) by simp
    qed
  qed (simp_all add: f)
  then show ?thesis by (simp add: show_filter_def filter_tokens_def)
qed

section \<open>Reading back a filter: through the reader\<close>

lemma next_token_resume:
  assumes "\<not> l_rest lx" and "resume (l_point lx) = Inr (t, p, False)"
  shows "next_token lx = Inr (t, lx\<lparr>l_point := p, l_rest := False\<rparr>)"
  using assms
  by (cases "l_point lx") (auto simp: resume_def next_token_def after_keyword_def Let_def
      simp del: lex_top.simps lex_special.simps lex_char.simps lex_rest.simps split: if_splits list.splits)

lemma lexed_length: "lexed cs ts cs' \<Longrightarrow> length ts + length cs' \<le> length cs"
  by (induction rule: lexed.induct) simp_all

lemma lexed_end: "lexed cs ts cs' \<Longrightarrow> cs' = [] \<Longrightarrow> TEndL \<notin> set ts \<Longrightarrow> \<not> l_rest lx
  \<Longrightarrow> resume (l_point lx) = lex_top False cs [] [] \<Longrightarrow> length ts < n
  \<Longrightarrow> read_until n (\<lambda>t. t = TEndL) lx = Inr (ts @ [TEndL], lx\<lparr>l_point := Fixed [], l_rest := False\<rparr>)"
proof (induction arbitrary: lx n rule: lexed.induct)
  case (lexed_refl cs)
  then obtain m where m: "n = Suc m" by (cases n) simp_all
  have "next_token lx = Inr (TEndL, lx\<lparr>l_point := Fixed [], l_rest := False\<rparr>)"
    using lexed_refl by (intro next_token_resume) (simp_all add: end_tokens_def fixed_def)
  then show ?case by (simp add: m)
next
  case (lexed_step cs t p cs' ts cs'')
  then obtain m where m: "n = Suc m" by (cases n) simp_all
  let ?lx = "lx\<lparr>l_point := p, l_rest := False\<rparr>"
  have "next_token lx = Inr (t, ?lx)"
    using lexed_step.hyps(1) lexed_step.prems(3,4) by (intro next_token_resume) simp_all
  moreover have "read_until m (\<lambda>t. t = TEndL) ?lx = Inr (ts @ [TEndL], ?lx\<lparr>l_point := Fixed [], l_rest := False\<rparr>)"
    using lexed_step.prems lexed_step.hyps(2) m by (intro lexed_step.IH) simp_all
  ultimately show ?case using lexed_step.prems(2) by (auto simp: m)
qed

lemma lexed_rest_line:
  assumes "lexed (drop pos text) ts []" and "TEndL \<notin> set ts" and "\<not> l_rest lx"
    and "l_point lx = AfterKeyword text pos" and "0 < pos"
  shows "rest_line lx = Inr (ts, lx\<lparr>l_point := Fixed [], l_rest := False\<rparr>)"
proof -
  have "length ts \<le> length text" using lexed_length [OF assms(1)] by simp
  then have "length ts < Suc (lexer_size lx)" using assms(4) by (simp add: lexer_size_def point_size_def)
  then have "get_until (\<lambda>t. t = TEndL) lx = Inr (ts @ [TEndL], lx\<lparr>l_point := Fixed [], l_rest := False\<rparr>)"
    unfolding get_until_def using assms by (intro lexed_end [OF assms(1)]) (simp_all add: resume_def)
  then show ?thesis by (simp add: rest_line_def)
qed

lemma filter_tokens_plain: "TEndL \<notin> set (filter_tokens f)"
proof -
  have sep: "TEndL \<notin> set (sep_tokens s tss)" if "TEndL \<notin> set s" "\<forall>ts \<in> set tss. TEndL \<notin> set ts" for s tss
    using that by (induction s tss rule: sep_tokens.induct) auto
  have label: "TEndL \<notin> set (label_tokens l)" for l by (cases "l_var l") (simp_all add: label_tokens_def)
  have block: "TEndL \<notin> set (block_tokens b)" for b unfolding block_tokens_def by (rule sep) (simp_all add: label)
  have word: "TEndL \<notin> set (word_tokens w)" for w unfolding word_tokens_def by (rule sep) (simp_all add: block)
  show ?thesis unfolding filter_tokens_def by (rule sep) (simp_all add: word)
qed

text \<open>A line without leading or trailing white space, as the reader returns it.\<close>

definition plain_line :: "string \<Rightarrow> bool" where
  "plain_line s \<longleftrightarrow> s \<noteq> [] \<and> (\<forall>c \<in> set s. \<not> is_line_end c \<and> c \<noteq> CHR 0x09) \<and> \<not> is_ws (hd s) \<and> \<not> is_ws (last s)
     \<and> \<not> startswith s ''#'' \<and> \<not> startswith s ''//''"

lemma split_lines_plain: "(\<forall>c \<in> set s. \<not> is_line_end c) \<Longrightarrow> acc @ s \<noteq> [] \<Longrightarrow> split_lines acc s = [acc @ s]"
proof (induction acc s rule: split_lines.induct)
  case (3 acc c d cs)
  have "c \<noteq> CHR 0x0D" using 3(4) by (auto simp: is_line_end_def)
  then show ?case using 3 by simp
qed simp_all

lemma expand_tabs_plain: "CHR 0x09 \<notin> set s \<Longrightarrow> expand_tabs col s = s"
  by (induction col s rule: expand_tabs.induct) auto

lemma str_reader_plain:
  assumes "plain_line s"
  shows "str_reader s = \<lparr>r_lines = [(s, 0, 1)], r_stored = None\<rparr>"
proof -
  have s: "s \<noteq> []" "\<forall>c \<in> set s. \<not> is_line_end c" "CHR 0x09 \<notin> set s" using assms by (auto simp: plain_line_def)
  have "rstrip s = s" using assms by (cases s rule: rev_cases) (simp_all add: rstrip_def plain_line_def)
  moreover have "lstrip s = s" using assms by (cases s) (simp_all add: lstrip_def plain_line_def)
  ultimately show ?thesis using s assms
    by (simp add: str_reader_def split_lines_plain expand_tabs_plain read_line_def plain_line_def)
qed

definition filter_char :: "char \<Rightarrow> bool" where
  "filter_char c \<longleftrightarrow> iden_char c \<or> c \<in> set ''().,= ''"

lemma filter_char_plain:
  assumes "filter_char c"
  shows "\<not> is_line_end c" "c \<noteq> CHR 0x09"
  using assms iden_char_plain(2,3) by (auto simp: filter_char_def is_line_end_def)

lemma join_chars:
  "(\<And>x c. x \<in> set xs \<Longrightarrow> c \<in> set x \<Longrightarrow> P c) \<Longrightarrow> (\<And>c. c \<in> set sep \<Longrightarrow> P c) \<Longrightarrow> c \<in> set (join sep xs) \<Longrightarrow> P c"
  by (induction sep xs rule: join.induct) auto

lemma join_last:
  "xs \<noteq> [] \<Longrightarrow> (\<And>x. x \<in> set xs \<Longrightarrow> x \<noteq> [] \<and> P (last x)) \<Longrightarrow> join sep xs \<noteq> [] \<and> P (last (join sep xs))"
  by (induction sep xs rule: join.induct) auto

lemma show_filter_chars:
  assumes "written_filter f" and "c \<in> set (show_filter f)"
  shows "filter_char c"
proof -
  have name: "filter_char d" if "w \<in> set f" "b \<in> set w" "l \<in> set b" "d \<in> set (long_name l)" for w b l d
  proof -
    have "readable_label l" using assms(1) that(1-3) unfolding written_filter_def readable_label_def by blast
    then show ?thesis using that(4)
      by (cases "l_var l") (auto simp: readable_label_def plain_word_def long_name_def filter_char_def list_all_iff)
  qed
  have seps: "filter_char d" if "d \<in> set ''. '' \<or> d \<in> set '', '' \<or> d \<in> set ''..'' \<or> d \<in> set ''.''" for d
    using that by (auto simp: filter_char_def)
  have block: "filter_char d" if "w \<in> set f" "b \<in> set w" "d \<in> set (show_block b)" for w b d
    using that(3) unfolding show_block_def
    by (rule join_chars [rotated -1]) (use name that(1,2) seps in auto)
  have word: "filter_char d" if "w \<in> set f" "d \<in> set (join ''..'' (map show_block w))" for w d
    using that(2) by (rule join_chars [rotated -1]) (use block that(1) seps in auto)
  show ?thesis
    using assms(2) unfolding show_filter_def by (rule join_chars [rotated -1]) (use word seps in auto)
qed

lemma show_filter_last:
  assumes "written_filter f"
  shows "show_filter f \<noteq> [] \<and> \<not> is_ws (last (show_filter f))"
proof -
  have name: "long_name l \<noteq> [] \<and> \<not> is_ws (last (long_name l))" if "w \<in> set f" "b \<in> set w" "l \<in> set b" for w b l
  proof -
    have "readable_label l" using assms that unfolding written_filter_def readable_label_def by blast
    then have "plain_word (l_name l)" by (simp add: readable_label_def)
    then have n: "l_name l \<noteq> []" "iden_char (last (l_name l))" by (auto simp: plain_word_def list_all_iff)
    show ?thesis
      using n iden_char_plain(1) [OF n(2)] by (cases "l_var l") (simp_all add: long_name_def is_ws_def)
  qed
  have block: "show_block b \<noteq> [] \<and> \<not> is_ws (last (show_block b))" if "w \<in> set f" "b \<in> set w" for w b
    unfolding show_block_def using assms that
    by (intro join_last) (auto simp: written_filter_def dest: name)
  have word: "join ''..'' (map show_block w) \<noteq> [] \<and> \<not> is_ws (last (join ''..'' (map show_block w)))" if "w \<in> set f" for w
    using assms that by (intro join_last) (auto simp: written_filter_def dest: block)
  show ?thesis
    unfolding show_filter_def using assms
    by (intro join_last) (auto simp: written_filter_def dest: word)
qed

lemma filter_line_plain:
  assumes "written_filter f" and "k \<in> {''only '', ''no '', ''join ''}"
  shows "plain_line (k @ show_filter f)"
  unfolding plain_line_def
proof (intro conjI)
  show "\<forall>c \<in> set (k @ show_filter f). \<not> is_line_end c \<and> c \<noteq> CHR 0x09"
  proof (intro ballI)
    fix c assume "c \<in> set (k @ show_filter f)"
    then have "filter_char c \<or> c \<in> set (''only '' @ ''no '' @ ''join '')"
      using show_filter_chars [OF assms(1)] assms(2) by auto
    then show "\<not> is_line_end c \<and> c \<noteq> CHR 0x09"
      using filter_char_plain [of c] by (auto simp: is_line_end_def)
  qed
  show "\<not> is_ws (last (k @ show_filter f))" using show_filter_last [OF assms(1)] by simp
qed (use assms(2) in \<open>auto simp: is_ws_def startswith_def\<close>)

lemma show_filter_hd:
  assumes "written_filter f"
  shows "\<not> is_ws (hd (show_filter f))"
proof -
  obtain w ws where f: "f = w # ws" using assms by (cases f) (simp_all add: written_filter_def)
  have w: "w \<noteq> []" "\<forall>b \<in> set w. b \<noteq> [] \<and> (\<forall>l \<in> set b. readable_label l)"
    using assms f unfolding written_filter_def readable_label_def by auto
  obtain c ds where c: "join ''..'' (map show_block w) = c # ds" "iden_char c \<or> (\<exists>t. punctuation c t)"
    using shown_word_first [OF w] by blast
  have "\<not> is_ws c" using c(2) iden_char_plain(1) by (auto simp: punctuation_def)
  moreover obtain ds' where "show_filter f = join ''..'' (map show_block w) @ ds'"
    using join_first [of "map (\<lambda>w. join ''..'' (map show_block w)) f" "'', ''"] f by (auto simp: show_filter_def)
  ultimately show ?thesis using c(1) by simp
qed

text \<open>The tokens of a line with a filter, and the filter that the parser makes of them.\<close>

lemma filter_line_tokens:
  assumes f: "written_filter f" and k: "(k, t) \<in> {(''only '', TOnly), (''no '', TNo), (''join '', TJoin)}"
    and lx: "l_reader lx = str_reader (k @ show_filter f)" "l_point lx = AtLine" "\<not> l_rest lx" "l_prev_indent lx = - 1"
  defines "lx' \<equiv> lx\<lparr>l_reader := \<lparr>r_lines = [], r_stored = None\<rparr>, l_linenum := 1\<rparr>"
  shows "next_token lx = Inr (TIndent 0, lx'\<lparr>l_point := AtMatch (k @ show_filter f)\<rparr>)"
    and "next_token (lx'\<lparr>l_point := AtMatch (k @ show_filter f)\<rparr>)
      = Inr (t, lx'\<lparr>l_point := AfterKeyword (k @ show_filter f) (length k)\<rparr>)"
    and "rest_line (lx'\<lparr>l_point := AfterKeyword (k @ show_filter f) (length k)\<rparr>)
      = Inr (filter_tokens f, lx'\<lparr>l_point := Fixed []\<rparr>)"
proof -
  have r: "str_reader (k @ show_filter f) = \<lparr>r_lines = [(k @ show_filter f, 0, 1)], r_stored = None\<rparr>"
    using k filter_line_plain [OF f] by (intro str_reader_plain) auto
  have rest: "lx'\<lparr>l_rest := False\<rparr> = lx'" using lx(3) by (simp add: lx'_def)
  show "next_token lx = Inr (TIndent 0, lx'\<lparr>l_point := AtMatch (k @ show_filter f)\<rparr>)"
    using r lx by (simp add: next_token_def read_next_def get_next_line_def lx'_def)
  have white: "takeWhile is_ws (show_filter f) = []" "show_filter f \<noteq> []"
    using show_filter_hd [OF f] show_filter_last [OF f] by (cases "show_filter f"; simp)+
  have blank: "is_ws (CHR '' '')" by (simp add: is_ws_def)
  have line: "lex_match fast False (k @ show_filter f) = Inr (t, AfterKeyword (k @ show_filter f) (length k), False)" for fast
  proof -
    have "takeWhile is_ws (CHR '' '' # show_filter f) = '' ''" using white(1) blank by simp
    then show ?thesis using k
      by (elim insertE) (simp_all add: lex_match_def startswith_def line_keywords_def)
  qed
  show "next_token (lx'\<lparr>l_point := AtMatch (k @ show_filter f)\<rparr>)
      = Inr (t, lx'\<lparr>l_point := AfterKeyword (k @ show_filter f) (length k)\<rparr>)"
    using line [of "l_fast lx"] rest lx(3) by (simp add: next_token_def lx'_def)
  have "rest_line (lx'\<lparr>l_point := AfterKeyword (k @ show_filter f) (length k)\<rparr>)
      = Inr (filter_tokens f, lx'\<lparr>l_point := AfterKeyword (k @ show_filter f) (length k)\<rparr>\<lparr>l_point := Fixed [], l_rest := False\<rparr>)"
    using k lexed_filter [OF f] filter_tokens_plain lx(3) by (intro lexed_rest_line) (auto simp: lx'_def)
  then show "rest_line (lx'\<lparr>l_point := AfterKeyword (k @ show_filter f) (length k)\<rparr>)
      = Inr (filter_tokens f, lx'\<lparr>l_point := Fixed []\<rparr>)"
    using lx(3) by (simp add: lx'_def)
qed

end
