(* ===== verification/CfgParser.thy ===== *)
theory CfgParser
  imports CfgLexer CfgEnum FileSys
begin

text \<open>
  The parser of the Cartesian configuration language, from \<open>Parser\<close> in
  \<open>virttest/cartesian_config.py\<close>: the loop of \<open>_parse\<close>, with one definition per kind of
  statement, and the operations \<open>parse_string\<close>, \<open>parse_file\<close>, \<open>only_filter\<close>,
  \<open>no_filter\<close> and \<open>assign\<close>. The world of a computation holds the current lexer and the
  contents of all nodes by their number; a node that has children is a value, since the parser
  changes nothing but the content of such a node, and conditions carry their content. The
  world after an exception stands for no parser that is used again.
\<close>

section \<open>State\<close>

text \<open>
  What is around the parser: its options, the text of regular files (all of them readable),
  and \<open>os.path.expanduser\<close>.
\<close>

record penv =
  e_opts :: popts
  e_file :: "string \<Rightarrow> string option"
  e_expanduser :: "string \<Rightarrow> string"

record pworld =
  w_lexer :: lexer
  w_contents :: "item list list"

text \<open>What the lines of a block are added to: a node or a condition.\<close>

datatype target = ToNode cnode | ToCond "item list"

text \<open>
  The name of the variable of a block of variants is a text (empty when there is none), the
  text of a token that is no identifier, or a Python class (see \<open>header_loop\<close>). Only the
  first can be equal to one of the names in \<open>expand_defaults\<close>.
\<close>

datatype vname = VarName string | VarToken string | VarClass

definition vname_str :: "vname \<Rightarrow> string" where
  "vname_str v = (case v of VarName s \<Rightarrow> s | VarToken s \<Rightarrow> s
     | VarClass \<Rightarrow> ''<class '' @ [CHR 0x27] @ ''virttest.cartesian_config.LIdentifier'' @ [CHR 0x27] @ ''>'')"

text \<open>The entries of \<open>meta\<close>: \<open>True\<close> or a list of tokens.\<close>

type_synonym meta = "(string, token list option list) dict"

record frame =
  f_target :: target
  f_variants :: bool
  f_var_indent :: int
  f_var_name :: vname
  f_meta :: meta
  f_pre :: "(string, string) dict"
  f_suffix :: "item option"

definition new_frame :: "target \<Rightarrow> frame" where
  "new_frame tgt = \<lparr>f_target = tgt, f_variants = False, f_var_indent = 0, f_var_name = VarName [], f_meta = [],
     f_pre = [], f_suffix = None\<rparr>"

section \<open>Tokens in expressions\<close>

text \<open>The identifier of a token class, and \<open>str\<close> of a token.\<close>

definition oper_text :: "opkind \<Rightarrow> string" where
  "oper_text k = (case k of KSet \<Rightarrow> ''='' | KLazySet \<Rightarrow> ''~='' | KAppend \<Rightarrow> ''+='' | KPrepend \<Rightarrow> ''<=''
     | KRegExpSet \<Rightarrow> ''?='' | KRegExpAppend \<Rightarrow> ''?+='' | KRegExpPrepend \<Rightarrow> ''?<='')"

definition token_identifier :: "token \<Rightarrow> string" where
  "token_identifier t = (case t of
     TIndent n \<Rightarrow> ''indent'' | TEndBlock n \<Rightarrow> ''indent'' | TEndL \<Rightarrow> ''endl''
   | TIdent s \<Rightarrow> ''Identifier re([A-Za-z0-9][A-Za-z0-9_-]*)'' | TWhite \<Rightarrow> ''WhiteSpace re('' @ [CHR 0x5C] @ ''s)''
   | TString s \<Rightarrow> ''String re(.+)'' | TColon \<Rightarrow> '':'' | TVariants \<Rightarrow> ''variants'' | TDot \<Rightarrow> ''.''
   | TVariant \<Rightarrow> ''-'' | TDefault \<Rightarrow> ''@'' | TOnly \<Rightarrow> ''only'' | TSuffix \<Rightarrow> ''suffix'' | TJoin \<Rightarrow> ''join''
   | TNo \<Rightarrow> ''no'' | TNotCond \<Rightarrow> ''!'' | TComa \<Rightarrow> '','' | TLBracket \<Rightarrow> ''['' | TRBracket \<Rightarrow> '']''
   | TLLBracket \<Rightarrow> ''('' | TRRBracket \<Rightarrow> '')'' | TInclude \<Rightarrow> ''include'' | TOp k \<Rightarrow> oper_text k | TDel \<Rightarrow> ''del'')"

definition token_str :: "token \<Rightarrow> string" where
  "token_str t = (case t of
     TIdent s \<Rightarrow> s | TString s \<Rightarrow> s | TWhite \<Rightarrow> []
   | TIndent n \<Rightarrow> ''indent '' @ show_int n | TEndBlock n \<Rightarrow> ''indent '' @ show_int n
   | _ \<Rightarrow> token_identifier t)"

definition is_text :: "token \<Rightarrow> bool" where
  "is_text t \<longleftrightarrow> (case t of TIdent s \<Rightarrow> True | TString s \<Rightarrow> True | TWhite \<Rightarrow> True | _ \<Rightarrow> False)"

text \<open>\<open>x != y\<close>: texts are compared as strings, other tokens by their class.\<close>

definition token_ne :: "token \<Rightarrow> token \<Rightarrow> bool" where
  "token_ne x y \<longleftrightarrow> (if is_text x \<and> is_text y then token_str x \<noteq> token_str y
     else token_identifier x \<noteq> token_identifier y)"

definition cmd_tokens :: "token list \<Rightarrow> token list \<Rightarrow> bool" where
  "cmd_tokens tokens1 tokens2 \<longleftrightarrow> list_all (\<lambda>(x, y). \<not> token_ne x y) (zip tokens1 tokens2)"

text \<open>\<open>==\<close> of lists of tokens, which is the identity for tokens that are no texts.\<close>

definition same_texts :: "token list \<Rightarrow> token list \<Rightarrow> bool" where
  "same_texts ts us \<longleftrightarrow> list_all2 (\<lambda>t u. is_text t \<and> is_text u \<and> token_str t = token_str u) ts us"

definition is_operator :: "token \<Rightarrow> bool" where
  "is_operator t \<longleftrightarrow> (case t of TOp k \<Rightarrow> True | _ \<Rightarrow> False)"

definition mk_oper :: "opkind \<Rightarrow> string \<Rightarrow> string \<Rightarrow> oper" where
  "mk_oper k name value = (case k of
     KSet \<Rightarrow> SetOp name value | KLazySet \<Rightarrow> LazySetOp name value | KAppend \<Rightarrow> AppendOp name value
   | KPrepend \<Rightarrow> PrependOp name value | KRegExpSet \<Rightarrow> RegExpSet name value
   | KRegExpAppend \<Rightarrow> RegExpAppend name value | KRegExpPrepend \<Rightarrow> RegExpPrepend name value)"

definition unquote :: "string \<Rightarrow> string" where
  "unquote v = (if v \<noteq> [] \<and> hd v = last v \<and> (last v = CHR 0x22 \<or> last v = CHR 0x27) then butlast (tl v) else v)"

section \<open>Elementary steps\<close>

type_synonym 'a parse = "(pworld, 'a) io"

definition lexM :: "(lexer \<Rightarrow> ('a \<times> lexer) res) \<Rightarrow> 'a parse" where
  "lexM f w = (case f (w_lexer w) of Inl e \<Rightarrow> (Inl e, w) | Inr (x, lx) \<Rightarrow> (Inr x, w\<lparr>w_lexer := lx\<rparr>))"

definition set_lexer :: "(lexer \<Rightarrow> lexer) \<Rightarrow> unit parse" where
  "set_lexer f = modifyM (\<lambda>w. w\<lparr>w_lexer := f (w_lexer w)\<rparr>)"

definition set_prev_indent :: "int \<Rightarrow> unit parse" where
  "set_prev_indent n = set_lexer (\<lambda>lx. lx\<lparr>l_prev_indent := n\<rparr>)"

definition set_fast :: "bool \<Rightarrow> unit parse" where
  "set_fast b = set_lexer (\<lambda>lx. lx\<lparr>l_fast := b\<rparr>)"

definition store_line :: "string \<Rightarrow> int \<Rightarrow> unit parse" where
  "store_line text indent = set_lexer (\<lambda>lx. if text = [] then lx
     else lx\<lparr>l_reader := set_next_line text indent (l_linenum lx) (l_reader lx)\<rparr>)"

definition here :: "iobj \<Rightarrow> item parse" where
  "here obj = getM (\<lambda>w. Item (l_filename (w_lexer w)) (l_linenum (w_lexer w)) obj)"

definition add_content :: "target \<Rightarrow> item list \<Rightarrow> target parse" where
  "add_content tgt items = (case tgt of
     ToCond content \<Rightarrow> retM (ToCond (content @ items))
   | ToNode n \<Rightarrow> bindM (modifyM (\<lambda>w. w\<lparr>w_contents := (w_contents w)[n_id n := w_contents w ! n_id n @ items]\<rparr>))
       (\<lambda>_. retM tgt))"

definition add_line :: "iobj \<Rightarrow> frame \<Rightarrow> frame parse" where
  "add_line obj fr = bindM (here obj) (\<lambda>t. bindM (add_content (f_target fr) [t]) (\<lambda>tgt. retM (fr\<lparr>f_target := tgt\<rparr>)))"

definition apply_predict :: "frame \<Rightarrow> frame parse" where
  "apply_predict fr = bindM (add_line (Oper (ApplyPreDict (f_pre fr))) fr) (\<lambda>fr. retM (fr\<lparr>f_pre := []\<rparr>))"

definition flush_pre :: "frame \<Rightarrow> frame parse" where
  "flush_pre fr = (if f_pre fr \<noteq> [] then apply_predict fr else retM fr)"

definition new_node :: "nat parse" where
  "new_node = bindM (getM (\<lambda>w. length (w_contents w))) (\<lambda>i.
     bindM (modifyM (\<lambda>w. w\<lparr>w_contents := w_contents w @ [[]]\<rparr>)) (\<lambda>_. retM i))"

text \<open>The block of a statement: from a file or not, the indentation above it, and its target.\<close>

type_synonym blocks = "bool \<Rightarrow> int \<Rightarrow> target \<Rightarrow> target parse"

section \<open>Statements\<close>

subsection \<open>Assignments and conditions\<close>

definition apply_to_pre :: "penv \<Rightarrow> oper \<Rightarrow> (string, string) dict \<Rightarrow> (string, string) dict res" where
  "apply_to_pre env op pre =
     bindE (apply_oper (pylib (e_opts env)) op (map (\<lambda>(k, v). ([k], Text v)) pre)) (\<lambda>d.
       Inr (map (\<lambda>(k, v). (hd k, case v of Text s \<Rightarrow> s | _ \<Rightarrow> [])) d))"

definition add_operator :: "penv \<Rightarrow> opkind \<Rightarrow> string \<Rightarrow> string \<Rightarrow> frame \<Rightarrow> frame parse" where
  "add_operator env k name value fr =
     (let op = mk_oper k name value; d_nin_val = CHR ''$'' \<notin> set value;
          apply_now = bindM (liftM (apply_to_pre env op (f_pre fr))) (\<lambda>pre. retM (fr\<lparr>f_pre := pre\<rparr>))
      in if k = KSet \<and> d_nin_val then apply_now
         else if f_pre fr \<noteq> [] \<and> dict_has (f_pre fr) name \<and> d_nin_val then apply_now
         else bindM (flush_pre fr) (add_line (Oper op)))"

definition after_colon :: "blocks \<Rightarrow> bool \<Rightarrow> int \<Rightarrow> item list parse" where
  "after_colon block from_file indent =
     bindM (lexM rest_line_as_string) (\<lambda>t.
     bindM (liftM (token_text t)) (\<lambda>next_line.
     bindM (store_line next_line (indent + 1)) (\<lambda>_.
     bindM (block from_file indent (ToCond [])) (\<lambda>cond.
       retM (case cond of ToCond content \<Rightarrow> content | ToNode n \<Rightarrow> [])))))"

definition stmt_identifier :: "penv \<Rightarrow> blocks \<Rightarrow> bool \<Rightarrow> int \<Rightarrow> token \<Rightarrow> frame \<Rightarrow> frame parse" where
  "stmt_identifier env block from_file indent token fr =
     bindM (lexM (get_until_no_white (\<lambda>t. is_operator t \<or> t \<in> {TColon, TEndL}))) (\<lambda>identifier.
     case last identifier of
       TOp k \<Rightarrow>
         let name = (if length identifier = 1 then token_str token
                     else concat (map token_str (token # butlast identifier)))
         in bindM (lexM (get_next_check (\<lambda>t. case t of TString s \<Rightarrow> True | _ \<Rightarrow> False))) (\<lambda>value.
            bindM (add_operator env k name (unquote (token_str value)) fr) (\<lambda>fr.
            bindM (lexM (get_next_check (\<lambda>t. t = TEndL))) (\<lambda>_. retM fr)))
     | TColon \<Rightarrow>
         bindM (liftM (parse_filter ((token # butlast identifier) @ [TEndL]))) (\<lambda>cfilter.
         bindM (after_colon block from_file indent) (\<lambda>content.
         bindM (apply_predict fr) (add_line (CondF cfilter content))))
     | _ \<Rightarrow> raiseM ParserError)"

definition stmt_not_cond :: "blocks \<Rightarrow> bool \<Rightarrow> int \<Rightarrow> int \<Rightarrow> frame \<Rightarrow> frame parse" where
  "stmt_not_cond block from_file prev_indent indent fr =
     bindM (lexM (get_until_no_white (\<lambda>t. t \<in> {TColon, TEndL}))) (\<lambda>tokens.
     bindM (liftM (parse_filter (butlast tokens))) (\<lambda>lfilter.
     bindM (after_colon block from_file indent) (\<lambda>content.
     bindM (set_prev_indent prev_indent) (\<lambda>_.
     bindM (apply_predict fr) (add_line (NotCondF lfilter content))))))"


subsection \<open>Blocks of variants\<close>

text \<open>
  The header, after the first tokens: the last token read, and what \<open>tokens[0]\<close> is. Only
  the first list of tokens holds tokens; after that it is the pair that \<open>get_next_check_nw\<close>
  returns, whose first component is the class of the token.
\<close>

definition given :: "vname \<Rightarrow> bool" where
  "given v \<longleftrightarrow> v \<noteq> VarName []"

definition name_variable :: "vname \<Rightarrow> vname \<Rightarrow> vname res" where
  "name_variable var_name v =
     (if \<not> given var_name then Inr v
      else case var_name of VarToken s \<Rightarrow> Inl AttributeError | _ \<Rightarrow> Inl ParserError)"

definition meta_append :: "string \<Rightarrow> token list option \<Rightarrow> meta \<Rightarrow> meta" where
  "meta_append ident x m = dict_set ident (dict_get m ident [] @ [x]) m"

definition meta_entry :: "meta \<Rightarrow> meta parse" where
  "meta_entry m =
     bindM (lexM (get_next_check_nw is_ident)) (\<lambda>ident.
     bindM (lexM (get_next_check_nw (\<lambda>t. t \<in> {TOp KSet, TRBracket}))) (\<lambda>t.
     if t = TRBracket then retM (meta_append (token_str ident) None m)
     else bindM (lexM (get_until_no_white (\<lambda>t. t \<in> {TRBracket, TEndL}))) (\<lambda>tokens.
          if last tokens = TRBracket then retM (meta_append (token_str ident) (Some (butlast tokens)) m)
          else raiseM ParserError)))"

primrec header_loop :: "nat \<Rightarrow> token \<Rightarrow> vname \<Rightarrow> vname \<Rightarrow> meta \<Rightarrow> (token \<times> vname \<times> meta) parse" where
  "header_loop 0 t first var_name m = raiseM OutOfFuel"
| "header_loop (Suc n) t first var_name m =
     (if t \<in> {TColon, TEndL} then retM (t, var_name, m)
      else bindM (if is_ident t then bindM (liftM (name_variable var_name first)) (\<lambda>v. retM (v, m))
                  else bindM (meta_entry m) (\<lambda>m. retM (var_name, m))) (\<lambda>(var_name, m).
           bindM (lexM (get_next_check_nw (\<lambda>t. is_ident t \<or> t \<in> {TLBracket, TColon, TEndL}))) (\<lambda>t.
             header_loop n t VarClass var_name m)))"

definition first_name :: "token \<Rightarrow> vname" where
  "first_name t = (if is_text t then VarName (token_str t) else VarToken (token_str t))"

definition stmt_variants :: "int \<Rightarrow> frame \<Rightarrow> frame parse" where
  "stmt_variants indent fr = (case f_target fr of
     ToCond content \<Rightarrow> raiseM ParserError
   | ToNode node \<Rightarrow>
       bindM (set_fast False) (\<lambda>_.
       bindM (getM (\<lambda>w. lexer_size (w_lexer w))) (\<lambda>n.
       bindM (lexM (get_until_no_white (\<lambda>t. is_ident t \<or> t \<in> {TLBracket, TColon, TEndL}))) (\<lambda>tokens.
       bindM (header_loop (Suc n) (last tokens) (first_name (hd tokens)) (VarName []) []) (\<lambda>(t, var_name, m).
       if dict_has m ''default'' \<and> None \<in> set (dict_get m ''default'' []) then raiseM ParserError
       else if t = TEndL then raiseM ParserError
       else bindM (lexM (get_next_check_nw (\<lambda>t. t = TEndL))) (\<lambda>_.
         retM (fr\<lparr>f_variants := True, f_var_indent := indent, f_var_name := var_name, f_meta := m\<rparr>)))))))"

text \<open>
  The defaults that the header names: the loop removes entries of the list it runs over, so
  that the entry after a removed one is skipped. An earlier equal entry is removed instead.
\<close>

fun remove_equal :: "token list \<Rightarrow> token list list \<Rightarrow> token list list" where
  "remove_equal wd [] = []"
| "remove_equal wd (ts # tss) = (if same_texts ts wd then tss else ts # remove_equal wd tss)"

definition remove_at :: "nat \<Rightarrow> token list list \<Rightarrow> token list list" where
  "remove_at i tss =
     (let earlier = take i tss; wd = tss ! i
      in if list_ex (\<lambda>ts. same_texts ts wd) earlier then remove_equal wd earlier @ drop i tss
         else earlier @ drop (Suc i) tss)"

lemma remove_equal_length: "list_ex (\<lambda>ts. same_texts ts wd) tss \<Longrightarrow> Suc (length (remove_equal wd tss)) = length tss"
  by (induction tss) auto

lemma remove_at_length: "i < length tss \<Longrightarrow> Suc (length (remove_at i tss)) = length tss"
  using remove_equal_length [of "tss ! i" "take i tss"] by (auto simp: remove_at_def Let_def)

lemma remove_at_less: "i < length tss \<Longrightarrow> length (remove_at i tss) - Suc i < length tss - i"
  using remove_at_length [of i tss] by linarith

function match_defaults :: "token list \<Rightarrow> nat \<Rightarrow> bool \<Rightarrow> token list list \<Rightarrow> bool \<times> token list list" where
  "match_defaults raw_name i found tss =
     (if i < length tss then
        if cmd_tokens (tss ! i) raw_name then match_defaults raw_name (i + 1) True (remove_at i tss)
        else match_defaults raw_name (i + 1) found tss
      else (found, tss))"
  by pat_completeness auto
termination
  by (relation "measure (\<lambda>(_, i, _, tss). length tss - i)") (auto simp: remove_at_less)

declare match_defaults.simps [simp del]

text \<open>What one variant is: \<open>- @a.b: deps\<close>, up to the end of its line.\<close>

definition variant_name :: "token list \<Rightarrow> token list \<times> token list" where
  "variant_name ts =
     (if length ts = 2 then ([hd ts], [hd ts])
      else (butlast ts, filter is_ident (butlast ts)))"

definition variant_line :: "token \<Rightarrow> (bool \<times> token list \<times> token list \<times> lfilter) parse" where
  "variant_line token =
     bindM (lexM (get_until_check (\<lambda>t. is_ident t \<or> t = TDot) (\<lambda>t. t = TColon))) (\<lambda>ts.
     let (raw_name, name) = variant_name (if token = TDefault then ts else token # ts)
     in bindM (lexM (get_next_check_nw (\<lambda>_. True))) (\<lambda>t.
        bindM (if t = TEndL then retM []
               else bindM (lexM (get_until (\<lambda>t. t = TEndL))) (\<lambda>ts. liftM (parse_filter (t # ts)))) (\<lambda>deps.
        retM (token = TDefault, raw_name, name, deps))))"

definition node_info :: "label list \<Rightarrow> ninfo" where
  "node_info labels = \<lparr>n_name = [], n_var = None, n_dep = [], n_labels = labels, n_append = False, n_default = False\<rparr>"

definition root_node :: "nat \<Rightarrow> label list \<Rightarrow> cnode list \<Rightarrow> cnode" where
  "root_node i labels children = CNode i (node_info labels) children"

definition var_text :: "vname \<Rightarrow> string option" where
  "var_text v = (case v of VarName s \<Rightarrow> if s = [] then None else Some s | _ \<Rightarrow> None)"

definition variant_labels :: "vname \<Rightarrow> token list \<Rightarrow> label list" where
  "variant_labels var_name name =
     map (\<lambda>n. if given var_name then new_label (vname_str var_name) (Some (token_str n)) else new_label (token_str n) None) name"

definition file_shortname :: "string \<Rightarrow> string" where
  "file_shortname file_name = (if file_name = ''<string>'' then file_name else basename file_name)"

text \<open>The variants so far: the children, their labels, whether there is a default, and the defaults to come.\<close>

text \<open>The node above them gets its number when it is complete; nothing refers to it before.\<close>

record variants =
  v_children :: "cnode list"
  v_labels :: "label list"
  v_default :: bool
  v_meta :: "token list list option"

definition not_expanded :: "penv \<Rightarrow> vname \<Rightarrow> bool" where
  "not_expanded env var_name \<longleftrightarrow>
     (case var_name of VarName s \<Rightarrow> s \<notin> set (expand_defaults (e_opts env)) | _ \<Rightarrow> True)"

definition insert_label :: "label \<Rightarrow> label list \<Rightarrow> label list" where
  "insert_label l ls = (if in_labels l ls then ls else ls @ [l])"

text \<open>
  The attributes that a parsed variant gets, and the block with it. A set of labels is listed
  in the order of insertion; an element comes from a set in any order, which decides at most
  whether a plain name stays beside the label of a variable with that name.
\<close>

definition named_variant :: "vname \<Rightarrow> bool \<Rightarrow> bool \<Rightarrow> token list \<Rightarrow> lfilter \<Rightarrow> cnode \<Rightarrow> cnode" where
  "named_variant var_name is_default dflt name deps node3 =
     CNode (n_id node3) ((n_info node3)\<lparr>
       n_var := (if given var_name then var_text var_name else n_var (n_info node3)),
       n_name := variant_labels var_name name, n_dep := deps,
       n_default := (dflt \<or> n_default (n_info node3)), n_append := \<not> is_default\<rparr>) (n_children node3)"

definition with_variant :: "penv \<Rightarrow> cnode \<Rightarrow> bool \<Rightarrow> token list list option \<Rightarrow> variants \<Rightarrow> variants" where
  "with_variant env node3 dflt metas vs =
     \<lparr>v_children = (if n_default (n_info node3) \<and> defaults (e_opts env) then node3 # v_children vs
                    else v_children vs @ [node3]),
      v_labels = fold insert_label (n_labels (n_info node3) @ n_name (n_info node3)) (v_labels vs),
      v_default = (v_default vs \<or> dflt), v_meta = metas\<rparr>"

definition add_variant :: "penv \<Rightarrow> vname \<Rightarrow> bool \<Rightarrow> token list \<Rightarrow> token list \<Rightarrow> lfilter \<Rightarrow> cnode \<Rightarrow> variants \<Rightarrow> variants parse" where
  "add_variant env var_name is_default0 raw_name name deps node3 vs =
     (let (is_default, metas) = (case v_meta vs of
            None \<Rightarrow> (is_default0, None)
          | Some tss \<Rightarrow> map_prod id Some (match_defaults raw_name 0 is_default0 tss));
          dflt = (is_default \<and> \<not> v_default vs \<and> not_expanded env var_name);
          node3 = named_variant var_name is_default dflt name deps node3;
          names = n_name (n_info node3)
      in bindM (getM (\<lambda>w. file_shortname (l_filename (w_lexer w)))) (\<lambda>shortname.
         bindM (here (Oper (UpdateFileMap shortname (dotted names) ''_name_map_file''))) (\<lambda>t1.
         bindM (here (Oper (UpdateFileMap shortname (join ''.'' (map l_name names)) ''_short_name_map_file''))) (\<lambda>t2.
         bindM (add_content (ToNode node3) [t1, t2]) (\<lambda>_. retM (with_variant env node3 dflt metas vs))))))"

definition variant_node :: "vname \<Rightarrow> token list \<Rightarrow> cnode \<Rightarrow> cnode parse" where
  "variant_node var_name name node =
     bindM new_node (\<lambda>i.
     let node2 = root_node i (n_labels (n_info node)) [node]
     in bindM (if given var_name then
                 bindM (here (Oper (SetOp (vname_str var_name) (join ''.'' (map token_str name))))) (\<lambda>t.
                 bindM (add_content (ToNode node2) [t]) (\<lambda>_. retM ()))
               else retM ()) (\<lambda>_. retM node2))"

definition next_variant :: "token parse" where
  "next_variant =
     bindM (lexM (get_next_check_nw (\<lambda>t. is_ident t \<or> t = TDefault \<or> (case t of TIndent n \<Rightarrow> True | TEndBlock n \<Rightarrow> True | _ \<Rightarrow> False)))) (\<lambda>t.
     case t of
       TIndent n \<Rightarrow> bindM (lexM (get_next_check_nw (\<lambda>t. t = TVariant))) (\<lambda>_.
         lexM (get_next_check_nw (\<lambda>t. is_ident t \<or> t = TDefault)))
     | _ \<Rightarrow> retM t)"

primrec variant_loop :: "penv \<Rightarrow> (target \<Rightarrow> target parse) \<Rightarrow> int \<Rightarrow> vname \<Rightarrow> cnode \<Rightarrow> nat \<Rightarrow> variants \<Rightarrow> variants parse" where
  "variant_loop env block var_indent var_name node 0 vs = raiseM OutOfFuel"
| "variant_loop env block var_indent var_name node (Suc n) vs =
     bindM (set_prev_indent var_indent) (\<lambda>_.
     bindM next_variant (\<lambda>t.
     case t of
       TEndBlock m \<Rightarrow> retM vs
     | _ \<Rightarrow>
         bindM (variant_line t) (\<lambda>(is_default, raw_name, name, deps).
         bindM (variant_node var_name name node) (\<lambda>node2.
         bindM (block (ToNode node2)) (\<lambda>node3.
         case node3 of
           ToCond content \<Rightarrow> raiseM AttributeError
         | ToNode node3 \<Rightarrow>
             bindM (add_variant env var_name is_default raw_name name deps node3 vs) (\<lambda>vs.
               variant_loop env block var_indent var_name node n vs))))))"

definition stmt_variant :: "penv \<Rightarrow> nat \<Rightarrow> blocks \<Rightarrow> bool \<Rightarrow> int \<Rightarrow> frame \<Rightarrow> frame parse" where
  "stmt_variant env n block from_file indent fr =
     bindM (flush_pre fr) (\<lambda>fr.
     case f_target fr of
       ToCond content \<Rightarrow> raiseM AttributeError
     | ToNode node \<Rightarrow>
         bindM (variant_loop env (block from_file indent) (f_var_indent fr) (f_var_name fr) node n
             \<lparr>v_children = [], v_labels = [], v_default = False,
               v_meta = (if dict_has (f_meta fr) ''default'' then Some (map the (dict_get (f_meta fr) ''default'' [])) else None)\<rparr>) (\<lambda>vs.
         if v_meta vs \<noteq> None \<and> v_meta vs \<noteq> Some [] then raiseM ParserError
         else bindM new_node (\<lambda>i.
              retM (fr\<lparr>f_target := ToNode (root_node i (v_labels vs) (v_children vs)), f_variants := False\<rparr>))))"

subsection \<open>Filters, suffixes, includes and deletions\<close>

definition stmt_filter :: "(lfilter \<Rightarrow> iobj) \<Rightarrow> frame \<Rightarrow> frame parse" where
  "stmt_filter mk fr =
     bindM (lexM rest_line) (\<lambda>tokens.
     bindM (liftM (parse_filter tokens)) (\<lambda>lfilter.
     bindM (apply_predict fr) (add_line (mk lfilter))))"

definition stmt_suffix :: "frame \<Rightarrow> frame parse" where
  "stmt_suffix fr =
     bindM (flush_pre fr) (\<lambda>fr.
     bindM (lexM (get_next_check is_ident)) (\<lambda>token_val.
     bindM (lexM (get_next_check (\<lambda>t. t = TEndL))) (\<lambda>_.
     bindM (here (Oper (SuffixOp (token_str token_val)))) (\<lambda>t. retM (fr\<lparr>f_suffix := Some t\<rparr>)))))"

definition stmt_del :: "frame \<Rightarrow> frame parse" where
  "stmt_del fr =
     bindM (lexM (get_next_check_nw is_ident)) (\<lambda>to_del.
     bindM (lexM (get_next_check_nw (\<lambda>t. t = TEndL))) (\<lambda>_.
     bindM (apply_predict fr) (add_line (Oper (DelOp (token_str to_del))))))"

text \<open>The included file is read by a lexer of its own, into the same target.\<close>

definition stmt_include :: "penv \<Rightarrow> blocks \<Rightarrow> bool \<Rightarrow> int \<Rightarrow> frame \<Rightarrow> frame parse" where
  "stmt_include env block from_file prev_indent fr =
     bindM (lexM rest_line_as_string) (\<lambda>t.
     bindM (liftM (if is_text t then Inr (e_expanduser env (token_str t)) else Inl TypeError)) (\<lambda>path.
     bindM (getM w_lexer) (\<lambda>outer.
     let file_name = (if from_file \<and> \<not> path_isabs path then path_join (dirname (l_filename outer)) path else path)
     in case e_file env file_name of
          None \<Rightarrow> raiseM MissingIncludeError
        | Some text \<Rightarrow>
            bindM (apply_predict fr) (\<lambda>fr.
            bindM (set_lexer (\<lambda>_. new_lexer file_name (str_reader text))) (\<lambda>_.
            bindM (block True (- 1) (f_target fr)) (\<lambda>tgt.
            bindM (set_lexer (\<lambda>_. outer)) (\<lambda>_.
            bindM (set_prev_indent prev_indent) (\<lambda>_. retM (fr\<lparr>f_target := tgt\<rparr>)))))))))"

section \<open>The loop\<close>

definition block_allowed :: "token \<Rightarrow> bool" where
  "block_allowed t \<longleftrightarrow> is_ident t \<or> t \<in> {TVariants, TOnly, TNo, TInclude, TDel, TNotCond, TSuffix, TJoin}"

definition stmt :: "penv \<Rightarrow> nat \<Rightarrow> blocks \<Rightarrow> bool \<Rightarrow> int \<Rightarrow> int \<Rightarrow> token \<Rightarrow> frame \<Rightarrow> frame parse" where
  "stmt env n block from_file prev_indent indent t fr = (case t of
     TIdent s \<Rightarrow> stmt_identifier env block from_file indent t fr
   | TVariant \<Rightarrow> stmt_variant env n block from_file indent fr
   | TVariants \<Rightarrow> stmt_variants indent fr
   | TNo \<Rightarrow> stmt_filter NoF fr
   | TOnly \<Rightarrow> stmt_filter OnlyF fr
   | TJoin \<Rightarrow> stmt_filter JoinF fr
   | TSuffix \<Rightarrow> stmt_suffix fr
   | TInclude \<Rightarrow> stmt_include env block from_file prev_indent fr
   | TDel \<Rightarrow> stmt_del fr
   | TNotCond \<Rightarrow> stmt_not_cond block from_file prev_indent indent fr
   | _ \<Rightarrow> raiseM ParserError)"

definition end_block :: "frame \<Rightarrow> target parse" where
  "end_block fr =
     bindM (flush_pre fr) (\<lambda>fr.
     case f_suffix fr of None \<Rightarrow> retM (f_target fr) | Some t \<Rightarrow> add_content (f_target fr) [t])"

text \<open>
  \<open>_parse\<close> and its loop; one unit of fuel for every line and for every block. A file that
  includes itself is the case where no fuel is enough.
\<close>

primrec parse_loop :: "penv \<Rightarrow> nat \<Rightarrow> bool \<Rightarrow> int \<Rightarrow> frame \<Rightarrow> target parse" where
  "parse_loop env 0 from_file prev_indent fr = raiseM OutOfFuel"
| "parse_loop env (Suc n) from_file prev_indent fr =
     (let block = (\<lambda>from_file prev_indent tgt. bindM (set_fast True) (\<lambda>_. parse_loop env n from_file prev_indent (new_frame tgt)))
      in bindM (set_prev_indent prev_indent) (\<lambda>_.
         bindM (lexM (get_next_check (\<lambda>t. case t of TIndent m \<Rightarrow> True | TEndBlock m \<Rightarrow> True | _ \<Rightarrow> False))) (\<lambda>t.
         case t of
           TIndent indent \<Rightarrow>
             bindM (lexM (get_next_check (if f_variants fr then (\<lambda>t. t = TVariant) else block_allowed))) (\<lambda>t.
             bindM (stmt env n block from_file prev_indent indent t fr) (parse_loop env n from_file prev_indent))
         | _ \<Rightarrow> end_block fr)))"

definition parse_block :: "penv \<Rightarrow> nat \<Rightarrow> blocks" where
  "parse_block env n from_file prev_indent tgt =
     bindM (set_fast True) (\<lambda>_. parse_loop env n from_file prev_indent (new_frame tgt))"

section \<open>The parser\<close>

record parser =
  p_node :: cnode
  p_contents :: "item list list"
  p_only_filters :: "string list"
  p_no_filters :: "string list"
  p_assignments :: "string list"

definition new_parser :: parser where
  "new_parser = \<lparr>p_node = root_node 0 [] [], p_contents = [[]], p_only_filters = [], p_no_filters = [], p_assignments = []\<rparr>"

definition parse_text :: "penv \<Rightarrow> nat \<Rightarrow> bool \<Rightarrow> string \<Rightarrow> string \<Rightarrow> parser \<Rightarrow> parser res" where
  "parse_text env n from_file file_name text p =
     (case parse_block env n from_file (- 1) (ToNode (p_node p))
          \<lparr>w_lexer = new_lexer file_name (str_reader text), w_contents = p_contents p\<rparr> of
        (Inl e, w) \<Rightarrow> Inl e
      | (Inr (ToCond content), w) \<Rightarrow> Inl AttributeError
      | (Inr (ToNode node), w) \<Rightarrow> Inr (p\<lparr>p_node := node, p_contents := w_contents w\<rparr>))"

definition parse_string :: "penv \<Rightarrow> nat \<Rightarrow> string \<Rightarrow> parser \<Rightarrow> parser res" where
  "parse_string env n s p = parse_text env n False ''<string>'' s p"

definition parse_file :: "penv \<Rightarrow> nat \<Rightarrow> string \<Rightarrow> parser \<Rightarrow> parser res" where
  "parse_file env n file_name p =
     (case e_file env file_name of None \<Rightarrow> Inl OSError | Some text \<Rightarrow> parse_text env n True file_name text p)"

definition only_filter :: "penv \<Rightarrow> nat \<Rightarrow> string \<Rightarrow> parser \<Rightarrow> parser res" where
  "only_filter env n variant p =
     (let s = ''only '' @ variant in parse_string env n s (p\<lparr>p_only_filters := p_only_filters p @ [s]\<rparr>))"

definition no_filter :: "penv \<Rightarrow> nat \<Rightarrow> string \<Rightarrow> parser \<Rightarrow> parser res" where
  "no_filter env n variant p =
     (let s = ''no '' @ variant in parse_string env n s (p\<lparr>p_no_filters := p_no_filters p @ [s]\<rparr>))"

definition assign :: "penv \<Rightarrow> nat \<Rightarrow> string \<Rightarrow> string \<Rightarrow> parser \<Rightarrow> parser res" where
  "assign env n key val p =
     (let s = key @ '' = '' @ val in parse_string env n s (p\<lparr>p_assignments := p_assignments p @ [s]\<rparr>))"

text \<open>The state in which the generator of dictionaries starts.\<close>

definition parsed_gen :: "parser \<Rightarrow> gen" where
  "parsed_gen p = \<lparr>lists = p_contents p, content_ref = [0..<length (p_contents p)],
     failed_cases = replicate (length (p_contents p)) [], parent_generator = True, yielded = []\<rparr>"



end
