(* ===== verification/CfgParserTree.thy ===== *)
theory CfgParserTree
  imports CfgParser CfgProduct
begin

text \<open>
  The trees that the parser builds: every node knows the labels below it, nodes with the same
  number are the same node, and a block of variants has at most one default. With the
  equivalence of the enumeration this makes the dictionaries of a parsed configuration those
  of the reference.
\<close>

section \<open>Trees\<close>

text \<open>Names without the signs of long names.\<close>

fun names_ok :: "cnode \<Rightarrow> bool" where
  "names_ok (CNode i info cs) \<longleftrightarrow> wf_labels (n_name info) \<and> list_all names_ok cs"

text \<open>One default at most; it comes first when only defaults are enumerated.\<close>

definition one_default :: "bool \<Rightarrow> cnode list \<Rightarrow> bool" where
  "one_default first cs \<longleftrightarrow> length (filter (\<lambda>c. n_default (n_info c)) cs) \<le> 1
     \<and> (first \<longrightarrow> list_all (\<lambda>c. \<not> n_default (n_info c)) (tl cs))"

fun defaults_ok :: "bool \<Rightarrow> cnode \<Rightarrow> bool" where
  "defaults_ok first (CNode i info cs) \<longleftrightarrow> one_default first cs \<and> list_all (defaults_ok first) cs"

definition built :: "bool \<Rightarrow> label list list \<Rightarrow> cnode \<Rightarrow> bool" where
  "built first G t \<longleftrightarrow> n_id t < length G \<and> defaults_ok first t \<and> (names_ok t \<longrightarrow> tree_ok (\<lambda>i. G ! i) (length G) t)"

definition nameless :: "cnode \<Rightarrow> bool" where
  "nameless t \<longleftrightarrow> n_name (n_info t) = [] \<and> \<not> n_default (n_info t)"

definition target_ok :: "bool \<Rightarrow> label list list \<Rightarrow> target \<Rightarrow> bool" where
  "target_ok first G tgt \<longleftrightarrow> (case tgt of ToNode t \<Rightarrow> built first G t \<and> nameless t | ToCond ts \<Rightarrow> True)"

lemma tree_ok_labels: "tree_ok labels_of n t \<Longrightarrow> wf_labels (n_labels (n_info t))"
  by (cases t) auto

lemma tree_ok_prefix:
  "prefix G G' \<Longrightarrow> tree_ok (\<lambda>i. G ! i) (length G) t \<Longrightarrow> tree_ok (\<lambda>i. G' ! i) (length G') t"
proof (induction t)
  case (CNode i info cs)
  obtain H where H: "G' = G @ H" using CNode.prems(1) by (auto simp: prefix_def)
  show ?case using CNode.prems(2) CNode.IH [OF _ CNode.prems(1)]
    by (auto simp: H nth_append list_all_iff)
qed

lemma built_prefix: "prefix G G' \<Longrightarrow> built first G t \<Longrightarrow> built first G' t"
  using tree_ok_prefix by (auto simp: built_def dest!: prefix_length_le)

lemma target_ok_prefix: "prefix G G' \<Longrightarrow> target_ok first G tgt \<Longrightarrow> target_ok first G' tgt"
  using built_prefix by (auto simp: target_ok_def split: target.splits)

section \<open>Steps that only add nodes\<close>

text \<open>
  \<open>grows P G m\<close>: started with as many nodes as \<open>G\<close> has entries (the labels below each
  node), \<open>m\<close> raises, or ends with a longer list of entries for which \<open>P\<close> holds.
\<close>

definition grows :: "(label list list \<Rightarrow> 'a \<Rightarrow> bool) \<Rightarrow> label list list \<Rightarrow> 'a parse \<Rightarrow> bool" where
  "grows P G m \<longleftrightarrow> (\<forall>w. length (w_contents w) = length G \<longrightarrow>
     wpM m (\<lambda>_ _. True) (\<lambda>x w'. \<exists>G'. prefix G G' \<and> length (w_contents w') = length G' \<and> P G' x) w)"

named_theorems grows_intros \<open>steps of the parser that only add nodes\<close>

lemma grows_ret [grows_intros]: "P G x \<Longrightarrow> grows P G (retM x)"
  unfolding grows_def by (auto simp: wp_simps)

lemma grows_raise [grows_intros]: "grows P G (raiseM e)"
  by (simp add: grows_def wp_simps)

lemma grows_lift: "(\<And>x. r = Inr x \<Longrightarrow> P G x) \<Longrightarrow> grows P G (liftM r)"
  unfolding grows_def by (auto simp: wp_simps split: sum.split)

lemma grows_bind:
  assumes m: "grows P G m" and f: "\<And>G' x. prefix G G' \<Longrightarrow> P G' x \<Longrightarrow> grows Q G' (f x)"
  shows "grows Q G (bindM m f)"
  unfolding grows_def wpM_bind
proof (intro allI impI)
  fix w :: pworld assume "length (w_contents w) = length G"
  with m have "wpM m (\<lambda>_ _. True) (\<lambda>x w'. \<exists>G'. prefix G G' \<and> length (w_contents w') = length G' \<and> P G' x) w"
    by (simp add: grows_def)
  then show "wpM m (\<lambda>_ _. True) (\<lambda>x. wpM (f x) (\<lambda>_ _. True)
      (\<lambda>x w'. \<exists>G'. prefix G G' \<and> length (w_contents w') = length G' \<and> Q G' x)) w"
  proof (rule wpM_mono)
    fix x and w' :: pworld assume "\<exists>G'. prefix G G' \<and> length (w_contents w') = length G' \<and> P G' x"
    then obtain G' where G': "prefix G G'" "length (w_contents w') = length G'" "P G' x" by blast
    from f [OF G'(1,3)] G'(2) have "wpM (f x) (\<lambda>_ _. True)
        (\<lambda>x w'. \<exists>G''. prefix G' G'' \<and> length (w_contents w') = length G'' \<and> Q G'' x) w'" by (simp add: grows_def)
    then show "wpM (f x) (\<lambda>_ _. True) (\<lambda>x w'. \<exists>G'. prefix G G' \<and> length (w_contents w') = length G' \<and> Q G' x) w'"
      by (rule wpM_mono) (use G'(1) prefix_order.trans in blast)+
  qed simp
qed

text \<open>Steps of the lexer and readings of the world leave the nodes alone.\<close>

definition steady :: "'a parse \<Rightarrow> bool" where
  "steady m \<longleftrightarrow> (\<forall>c. keeps (\<lambda>w. w_contents w = c) m)"

lemma steady_pure: "steady (retM x)" "steady (raiseM e)"
  by (simp_all add: steady_def keeps_def io_run)

lemma steady_intros:
  "steady (getM g)" "steady (lexM f)" "steady (set_lexer h)" "steady (liftM r)"
  "steady (set_prev_indent n)" "steady (set_fast b)" "steady (store_line text n)" "steady (here obj)"
  by (auto simp: steady_def keeps_def io_run lexM_def set_lexer_def set_prev_indent_def set_fast_def store_line_def here_def
      split: sum.split prod.split)

lemma steady_bind: "steady m \<Longrightarrow> (\<And>x. steady (f x)) \<Longrightarrow> steady (bindM m f)"
  unfolding steady_def by (blast intro: keeps_bind)

lemma grows_steady:
  assumes "steady m" and "\<And>x. grows Q G (f x)"
  shows "grows Q G (bindM m f)"
proof (rule grows_bind [where P = "\<lambda>G' _. G' = G"])
  show "grows (\<lambda>G' _. G' = G) G m"
    unfolding grows_def wpM_def
  proof (intro allI impI)
    fix w :: pworld assume "length (w_contents w) = length G"
    moreover have "w_contents (snd (m w)) = w_contents w" using assms(1) by (simp add: steady_def keeps_def)
    ultimately show "case m w of (Inl e, w') \<Rightarrow> True
        | (Inr x, w') \<Rightarrow> \<exists>G'. prefix G G' \<and> length (w_contents w') = length G' \<and> G' = G"
      by (auto split: prod.split sum.split)
  qed
qed (use assms(2) in simp)

lemmas grows_steady_intros [grows_intros] = steady_intros [THEN grows_steady]

lemma grows_new_node: "grows (\<lambda>G' i. G' = G @ [ls] \<and> i = length G) G new_node"
  by (simp add: grows_def new_node_def wp_simps)

lemma grows_add_content:
  "target_ok first G tgt \<Longrightarrow> grows (target_ok first) G (add_content tgt items)"
  "grows (\<lambda>G' _. G' = G) G (add_content tgt items)"
  by (cases tgt; auto simp: grows_def add_content_def wp_simps target_ok_def intro!: exI [of _ G])+


section \<open>Lines\<close>

definition frame_ok :: "bool \<Rightarrow> label list list \<Rightarrow> frame \<Rightarrow> bool" where
  "frame_ok first G fr \<longleftrightarrow> target_ok first G (f_target fr)"

lemma frame_ok_prefix: "prefix G G' \<Longrightarrow> frame_ok first G fr \<Longrightarrow> frame_ok first G' fr"
  using target_ok_prefix by (auto simp: frame_ok_def)

lemma grows_add_line [grows_intros]: "frame_ok first G fr \<Longrightarrow> grows (frame_ok first) G (add_line obj fr)"
  unfolding add_line_def
  by (intro grows_steady_intros grows_bind [OF grows_add_content(1)] grows_ret) (simp_all add: frame_ok_def)

lemma grows_predict: "frame_ok first G fr \<Longrightarrow> grows (frame_ok first) G (apply_predict fr)"
  unfolding apply_predict_def
  by (rule grows_bind [OF grows_add_line]) (auto simp: frame_ok_def intro!: grows_intros)

lemma grows_flush: "frame_ok first G fr \<Longrightarrow> grows (frame_ok first) G (flush_pre fr)"
  by (simp add: flush_pre_def grows_predict grows_ret)

lemmas grows_frame_intros [grows_intros] = grows_bind [OF grows_predict] grows_bind [OF grows_flush]

definition block_ok :: "bool \<Rightarrow> blocks \<Rightarrow> bool" where
  "block_ok first block \<longleftrightarrow> (\<forall>from_file indent tgt G. target_ok first G tgt
     \<longrightarrow> grows (target_ok first) G (block from_file indent tgt))"

lemma grows_after_colon:
  assumes "block_ok first block"
  shows "grows (\<lambda>_ _. True) G (after_colon block from_file indent)"
proof -
  have block: "grows (target_ok first) G (block from_file indent (ToCond []))"
    using assms by (simp add: block_ok_def target_ok_def)
  show ?thesis unfolding after_colon_def by (intro grows_intros grows_bind [OF block]) simp
qed

lemma grows_add_operator: "frame_ok first G fr \<Longrightarrow> grows (frame_ok first) G (add_operator env k name v fr)"
  unfolding add_operator_def Let_def
  by (auto simp: frame_ok_def [of first _ "_\<lparr>f_pre := _\<rparr>"] intro!: grows_intros) (auto simp: frame_ok_def)

lemma grows_condition:
  assumes "block_ok first block" and fr: "frame_ok first G fr"
  shows "grows (frame_ok first) G (bindM (after_colon block from_file indent) (\<lambda>content.
     bindM (apply_predict fr) (add_line (mk content))))"
  using fr by (intro grows_bind [OF grows_after_colon [OF assms(1)]] grows_intros) (auto intro: frame_ok_prefix)

lemma grows_identifier:
  assumes "block_ok first block" and fr: "frame_ok first G fr"
  shows "grows (frame_ok first) G (stmt_identifier env block from_file indent token fr)"
  unfolding stmt_identifier_def
  by (intro grows_intros)
     (auto simp: Let_def split: token.split intro!: grows_intros grows_condition [OF assms] grows_bind [OF grows_add_operator [OF fr]])

lemma grows_not_cond:
  assumes "block_ok first block" and fr: "frame_ok first G fr"
  shows "grows (frame_ok first) G (stmt_not_cond block from_file prev_indent indent fr)"
  unfolding stmt_not_cond_def
  using fr by (intro grows_intros grows_bind [OF grows_after_colon [OF assms(1)]]) (auto intro: frame_ok_prefix)

lemma grows_filter: "frame_ok first G fr \<Longrightarrow> grows (frame_ok first) G (stmt_filter mk fr)"
  unfolding stmt_filter_def by (intro grows_intros)

lemma grows_suffix: "frame_ok first G fr \<Longrightarrow> grows (frame_ok first) G (stmt_suffix fr)"
  unfolding stmt_suffix_def by (intro grows_intros) (simp_all add: frame_ok_def)

lemma grows_del: "frame_ok first G fr \<Longrightarrow> grows (frame_ok first) G (stmt_del fr)"
  unfolding stmt_del_def by (intro grows_intros)

lemma grows_include:
  assumes "block_ok first block" and fr: "frame_ok first G fr"
  shows "grows (frame_ok first) G (stmt_include env block from_file prev_indent fr)"
proof -
  have block: "grows (target_ok first) G' (block True (- 1) (f_target fr'))" if "frame_ok first G' fr'" for G' fr'
    using assms(1) that by (simp add: block_ok_def frame_ok_def)
  have inner: "grows (frame_ok first) G (bindM (apply_predict fr) (\<lambda>fr.
            bindM (set_lexer h) (\<lambda>_.
            bindM (block True (- 1) (f_target fr)) (\<lambda>tgt.
            bindM (set_lexer h') (\<lambda>_.
            bindM (set_prev_indent prev_indent) (\<lambda>_. retM (fr\<lparr>f_target := tgt\<rparr>)))))))" for h h'
  proof (intro grows_intros)
    show "frame_ok first G fr" by (rule fr)
    fix G' fr' assume "prefix G G'" "frame_ok first G' fr'"
    then show "grows (frame_ok first) G' (bindM (block True (- 1) (f_target fr')) (\<lambda>tgt.
            bindM (set_lexer h') (\<lambda>_.
            bindM (set_prev_indent prev_indent) (\<lambda>_. retM (fr'\<lparr>f_target := tgt\<rparr>)))))"
      by (intro grows_bind [OF block] grows_intros) (auto simp: frame_ok_def)
  qed
  show ?thesis unfolding stmt_include_def Let_def
    by (intro grows_intros) (auto simp: inner grows_raise split: option.split)
qed


section \<open>Variants\<close>

lemma insert_label_covers:
  assumes "wf_labels ls" and "wf_label l"
  shows "wf_labels (insert_label l ls) \<and> covers (insert_label l ls) (ls @ [l])"
proof (cases "in_labels l ls")
  case True
  then obtain m where m: "m \<in> set ls" "label_eq m l"
    using in_labels_iff [of ls l] assms by (auto simp: wf_labels_def)
  have "m = l \<or> l_var l = None \<and> l_name m = l_name l"
  proof (cases "has_var l")
    case True
    then have "m = l" using m assms long_name_inject [of m l] by (auto simp: label_eq_def wf_labels_def)
    then show ?thesis by simp
  next
    case False
    then have "l_var l = None" using assms(2) by (cases "l_var l") (auto simp: has_var_def wf_label_def)
    then show ?thesis using m False by (simp add: label_eq_def)
  qed
  then have "covers ls [l]" using m(1) by (auto simp: covers_def list_ex_iff)
  then show ?thesis using True assms(1) by (simp add: insert_label_def)
next
  case False
  then show ?thesis using assms by (auto simp: insert_label_def wf_labels_def intro: covers_subset)
qed

lemma fold_insert_covers:
  "wf_labels ls \<Longrightarrow> wf_labels xs \<Longrightarrow> wf_labels (fold insert_label xs ls) \<and> covers (fold insert_label xs ls) (ls @ xs)"
proof (induction xs arbitrary: ls)
  case (Cons x xs)
  have "wf_label x" "wf_labels xs" using Cons.prems(2) by (simp_all add: wf_labels_def)
  then have step: "wf_labels (insert_label x ls)" "covers (insert_label x ls) (ls @ [x])"
    using insert_label_covers [OF Cons.prems(1)] by blast+
  have rest: "wf_labels (fold insert_label xs (insert_label x ls))"
    "covers (fold insert_label xs (insert_label x ls)) (insert_label x ls @ xs)"
    using Cons.IH [OF step(1) \<open>wf_labels xs\<close>] by blast+
  have "covers (fold insert_label xs (insert_label x ls)) (ls @ [x])"
    using rest(2) covers_trans [OF _ step(2)] by simp
  then have "covers (fold insert_label xs (insert_label x ls)) ((ls @ [x]) @ xs)"
    using rest(2) unfolding covers_simps by blast
  then show ?case using rest(1) by simp
qed simp

definition variants_ok :: "bool \<Rightarrow> label list list \<Rightarrow> variants \<Rightarrow> bool" where
  "variants_ok first G vs \<longleftrightarrow> list_all (built first G) (v_children vs) \<and> (v_children vs = [] \<longrightarrow> v_labels vs = [])
     \<and> length (filter (\<lambda>c. n_default (n_info c)) (v_children vs)) = (if v_default vs then 1 else 0)
     \<and> (first \<longrightarrow> list_all (\<lambda>c. \<not> n_default (n_info c)) (tl (v_children vs)))
     \<and> (list_all names_ok (v_children vs) \<longrightarrow> wf_labels (v_labels vs)
         \<and> list_all (\<lambda>c. covers (v_labels vs) (n_name (n_info c) @ n_labels (n_info c))) (v_children vs))"

lemma variants_ok_prefix: "prefix G G' \<Longrightarrow> variants_ok first G vs \<Longrightarrow> variants_ok first G' vs"
  using built_prefix by (auto simp: variants_ok_def list_all_iff)

lemma steady_variant_line: "steady (variant_line token)"
  unfolding variant_line_def Let_def
  by (intro steady_bind) (auto simp: steady_intros steady_pure split: prod.split intro!: steady_bind)

lemma steady_next_variant: "steady next_variant"
  unfolding next_variant_def
  by (intro steady_bind steady_intros) (auto simp: steady_intros steady_pure split: token.split intro!: steady_bind)

lemma grows_variant_node:
  assumes "built first G node" and "nameless node"
  shows "grows (\<lambda>G' t. target_ok first G' (ToNode t)) G (variant_node var_name name node)"
  unfolding variant_node_def
proof (rule grows_bind [OF grows_new_node [where ls = "n_labels (n_info node)"]])
  fix G' i assume G': "prefix G G'" "G' = G @ [n_labels (n_info node)] \<and> i = length G"
  let ?node2 = "root_node i (n_labels (n_info node)) [node]"
  have node: "built first G' node" using built_prefix [OF G'(1) assms(1)] .
  have "wf_labels (n_labels (n_info node))" if "tree_ok labels_of n node" for labels_of n
    using that by (rule tree_ok_labels)
  then have "target_ok first G' (ToNode ?node2)"
    using node assms(2) G'(2)
    by (auto simp: target_ok_def built_def nameless_def root_node_def node_info_def wf_labels_def one_default_def covers_subset)
  then have *: "target_ok first G (ToNode ?node2) \<Longrightarrow> True" "\<And>H. H = G' \<Longrightarrow> target_ok first H (ToNode ?node2)" by simp_all
  show "grows (\<lambda>G' t. target_ok first G' (ToNode t)) G' (let node2 = ?node2
     in bindM (if given var_name then
                 bindM (here (Oper (SetOp (vname_str var_name) (join ''.'' (map token_str name))))) (\<lambda>t.
                 bindM (add_content (ToNode node2) [t]) (\<lambda>_. retM ()))
               else retM ()) (\<lambda>_. retM node2))"
    unfolding Let_def
  proof (rule grows_bind [where P = "\<lambda>H _. H = G'"])
    show "grows (\<lambda>H _. H = G') G' (if given var_name then
                 bindM (here (Oper (SetOp (vname_str var_name) (join ''.'' (map token_str name))))) (\<lambda>t.
                 bindM (add_content (ToNode ?node2) [t]) (\<lambda>_. retM ()))
               else retM ())"
      by (auto intro!: grows_intros grows_bind [OF grows_add_content(2)])
  qed (use * in \<open>auto intro: grows_ret\<close>)
qed

lemma with_variant_ok:
  fixes env :: penv and dflt :: bool
  defines "first \<equiv> defaults (e_opts env)"
  assumes node3: "target_ok first G (ToNode node3)" and vs: "variants_ok first G vs"
    and dflt: "dflt \<longrightarrow> \<not> v_default vs" and node: "node = named_variant var_name is_default dflt name deps node3"
  shows "variants_ok first G (with_variant env node dflt metas vs)"
proof -
  have node3': "built first G node3" "nameless node3" using node3 by (simp_all add: target_ok_def)
  let ?names = "variant_labels var_name name"
  have info: "n_default (n_info node) = dflt" "n_name (n_info node) = ?names" "n_labels (n_info node) = n_labels (n_info node3)"
    using node3' by (simp_all add: node named_variant_def nameless_def)
  have names: "names_ok node \<longleftrightarrow> wf_labels ?names \<and> names_ok node3"
    using node3' by (cases node3) (auto simp: node named_variant_def nameless_def wf_labels_def)
  have built: "built first G node"
    using node3' names by (cases node3) (auto simp: built_def node named_variant_def nameless_def)
  have wf3: "wf_labels (n_labels (n_info node3))" if "names_ok node"
    using node3' names that tree_ok_labels by (auto simp: built_def)
  define ls where "ls = fold insert_label (n_labels (n_info node3) @ ?names) (v_labels vs)"
  have labels_ok: "wf_labels ls \<and> covers ls (v_labels vs @ n_labels (n_info node3) @ ?names)"
    if "names_ok node" "wf_labels (v_labels vs)"
    unfolding ls_def using fold_insert_covers [OF that(2), of "n_labels (n_info node3) @ ?names"] names wf3 that(1) by simp
  let ?cs = "if n_default (n_info node) \<and> first then node # v_children vs else v_children vs @ [node]"
  have cs: "set ?cs = insert node (set (v_children vs))" by auto
  have none: "filter (\<lambda>c. n_default (n_info c)) (v_children vs) = []" if dflt
    using vs dflt that by (simp add: variants_ok_def)
  then have none': "\<forall>c \<in> set (v_children vs). \<not> n_default (n_info c)" if dflt
    using that by (simp add: filter_empty_conv)
  have covered: "wf_labels ls \<and> list_all (\<lambda>c. covers ls (n_name (n_info c) @ n_labels (n_info c))) ?cs"
    if "list_all names_ok ?cs"
  proof -
    have ok: "names_ok node" "list_all names_ok (v_children vs)" using that unfolding list_all_iff cs by auto
    then have old: "wf_labels (v_labels vs)" "\<forall>c \<in> set (v_children vs). covers (v_labels vs) (n_name (n_info c) @ n_labels (n_info c))"
      using vs by (simp_all add: variants_ok_def list_all_iff)
    note new = labels_ok [OF ok(1) old(1)]
    have "covers ls (n_name (n_info c) @ n_labels (n_info c))" if "c \<in> set (v_children vs)" for c
      using covers_trans [of ls "v_labels vs"] new old(2) that by simp
    then show ?thesis using new info(2,3) unfolding list_all_iff cs by simp
  qed
  have "length (filter (\<lambda>c. n_default (n_info c)) ?cs) = (if v_default vs \<or> dflt then 1 else 0)"
    using vs dflt none info(1) by (auto simp: variants_ok_def)
  moreover have "list_all (\<lambda>c. \<not> n_default (n_info c)) (tl ?cs)" if first
    using vs that none' info(1) by (cases "v_children vs") (auto simp: variants_ok_def list_all_iff)
  moreover have "list_all (built first G) ?cs" using vs built unfolding list_all_iff cs by (simp add: variants_ok_def list_all_iff)
  ultimately show ?thesis
    using covered info(2,3) by (simp add: variants_ok_def with_variant_def first_def ls_def)
qed

lemma grows_add_variant:
  fixes env :: penv defines "first \<equiv> defaults (e_opts env)"
  assumes "target_ok first G (ToNode node3)" and "variants_ok first G vs"
  shows "grows (variants_ok first) G (add_variant env var_name is_default raw_name name deps node3 vs)"
proof -
  note ok = with_variant_ok [OF assms(2,3) [unfolded first_def], folded first_def]
  obtain d m where *: "(case v_meta vs of None \<Rightarrow> (is_default, None)
      | Some tss \<Rightarrow> map_prod id Some (match_defaults raw_name 0 is_default tss)) = (d, m)" by (rule prod.exhaust)
  show ?thesis
    unfolding add_variant_def * Let_def prod.case
    by (intro grows_intros grows_bind [OF grows_add_content(2)]) (simp add: ok)
qed

lemma grows_variant_loop:
  fixes env :: penv defines "first \<equiv> defaults (e_opts env)"
  assumes block: "\<And>G tgt. target_ok first G tgt \<Longrightarrow> grows (target_ok first) G (block tgt)"
  shows "built first G node \<Longrightarrow> nameless node \<Longrightarrow> variants_ok first G vs
    \<Longrightarrow> grows (variants_ok first) G (variant_loop env block var_indent var_name node n vs)"
proof (induction n arbitrary: G vs)
  case 0
  then show ?case by (simp add: grows_raise)
next
  case (Suc n)
  have after: "grows (variants_ok first) G' (case node3 of ToCond content \<Rightarrow> raiseM AttributeError
      | ToNode node3 \<Rightarrow> bindM (add_variant env var_name d raw name deps node3 vs) (variant_loop env block var_indent var_name node n))"
    if "prefix G G'" "target_ok first G' node3" for G' node3 d raw name deps
  proof (cases node3)
    case (ToNode t)
    show ?thesis unfolding ToNode target.case
    proof (rule grows_bind)
      show "grows (variants_ok first) G' (add_variant env var_name d raw name deps t vs)"
        using grows_add_variant [of env G' t vs] variants_ok_prefix [OF that(1) Suc.prems(3)] that(2) ToNode
        by (simp add: first_def)
      fix G'' vs' assume "prefix G' G''" "variants_ok first G'' vs'"
      then show "grows (variants_ok first) G'' (variant_loop env block var_indent var_name node n vs')"
        using Suc.IH Suc.prems(1,2) built_prefix that(1) by blast
    qed
  qed (simp add: grows_raise)
  have one: "grows (variants_ok first) G (bindM (variant_node var_name name node) (\<lambda>node2.
      bindM (block (ToNode node2)) (\<lambda>node3. case node3 of ToCond content \<Rightarrow> raiseM AttributeError
      | ToNode node3 \<Rightarrow> bindM (add_variant env var_name d raw name deps node3 vs) (variant_loop env block var_indent var_name node n))))"
    for d raw name deps
  proof (rule grows_bind [OF grows_variant_node [OF Suc.prems(1,2)]])
    fix G' t assume "prefix G G'" "target_ok first G' (ToNode t)"
    then show "grows (variants_ok first) G' (bindM (block (ToNode t)) (\<lambda>node3. case node3 of ToCond content \<Rightarrow> raiseM AttributeError
      | ToNode node3 \<Rightarrow> bindM (add_variant env var_name d raw name deps node3 vs) (variant_loop env block var_indent var_name node n)))"
      using after prefix_order.trans by (blast intro: grows_bind [OF block])
  qed
  have rest: "grows (variants_ok first) G (case t of TEndBlock m \<Rightarrow> retM vs
     | _ \<Rightarrow> bindM (variant_line t) (\<lambda>(is_default, raw_name, name, deps). bindM (variant_node var_name name node) (\<lambda>node2.
         bindM (block (ToNode node2)) (\<lambda>node3. case node3 of ToCond content \<Rightarrow> raiseM AttributeError
         | ToNode node3 \<Rightarrow> bindM (add_variant env var_name is_default raw_name name deps node3 vs)
             (variant_loop env block var_indent var_name node n)))))" for t
  proof -
    have "grows (variants_ok first) G (bindM (variant_line t) (\<lambda>(is_default, raw_name, name, deps). bindM (variant_node var_name name node) (\<lambda>node2.
         bindM (block (ToNode node2)) (\<lambda>node3. case node3 of ToCond content \<Rightarrow> raiseM AttributeError
         | ToNode node3 \<Rightarrow> bindM (add_variant env var_name is_default raw_name name deps node3 vs)
             (variant_loop env block var_indent var_name node n)))))"
      by (rule grows_steady [OF steady_variant_line]) (auto simp: one)
    then show ?thesis using Suc.prems(3) by (cases t) (simp_all add: grows_ret)
  qed
  show ?case unfolding variant_loop.simps
    by (rule grows_steady [OF steady_intros(5)], rule grows_steady [OF steady_next_variant]) (rule rest)
qed

section \<open>The loop\<close>

lemma grows_variant:
  fixes env :: penv defines "first \<equiv> defaults (e_opts env)"
  assumes block: "block_ok first block" and fr: "frame_ok first G fr"
  shows "grows (frame_ok first) G (stmt_variant env n block from_file indent fr)"
  unfolding stmt_variant_def
proof (intro grows_intros fr)
  show "frame_ok first G fr" by (rule fr)
  fix G' fr assume fr: "frame_ok first G' fr"
  let ?vs = "\<lparr>v_children = [], v_labels = [], v_default = False,
      v_meta = (if dict_has (f_meta fr) ''default'' then Some (map the (dict_get (f_meta fr) ''default'' [])) else None)\<rparr>"
  show "grows (frame_ok first) G' (case f_target fr of
       ToCond content \<Rightarrow> raiseM AttributeError
     | ToNode node \<Rightarrow>
         bindM (variant_loop env (block from_file indent) (f_var_indent fr) (f_var_name fr) node n ?vs) (\<lambda>vs.
         if v_meta vs \<noteq> None \<and> v_meta vs \<noteq> Some [] then raiseM ParserError
         else bindM new_node (\<lambda>i.
              retM (fr\<lparr>f_target := ToNode (root_node i (v_labels vs) (v_children vs)), f_variants := False\<rparr>))))"
  proof (cases "f_target fr")
    case (ToNode node)
    have node: "built first G' node" "nameless node" using fr ToNode by (simp_all add: frame_ok_def target_ok_def)
    have vs0: "variants_ok first G' ?vs" by (simp add: variants_ok_def wf_labels_def)
    have blk: "grows (target_ok first) H (block from_file indent tgt)" if "target_ok first H tgt" for H tgt
      using block that by (simp add: block_ok_def)
    have finish: "grows (frame_ok first) H (bindM new_node (\<lambda>i.
        retM (fr\<lparr>f_target := ToNode (root_node i (v_labels vs) (v_children vs)), f_variants := False\<rparr>)))"
      if vs: "variants_ok first H vs" for H vs
    proof (rule grows_bind [OF grows_new_node [where ls = "v_labels vs"]])
      fix H' i assume H': "prefix H H'" "H' = H @ [v_labels vs] \<and> i = length H"
      note new = variants_ok_prefix [OF H'(1) vs]
      have "target_ok first H' (ToNode (root_node i (v_labels vs) (v_children vs)))"
        using new H'(2)
        by (auto simp: target_ok_def built_def nameless_def root_node_def node_info_def wf_labels_def one_default_def
            variants_ok_def list_all_iff)
      then show "grows (frame_ok first) H'
          (retM (fr\<lparr>f_target := ToNode (root_node i (v_labels vs) (v_children vs)), f_variants := False\<rparr>))"
        by (intro grows_ret) (simp add: frame_ok_def)
    qed
    show ?thesis unfolding ToNode target.case
      by (rule grows_bind [OF grows_variant_loop [OF blk [unfolded first_def] node [unfolded first_def] vs0 [unfolded first_def]]])
         (auto simp: grows_raise first_def [symmetric] intro: finish)
  qed (simp add: grows_raise)
qed

lemma steady_header_loop: "steady (header_loop n t first_tok var_name m)"
proof (induction n arbitrary: t first_tok var_name m)
  case (Suc n)
  have "steady (meta_entry m)" for m
    unfolding meta_entry_def by (auto intro!: steady_bind simp: steady_intros steady_pure)
  then show ?case using Suc by (auto intro!: steady_bind simp: steady_intros steady_pure split: prod.split)
qed (simp add: steady_pure)

lemma grows_variants:
  assumes fr: "frame_ok first G fr"
  shows "grows (frame_ok first) G (stmt_variants indent fr)"
proof (cases "f_target fr")
  case (ToNode node)
  show ?thesis unfolding stmt_variants_def ToNode target.case
  proof (intro grows_intros grows_steady [OF steady_header_loop])
    fix r :: "token \<times> vname \<times> meta"
    show "grows (frame_ok first) G (case r of (t, var_name, m) \<Rightarrow>
       if dict_has m ''default'' \<and> None \<in> set (dict_get m ''default'' []) then raiseM ParserError
       else if t = TEndL then raiseM ParserError
       else bindM (lexM (get_next_check_nw (\<lambda>t. t = TEndL))) (\<lambda>_.
         retM (fr\<lparr>f_variants := True, f_var_indent := indent, f_var_name := var_name, f_meta := m\<rparr>)))"
      using fr by (auto simp: grows_raise frame_ok_def intro!: grows_intros split: prod.split)
  qed
qed (simp add: stmt_variants_def grows_raise)

lemma grows_stmt:
  fixes env :: penv defines "first \<equiv> defaults (e_opts env)"
  assumes "block_ok first block" and "frame_ok first G fr"
  shows "grows (frame_ok first) G (stmt env n block from_file prev_indent indent t fr)"
proof -
  note intros = grows_identifier [OF assms(2,3)] grows_not_cond [OF assms(2,3)] grows_filter [OF assms(3)]
    grows_suffix [OF assms(3)] grows_del [OF assms(3)] grows_include [OF assms(2,3)] grows_variants [OF assms(3)]
    grows_variant [OF assms(2,3) [unfolded first_def], folded first_def]
  show ?thesis unfolding stmt_def by (cases t) (simp_all add: intros grows_raise)
qed

lemma grows_end_block: "frame_ok first G fr \<Longrightarrow> grows (target_ok first) G (end_block fr)"
  unfolding end_block_def
  by (intro grows_intros) (auto simp: frame_ok_def split: option.split intro: grows_ret grows_add_content)

lemma grows_parse_loop:
  fixes env :: penv defines "first \<equiv> defaults (e_opts env)"
  shows "frame_ok first G fr \<Longrightarrow> grows (target_ok first) G (parse_loop env n from_file prev_indent fr)"
proof (induction n arbitrary: G from_file prev_indent fr)
  case (Suc n)
  let ?block = "\<lambda>from_file prev_indent tgt. bindM (set_fast True) (\<lambda>_. parse_loop env n from_file prev_indent (new_frame tgt))"
  have block: "block_ok first ?block"
    unfolding block_ok_def by (auto intro!: grows_intros Suc.IH simp: frame_ok_def new_frame_def)
  have step: "grows (target_ok first) G (bindM (stmt env n ?block from_file prev_indent indent t fr) (parse_loop env n from_file prev_indent))" for indent t
    by (rule grows_bind [OF grows_stmt [OF block [unfolded first_def] Suc.prems [unfolded first_def]]])
       (use Suc.IH in \<open>simp add: first_def\<close>)
  have line: "grows (target_ok first) G (case t of
           TIndent indent \<Rightarrow>
             bindM (lexM (get_next_check (if f_variants fr then (\<lambda>t. t = TVariant) else block_allowed))) (\<lambda>t.
             bindM (stmt env n ?block from_file prev_indent indent t fr) (parse_loop env n from_file prev_indent))
         | _ \<Rightarrow> end_block fr)" for t
    using step grows_end_block [OF Suc.prems] by (cases t) (auto intro!: grows_intros)
  show ?case unfolding parse_loop.simps Let_def by (intro grows_intros line)
qed (simp add: grows_raise)

section \<open>Parsed configurations\<close>

definition parser_ok :: "bool \<Rightarrow> parser \<Rightarrow> bool" where
  "parser_ok first p \<longleftrightarrow> (\<exists>G. length G = length (p_contents p) \<and> built first G (p_node p) \<and> nameless (p_node p))"

lemma new_parser_ok: "parser_ok first new_parser"
  unfolding parser_ok_def
  by (rule exI [of _ "[[]]"])
     (simp add: new_parser_def built_def root_node_def node_info_def nameless_def one_default_def wf_labels_def)

lemma parsing_keeps_shape:
  assumes "parse_text env n from_file file_name text p = Inr p'" and "parser_ok (defaults (e_opts env)) p"
  shows "parser_ok (defaults (e_opts env)) p'"
proof -
  let ?first = "defaults (e_opts env)"
  let ?w = "\<lparr>w_lexer = new_lexer file_name (str_reader text), w_contents = p_contents p\<rparr>"
  obtain G where G: "length G = length (p_contents p)" "target_ok ?first G (ToNode (p_node p))"
    using assms(2) by (auto simp: parser_ok_def target_ok_def)
  have "grows (target_ok ?first) G (parse_block env n from_file (- 1) (ToNode (p_node p)))"
    unfolding parse_block_def using G(2) by (intro grows_intros grows_parse_loop) (simp add: frame_ok_def new_frame_def)
  from this [unfolded grows_def, rule_format, of ?w] G(1)
  have *: "wpM (parse_block env n from_file (- 1) (ToNode (p_node p))) (\<lambda>_ _. True)
      (\<lambda>x w'. \<exists>G'. prefix G G' \<and> length (w_contents w') = length G' \<and> target_ok ?first G' x) ?w" by simp
  obtain node w' where run: "parse_block env n from_file (- 1) (ToNode (p_node p)) ?w = (Inr (ToNode node), w')"
    "p' = p\<lparr>p_node := node, p_contents := w_contents w'\<rparr>"
    using assms(1) by (auto simp: parse_text_def split: prod.splits sum.splits target.splits)
  from * obtain G' where "length (w_contents w') = length G'" "target_ok ?first G' (ToNode node)"
    by (auto simp: wpM_def run(1))
  then show ?thesis unfolding parser_ok_def run(2) by (intro exI [of _ G']) (simp add: target_ok_def)
qed



text \<open>C11:
  After any sequence of parses a block of variants has at most one default, and it is the
  first child where only defaults are to be enumerated, so that the enumeration that stops
  after a default reaches it before the other variants.
\<close>

theorem parsed_blocks_have_one_default:
  assumes "parse_text env n from_file file_name text p = Inr p'" and "parser_ok (defaults (e_opts env)) p"
  shows "defaults_ok (defaults (e_opts env)) (p_node p')"
  using parsing_keeps_shape [OF assms] by (auto simp: parser_ok_def built_def)


section \<open>An example\<close>

definition example_env :: penv where
  "example_env = \<lparr>e_opts = example_opts\<lparr>defaults := True\<rparr>, e_file = (\<lambda>_. None), e_expanduser = id\<rparr>"

definition text_lines :: "string list \<Rightarrow> string" where
  "text_lines ls = concat (map (\<lambda>l. l @ [CHR 0x0A]) ls)"

definition example_text :: string where
  "example_text = text_lines [''variants:'', '' - a:'', '' - @b: a'', ''no a'']"

definition example_parser :: parser where
  "example_parser =
     (let file_map = (\<lambda>n name. [Item ''<string>'' n (Oper (UpdateFileMap ''<string>'' name ''_name_map_file'')),
            Item ''<string>'' n (Oper (UpdateFileMap ''<string>'' name ''_short_name_map_file''))]);
          leaf = root_node 0 [] [];
          a = CNode 1 ((node_info [])\<lparr>n_name := [plain_label ''a''], n_append := True\<rparr>) [leaf];
          b = CNode 2 ((node_info [])\<lparr>n_name := [plain_label ''b''], n_dep := [[[plain_label ''a'']]], n_default := True\<rparr>) [leaf]
      in \<lparr>p_node = root_node 3 [plain_label ''a'', plain_label ''b''] [b, a],
          p_contents = [[], file_map 3 ''a'', file_map 4 ''b'',
            [Item ''<string>'' 4 (Oper (ApplyPreDict [])), Item ''<string>'' 4 (NoF [[[plain_label ''a'']]])]],
          p_only_filters = [], p_no_filters = [], p_assignments = []\<rparr>)"

lemma example_parsed: "parse_text example_env 6 False ''<string>'' example_text new_parser = Inr example_parser"
  by code_simp

lemma example_parser_checks:
  "names_ok (p_node example_parser)" "lines_ok (concat (map flat (p_contents example_parser)))"
  "path_ok (\<lambda>i. own_content i (parsed_gen example_parser)) (p_node example_parser) []"
  by code_simp+


lemma parsed_blocks_have_one_default_witness: "defaults_ok True (p_node example_parser)"
  using parsed_blocks_have_one_default [OF example_parsed] new_parser_ok by (simp add: example_env_def)


end
