(* ===== verification/CfgParserText.thy ===== *)
theory CfgParserText
  imports CfgParser
begin

text \<open>
  What the parser makes of lines that are written for it: the methods \<open>only_filter\<close>,
  \<open>no_filter\<close> and \<open>assign\<close> add exactly the filter or the assignment that their argument says.
\<close>

section \<open>Running the parser on one line\<close>

lemma lexM_run: "f (w_lexer w) = Inr (x, lx) \<Longrightarrow> bindM (lexM f) g w = g x (w\<lparr>w_lexer := lx\<rparr>)"
  by (simp add: bindM_def lexM_def)

lemma step_run:
  "bindM (set_lexer h) g w = g () (w\<lparr>w_lexer := h (w_lexer w)\<rparr>)"
  "bindM (set_prev_indent n) g w = g () (w\<lparr>w_lexer := (w_lexer w)\<lparr>l_prev_indent := n\<rparr>\<rparr>)"
  "bindM (set_fast b) g w = g () (w\<lparr>w_lexer := (w_lexer w)\<lparr>l_fast := b\<rparr>\<rparr>)"
  "bindM (liftM (Inr y)) g w = g y w"
  "bindM (here obj) h' w = h' (Item (l_filename (w_lexer w)) (l_linenum (w_lexer w)) obj) w"
  "bindM (getM k) k' w = k' (k w) w" "bindM (modifyM m) g w = g () (m w)"
  by (simp_all add: bindM_def io_run set_lexer_def set_prev_indent_def set_fast_def here_def)

lemma add_line_run:
  "bindM (add_line obj fr) g w = (case f_target fr of
     ToCond content \<Rightarrow> g (fr\<lparr>f_target := ToCond (content @ [Item (l_filename (w_lexer w)) (l_linenum (w_lexer w)) obj])\<rparr>) w
   | ToNode t \<Rightarrow> g fr (w\<lparr>w_contents := (w_contents w)[n_id t := w_contents w ! n_id t
       @ [Item (l_filename (w_lexer w)) (l_linenum (w_lexer w)) obj]]\<rparr>))"
  by (cases "f_target fr"; cases fr) (simp_all add: add_line_def add_content_def bindM_assoc step_run)

definition one_line :: "string \<Rightarrow> point \<Rightarrow> lexer" where
  "one_line file_name p = \<lparr>l_reader = \<lparr>r_lines = [], r_stored = None\<rparr>, l_filename = file_name, l_linenum = 1,
     l_prev_indent = - 1, l_fast = True, l_rest = False, l_point = p\<rparr>"

text \<open>A text of one line in a node: the statement, and the end of the block.\<close>

lemma parse_one_line:
  assumes "plain_line s"
    and "next_token (one_line file_name (AtMatch s)) = Inr (t, lx)" and "block_allowed t"
    and stmt: "\<And>block. stmt env (Suc n) block from_file (- 1) 0 t (new_frame (ToNode (p_node p)))
      \<lparr>w_lexer = lx, w_contents = p_contents p\<rparr> = (Inr fr, \<lparr>w_lexer = one_line file_name (Fixed []), w_contents = c\<rparr>)"
    and fr: "f_target fr = ToNode (p_node p)" "f_suffix fr = None"
  shows "parse_text env (Suc (Suc n)) from_file file_name s p = Inr (p\<lparr>p_contents :=
     (if f_pre fr = [] then c else c[n_id (p_node p) := c ! n_id (p_node p) @ [Item file_name (- 1) (Oper (ApplyPreDict (f_pre fr)))]])\<rparr>)"
proof -
  let ?w = "\<lambda>lx c. \<lparr>w_lexer = lx, w_contents = c\<rparr>" and ?tgt = "ToNode (p_node p)"
  let ?start = "\<lparr>l_reader = \<lparr>r_lines = [(s, 0, 1)], r_stored = None\<rparr>, l_filename = file_name, l_linenum = 0,
     l_prev_indent = - 1, l_fast = True, l_rest = False, l_point = AtLine\<rparr>"
  let ?indent = "\<lambda>t. case t of TIndent m \<Rightarrow> True | TEndBlock m \<Rightarrow> True | _ \<Rightarrow> False"
  have first: "get_next_check ?indent ?start = Inr (TIndent 0, one_line file_name (AtMatch s))"
    by (simp add: get_next_check_def next_token_def read_next_def get_next_line_def one_line_def)
  have second: "get_next_check block_allowed (one_line file_name (AtMatch s)) = Inr (t, lx)"
    using assms(2,3) by (simp add: get_next_check_def)
  let ?last = "(one_line file_name AtLine)\<lparr>l_linenum := - 1\<rparr>"
  have third: "get_next_check ?indent (one_line file_name (Fixed [])) = Inr (TEndBlock (- 1), ?last)"
    by (simp add: get_next_check_def next_token_def read_next_def get_next_line_def one_line_def)
  have close: "parse_loop env (Suc n) from_file (- 1) fr (?w (one_line file_name (Fixed [])) c)
      = (Inr ?tgt, ?w ?last (if f_pre fr = [] then c
          else c[n_id (p_node p) := c ! n_id (p_node p) @ [Item file_name (- 1) (Oper (ApplyPreDict (f_pre fr)))]]))"
  proof -
    have pi: "(one_line file_name (Fixed []))\<lparr>l_prev_indent := - 1\<rparr> = one_line file_name (Fixed [])" by (simp add: one_line_def)
    show ?thesis
      using fr by (simp add: step_run pi lexM_run third
          end_block_def flush_pre_def apply_predict_def bindM_assoc add_line_run retM_def)
        (simp add: one_line_def)
  qed
  have start: "(new_lexer file_name (str_reader s))\<lparr>l_fast := True, l_prev_indent := - 1\<rparr> = ?start"
    using str_reader_plain [OF assms(1)] by (simp add: new_lexer_def)
  have "parse_block env (Suc (Suc n)) from_file (- 1) ?tgt (?w (new_lexer file_name (str_reader s)) (p_contents p))
      = parse_loop env (Suc n) from_file (- 1) fr (?w (one_line file_name (Fixed [])) c)"
    using stmt by (simp add: parse_block_def step_run start lexM_run first second bindM_Inr new_frame_def [of ?tgt])
  then show ?thesis unfolding close by (simp add: parse_text_def)
qed



section \<open>Filters\<close>

definition filter_lines :: "(string \<times> token \<times> (lfilter \<Rightarrow> iobj)) list" where
  "filter_lines = [(''only '', TOnly, OnlyF), (''no '', TNo, NoF), (''join '', TJoin, JoinF)]"

text \<open>What a filter line adds to the content of the node that is parsed into.\<close>

definition filter_items :: "string \<Rightarrow> iobj \<Rightarrow> item list" where
  "filter_items file_name obj = [Item file_name 1 (Oper (ApplyPreDict [])), Item file_name 1 obj]"

definition add_items :: "item list \<Rightarrow> parser \<Rightarrow> parser" where
  "add_items ts p = p\<lparr>p_contents := (p_contents p)[n_id (p_node p) := p_contents p ! n_id (p_node p) @ ts]\<rparr>"

lemma parse_filter_line:
  assumes f: "written_filter f" and k: "(k, t, mk) \<in> set filter_lines" and i: "n_id (p_node p) < length (p_contents p)"
  shows "parse_text env (Suc (Suc n)) from_file file_name (k @ show_filter f) p
    = Inr (add_items (filter_items file_name (mk f)) p)"
proof -
  let ?s = "k @ show_filter f"
  have k': "(k, t) \<in> {(''only '', TOnly), (''no '', TNo), (''join '', TJoin)}" using k by (auto simp: filter_lines_def)
  note tokens = filter_line_tokens [OF f k', of "(new_lexer file_name (str_reader ?s))\<lparr>l_prev_indent := - 1, l_fast := True\<rparr>",
    simplified new_lexer_def lexer.simps, simplified, folded one_line_def]
  have match: "next_token (one_line file_name (AtMatch ?s)) = Inr (t, one_line file_name (AfterKeyword ?s (length k)))"
    and rest: "rest_line (one_line file_name (AfterKeyword ?s (length k))) = Inr (filter_tokens f, one_line file_name (Fixed []))"
    using tokens by (simp_all add: one_line_def)
  have parse: "parse_filter (filter_tokens f) = Inr f" using f by (intro parse_filter_tokens) (auto simp: written_filter_def)
  let ?c = "(p_contents p)[n_id (p_node p) := p_contents p ! n_id (p_node p) @ filter_items file_name (mk f)]"
  have stmt: "stmt env (Suc n) block from_file (- 1) 0 t (new_frame (ToNode (p_node p)))
      \<lparr>w_lexer = one_line file_name (AfterKeyword ?s (length k)), w_contents = p_contents p\<rparr>
    = (Inr (new_frame (ToNode (p_node p))), \<lparr>w_lexer = one_line file_name (Fixed []), w_contents = ?c\<rparr>)" for block
  proof -
    have "stmt env (Suc n) block from_file (- 1) 0 t (new_frame (ToNode (p_node p)))
        = stmt_filter mk (new_frame (ToNode (p_node p)))"
      using k by (auto simp: filter_lines_def stmt_def)
    then show ?thesis
      using i add_line_run [where g = retM]
      by (simp add: stmt_filter_def lexM_run rest parse step_run apply_predict_def bindM_assoc add_line_run new_frame_def
          filter_items_def retM_def) (simp add: one_line_def)
  qed
  have "plain_line ?s" using k by (intro filter_line_plain [OF f]) (auto simp: filter_lines_def)
  from parse_one_line [OF this match _ stmt] k show ?thesis
    by (auto simp: new_frame_def filter_lines_def block_allowed_def add_items_def)
qed

text \<open>C14:
  Written filters are read back: \<open>only_filter\<close> and \<open>no_filter\<close> with the text of a filter add
  that filter, in front of it an empty block of assignments, to the content of the node at
  the top, and nothing else, and the text is recorded. Two units of fuel are enough.
\<close>

theorem filters_are_read_back:
  assumes "written_filter f" and "n_id (p_node p) < length (p_contents p)"
  shows "only_filter env (n + 2) (show_filter f) p
      = Inr (add_items (filter_items ''<string>'' (OnlyF f)) (p\<lparr>p_only_filters := p_only_filters p @ [''only '' @ show_filter f]\<rparr>))
    \<and> no_filter env (n + 2) (show_filter f) p
      = Inr (add_items (filter_items ''<string>'' (NoF f)) (p\<lparr>p_no_filters := p_no_filters p @ [''no '' @ show_filter f]\<rparr>))"
  using parse_filter_line [OF assms(1), of "''only ''" TOnly OnlyF] parse_filter_line [OF assms(1), of "''no ''" TNo NoF] assms(2)
  by (simp add: only_filter_def no_filter_def parse_string_def filter_lines_def)

lemma filters_are_read_back_witness:
  "show_filter [[[Label ''q35'' None, Label ''vm1'' (Some ''nets'')], [Label ''x-y'' None]], [[Label ''z'' None]]]
     = ''q35.(nets=vm1)..x-y, z''
   \<and> (\<forall>env. only_filter env 2 (show_filter [[[Label ''q35'' None, Label ''vm1'' (Some ''nets'')], [Label ''x-y'' None]], [[Label ''z'' None]]]) new_parser
     = Inr (add_items (filter_items ''<string>'' (OnlyF [[[Label ''q35'' None, Label ''vm1'' (Some ''nets'')], [Label ''x-y'' None]], [[Label ''z'' None]]]))
         (new_parser\<lparr>p_only_filters := [''only q35.(nets=vm1)..x-y, z'']\<rparr>)))"
proof -
  let ?f = "[[[Label ''q35'' None, Label ''vm1'' (Some ''nets'')], [Label ''x-y'' None]], [[Label ''z'' None]]]"
  have f: "written_filter ?f" "show_filter ?f = ''q35.(nets=vm1)..x-y, z''" by code_simp+
  show ?thesis using filters_are_read_back [OF f(1), of new_parser _ 0]
    by (simp add: f(2) new_parser_def root_node_def numeral_2_eq_2)
qed

section \<open>Assignments\<close>

definition plain_key :: "string \<Rightarrow> bool" where
  "plain_key key \<longleftrightarrow> plain_word key \<and> hd key \<noteq> CHR ''-'' \<and> \<not> is_reserved [key]
     \<and> key \<notin> {''variants'', ''only'', ''no'', ''include'', ''del'', ''suffix'', ''join''}"

definition plain_value :: "string \<Rightarrow> bool" where
  "plain_value v \<longleftrightarrow> v \<noteq> [] \<and> (\<forall>c \<in> set v. \<not> is_line_end c \<and> c \<noteq> CHR 0x09) \<and> \<not> is_ws (hd v) \<and> \<not> is_ws (last v)
     \<and> unquote v = v"

lemma search_oper_plain:
  "list_all iden_char key \<Longrightarrow> search_oper (key @ '' = '' @ v) = Some (key @ '' '', ''='', KSet, CHR '' '' # v)"
proof (induction key)
  case Nil
  show ?case by (simp add: tokens_oper_def)
next
  case (Cons c key)
  have "c \<notin> set spec_oper" "c \<noteq> CHR ''=''" using Cons.prems iden_char_plain(4) [of c] by (auto simp: iden_char_def spec_iden_def)
  then have "filter (\<lambda>(o', k). prefix (o' @ ''='') (c # key @ '' = '' @ v)) tokens_oper = []"
    by (auto simp: tokens_oper_def spec_oper_def)
  then show ?case using Cons by simp
qed

lemma startswith_word:
  assumes "CHR '' '' \<notin> set key" and "CHR '' '' \<notin> set w"
  shows "startswith (key @ CHR '' '' # rest) (w @ '' '') \<longleftrightarrow> key = w"
proof -
  have first: "takeWhile (\<lambda>c. c \<noteq> CHR '' '') (ks @ CHR '' '' # zs) = ks" if "CHR '' '' \<notin> set ks" for ks zs
    using that by (induction ks) auto
  have "key = w" if "key @ CHR '' '' # rest = w @ CHR '' '' # zs" for zs
    using first [OF assms(1), of rest] first [OF assms(2), of zs] that by simp
  then show ?thesis by (auto simp: startswith_def prefix_def)
qed

lemma startswith_key: "CHR '' '' \<notin> set w \<Longrightarrow> startswith (key @ CHR '' '' # rest) w \<Longrightarrow> prefix w key"
  by (auto simp: startswith_def prefix_append prefix_Cons)

lemma lex_assignment:
  assumes key: "plain_key key" and v: "plain_value v"
  shows "lex_match True False (key @ '' = '' @ v) = Inr (TIdent key, Fixed [TOp KSet, TString v, TEndL], False)"
proof -
  let ?s = "key @ '' = '' @ v"
  have word: "key \<noteq> []" "\<forall>c \<in> set key. iden_char c" using key by (auto simp: plain_key_def plain_word_def list_all_iff)
  have chars: "CHR '' '' \<notin> set key" "CHR '':'' \<notin> set key"
    using word(2) by (auto simp: iden_char_def spec_iden_def)
  have "\<not> startswith ?s ''variants:''"
  proof
    assume "startswith ?s ''variants:''"
    then have "prefix ''variants:'' key" using startswith_key [of "''variants:''" key "''= '' @ v"] by simp
    from set_mono_prefix [OF this] show False using chars(2) by simp
  qed
  moreover have kw: "\<not> startswith ?s (w @ '' '')" if "w \<in> {''variants'', ''only'', ''no'', ''include'', ''del'', ''suffix'', ''join''}" for w
  proof -
    have "CHR '' '' \<notin> set w" "key \<noteq> w" using that key by (auto simp: plain_key_def)
    then show ?thesis using startswith_word [OF chars(1), of w "''= '' @ v"] by simp
  qed
  moreover have "\<not> startswith ?s ''-''" using key word(1) by (cases key) (auto simp: startswith_def plain_key_def)
  ultimately have "lex_match True False ?s = after_keyword True False ?s 0"
    using kw [of "''variants''"] kw [of "''only''"] kw [of "''no''"] kw [of "''include''"] kw [of "''del''"]
      kw [of "''suffix''"] kw [of "''join''"]
    by (simp add: lex_match_def line_keywords_def)
  also have "\<dots> = Inr (TIdent (rstrip (key @ '' '')), Fixed [TOp KSet, TString (lstrip (CHR '' '' # v)), TEndL], False)"
  proof -
    have "length (takeWhile (\<lambda>c. c \<noteq> CHR '':'') ?s) > length ((key @ '' '') @ ''='')"
      using chars(2) by (subst takeWhile_append2) auto
    then show ?thesis using search_oper_plain [of key v] word(2) by (simp add: after_keyword_def list_all_iff)
  qed
  also have "rstrip (key @ '' '') = key"
    using word iden_char_plain(1) by (cases key rule: rev_cases) (auto simp: rstrip_def is_ws_def)
  also have "lstrip (CHR '' '' # v) = v" using v by (cases v) (auto simp: lstrip_def is_ws_def plain_value_def)
  finally show ?thesis .
qed

lemma assignment_line:
  assumes key: "plain_key key" and v: "plain_value v"
  shows "plain_line (key @ '' = '' @ v)"
proof -
  have word: "key \<noteq> []" "\<forall>c \<in> set key. iden_char c" using key by (auto simp: plain_key_def plain_word_def list_all_iff)
  then obtain c ks where c: "key = c # ks" "iden_char c" by (cases key) auto
  have "c \<noteq> CHR ''#''" "c \<noteq> CHR ''/''" using c(2) by (auto simp: iden_char_def spec_iden_def)
  then show ?thesis using word v c iden_char_plain
    by (auto simp: plain_line_def plain_value_def startswith_def is_line_end_def)
qed

text \<open>What an assignment adds: with a reference it is kept for later, else it joins the block at its end.\<close>

definition assign_items :: "string \<Rightarrow> string \<Rightarrow> string \<Rightarrow> item list" where
  "assign_items file_name key v =
     (if CHR ''$'' \<in> set v then [Item file_name 1 (Oper (SetOp key v))]
      else [Item file_name (- 1) (Oper (ApplyPreDict [(key, v)]))])"

lemma parse_assignment:
  assumes key: "plain_key key" and v: "plain_value v" and i: "n_id (p_node p) < length (p_contents p)"
  shows "parse_text env (Suc (Suc n)) from_file file_name (key @ '' = '' @ v) p
    = Inr (add_items (assign_items file_name key v) p)"
proof -
  let ?s = "key @ '' = '' @ v" and ?tgt = "ToNode (p_node p)"
  have match: "next_token (one_line file_name (AtMatch ?s)) = Inr (TIdent key, one_line file_name (Fixed [TOp KSet, TString v, TEndL]))"
    using lex_assignment [OF key v] by (simp add: next_token_def one_line_def)
  have oper: "get_until_no_white (\<lambda>t. is_operator t \<or> t = TColon \<or> t = TEndL) (one_line file_name (Fixed [TOp KSet, TString v, TEndL]))
      = Inr ([TOp KSet], one_line file_name (Fixed [TString v, TEndL]))"
    by (simp add: get_until_no_white_def get_until_def next_token_def one_line_def is_operator_def)
  have str: "get_next_check (\<lambda>t. case t of TString s \<Rightarrow> True | _ \<Rightarrow> False) (one_line file_name (Fixed [TString v, TEndL]))
      = Inr (TString v, one_line file_name (Fixed [TEndL]))"
    and endl: "get_next_check (\<lambda>t. t = TEndL) (one_line file_name (Fixed [TEndL])) = Inr (TEndL, one_line file_name (Fixed []))"
    by (simp_all add: get_next_check_def next_token_def one_line_def)
  have v': "unquote v = v" and key': "\<not> is_reserved [key]" using key v by (simp_all add: plain_key_def plain_value_def)
  define fr where "fr = (if CHR ''$'' \<in> set v then new_frame ?tgt else (new_frame ?tgt)\<lparr>f_pre := [(key, v)]\<rparr>)"
  define c where "c = (if CHR ''$'' \<in> set v then (p_contents p)[n_id (p_node p) := p_contents p ! n_id (p_node p)
      @ [Item file_name 1 (Oper (SetOp key v))]] else p_contents p)"
  have add: "bindM (add_operator env KSet key v (new_frame ?tgt)) g \<lparr>w_lexer = one_line file_name q, w_contents = p_contents p\<rparr>
      = g fr \<lparr>w_lexer = one_line file_name q, w_contents = c\<rparr>" for g :: "frame \<Rightarrow> 'a parse" and q
  proof (cases "CHR ''$'' \<in> set v")
    case True
    then show ?thesis
      by (simp add: add_operator_def mk_oper_def flush_pre_def new_frame_def add_line_run fr_def c_def) (simp add: one_line_def)
  next
    case False
    then have "apply_to_pre env (SetOp key v) [] = Inr [(key, v)]"
      using key' by (simp add: apply_to_pre_def apply_oper_def apply_assign_def substitute_refs_def dict_set_def)
    then show ?thesis using False
      by (simp add: add_operator_def mk_oper_def new_frame_def step_run bindM_assoc fr_def c_def)
  qed
  have stmt: "stmt env (Suc n) block from_file (- 1) 0 (TIdent key) (new_frame ?tgt)
      \<lparr>w_lexer = one_line file_name (Fixed [TOp KSet, TString v, TEndL]), w_contents = p_contents p\<rparr>
    = (Inr fr, \<lparr>w_lexer = one_line file_name (Fixed []), w_contents = c\<rparr>)" for block
    by (simp add: stmt_def stmt_identifier_def lexM_run oper str endl token_str_def v' add retM_def)
  from parse_one_line [OF assignment_line [OF key v] match _ stmt] i show ?thesis
    by (auto simp: fr_def c_def new_frame_def block_allowed_def is_ident_def add_items_def assign_items_def)
qed

text \<open>C15:
  Assignments are read back: \<open>assign\<close> with a plain key and any value on one line that is not
  quoted adds that key and value to the content of the node at the top, and nothing else, and
  the text is recorded. A value with a reference is kept as an operator for the enumeration.
\<close>

theorem assignments_are_read_back:
  assumes "plain_key key" and "plain_value v" and "n_id (p_node p) < length (p_contents p)"
  shows "assign env (n + 2) key v p
    = Inr (add_items (assign_items ''<string>'' key v) (p\<lparr>p_assignments := p_assignments p @ [key @ '' = '' @ v]\<rparr>))"
  using parse_assignment [OF assms(1,2)] assms(3) by (simp add: assign_def parse_string_def)

lemma assignments_are_read_back_witness:
  "\<forall>env. assign env 2 ''vms'' ''vm1 vm2: a=b'' new_parser
    = Inr (new_parser\<lparr>p_contents := [[Item ''<string>'' (- 1) (Oper (ApplyPreDict [(''vms'', ''vm1 vm2: a=b'')]))]],
        p_assignments := [''vms = vm1 vm2: a=b'']\<rparr>)"
proof -
  have "plain_key ''vms''" "plain_value ''vm1 vm2: a=b''" by code_simp+
  from assignments_are_read_back [OF this, of new_parser _ 0] show ?thesis
    by (simp add: new_parser_def root_node_def add_items_def assign_items_def numeral_2_eq_2)
qed

end
