(* ===== verification/CfgParserEnd.thy ===== *)
theory CfgParserEnd
  imports CfgParser
begin

text \<open>
  The parser of the Cartesian configuration language ends: on a text without includes, the fuel
  of its loops is never used up when there is more of it than the lexer has steps, and more
  fuel changes no result. The lexer gets smaller with every token of a line; a line stored
  for a block is smaller than the part of the statement before it.
\<close>

section \<open>Tokens of a line\<close>

text \<open>
  The points within a line: all but those where the next line is read. The first point of a
  line and the one between \<open>variants\<close> and its colon are apart, since their tokens start a block.
\<close>

definition block_token :: "token \<Rightarrow> bool" where
  "block_token t \<longleftrightarrow> (case t of TIndent n \<Rightarrow> True | TEndBlock n \<Rightarrow> True | _ \<Rightarrow> False)"

lemma block_token_simps [simp]:
  "block_token (TIndent n)" "block_token (TEndBlock n)" "\<not> block_token TEndL" "\<not> block_token (TIdent s)"
  "\<not> block_token TWhite" "\<not> block_token (TString s)" "\<not> block_token TColon" "\<not> block_token TVariants"
  "\<not> block_token TVariant" "\<not> block_token (TOp k)" "\<not> block_token TLBracket" "\<not> block_token TRBracket"
  "\<not> block_token TDefault" "\<not> block_token TDot"
  by (simp_all add: block_token_def)

definition line_done :: "point \<Rightarrow> bool" where
  "line_done p \<longleftrightarrow> p = AtLine \<or> p = Fixed []"

definition inner_point :: "point \<Rightarrow> bool" where
  "inner_point p \<longleftrightarrow> (case p of AtMatch text \<Rightarrow> False | AtColon text \<Rightarrow> False | _ \<Rightarrow> True)"

definition point_ok :: "point \<Rightarrow> bool" where
  "point_ok p \<longleftrightarrow> (case p of
     Fixed ts \<Rightarrow> list_all (\<lambda>t. \<not> block_token t \<and> t \<noteq> TColon \<and> t \<noteq> TVariants) ts
       \<and> (ts \<noteq> [] \<longrightarrow> last ts = TEndL \<and> TEndL \<notin> set (butlast ts))
   | AtChar c cs chars oper \<Rightarrow> chars = []
   | _ \<Rightarrow> True)"

definition after_colon_point :: "point \<Rightarrow> bool" where
  "after_colon_point p \<longleftrightarrow> (\<exists>cs oper. p = AtRest cs [] oper)"

definition step_ok :: "nat \<Rightarrow> (token \<times> point \<times> bool) res \<Rightarrow> bool" where
  "step_ok b r \<longleftrightarrow> (case r of
     Inl e \<Rightarrow> e \<noteq> OutOfFuel
   | Inr (t, p, _) \<Rightarrow> point_ok p \<and> point_size p < b \<and> (t = TEndL \<longleftrightarrow> line_done p) \<and> \<not> block_token t
       \<and> t \<noteq> TVariants \<and> inner_point p \<and> (t = TColon \<longrightarrow> after_colon_point p \<and> point_size p + 2 \<le> b))"

lemma step_ok_simps [simp]:
  "step_ok b (Inl e) \<longleftrightarrow> e \<noteq> OutOfFuel"
  "step_ok b (Inr (t, p, f)) \<longleftrightarrow> point_ok p \<and> point_size p < b \<and> (t = TEndL \<longleftrightarrow> line_done p) \<and> \<not> block_token t
     \<and> t \<noteq> TVariants \<and> inner_point p \<and> (t = TColon \<longrightarrow> after_colon_point p \<and> point_size p + 2 \<le> b)"
  by (simp_all add: step_ok_def)

lemma step_ok_mono: "step_ok b r \<Longrightarrow> b \<le> b' \<Longrightarrow> step_ok b' r"
  by (auto simp: step_ok_def split: sum.splits)

lemma point_simps [simp]:
  "point_size AtLine = 0" "point_size (Fixed ts) = length ts" "point_size (AtMatch text) = 3 * length text + 8"
  "point_size (AtColon text) = 3 * length text + 7" "point_size (AfterKeyword text pos) = 3 * length text + 6"
  "point_size (AtTop cs chars oper) = 3 * length cs + 6" "point_size (AtOper c cs) = 3 * length cs + 6"
  "point_size (AtSpecial c cs oper) = 3 * length cs + 8" "point_size (AtChar c cs chars oper) = 3 * length cs + 8"
  "point_size (AtRest cs chars oper) = 3 * length cs + 6"
  by (simp_all add: point_size_def)

lemmas point_defs = point_ok_def line_done_def inner_point_def after_colon_point_def

lemma step_ok_fixed: "2 \<le> b \<Longrightarrow> step_ok b (fixed f (end_tokens chars))"
  by (simp add: fixed_def end_tokens_def point_defs)

lemma tokens_map_token:
  assumes "map_of tokens_map c = Some t"
  shows "t \<noteq> TEndL \<and> \<not> block_token t \<and> t \<noteq> TVariants"
  using map_of_SomeD [OF assms] by (auto simp: tokens_map_def block_token_def)

lemma dropWhile_shorter: "dropWhile P cs = d # ds \<Longrightarrow> length ds < length cs"
  using length_dropWhile_le [of P cs] by simp

lemma lex_steps:
  "step_ok (3 * length cs + 6) (lex_top f cs chars oper)"
  "step_ok (3 * length cs + 8) (lex_special f c cs oper)"
  "chars = [] \<longrightarrow> step_ok (3 * length cs + 8) (lex_char f c cs chars oper)"
  "step_ok (3 * length cs + 6) (lex_rest f cs chars oper)"
proof (induction f cs chars oper and f c cs oper and f c cs chars oper and f cs chars oper
    rule: lex_top_lex_special_lex_char_lex_rest.induct)
  case (1 rest_as chars oper)
  then show ?case by (simp add: step_ok_fixed)
next
  case (2 rest_as c cs chars oper)
  then show ?case
    by (auto simp: point_defs simp del: lex_special.simps intro: step_ok_mono)
next
  case (3 rest_as c cs oper)
  show ?case
  proof (cases "is_ws c")
    case True
    then show ?thesis by (auto simp: point_defs split: list.split dest!: dropWhile_shorter)
  next
    case False
    then show ?thesis using 3 by (simp del: lex_char.simps)
  qed
next
  case (4 rest_as c cs chars oper)
  have rest: "step_ok (3 * length cs + 8) (lex_rest rest_as cs x y)"
    if "step_ok (3 * length cs + 6) (lex_rest rest_as cs x y)" for x y
    using that by (rule step_ok_mono) simp
  have token: "step_ok (3 * length cs + 8) (Inr (t, AtRest cs [] oper, rest_as))" if "map_of tokens_map c = Some t" for t
    using tokens_map_token [OF that] by (auto simp: point_defs)
  have quoted: "step_ok (3 * length cs + 8) (Inr (TString str, AtRest ds str oper, rest_as))"
    if "dropWhile (\<lambda>d. d \<noteq> CHR 0x22) cs = d # ds" for d ds str
    using dropWhile_shorter [OF that] by (simp add: point_defs)
  show ?case
  proof
    assume chars: "chars = []"
    consider "iden_char c" | "\<not> iden_char c" "c = CHR ''=''" | t where "\<not> iden_char c" "c \<noteq> CHR ''=''" "map_of tokens_map c = Some t"
      | "\<not> iden_char c" "c \<noteq> CHR ''=''" "map_of tokens_map c = None" by (cases "map_of tokens_map c") auto
    then show "step_ok (3 * length cs + 8) (lex_char rest_as c cs chars oper)"
    proof cases
      case 1
      then show ?thesis using 4 rest by (simp del: lex_rest.simps)
    next
      case 2
      then show ?thesis by (simp add: point_defs split: option.split)
    next
      case 3
      then show ?thesis using token chars by simp
    next
      case none: 4
      then show ?thesis using 4(2) rest quoted
        by (simp add: step_ok_fixed Let_def del: lex_rest.simps split: list.split)
    qed
  qed
next
  case (5 rest_as cs chars oper)
  then show ?case by (auto simp: point_defs end_tokens_def)
qed

lemma step_after_keyword: "step_ok (3 * length line + 6) (after_keyword fast f line pos)"
proof -
  have top: "step_ok (3 * length line + 6) (lex_top f (drop pos line) [] [])"
    by (rule step_ok_mono [OF lex_steps(1)]) simp
  show ?thesis
    using top lex_steps(1) [of line f "[]" "[]"]
    by (auto simp: after_keyword_def Let_def point_defs simp del: lex_top.simps split: option.split)
qed

lemma line_keywords_token:
  assumes "filter P line_keywords = (w, t, skip) # rest"
  shows "t \<noteq> TEndL \<and> \<not> block_token t \<and> t \<noteq> TVariants \<and> t \<noteq> TColon"
proof -
  have "(w, t, skip) \<in> set line_keywords" using arg_cong [OF assms, of set] by auto
  then show ?thesis by (auto simp: line_keywords_def block_token_def)
qed

section \<open>Tokens of the lexer\<close>

text \<open>What the lexer is after it has read the token: a step of a line, and then any number of them.\<close>

definition opening_point :: "point \<Rightarrow> bool" where
  "opening_point p \<longleftrightarrow> (case p of AtMatch line \<Rightarrow> True | _ \<Rightarrow> False)"

definition reads :: "lexer \<Rightarrow> token \<Rightarrow> lexer \<Rightarrow> bool" where
  "reads lx t lx' \<longleftrightarrow> point_ok (l_point lx') \<and> lexer_size lx' < lexer_size lx \<and> (t = TEndL \<longleftrightarrow> line_done (l_point lx'))
     \<and> \<not> block_token t \<and> \<not> opening_point (l_point lx') \<and> (t \<noteq> TVariants \<longrightarrow> inner_point (l_point lx'))
     \<and> (\<not> opening_point (l_point lx) \<longrightarrow> t \<noteq> TVariants)
     \<and> (inner_point (l_point lx) \<longrightarrow> t = TColon \<longrightarrow> after_colon_point (l_point lx') \<and> lexer_size lx' + 2 \<le> lexer_size lx)"

lemma inner_not_opening: "inner_point p \<Longrightarrow> \<not> opening_point p"
  by (simp add: inner_point_def opening_point_def split: point.splits)

lemma reads_trans: "reads lx t lx' \<Longrightarrow> t \<noteq> TEndL \<Longrightarrow> reads lx' u lx'' \<Longrightarrow> reads lx u lx''"
  using inner_not_opening by (auto simp: reads_def)

definition reader_size :: "reader \<Rightarrow> nat" where
  "reader_size r = sum_list (map line_size (r_lines r)) + (case r_stored r of None \<Rightarrow> 0 | Some l \<Rightarrow> line_size l)"

lemma lexer_size: "lexer_size lx = point_size (l_point lx) + reader_size (l_reader lx)"
  by (simp add: lexer_size_def reader_size_def)

definition next_ok :: "lexer \<Rightarrow> (token \<times> lexer) res \<Rightarrow> bool" where
  "next_ok lx r \<longleftrightarrow> (case r of Inl e \<Rightarrow> e \<noteq> OutOfFuel | Inr (t, lx') \<Rightarrow> reads lx t lx')"

lemma next_ok_simps [simp]:
  "next_ok lx (Inl e) \<longleftrightarrow> e \<noteq> OutOfFuel" "next_ok lx (Inr (t, lx')) \<longleftrightarrow> reads lx t lx'"
  by (simp_all add: next_ok_def)

lemma next_step:
  assumes "step_ok b r" and "b \<le> point_size (l_point lx)"
  shows "next_ok lx (bindE r (\<lambda>(t, p, f). Inr (t, lx\<lparr>l_point := p, l_rest := f\<rparr>)))"
proof (cases r)
  case (Inr x)
  obtain t p f where "x = (t, p, f)" by (cases x)
  then show ?thesis using assms Inr by (auto simp: reads_def lexer_size inner_not_opening)
qed (use assms in simp)

lemma next_match:
  "next_ok (lx\<lparr>l_point := AtMatch line\<rparr>) (bindE (lex_match fast f line) (\<lambda>(t, p, f). Inr (t, lx\<lparr>l_point := p, l_rest := f\<rparr>)))"
proof -
  have "next_ok (lx\<lparr>l_point := AtMatch line\<rparr>)
      (bindE (after_keyword fast f line 0) (\<lambda>(t, p, f). Inr (t, lx\<lparr>l_point := p, l_rest := f\<rparr>)))"
    using next_step [OF step_after_keyword [where pos = 0], where lx = "lx\<lparr>l_point := AtMatch line\<rparr>"] by simp
  then show ?thesis
    by (auto simp: lex_match_def Let_def reads_def lexer_size opening_point_def point_defs
        dest: line_keywords_token split: list.split prod.split)
qed

lemma next_fixed:
  assumes "point_ok (Fixed (t # ts))" and "l_point lx = Fixed (t # ts)"
  shows "reads lx t (lx\<lparr>l_point := Fixed ts\<rparr>)"
  using assms by (cases "ts = []") (auto simp: reads_def lexer_size opening_point_def point_defs)

lemma next_in_line:
  assumes "\<not> line_done (l_point lx)" and "point_ok (l_point lx)"
  shows "next_ok lx (next_token lx)"
proof (cases "l_point lx")
  case (AtMatch line)
  then have same: "lx\<lparr>l_point := AtMatch line\<rparr> = lx" by simp
  show ?thesis using next_match [where lx = lx and line = line, unfolded same] AtMatch by (simp add: next_token_def Let_def)
next
  case (AtColon line)
  then show ?thesis by (simp add: next_token_def Let_def reads_def lexer_size opening_point_def point_defs)
next
  case (AfterKeyword line pos)
  then show ?thesis using next_step [OF step_after_keyword, where lx = lx] by (simp add: next_token_def Let_def)
next
  case (Fixed ts)
  then obtain u us where "ts = u # us" using assms(1) by (cases ts) (auto simp: line_done_def)
  then show ?thesis using next_fixed [of u us lx] assms(2) Fixed by (simp add: next_token_def)
next
  case (AtTop cs chars oper)
  then show ?thesis using next_step [OF lex_steps(1), where lx = lx] by (simp add: next_token_def Let_def del: lex_top.simps)
next
  case (AtOper c cs)
  then show ?thesis using next_step [OF lex_steps(1), where lx = lx] by (simp add: next_token_def Let_def del: lex_top.simps)
next
  case (AtSpecial c cs oper)
  then show ?thesis using next_step [OF lex_steps(2), where lx = lx] by (simp add: next_token_def Let_def del: lex_special.simps)
next
  case (AtChar c cs chars oper)
  then show ?thesis using next_step [OF lex_steps(3) [rule_format], where lx = lx] assms(2)
    by (simp add: next_token_def Let_def point_ok_def del: lex_char.simps)
next
  case (AtRest cs chars oper)
  then show ?thesis using next_step [OF lex_steps(4), where lx = lx] by (simp add: next_token_def Let_def del: lex_rest.simps)
qed (use assms in \<open>simp add: line_done_def\<close>)

definition until_ok :: "(token \<Rightarrow> bool) \<Rightarrow> lexer \<Rightarrow> (token list \<times> lexer) res \<Rightarrow> bool" where
  "until_ok stop lx r \<longleftrightarrow> (case r of Inl e \<Rightarrow> e \<noteq> OutOfFuel
     | Inr (ts, lx') \<Rightarrow> ts \<noteq> [] \<and> stop (last ts) \<and> reads lx (last ts) lx')"

lemma until_ok_simps [simp]:
  "until_ok stop lx (Inl e) \<longleftrightarrow> e \<noteq> OutOfFuel"
  "until_ok stop lx (Inr (ts, lx')) \<longleftrightarrow> ts \<noteq> [] \<and> stop (last ts) \<and> reads lx (last ts) lx'"
  by (simp_all add: until_ok_def)

lemma read_until_in_line:
  "stop TEndL \<Longrightarrow> \<not> line_done (l_point lx) \<Longrightarrow> point_ok (l_point lx) \<Longrightarrow> lexer_size lx < n
   \<Longrightarrow> until_ok stop lx (read_until n stop lx)"
proof (induction n arbitrary: lx)
  case (Suc n)
  show ?case
  proof (cases "next_token lx")
    case (Inr x)
    obtain t lx' where x: "x = (t, lx')" by (cases x)
    have step: "reads lx t lx'" using next_in_line [OF Suc.prems(2,3)] Inr x by simp
    show ?thesis
    proof (cases "stop t")
      case False
      then have t: "t \<noteq> TEndL" using Suc.prems(1) by auto
      have "until_ok stop lx' (read_until n stop lx')"
        using step t Suc.prems(1,4) by (intro Suc.IH) (auto simp: reads_def)
      then show ?thesis using Inr x False reads_trans [OF step t] by (cases "read_until n stop lx'") auto
    qed (use Inr x step in simp)
  qed (use next_in_line [OF Suc.prems(2,3)] in simp)
qed simp

lemma get_until_in_line:
  "stop TEndL \<Longrightarrow> \<not> line_done (l_point lx) \<Longrightarrow> point_ok (l_point lx) \<Longrightarrow> until_ok stop lx (get_until stop lx)"
  unfolding get_until_def by (rule read_until_in_line) simp_all

text \<open>Between two lines: the next line, or the end of the block.\<close>

definition starts :: "lexer \<Rightarrow> token \<Rightarrow> lexer \<Rightarrow> bool" where
  "starts lx t lx' \<longleftrightarrow> (case t of
     TIndent n \<Rightarrow> opening_point (l_point lx') \<and> lexer_size lx' < lexer_size lx
   | TEndBlock n \<Rightarrow> line_done (l_point lx') \<and> lexer_size lx' \<le> lexer_size lx
   | _ \<Rightarrow> False)"

lemma get_next_line_size:
  assumes "get_next_line indent r = ((l, n, m), r')"
  shows "reader_size r = reader_size r' + (case l of None \<Rightarrow> 0 | Some l \<Rightarrow> 3 * length l + 9)"
  using assms
  by (auto simp: get_next_line_def reader_size_def line_size_def split: option.splits list.splits if_splits prod.splits)

lemma next_between:
  assumes "line_done (l_point lx)"
  obtains t lx' where "next_token lx = Inr (t, lx')" "starts lx t lx'"
proof -
  obtain l n m r where next_line: "get_next_line (l_prev_indent lx) (l_reader lx) = ((l, n, m), r)"
    by (metis prod_cases3 surj_pair)
  have "next_token lx = Inr (read_next lx)" using assms by (auto simp: next_token_def line_done_def)
  moreover have "starts lx (fst (read_next lx)) (snd (read_next lx))"
    using get_next_line_size [OF next_line] next_line assms
    by (cases l) (auto simp: read_next_def starts_def lexer_size line_done_def opening_point_def)
  ultimately show thesis by (metis prod.collapse that)
qed

lemma starts_block: "starts lx t lx' \<Longrightarrow> block_token t"
  by (cases t) (simp_all add: starts_def)

section \<open>Total correctness of the parser's steps\<close>

text \<open>
  Triples over the point of the lexer and its size: the computation is not cut off, and what
  holds of the lexer after it. A quiet computation keeps both.
\<close>

type_synonym cond = "point \<Rightarrow> nat \<Rightarrow> bool"

definition lexer_has :: "cond \<Rightarrow> pworld \<Rightarrow> bool" where
  "lexer_has P w \<longleftrightarrow> P (l_point (w_lexer w)) (lexer_size (w_lexer w))"

definition ends :: "cond \<Rightarrow> 'a parse \<Rightarrow> ('a \<Rightarrow> cond) \<Rightarrow> bool" where
  "ends P m Q \<longleftrightarrow> (\<forall>w. lexer_has P w \<longrightarrow> wpM m (\<lambda>e _. e \<noteq> OutOfFuel) (\<lambda>x. lexer_has (Q x)) w)"

definition quiet :: "'a parse \<Rightarrow> bool" where
  "quiet m \<longleftrightarrow> (\<forall>P. ends P m (\<lambda>_. P))"

named_theorems quiet_intros \<open>computations that leave the lexer where it is\<close>

lemma ends_bind:
  assumes "ends P' m R" and "\<And>p k. P p k \<Longrightarrow> P' p k" and "\<And>x. ends (R x) (f x) Q"
  shows "ends P (bindM m f) Q"
  unfolding ends_def wpM_bind
proof (intro allI impI)
  fix w assume "lexer_has P w"
  then have "wpM m (\<lambda>e _. e \<noteq> OutOfFuel) (\<lambda>x. lexer_has (R x)) w"
    using assms(1,2) by (simp add: ends_def lexer_has_def)
  then show "wpM m (\<lambda>e _. e \<noteq> OutOfFuel) (\<lambda>x. wpM (f x) (\<lambda>e _. e \<noteq> OutOfFuel) (\<lambda>x. lexer_has (Q x))) w"
    by (rule wpM_mono) (use assms(3) in \<open>simp_all add: ends_def\<close>)
qed

lemma ends_weaken:
  assumes "ends P m Q" and "\<And>p k. P' p k \<Longrightarrow> P p k" and "\<And>x p k. Q x p k \<Longrightarrow> Q' x p k"
  shows "ends P' m Q'"
  unfolding ends_def
proof (intro allI impI)
  fix w assume "lexer_has P' w"
  then have "wpM m (\<lambda>e _. e \<noteq> OutOfFuel) (\<lambda>x. lexer_has (Q x)) w"
    using assms(1,2) by (simp add: ends_def lexer_has_def)
  then show "wpM m (\<lambda>e _. e \<noteq> OutOfFuel) (\<lambda>x. lexer_has (Q' x)) w"
    by (rule wpM_mono) (use assms(3) in \<open>simp_all add: lexer_has_def\<close>)
qed

lemma ends_pure: "(A \<Longrightarrow> ends P m Q) \<Longrightarrow> ends (\<lambda>p k. A \<and> P p k) m Q"
  by (auto simp: ends_def lexer_has_def)

lemma ends_ret: "(\<And>p k. P p k \<Longrightarrow> Q x p k) \<Longrightarrow> ends P (retM x) Q"
  by (simp add: ends_def lexer_has_def wp_simps)

lemma ends_raise: "e \<noteq> OutOfFuel \<Longrightarrow> ends P (raiseM e) Q"
  by (simp add: ends_def wp_simps)

lemma ends_never: "(\<And>p k. \<not> P p k) \<Longrightarrow> ends P m Q"
  by (simp add: ends_def lexer_has_def)

lemma ends_lexM:
  assumes "\<And>lx. P (l_point lx) (lexer_size lx) \<Longrightarrow>
    (case f lx of Inl e \<Rightarrow> e \<noteq> OutOfFuel | Inr (x, lx') \<Rightarrow> Q x (l_point lx') (lexer_size lx'))"
  shows "ends P (lexM f) Q"
  using assms by (fastforce simp: ends_def lexer_has_def wpM_def lexM_def split: sum.splits prod.splits)

lemma ends_quiet: "quiet m \<Longrightarrow> (\<And>x p k. P p k \<Longrightarrow> Q x p k) \<Longrightarrow> ends P m Q"
  unfolding quiet_def by (metis ends_weaken)

lemma ends_quiet_bind: "quiet m \<Longrightarrow> (\<And>x. ends P (f x) Q) \<Longrightarrow> ends P (bindM m f) Q"
  unfolding quiet_def by (rule ends_bind [where P' = P and R = "\<lambda>_. P"]) auto

lemma quiet_pure [quiet_intros]:
  "quiet (retM x)" "e \<noteq> OutOfFuel \<Longrightarrow> quiet (raiseM e)" "quiet (getM g)" "r \<noteq> Inl OutOfFuel \<Longrightarrow> quiet (liftM r)"
  by (auto simp: quiet_def ends_def wp_simps split: sum.splits)

lemma quiet_bind [quiet_intros]: "quiet m \<Longrightarrow> (\<And>x. quiet (f x)) \<Longrightarrow> quiet (bindM m f)"
  unfolding quiet_def by (metis ends_bind)

lemma quiet_if [quiet_intros]: "(b \<Longrightarrow> quiet m) \<Longrightarrow> (\<not> b \<Longrightarrow> quiet n) \<Longrightarrow> quiet (if b then m else n)"
  by simp

lemma quiet_settings [quiet_intros]: "quiet (set_prev_indent n)" "quiet (set_fast b)"
  by (simp_all add: quiet_def ends_def lexer_has_def set_prev_indent_def set_fast_def set_lexer_def wp_simps lexer_size)

lemma quiet_contents [quiet_intros]: "quiet (modifyM (\<lambda>w. w\<lparr>w_contents := f w\<rparr>))"
  by (simp add: quiet_def ends_def lexer_has_def wp_simps)

lemma quiet_add_content [quiet_intros]: "quiet (add_content tgt items)"
  by (cases tgt) (auto simp: add_content_def intro!: quiet_intros)

lemma quiet_here [quiet_intros]: "quiet (here obj)"
  by (auto simp: here_def intro!: quiet_intros)

lemma quiet_lines [quiet_intros]: "quiet (add_line obj fr)" "quiet (apply_predict fr)" "quiet (flush_pre fr)" "quiet new_node"
  unfolding flush_pre_def apply_predict_def add_line_def new_node_def by (auto intro!: quiet_intros)

section \<open>Where the lexer is\<close>

definition between :: "nat \<Rightarrow> cond" where
  "between N p k \<longleftrightarrow> line_done p \<and> k < N"

definition line_start :: "nat \<Rightarrow> cond" where
  "line_start N p k \<longleftrightarrow> opening_point p \<and> k < N"

definition header :: "nat \<Rightarrow> cond" where
  "header N p k \<longleftrightarrow> \<not> line_done p \<and> \<not> opening_point p \<and> point_ok p \<and> k < N"

definition inside :: "nat \<Rightarrow> cond" where
  "inside N p k \<longleftrightarrow> header N p k \<and> inner_point p"

text \<open>After a token of a line, and after one inside it.\<close>

definition seen :: "nat \<Rightarrow> token \<Rightarrow> cond" where
  "seen N t p k \<longleftrightarrow> Suc k < N \<and> \<not> block_token t \<and> (t = TEndL \<longleftrightarrow> line_done p) \<and> point_ok p \<and> \<not> opening_point p
     \<and> (t \<noteq> TVariants \<longrightarrow> inner_point p)"

definition seen_in :: "nat \<Rightarrow> token \<Rightarrow> cond" where
  "seen_in N t p k \<longleftrightarrow> seen N t p k \<and> t \<noteq> TVariants \<and> (t = TColon \<longrightarrow> after_colon_point p \<and> Suc (Suc k) < N)"

definition opened :: "nat \<Rightarrow> token \<Rightarrow> cond" where
  "opened N t p k \<longleftrightarrow> (case t of
     TIndent n \<Rightarrow> opening_point p \<and> Suc k < N | TEndBlock n \<Rightarrow> line_done p \<and> k < N | _ \<Rightarrow> False)"

definition in_line :: "nat \<Rightarrow> cond" where
  "in_line N p k \<longleftrightarrow> \<not> line_done p \<and> point_ok p \<and> k < N"

lemma header_in_line: "header N p k \<Longrightarrow> in_line N p k"
  by (simp add: header_def in_line_def)

lemmas cond_defs = in_line_def between_def line_start_def header_def inside_def seen_def seen_in_def

lemma opening_in_line: "opening_point p \<Longrightarrow> \<not> line_done p \<and> point_ok p \<and> \<not> inner_point p"
  by (auto simp: opening_point_def point_defs split: point.splits)

lemma next_start:
  "ends (line_start N) (lexM (get_next_check ok)) (\<lambda>t p k. ok t \<and> seen N t p k)"
proof (rule ends_lexM)
  fix lx assume P: "line_start N (l_point lx) (lexer_size lx)"
  then have "next_ok lx (next_token lx)"
    using opening_in_line by (intro next_in_line) (auto simp: line_start_def)
  then show "case get_next_check ok lx of Inl e \<Rightarrow> e \<noteq> OutOfFuel
      | Inr (t, lx') \<Rightarrow> ok t \<and> seen N t (l_point lx') (lexer_size lx')"
    using P by (cases "next_token lx") (auto simp: get_next_check_def reads_def cond_defs)
qed

lemma next_inside:
  "ends (inside N) (lexM (get_next_check ok)) (\<lambda>t p k. ok t \<and> seen_in N t p k)"
proof (rule ends_lexM)
  fix lx assume P: "inside N (l_point lx) (lexer_size lx)"
  then have "next_ok lx (next_token lx)" by (intro next_in_line) (auto simp: cond_defs)
  then show "case get_next_check ok lx of Inl e \<Rightarrow> e \<noteq> OutOfFuel
      | Inr (t, lx') \<Rightarrow> ok t \<and> seen_in N t (l_point lx') (lexer_size lx')"
    using P by (cases "next_token lx") (auto simp: get_next_check_def reads_def cond_defs)
qed

lemma opened_starts: "starts lx t lx' \<Longrightarrow> lexer_size lx < N \<Longrightarrow> opened N t (l_point lx') (lexer_size lx')"
  by (auto simp: starts_def opened_def split: token.splits)

lemma next_block:
  "ends (between N) (lexM (get_next_check ok)) (\<lambda>t p k. ok t \<and> opened N t p k)"
proof (rule ends_lexM)
  fix lx assume P: "between N (l_point lx) (lexer_size lx)"
  then obtain t lx' where "next_token lx = Inr (t, lx')" "starts lx t lx'"
    by (auto simp: between_def elim: next_between)
  then show "case get_next_check ok lx of Inl e \<Rightarrow> e \<noteq> OutOfFuel
      | Inr (t, lx') \<Rightarrow> ok t \<and> opened N t (l_point lx') (lexer_size lx')"
    using P by (auto simp: get_next_check_def between_def opened_starts)
qed

lemma until_here:
  assumes "in_line N (l_point lx) (lexer_size lx)" and "stop TEndL"
    and "\<And>ts lx'. ts \<noteq> [] \<Longrightarrow> stop (last ts) \<Longrightarrow>
      seen N (last ts) (l_point lx') (lexer_size lx') 
      \<and> (header N (l_point lx) (lexer_size lx) \<longrightarrow> last ts \<noteq> TVariants)
      \<and> (inside N (l_point lx) (lexer_size lx) \<longrightarrow> seen_in N (last ts) (l_point lx') (lexer_size lx'))
      \<Longrightarrow> case f ts lx' of Inl e \<Rightarrow> e \<noteq> OutOfFuel | Inr (x, lx'') \<Rightarrow> Q x (l_point lx'') (lexer_size lx'')"
  shows "case bindE (get_until stop lx) (\<lambda>(ts, lx'). f ts lx') of Inl e \<Rightarrow> e \<noteq> OutOfFuel
    | Inr (x, lx'') \<Rightarrow> Q x (l_point lx'') (lexer_size lx'')"
proof -
  have ok: "until_ok stop lx (get_until stop lx)"
    using assms(1,2) by (intro get_until_in_line) (auto simp: in_line_def)
  show ?thesis
  proof (cases "get_until stop lx")
    case (Inr x)
    obtain ts lx' where x: "x = (ts, lx')" by (cases x)
    have "ts \<noteq> [] \<and> stop (last ts) \<and> reads lx (last ts) lx'" using ok Inr x by simp
    then show ?thesis using assms(1) Inr x by (auto simp: reads_def cond_defs intro!: assms(3))
  qed (use ok in simp)
qed

lemma until_lexer:
  assumes "stop TEndL" and "\<And>lx. P (l_point lx) (lexer_size lx) \<Longrightarrow> in_line N (l_point lx) (lexer_size lx)"
    and "\<And>lx. g lx = bindE (get_until stop lx) (\<lambda>(ts, lx'). f ts lx')"
    and "\<And>lx ts lx'. P (l_point lx) (lexer_size lx) \<Longrightarrow> ts \<noteq> [] \<Longrightarrow> stop (last ts) \<Longrightarrow>
      seen N (last ts) (l_point lx') (lexer_size lx') 
      \<Longrightarrow> (header N (l_point lx) (lexer_size lx) \<Longrightarrow> last ts \<noteq> TVariants)
      \<Longrightarrow> (inside N (l_point lx) (lexer_size lx) \<Longrightarrow> seen_in N (last ts) (l_point lx') (lexer_size lx'))
      \<Longrightarrow> case f ts lx' of Inl e \<Rightarrow> e \<noteq> OutOfFuel | Inr (x, lx'') \<Rightarrow> Q x (l_point lx'') (lexer_size lx'')"
  shows "ends P (lexM g) Q"
  by (rule ends_lexM, unfold assms(3), rule until_here) (use assms(1,2,4) in auto)

lemma last_no_white: "ts \<noteq> [] \<Longrightarrow> last ts \<noteq> TWhite \<Longrightarrow>
  filter (\<lambda>t. t \<noteq> TWhite) ts \<noteq> [] \<and> last (filter (\<lambda>t. t \<noteq> TWhite) ts) = last ts"
  by (cases ts rule: rev_cases) auto

lemma until_no_white_header:
  assumes "stop TEndL" and "\<not> stop TWhite"
  shows "ends (header N) (lexM (get_until_no_white stop)) (\<lambda>ts p k. stop (last ts) \<and> last ts \<noteq> TVariants \<and> seen N (last ts) p k)"
proof (rule until_lexer [where stop = stop, OF assms(1) _ get_until_no_white_def])
  fix lx ts lx'
  assume "header N (l_point lx) (lexer_size lx)" "header N (l_point lx) (lexer_size lx) \<Longrightarrow> last ts \<noteq> TVariants"
    and *: "ts \<noteq> []" "stop (last ts)" "seen N (last ts) (l_point lx') (lexer_size lx')"
  then have "last ts \<noteq> TVariants" by blast
  moreover have "last ts \<noteq> TWhite" using * assms(2) by metis
  ultimately show "case Inr (filter (\<lambda>t. t \<noteq> TWhite) ts, lx') of Inl e \<Rightarrow> e \<noteq> OutOfFuel
      | Inr (ts, lx'') \<Rightarrow> stop (last ts) \<and> last ts \<noteq> TVariants \<and> seen N (last ts) (l_point lx'') (lexer_size lx'')"
    using * last_no_white [of ts] by auto
qed (simp add: header_in_line)

lemma until_no_white_inside:
  assumes "stop TEndL" and "\<not> stop TWhite"
  shows "ends (inside N) (lexM (get_until_no_white stop)) (\<lambda>ts p k. stop (last ts) \<and> seen_in N (last ts) p k)"
proof (rule until_lexer [where stop = stop, OF assms(1) _ get_until_no_white_def])
  fix lx ts lx'
  assume *: "ts \<noteq> []" "stop (last ts)" "inside N (l_point lx) (lexer_size lx)"
    "inside N (l_point lx) (lexer_size lx) \<Longrightarrow> seen_in N (last ts) (l_point lx') (lexer_size lx')"
  then have "last ts \<noteq> TWhite" using assms(2) by metis
  with * show "case Inr (filter (\<lambda>t. t \<noteq> TWhite) ts, lx') of Inl e \<Rightarrow> e \<noteq> OutOfFuel
      | Inr (ts, lx'') \<Rightarrow> stop (last ts) \<and> seen_in N (last ts) (l_point lx'') (lexer_size lx'')"
    using * last_no_white [of ts] by auto
qed (simp add: inside_def header_in_line)

lemma next_nw_header:
  "ends (header N) (lexM (get_next_check_nw ok)) (\<lambda>t p k. ok t \<and> t \<noteq> TVariants \<and> seen N t p k)"
  by (rule until_lexer [OF _ _ get_next_check_nw_def]) (auto simp: header_in_line)

lemma next_nw_line: "ends (in_line N) (lexM (get_next_check_nw ok)) (\<lambda>t p k. ok t \<and> seen N t p k)"
  by (rule until_lexer [OF _ _ get_next_check_nw_def]) auto

lemma next_nw_block:
  "ends (between N) (lexM (get_next_check_nw ok)) (\<lambda>t p k. ok t \<and> opened N t p k)"
proof (rule ends_lexM)
  fix lx assume P: "between N (l_point lx) (lexer_size lx)"
  then obtain t lx' where t: "next_token lx = Inr (t, lx')" "starts lx t lx'"
    by (auto simp: between_def elim: next_between)
  then have "t \<noteq> TWhite" using starts_block by fastforce
  then show "case get_next_check_nw ok lx of Inl e \<Rightarrow> e \<noteq> OutOfFuel
      | Inr (t, lx') \<Rightarrow> ok t \<and> opened N t (l_point lx') (lexer_size lx')"
    using P t by (auto simp: get_next_check_nw_def get_until_def between_def opened_starts)
qed

lemma rest_line_ends: "ends (inside N) (lexM rest_line) (\<lambda>_. between N)"
  by (rule until_lexer [OF _ _ rest_line_def]) (auto simp: cond_defs)

lemma until_end_ends: "ends (inside N) (lexM (get_until (\<lambda>t. t = TEndL))) (\<lambda>_. between N)"
proof -
  have again: "get_until (\<lambda>t. t = TEndL) lx = bindE (get_until (\<lambda>t. t = TEndL) lx) (\<lambda>(ts, lx). Inr (ts, lx))" for lx
    by (cases "get_until (\<lambda>t. t = TEndL) lx") auto
  show ?thesis by (rule until_lexer [OF _ _ again]) (auto simp: cond_defs)
qed

lemma until_check_ends:
  assumes "\<not> stop TEndL" and "\<not> ok TEndL"
  shows "ends (inside N) (lexM (get_until_check ok stop)) (\<lambda>ts p k. stop (last ts) \<and> inside N p k)"
  by (rule until_lexer [OF _ _ get_until_check_def]) (use assms in \<open>auto simp: cond_defs\<close>)

section \<open>Statements end\<close>

lemma bindE_eq_Inl: "bindE r f = Inl e \<longleftrightarrow> r = Inl e \<or> (\<exists>x. r = Inr x \<and> f x = Inl e)"
  by (cases r) auto

lemma filter_loop_uncut: "filter_loop t ts dots con_filter and_filter or_filters \<noteq> Inl OutOfFuel"
proof -
  have add: "e \<noteq> OutOfFuel" if "add_label l dots con_filter and_filter = Inl e" for l dots con_filter and_filter e
    using that by (auto simp: add_label_def split: if_splits)
  have bracket: "e \<noteq> OutOfFuel" if "bracket_label ts = Inl e" for ts e
    using that by (simp add: bracket_label_def split: list.splits token.splits opkind.splits)
  show ?thesis
  proof (induction t ts dots con_filter and_filter or_filters rule: filter_loop.induct)
    case (1 t ts dots con_filter and_filter or_filters)
    show ?case
      by (cases t; subst filter_loop.simps) (use 1 in \<open>auto split: list.split sum.split dest: add bracket\<close>)
  qed
qed

lemma parse_filter_uncut: "parse_filter ts \<noteq> Inl OutOfFuel"
  by (simp add: parse_filter_def filter_loop_uncut split: list.split)

lemma update_texts_uncut: "update_texts f keys d \<noteq> Inl OutOfFuel"
  by (induction keys arbitrary: d) (auto simp: of_option_def text_of_def bindE_eq_Inl split: option.splits dval.splits)

lemma reprs_uncut: "reprs ss \<noteq> Inl OutOfFuel"
  by (induction ss) (auto simp: py_repr_def bindE_eq_Inl)

lemma py_str_uncut: "py_str v \<noteq> Inl OutOfFuel"
  by (cases v) (auto simp: py_str_def bindE_eq_Inl reprs_uncut)

lemma substitute_uncut: "substitute_refs value d \<noteq> Inl OutOfFuel"
proof -
  have "substitute_all flat s \<noteq> Inl OutOfFuel" for flat s
  proof (induction flat s rule: substitute_all.induct)
    case (1 flat s)
    then show ?case
      by (subst substitute_all.simps) (auto simp: bindE_eq_Inl py_str_uncut split: option.split)
  qed
  then show ?thesis by (simp add: substitute_refs_def)
qed

text \<open>The regular expressions of the library end; so do the operators on the collected assignments.\<close>

lemma apply_uncut:
  assumes "\<And>s. re_compile lib s \<noteq> Inl OutOfFuel"
  shows "apply_oper lib (mk_oper k name value) d \<noteq> Inl OutOfFuel"
proof -
  have old: "old_text d name \<noteq> Inl OutOfFuel" by (auto simp: old_text_def text_of_def split: option.split dval.split)
  show ?thesis
    using assms
    by (cases k) (simp_all add: mk_oper_def apply_oper_def apply_assign_def apply_regexp_def
        bindE_eq_Inl substitute_uncut update_texts_uncut old)
qed

lemma quiet_filter [quiet_intros]: "quiet (liftM (parse_filter ts))"
  by (intro quiet_intros parse_filter_uncut)

lemma stmt_filter_ends: "ends (inside N) (stmt_filter mk fr) (\<lambda>_. between N)"
  unfolding stmt_filter_def
  by (rule ends_bind [OF rest_line_ends]) (auto intro!: ends_quiet quiet_intros)

lemma stmt_suffix_ends: "ends (inside N) (stmt_suffix fr) (\<lambda>_. between N)"
  unfolding stmt_suffix_def
  apply (rule ends_quiet_bind, intro quiet_intros)
  apply (rule ends_bind [OF next_inside], assumption)
  apply (rule ends_pure, rule ends_bind [OF next_inside [where N = N]])
   apply (auto simp: cond_defs is_ident_def split: token.splits) []
  apply (rule ends_quiet)
   apply (intro quiet_intros)
  apply (auto simp: cond_defs)
  done

lemma stmt_del_ends: "ends (inside N) (stmt_del fr) (\<lambda>_. between N)"
  unfolding stmt_del_def
  apply (rule ends_bind [OF next_nw_header [where N = N]], simp add: inside_def)
  apply (rule ends_pure, rule ends_bind [OF next_nw_header [where N = N]])
   apply (auto simp: cond_defs is_ident_def split: token.splits) []
  apply (rule ends_quiet)
   apply (intro quiet_intros)
  apply (auto simp: cond_defs)
  done

text \<open>The rest of the line, stored as the first line of the block, is smaller than the line was.\<close>

lemma rest_as_string_ends:
  "ends (\<lambda>p k. after_colon_point p \<and> Suc (Suc k) < N) (lexM rest_line_as_string)
     (\<lambda>t p k. \<exists>s. t = TString s \<and> line_done p \<and> k + 3 * length s + 8 < N)"
proof (rule ends_lexM)
  fix lx assume P: "after_colon_point (l_point lx) \<and> Suc (Suc (lexer_size lx)) < N"
  then obtain cs oper where p: "l_point lx = AtRest cs [] oper" by (auto simp: after_colon_point_def)
  have "length (lstrip cs) \<le> length cs" by (simp add: lstrip_def length_dropWhile_le)
  then show "case rest_line_as_string lx of Inl e \<Rightarrow> e \<noteq> OutOfFuel
    | Inr (t, lx') \<Rightarrow> \<exists>s. t = TString s \<and> line_done (l_point lx') \<and> lexer_size lx' + 3 * length s + 8 < N"
    using P by (simp add: rest_line_as_string_def next_token_def p end_tokens_def lexer_size line_done_def)
qed

lemma strip_ws_length: "length (strip_ws s) \<le> length s"
proof -
  have "length (strip_ws s) \<le> length (dropWhile is_ws s)"
    unfolding strip_ws_def using length_dropWhile_le [of is_ws "rev (dropWhile is_ws s)"] by simp
  then show ?thesis using length_dropWhile_le [of is_ws s] by linarith
qed

lemma set_next_line_size: "reader_size (set_next_line s i n r) \<le> reader_size r + 3 * length s + 9"
  using strip_ws_length [of s] by (simp add: set_next_line_def reader_size_def line_size_def)

lemma store_line_ends:
  "ends (\<lambda>p k. line_done p \<and> k + 3 * length s + 8 < N) (store_line s i) (\<lambda>_. between (Suc N))"
  unfolding ends_def store_line_def set_lexer_def wpM_modify
proof (intro allI impI)
  fix w assume "lexer_has (\<lambda>p k. line_done p \<and> k + 3 * length s + 8 < N) w"
  then show "lexer_has (between (Suc N)) (w\<lparr>w_lexer := (\<lambda>lx. if s = [] then lx
      else lx\<lparr>l_reader := set_next_line s i (l_linenum lx) (l_reader lx)\<rparr>) (w_lexer w)\<rparr>)"
    using set_next_line_size [of s i "l_linenum (w_lexer w)" "l_reader (w_lexer w)"]
    by (simp add: lexer_has_def between_def lexer_size)
qed

definition block_ends :: "nat \<Rightarrow> blocks \<Rightarrow> bool" where
  "block_ends N block \<longleftrightarrow> (\<forall>M \<le> N. \<forall>from_file indent tgt. ends (between M) (block from_file indent tgt) (\<lambda>_. between M))"

lemma after_colon_ends:
  assumes "block_ends (Suc N) block"
  shows "ends (\<lambda>p k. after_colon_point p \<and> Suc (Suc k) < N) (after_colon block from_file indent) (\<lambda>_. between (Suc N))"
proof -
  have text_of: "ends (\<lambda>p k. \<exists>s. t = TString s \<and> line_done p \<and> k + 3 * length s + 8 < N) (liftM (token_text t))
      (\<lambda>s p k. line_done p \<and> k + 3 * length s + 8 < N)" for t
    by (auto simp: ends_def lexer_has_def wp_simps token_text_def)
  have block: "ends (between (Suc N)) (block from_file indent tgt) (\<lambda>_. between (Suc N))" for tgt
    using assms by (simp add: block_ends_def)
  show ?thesis
    unfolding after_colon_def
    by (intro ends_bind [OF rest_as_string_ends] ends_bind [OF text_of] ends_bind [OF store_line_ends] ends_bind [OF block] ends_ret)
qed

text \<open>Wherever the lexer is, its next token is there or it raises.\<close>

lemma next_token_uncut:
  assumes "line_done (l_point lx) \<or> point_ok (l_point lx)"
  shows "next_token lx \<noteq> Inl OutOfFuel
    \<and> (\<forall>t lx'. next_token lx = Inr (t, lx') \<longrightarrow> line_done (l_point lx') \<or> point_ok (l_point lx'))"
proof (cases "line_done (l_point lx)")
  case True
  then obtain t lx' where t: "next_token lx = Inr (t, lx')" "starts lx t lx'" by (rule next_between)
  then show ?thesis using opening_in_line by (auto simp: starts_def split: token.splits)
next
  case False
  then have "next_ok lx (next_token lx)" using assms by (intro next_in_line) auto
  then show ?thesis by (cases "next_token lx") (auto simp: reads_def)
qed

text \<open>Without a colon, what comes is no text.\<close>

lemma after_colon_missing: "ends (between N) (after_colon block from_file indent) (\<lambda>_ _ _. False)"
proof -
  have first: "ends (between N) (lexM rest_line_as_string) (\<lambda>t _ _. block_token t)"
  proof (rule ends_lexM)
    fix lx assume P: "between N (l_point lx) (lexer_size lx)"
    then have "line_done (l_point (lx\<lparr>l_rest := True\<rparr>))" by (simp add: between_def)
    then obtain t lx' where t: "next_token (lx\<lparr>l_rest := True\<rparr>) = Inr (t, lx')" "starts (lx\<lparr>l_rest := True\<rparr>) t lx'"
      by (rule next_between)
    then have "line_done (l_point lx') \<or> point_ok (l_point lx')"
      using opening_in_line by (auto simp: starts_def split: token.splits)
    from next_token_uncut [OF this] show "case rest_line_as_string lx of Inl e \<Rightarrow> e \<noteq> OutOfFuel | Inr (t, lx') \<Rightarrow> block_token t"
      using t starts_block by (cases "next_token lx'") (auto simp: rest_line_as_string_def)
  qed
  have text_of: "ends (\<lambda>_ _. block_token t) (liftM (token_text t)) (\<lambda>_ _ _. False)" for t
    by (auto simp: ends_def wp_simps token_text_def split: token.split)
  show ?thesis
    unfolding after_colon_def by (intro ends_bind [OF first] ends_bind [OF text_of] ends_never) auto
qed

lemma after_colon_stop:
  assumes "block_ends (Suc N) block" and "t = TColon \<or> t = TEndL"
  shows "ends (seen_in N t) (after_colon block from_file indent) (\<lambda>_. between (Suc N))"
proof (cases "t = TColon")
  case True
  show ?thesis by (rule ends_weaken [OF after_colon_ends [OF assms(1)]]) (simp_all add: True seen_in_def)
next
  case False
  then have "t = TEndL" using assms(2) by simp
  then show ?thesis by (intro ends_weaken [OF after_colon_missing [where N = N]]) (auto simp: cond_defs)
qed

lemma stmt_not_cond_ends:
  assumes "block_ends (Suc N) block"
  shows "ends (inside N) (stmt_not_cond block from_file prev_indent indent fr) (\<lambda>_. between (Suc N))"
  unfolding stmt_not_cond_def
proof (rule ends_bind [OF until_no_white_inside])
  fix tokens
  show "ends (\<lambda>p k. last tokens \<in> {TColon, TEndL} \<and> seen_in N (last tokens) p k)
      (bindM (liftM (parse_filter (butlast tokens))) (\<lambda>lfilter. bindM (after_colon block from_file indent) (\<lambda>content.
         bindM (set_prev_indent prev_indent) (\<lambda>_. bindM (apply_predict fr) (add_line (NotCondF lfilter content))))))
      (\<lambda>_. between (Suc N))"
    by (intro ends_pure ends_quiet_bind quiet_intros ends_bind [OF after_colon_stop [OF assms]] ends_quiet) auto
qed simp_all

lemma add_operator_quiet:
  assumes "\<And>s. re_compile (pylib (e_opts env)) s \<noteq> Inl OutOfFuel"
  shows "quiet (add_operator env k name value fr)"
proof -
  have "apply_to_pre env (mk_oper k name value) pre \<noteq> Inl OutOfFuel" for pre
    using apply_uncut [OF assms] by (simp add: apply_to_pre_def bindE_eq_Inl)
  then show ?thesis by (auto simp: add_operator_def Let_def intro!: quiet_intros)
qed

lemma stmt_identifier_ends:
  assumes "block_ends (Suc N) block" and "\<And>s. re_compile (pylib (e_opts env)) s \<noteq> Inl OutOfFuel"
  shows "ends (inside N) (stmt_identifier env block from_file indent t fr) (\<lambda>_. between (Suc N))"
  unfolding stmt_identifier_def
proof (rule ends_bind [OF until_no_white_inside])
  fix ts
  let ?name = "if length ts = 1 then token_str t else concat (map token_str (t # butlast ts))"
  let ?is_value = "\<lambda>t. case t of TString s \<Rightarrow> True | _ \<Rightarrow> False"
  have operator: "ends (seen_in N (TOp k)) (bindM (lexM (get_next_check ?is_value)) (\<lambda>value.
      bindM (add_operator env k ?name (unquote (token_str value)) fr) (\<lambda>fr.
      bindM (lexM (get_next_check (\<lambda>t. t = TEndL))) (\<lambda>_. retM fr)))) (\<lambda>_. between (Suc N))" for k
  proof (rule ends_bind [OF next_inside [where N = N]])
    fix v
    have "ends (seen_in N v) (bindM (lexM (get_next_check (\<lambda>t. t = TEndL))) (\<lambda>_. retM fr)) (\<lambda>_. between (Suc N))"
      if "?is_value v" for fr
      using that by (intro ends_bind [OF next_inside [where N = N]] ends_pure ends_ret) (auto simp: cond_defs split: token.splits)
    then show "ends (\<lambda>p n. ?is_value v \<and> seen_in N v p n) (bindM (add_operator env k ?name (unquote (token_str v)) fr) (\<lambda>fr.
        bindM (lexM (get_next_check (\<lambda>t. t = TEndL))) (\<lambda>_. retM fr))) (\<lambda>_. between (Suc N))"
      by (rule ends_pure [OF ends_quiet_bind [OF add_operator_quiet [OF assms(2)]]])
  qed (auto simp: cond_defs)
  have condition: "ends (seen_in N TColon) (bindM (liftM (parse_filter ((t # butlast ts) @ [TEndL]))) (\<lambda>cfilter.
      bindM (after_colon block from_file indent) (\<lambda>content.
      bindM (apply_predict fr) (add_line (CondF cfilter content))))) (\<lambda>_. between (Suc N))"
    by (intro ends_quiet_bind quiet_intros ends_bind [OF after_colon_stop [OF assms(1)]] ends_quiet) auto
  show "ends (\<lambda>p n. (is_operator (last ts) \<or> last ts \<in> {TColon, TEndL}) \<and> seen_in N (last ts) p n)
     (case last ts of
        TOp k \<Rightarrow> let name = ?name
          in bindM (lexM (get_next_check ?is_value)) (\<lambda>value.
             bindM (add_operator env k name (unquote (token_str value)) fr) (\<lambda>fr.
             bindM (lexM (get_next_check (\<lambda>t. t = TEndL))) (\<lambda>_. retM fr)))
      | TColon \<Rightarrow>
          bindM (liftM (parse_filter ((t # butlast ts) @ [TEndL]))) (\<lambda>cfilter.
          bindM (after_colon block from_file indent) (\<lambda>content.
          bindM (apply_predict fr) (add_line (CondF cfilter content))))
      | _ \<Rightarrow> raiseM ParserError) (\<lambda>_. between (Suc N))"
    using operator condition
    by (cases "last ts") (auto simp: Let_def intro!: ends_pure ends_raise)
qed (simp_all add: is_operator_def)

lemma rest_as_string_uncut: "ends (inside N) (lexM rest_line_as_string) (\<lambda>_ _ _. True)"
proof (rule ends_lexM)
  fix lx assume "inside N (l_point lx) (lexer_size lx)"
  then have "line_done (l_point (lx\<lparr>l_rest := True\<rparr>)) \<or> point_ok (l_point (lx\<lparr>l_rest := True\<rparr>))" by (simp add: cond_defs)
  from next_token_uncut [OF this] show "case rest_line_as_string lx of Inl e \<Rightarrow> e \<noteq> OutOfFuel | Inr (t, lx') \<Rightarrow> True"
    using next_token_uncut by (fastforce simp: rest_line_as_string_def bindE_eq_Inl split: sum.split)
qed

lemma stmt_include_ends:
  assumes "\<And>f. e_file env f = None"
  shows "ends (inside N) (stmt_include env block from_file prev_indent fr) (\<lambda>_. between (Suc N))"
  unfolding stmt_include_def assms option.case
  by (intro ends_bind [OF rest_as_string_uncut] ends_quiet_bind quiet_intros) (auto simp: Let_def intro: ends_raise)

section \<open>Blocks of variants end\<close>

definition after_token :: "nat \<Rightarrow> token \<Rightarrow> cond" where
  "after_token N t p k \<longleftrightarrow> (if t = TEndL then between N p k else header N p k)"

lemma seen_after: "seen (Suc N) t p k \<Longrightarrow> after_token N t p k"
  by (simp add: after_token_def cond_defs)

lemma quiet_name [quiet_intros]: "quiet (liftM (name_variable var_name v))"
  by (intro quiet_intros) (simp add: name_variable_def split: vname.split)

lemma meta_entry_ends: "ends (header N) (meta_entry m) (\<lambda>_. header N)"
proof -
  have list: "ends (header N) (bindM (lexM (get_until_no_white (\<lambda>t. t \<in> {TRBracket, TEndL}))) (\<lambda>tokens.
      if last tokens = TRBracket then retM (meta_append i (Some (butlast tokens)) m) else raiseM ParserError)) (\<lambda>_. header N)" for i
    by (rule ends_bind [OF until_no_white_header [where N = N]])
      (auto intro!: ends_pure ends_ret ends_raise simp: cond_defs)
  have entry: "ends (\<lambda>p k. t \<in> {TOp KSet, TRBracket} \<and> t \<noteq> TVariants \<and> seen N t p k)
      (if t = TRBracket then retM (meta_append i None m) else bindM (lexM (get_until_no_white (\<lambda>t. t \<in> {TRBracket, TEndL}))) (\<lambda>tokens.
        if last tokens = TRBracket then retM (meta_append i (Some (butlast tokens)) m) else raiseM ParserError))
      (\<lambda>_. header N)" for t i
  proof (cases "t = TRBracket")
    case False
    then show ?thesis unfolding if_not_P [OF False] by (intro ends_weaken [OF list]) (auto simp: cond_defs)
  qed (auto intro!: ends_ret simp: cond_defs)
  show ?thesis
    unfolding meta_entry_def
    by (rule ends_bind [OF next_nw_header [where N = N]], assumption, rule ends_pure, rule ends_bind [OF next_nw_header [where N = N] _ entry])
      (auto simp: cond_defs is_ident_def split: token.splits)
qed

lemma header_loop_ends:
  "ends (after_token n t) (header_loop n t first var_name m) (\<lambda>(t, _, _) p k. t \<in> {TColon, TEndL} \<and> after_token n t p k)"
proof (induction n arbitrary: t first var_name m)
  case 0
  show ?case by (rule ends_never) (simp add: after_token_def cond_defs)
next
  case (Suc n)
  have next_one: "ends (header (Suc n)) (bindM (lexM (get_next_check_nw (\<lambda>t. is_ident t \<or> t \<in> {TLBracket, TColon, TEndL}))) (\<lambda>t.
      header_loop n t VarClass v m)) (\<lambda>(t, _, _) p k. t \<in> {TColon, TEndL} \<and> after_token (Suc n) t p k)" for v m
    by (rule ends_bind [OF next_nw_header], assumption, intro ends_pure, rule ends_weaken [OF Suc.IH])
      (auto simp: seen_after after_token_def cond_defs split: if_splits)
  have entry: "ends (header (Suc n)) (if is_ident t then bindM (liftM (name_variable var_name first)) (\<lambda>v. retM (v, m))
      else bindM (meta_entry m) (\<lambda>m. retM (var_name, m))) (\<lambda>_. header (Suc n))"
    by (auto intro!: ends_quiet quiet_intros ends_bind [OF meta_entry_ends] ends_ret)
  show ?case
  proof (cases "t \<in> {TColon, TEndL}")
    case True
    then show ?thesis by (auto intro!: ends_ret)
  next
    case False
    have "ends (header (Suc n)) (header_loop (Suc n) t first var_name m)
        (\<lambda>(t, _, _) p k. t \<in> {TColon, TEndL} \<and> after_token (Suc n) t p k)"
      unfolding header_loop.simps if_not_P [OF False]
      by (rule ends_bind [OF entry], assumption, unfold split_paired_all prod.case) (rule next_one)
    moreover have "after_token (Suc n) t = header (Suc n)" using False by (auto simp: after_token_def fun_eq_iff)
    ultimately show ?thesis by (simp only:)
  qed
qed

lemma ends_size:
  "(\<And>s. ends (\<lambda>p k. k = s \<and> P p k) (f s) Q) \<Longrightarrow> ends P (bindM (getM (\<lambda>w. lexer_size (w_lexer w))) f) Q"
  by (simp add: ends_def lexer_has_def wp_simps)

lemma stmt_variants_ends: "ends (header N) (stmt_variants indent fr) (\<lambda>_. between N)"
proof -
  have finish: "ends (header M) (bindM (lexM (get_next_check_nw (\<lambda>t. t = TEndL))) (\<lambda>_. retM fr')) (\<lambda>_. between M)" for M fr'
    by (intro ends_bind [OF next_nw_header [where N = M]] ends_pure ends_ret) (auto simp: cond_defs)
  show ?thesis
  proof (cases "f_target fr")
    case (ToNode node)
    have finished: "ends (\<lambda>p k. case x of (t, _, _) \<Rightarrow> t \<in> {TColon, TEndL} \<and> after_token M t p k)
        (case x of (t, v, m) \<Rightarrow> if A m then raiseM ParserError else if t = TEndL then raiseM ParserError
          else bindM (lexM (get_next_check_nw (\<lambda>t. t = TEndL))) (\<lambda>_. retM (made v m))) (\<lambda>_. between M)" for x A M made
      by (cases x) (auto simp: after_token_def [abs_def] intro!: ends_raise ends_pure finish)
    have sized: "ends (\<lambda>p k. k = s \<and> header N p k) (bindM (lexM (get_until_no_white (\<lambda>t. is_ident t \<or> t \<in> {TLBracket, TColon, TEndL}))) (\<lambda>ts.
        bindM (header_loop (Suc s) (last ts) (first_name (hd ts)) (VarName []) []) (\<lambda>(t, v, m).
        if A m then raiseM ParserError else if t = TEndL then raiseM ParserError
        else bindM (lexM (get_next_check_nw (\<lambda>t. t = TEndL))) (\<lambda>_. retM (made v m))))) (\<lambda>_. between N)" for s A made
    proof (cases "s < N")
      case True
      show ?thesis
        by (intro ends_bind [OF until_no_white_header [where N = "Suc s"]] ends_pure ends_bind [OF header_loop_ends]
            ends_weaken [OF finished])
          (use True in \<open>auto simp: is_ident_def after_token_def cond_defs\<close>)
    qed (auto intro: ends_never simp: cond_defs)
    show ?thesis
      unfolding stmt_variants_def ToNode target.case
      by (rule ends_quiet_bind [OF quiet_settings(2) ends_size [OF sized]])
  qed (simp add: stmt_variants_def ends_raise)
qed

text \<open>
  A variant: its line, its block, and the next one; the loop ends with the block. It starts
  within the line of the first variant, and goes on between two lines.
\<close>

definition next_entry :: "nat \<Rightarrow> cond" where
  "next_entry N p k \<longleftrightarrow> between N p k \<or> header N p k"

lemma ends_or: "ends P m Q \<Longrightarrow> ends P' m Q \<Longrightarrow> ends (\<lambda>p k. P p k \<or> P' p k) m Q"
  by (auto simp: ends_def lexer_has_def)

definition variant_token :: "nat \<Rightarrow> token \<Rightarrow> cond" where
  "variant_token N t p k \<longleftrightarrow> (case t of TEndBlock m \<Rightarrow> between (Suc N) p k | _ \<Rightarrow> inside N p k)"

lemma next_variant_ends: "ends (next_entry (Suc N)) next_variant (variant_token N)"
proof -
  have ident: "ends (header N) (lexM (get_next_check_nw (\<lambda>t. is_ident t \<or> t = TDefault))) (variant_token N)"
    by (rule ends_weaken [OF next_nw_header [where N = N]])
      (auto simp: variant_token_def cond_defs is_ident_def split: token.splits)
  have dash: "ends (line_start N) (bindM (lexM (get_next_check_nw (\<lambda>t. t = TVariant))) (\<lambda>_.
      lexM (get_next_check_nw (\<lambda>t. is_ident t \<or> t = TDefault)))) (variant_token N)"
    by (intro ends_bind [OF next_nw_line [where N = N]] ends_pure ends_weaken [OF ident])
      (auto simp: cond_defs dest: opening_in_line)
  have rest: "ends (\<lambda>p k. (is_ident t \<or> t = TDefault \<or> (case t of TIndent n \<Rightarrow> True | TEndBlock n \<Rightarrow> True | _ \<Rightarrow> False))
        \<and> (opened (Suc N) t p k \<or> t \<noteq> TVariants \<and> seen (Suc N) t p k))
      (case t of TIndent n \<Rightarrow> bindM (lexM (get_next_check_nw (\<lambda>t. t = TVariant))) (\<lambda>_.
         lexM (get_next_check_nw (\<lambda>t. is_ident t \<or> t = TDefault))) | _ \<Rightarrow> retM t) (variant_token N)" for t
    by (cases t) (auto intro!: ends_weaken [OF dash] ends_weaken [OF dash [unfolded is_ident_def]] ends_ret
        simp: is_ident_def opened_def variant_token_def cond_defs)
  have one: "ends P next_variant (variant_token N)"
    if "ends P (lexM (get_next_check_nw ok)) (\<lambda>t p k. ok t \<and> S t p k)"
      and "\<And>t p k. S t p k \<Longrightarrow> opened (Suc N) t p k \<or> t \<noteq> TVariants \<and> seen (Suc N) t p k"
      and "ok = (\<lambda>t. is_ident t \<or> t = TDefault \<or> (case t of TIndent n \<Rightarrow> True | TEndBlock n \<Rightarrow> True | _ \<Rightarrow> False))" for P ok S
    unfolding next_variant_def
    by (rule ends_bind [OF that(1) [unfolded that(3)]], assumption, rule ends_weaken [OF rest]) (use that(2) in auto)
  show ?thesis
    unfolding next_entry_def [abs_def]
    by (intro ends_or one [OF next_nw_block _ refl] one [OF next_nw_header _ refl]) auto
qed

lemma variant_line_ends: "ends (inside N) (variant_line t) (\<lambda>_. between N)"
proof -
  have deps: "ends (\<lambda>p k. u \<noteq> TVariants \<and> seen N u p k) (if u = TEndL then retM []
      else bindM (lexM (get_until (\<lambda>t. t = TEndL))) (\<lambda>ts. liftM (parse_filter (u # ts)))) (\<lambda>_. between N)" for u
  proof (cases "u = TEndL")
    case False
    show ?thesis
      unfolding if_not_P [OF False]
      by (rule ends_bind [OF until_end_ends [where N = N]]) (auto intro!: ends_quiet quiet_intros simp: False cond_defs)
  qed (auto intro!: ends_ret simp: cond_defs)
  show ?thesis
    unfolding variant_line_def Let_def
    apply (rule ends_bind [OF until_check_ends [where N = N]])
       apply (simp_all add: is_ident_def split del: if_split)
    apply (rule ends_pure, simp only: split_beta)
    apply (rule ends_bind [OF next_nw_header [where N = N]], simp add: inside_def)
    apply (rule ends_pure, rule ends_bind [OF deps], assumption)
    apply (rule ends_ret, assumption)
    done
qed

lemma quiet_variant_node [quiet_intros]: "quiet (variant_node v name node)"
  unfolding variant_node_def Let_def by (intro quiet_intros)

lemma quiet_add_variant [quiet_intros]: "quiet (add_variant env v d raw name deps node vs)"
  unfolding add_variant_def by (auto simp: Let_def split_beta intro!: quiet_intros)

lemma variant_loop_ends:
  assumes "N \<le> fuel" and "\<And>M tgt. M \<le> N \<Longrightarrow> ends (between M) (block tgt) (\<lambda>_. between M)"
  shows "ends (next_entry N) (variant_loop env block var_indent var_name node fuel vs) (\<lambda>_. between N)"
  using assms
proof (induction fuel arbitrary: N vs)
  case 0
  then show ?case by (intro ends_never) (simp add: next_entry_def cond_defs)
next
  case (Suc fuel)
  show ?case
  proof (cases N)
    case 0
    then show ?thesis by (intro ends_never) (simp add: next_entry_def cond_defs)
  next
  case N: (Suc n)
  have IH: "ends (next_entry n) (variant_loop env block var_indent var_name node fuel vs) (\<lambda>_. between n)" for vs
    by (rule Suc.IH) (use Suc.prems N in simp_all)
  have again: "ends (between n) (variant_loop env block var_indent var_name node fuel vs) (\<lambda>_. between (Suc n))" for vs
    by (rule ends_weaken [OF IH]) (auto simp: next_entry_def between_def)
  have added: "ends (between n) (case node3 of ToCond content \<Rightarrow> raiseM AttributeError
      | ToNode node3 \<Rightarrow> bindM (add_variant env var_name d raw name deps node3 vs) (\<lambda>vs.
          variant_loop env block var_indent var_name node fuel vs)) (\<lambda>_. between (Suc n))" for node3 d raw name deps
    by (cases node3) (auto intro!: ends_raise ends_quiet_bind quiet_intros again)
  have block: "ends (between n) (block tgt) (\<lambda>_. between n)" for tgt by (rule Suc.prems) (simp add: N)
  have variant: "ends (inside n) (bindM (variant_line t) (\<lambda>(is_default, raw_name, name, deps).
         bindM (variant_node var_name name node) (\<lambda>node2.
         bindM (block (ToNode node2)) (\<lambda>node3.
         case node3 of
           ToCond content \<Rightarrow> raiseM AttributeError
         | ToNode node3 \<Rightarrow>
             bindM (add_variant env var_name is_default raw_name name deps node3 vs) (\<lambda>vs.
               variant_loop env block var_indent var_name node fuel vs))))) (\<lambda>_. between (Suc n))" for t
    by (rule ends_bind [OF variant_line_ends], assumption, unfold split_paired_all prod.case,
        intro ends_quiet_bind quiet_intros ends_bind [OF block] added)
  have step: "ends (variant_token n t) (case t of TEndBlock m \<Rightarrow> retM vs
     | _ \<Rightarrow> bindM (variant_line t) (\<lambda>(is_default, raw_name, name, deps).
         bindM (variant_node var_name name node) (\<lambda>node2.
         bindM (block (ToNode node2)) (\<lambda>node3.
         case node3 of
           ToCond content \<Rightarrow> raiseM AttributeError
         | ToNode node3 \<Rightarrow>
             bindM (add_variant env var_name is_default raw_name name deps node3 vs) (\<lambda>vs.
               variant_loop env block var_indent var_name node fuel vs))))) (\<lambda>_. between (Suc n))" for t
    by (cases t) (auto simp: variant_token_def intro!: ends_weaken [OF variant] ends_ret)
  show ?thesis
    unfolding variant_loop.simps N
    by (intro ends_quiet_bind quiet_intros ends_bind [OF next_variant_ends _ step])
  qed
qed

lemma stmt_variant_ends:
  assumes "block_ends (Suc N) block" and "Suc N \<le> n"
  shows "ends (inside N) (stmt_variant env n block from_file indent fr) (\<lambda>_. between (Suc N))"
proof -
  have loop: "ends (inside N) (variant_loop env (block from_file indent) i v node n vs) (\<lambda>_. between (Suc N))" for i v node vs
    by (rule ends_weaken [OF variant_loop_ends]) (use assms in \<open>auto simp: block_ends_def next_entry_def cond_defs\<close>)
  have made: "ends (between (Suc N)) (if b then raiseM ParserError else bindM new_node (\<lambda>i. retM (g i))) (\<lambda>_. between (Suc N))" for b g
    by (auto intro!: ends_raise ends_quiet quiet_intros)
  show ?thesis
    unfolding stmt_variant_def
    apply (rule ends_quiet_bind [OF quiet_lines(3)])
    subgoal for fr'
      by (cases "f_target fr'"; simp only: target.case) (rule ends_bind [OF loop _ made] ends_raise; simp)+
    done
qed

section \<open>Parsing ends\<close>

definition no_includes :: "penv \<Rightarrow> bool" where
  "no_includes env \<longleftrightarrow> (\<forall>f. e_file env f = None)"

definition patterns_end :: "penv \<Rightarrow> bool" where
  "patterns_end env \<longleftrightarrow> (\<forall>s. re_compile (pylib (e_opts env)) s \<noteq> Inl OutOfFuel)"

lemma stmt_ends:
  assumes "no_includes env" and "patterns_end env" and "block_ends (Suc N) block" and "Suc N \<le> n"
  shows "ends (seen (Suc N) t) (stmt env n block from_file prev_indent indent t fr) (\<lambda>_. between (Suc N))"
proof -
  have env: "\<And>f. e_file env f = None" "\<And>s. re_compile (pylib (e_opts env)) s \<noteq> Inl OutOfFuel"
    using assms(1,2) by (simp_all add: no_includes_def patterns_end_def)
  have less: "ends (inside N) m (\<lambda>_. between (Suc N))" if "ends (inside N) m (\<lambda>_. between N)" for m :: "frame parse"
    by (rule ends_weaken [OF that]) (auto simp: between_def)
  have less': "ends (header N) (stmt_variants indent fr) (\<lambda>_. between (Suc N))"
    by (rule ends_weaken [OF stmt_variants_ends [where N = N]]) (auto simp: between_def)
  note statements = stmt_identifier_ends [OF assms(3) env(2)] stmt_variant_ends [OF assms(3,4)] stmt_include_ends [OF env(1)]
    stmt_not_cond_ends [OF assms(3)] less [OF stmt_filter_ends] less [OF stmt_suffix_ends] less [OF stmt_del_ends]
  show ?thesis
    by (cases t; simp only: stmt_def token.case)
      (auto intro!: ends_raise ends_weaken [OF less'] statements [THEN ends_weaken] simp: cond_defs)
qed

lemma end_block_ends: "quiet (end_block fr)"
  unfolding end_block_def by (auto intro!: quiet_intros split: option.split)

theorem parse_loop_ends:
  assumes "no_includes env" and "patterns_end env"
  shows "N \<le> n \<Longrightarrow> ends (between N) (parse_loop env n from_file prev_indent fr) (\<lambda>_. between N)"
proof (induction n arbitrary: N from_file prev_indent fr)
  case 0
  then show ?case by (intro ends_never) (simp add: between_def)
next
  case (Suc n)
  show ?case
  proof (cases N)
    case 0
    then show ?thesis by (intro ends_never) (simp add: between_def)
  next
    case (Suc M)
    let ?block = "\<lambda>from_file prev_indent tgt. bindM (set_fast True) (\<lambda>_. parse_loop env n from_file prev_indent (new_frame tgt))"
    have M: "M \<le> n" using Suc.prems Suc by simp
    have blocks: "block_ends M ?block"
      using Suc.IH M by (auto simp: block_ends_def intro!: ends_quiet_bind quiet_intros)
    have next_one: "ends (between M) (parse_loop env n from_file prev_indent fr) (\<lambda>_. between (Suc M))" for fr
      by (rule ends_weaken [OF Suc.IH [OF M]]) (simp_all add: between_def)
    have line: "ends (line_start M) (bindM (lexM (get_next_check ok)) (\<lambda>t.
        bindM (stmt env n ?block from_file prev_indent indent t fr) (parse_loop env n from_file prev_indent)))
        (\<lambda>_. between (Suc M))" for ok indent
    proof (cases M)
      case (Suc L)
      show ?thesis
        unfolding Suc
        by (intro ends_bind [OF next_start] ends_pure
            ends_bind [OF stmt_ends [OF assms blocks [unfolded Suc] M [unfolded Suc]] _ next_one [unfolded Suc]])
    qed (auto intro: ends_never simp: line_start_def)
    have step: "ends (opened (Suc M) t) (case t of
           TIndent indent \<Rightarrow>
             bindM (lexM (get_next_check (if f_variants fr then (\<lambda>t. t = TVariant) else block_allowed))) (\<lambda>t.
             bindM (stmt env n ?block from_file prev_indent indent t fr) (parse_loop env n from_file prev_indent))
         | _ \<Rightarrow> end_block fr) (\<lambda>_. between (Suc M))" for t
    proof (cases t)
      case (TIndent indent)
      show ?thesis
        unfolding TIndent token.case by (rule ends_weaken [OF line]) (simp_all add: opened_def line_start_def)
    qed (auto intro!: ends_quiet end_block_ends simp: opened_def between_def)
    show ?thesis
      unfolding parse_loop.simps Let_def Suc
      by (intro ends_quiet_bind quiet_intros ends_bind [OF next_block _ ends_pure [OF step]])
  qed
qed

section \<open>More fuel\<close>

text \<open>A computation that is not cut off gives the same with more fuel.\<close>

definition extends :: "'a parse \<Rightarrow> 'a parse \<Rightarrow> bool" where
  "extends m m' \<longleftrightarrow> (\<forall>w. fst (m w) \<noteq> Inl OutOfFuel \<longrightarrow> m' w = m w)"

named_theorems extends_intros \<open>computations that give the same with more fuel\<close>

lemma extends_refl [extends_intros]: "extends m m"
  by (simp add: extends_def)

lemma extends_cut [extends_intros]: "extends (raiseM OutOfFuel) m"
  by (simp add: extends_def io_run)

lemma extends_bind [extends_intros]:
  assumes m: "extends m m'" and f: "\<And>x. extends (f x) (f' x)"
  shows "extends (bindM m f) (bindM m' f')"
  unfolding extends_def
proof (intro allI impI)
  fix w assume *: "fst (bindM m f w) \<noteq> Inl OutOfFuel"
  obtain r v where r: "m w = (r, v)" by (cases "m w")
  then have "r \<noteq> Inl OutOfFuel" using * by (auto simp: bindM_def)
  then have "m' w = (r, v)" using m r by (simp add: extends_def)
  then show "bindM m' f' w = bindM m f w"
    using f r * by (cases r) (auto simp: bindM_def extends_def)
qed

lemma extends_case [extends_intros]:
  "(\<And>n. extends (f n) (f' n)) \<Longrightarrow> (\<And>c. extends (g c) (g' c)) \<Longrightarrow> extends (case_target f g tgt) (case_target f' g' tgt)"
  by (cases tgt) auto

lemma extends_if [extends_intros]: "extends m m' \<Longrightarrow> extends k k' \<Longrightarrow> extends (if b then m else k) (if b then m' else k')"
  by simp

lemma extends_prod [extends_intros]: "(\<And>x y. extends (f x y) (f' x y)) \<Longrightarrow> extends (case_prod f z) (case_prod f' z)"
  by (cases z) simp

definition extends_block :: "blocks \<Rightarrow> blocks \<Rightarrow> bool" where
  "extends_block block block' \<longleftrightarrow> (\<forall>from_file indent tgt. extends (block from_file indent tgt) (block' from_file indent tgt))"

lemma extends_blockD: "extends_block block block' \<Longrightarrow> extends (block from_file indent tgt) (block' from_file indent tgt)"
  by (simp add: extends_block_def)

lemma variant_loop_extends:
  assumes "\<And>tgt. extends (block tgt) (block' tgt)"
  shows "extends (variant_loop env block var_indent var_name node n vs) (variant_loop env block' var_indent var_name node (Suc n) vs)"
proof (induction n arbitrary: vs)
  case 0
  show ?case by (simp add: extends_intros)
next
  case (Suc n)
  have step: "extends (case t of TEndBlock m \<Rightarrow> retM vs | _ \<Rightarrow> x) (case t of TEndBlock m \<Rightarrow> retM vs | _ \<Rightarrow> y)"
    if "extends x y" for t and x y :: "variants parse"
    using that by (cases t) (simp_all add: extends_intros)
  show ?case
    by (subst variant_loop.simps(2) [where n = n], subst variant_loop.simps(2) [where n = "Suc n"], intro extends_intros step assms Suc.IH)
qed

lemma stmt_extends:
  assumes "extends_block block block'"
  shows "extends (stmt env n block from_file prev_indent indent t fr) (stmt env (Suc n) block' from_file prev_indent indent t fr)"
proof -
  have colon: "extends (after_colon block from_file indent) (after_colon block' from_file indent)"
    unfolding after_colon_def by (intro extends_intros extends_blockD [OF assms])
  have cases: "extends (case t of TOp k \<Rightarrow> f k | TColon \<Rightarrow> x | _ \<Rightarrow> z) (case t of TOp k \<Rightarrow> f k | TColon \<Rightarrow> y | _ \<Rightarrow> z)"
    if "extends x y" for t f x y and z :: "frame parse"
    using that by (cases t) (simp_all add: extends_intros)
  have found: "extends (case e of None \<Rightarrow> z | Some s \<Rightarrow> f s) (case e of None \<Rightarrow> z | Some s \<Rightarrow> f' s)"
    if "\<And>s. extends (f s) (f' s)" for e f f' and z :: "frame parse"
    using that by (cases e) (simp_all add: extends_intros)
  have "extends (stmt_identifier env block from_file indent t fr) (stmt_identifier env block' from_file indent t fr)"
    unfolding stmt_identifier_def by (intro extends_intros cases colon)
  moreover have "extends (stmt_not_cond block from_file prev_indent indent fr) (stmt_not_cond block' from_file prev_indent indent fr)"
    unfolding stmt_not_cond_def by (intro extends_intros colon)
  moreover have "extends (stmt_variant env n block from_file indent fr) (stmt_variant env (Suc n) block' from_file indent fr)"
    unfolding stmt_variant_def by (intro extends_intros variant_loop_extends extends_blockD [OF assms])
  moreover have "extends (stmt_include env block from_file prev_indent fr) (stmt_include env block' from_file prev_indent fr)"
    unfolding stmt_include_def Let_def by (intro extends_intros found extends_blockD [OF assms])
  ultimately show ?thesis by (cases t) (simp_all add: stmt_def extends_intros)
qed

lemma parse_loop_extends:
  "extends (parse_loop env n from_file prev_indent fr) (parse_loop env (Suc n) from_file prev_indent fr)"
proof (induction n arbitrary: from_file prev_indent fr)
  case 0
  show ?case by (simp add: extends_intros)
next
  case (Suc n)
  have block: "extends_block (\<lambda>from_file prev_indent tgt. bindM (set_fast True) (\<lambda>_. parse_loop env n from_file prev_indent (new_frame tgt)))
      (\<lambda>from_file prev_indent tgt. bindM (set_fast True) (\<lambda>_. parse_loop env (Suc n) from_file prev_indent (new_frame tgt)))"
    unfolding extends_block_def by (intro allI extends_intros Suc.IH)
  have step: "extends (case t of TIndent i \<Rightarrow> f i | _ \<Rightarrow> z) (case t of TIndent i \<Rightarrow> f' i | _ \<Rightarrow> z)"
    if "\<And>i. extends (f i) (f' i)" for t f f' and z :: "target parse"
    using that by (cases t) (simp_all add: extends_intros)
  show ?case
    by (subst parse_loop.simps(2) [where n = n], subst parse_loop.simps(2) [where n = "Suc n"], unfold Let_def, intro extends_intros step stmt_extends [OF block] Suc.IH)
qed

lemma parse_text_more_fuel:
  assumes "parse_text env n from_file file_name txt p \<noteq> Inl OutOfFuel" and "n \<le> m"
  shows "parse_text env m from_file file_name txt p = parse_text env n from_file file_name txt p"
  using assms(2)
proof (induction m rule: dec_induct)
  case (step m)
  have "extends (parse_block env m from_file (- 1) (ToNode (p_node p))) (parse_block env (Suc m) from_file (- 1) (ToNode (p_node p)))"
    unfolding parse_block_def by (intro extends_intros parse_loop_extends)
  moreover have "parse_text env m from_file file_name txt p \<noteq> Inl OutOfFuel" using step.IH assms(1) by simp
  ultimately have "parse_text env (Suc m) from_file file_name txt p = parse_text env m from_file file_name txt p"
    by (auto simp: extends_def parse_text_def split: prod.splits sum.splits)
  then show ?case using step.IH by simp
qed simp

text \<open>
  C16: parsing a text ends. When no file is included and there is more fuel than the lexer has
  steps on the text (three for every character of a line and nine for the line itself), the parser returns a
  tree or raises one of its own exceptions, whatever the text, the options and the tree so far:
  neither its loops nor the loops that read tokens run on at the end of the text. The result
  is the same for every larger amount of fuel.
\<close>

theorem parsing_ends:
  assumes "no_includes env" and "patterns_end env" and "lexer_size (new_lexer file_name (str_reader txt)) < n"
  shows "parse_text env n from_file file_name txt p \<noteq> Inl OutOfFuel
    \<and> (\<forall>m \<ge> n. parse_text env m from_file file_name txt p = parse_text env n from_file file_name txt p)"
proof -
  let ?w = "\<lparr>w_lexer = new_lexer file_name (str_reader txt), w_contents = p_contents p\<rparr>"
  let ?m = "parse_block env n from_file (- 1) (ToNode (p_node p))"
  have "ends (between n) ?m (\<lambda>_. between n)"
    unfolding parse_block_def by (intro ends_quiet_bind quiet_intros parse_loop_ends [OF assms(1,2)]) simp
  moreover have "lexer_has (between n) ?w"
    using assms(3) by (simp add: lexer_has_def between_def line_done_def new_lexer_def)
  ultimately have "wpM ?m (\<lambda>e _. e \<noteq> OutOfFuel) (\<lambda>_. lexer_has (between n)) ?w" by (simp add: ends_def)
  then have "parse_text env n from_file file_name txt p \<noteq> Inl OutOfFuel"
    by (auto simp: wpM_def parse_text_def split: prod.splits sum.splits target.splits)
  then show ?thesis using parse_text_more_fuel by blast
qed

text \<open>Two lines, one of them a block: the bound is computed, and the parser is done with that much fuel.\<close>

lemma parsing_ends_witness:
  "\<forall>node_opts. let env = \<lparr>e_opts = node_opts\<lparr>pylib := \<lparr>re_compile = (\<lambda>_. Inl ValueError), to_float = (\<lambda>_. Inl ValueError)\<rparr>\<rparr>,
       e_file = (\<lambda>_. None), e_expanduser = id\<rparr>;
     txt = ''a:'' @ [CHR 0x0A] @ ''  no b''
   in lexer_size (new_lexer ''<string>'' (str_reader txt)) = 36 \<and>
      parse_text env 37 False ''<string>'' txt new_parser \<noteq> Inl OutOfFuel"
proof -
  have size: "lexer_size (new_lexer ''<string>'' (str_reader (''a:'' @ [CHR 0x0A] @ ''  no b''))) = 36"
    by code_simp
  then have less: "lexer_size (new_lexer ''<string>'' (str_reader (''a:'' @ [CHR 0x0A] @ ''  no b''))) < 37" by linarith
  show ?thesis
    unfolding Let_def
    by (intro allI conjI size conjunct1 [OF parsing_ends [OF _ _ less]]) (simp_all add: no_includes_def patterns_end_def)
qed

end
