(* ===== verification/NetAddr.thy ===== *)
theory NetAddr
  imports Params "HOL-Library.Word"
begin

text \<open>
  IPv4 addresses as \<open>virttest/vmnet/netconfig.py\<close> uses them through \<open>ipaddress\<close> of the
  standard library: parsing and printing of dotted addresses, checked arithmetic, network masks
  and membership of a network. Strings that are no IPv4 addresses are errors here; the library
  would try an IPv6 address next, which the rest of the code cannot handle.
\<close>

unbundle bit_operations_syntax

type_synonym addr = "32 word"

section \<open>Text\<close>

definition ascii_digits :: "string \<Rightarrow> bool" where
  "ascii_digits s \<longleftrightarrow> s \<noteq> [] \<and> list_all is_digit s"

definition digits_value :: "string \<Rightarrow> nat" where
  "digits_value s = foldl (\<lambda>n c. 10 * n + (of_char c - 48)) 0 s"

definition parse_octet :: "string \<Rightarrow> nat res" where
  "parse_octet s =
     (if \<not> ascii_digits s \<or> length s > 3 \<or> s \<noteq> ''0'' \<and> hd s = CHR ''0'' \<or> digits_value s > 255 then Inl ValueError
      else Inr (digits_value s))"

primrec mapE :: "('a \<Rightarrow> 'b res) \<Rightarrow> 'a list \<Rightarrow> 'b list res" where
  "mapE f [] = Inr []"
| "mapE f (x # xs) = bindE (f x) (\<lambda>y. bindE (mapE f xs) (\<lambda>ys. Inr (y # ys)))"

definition parse_addr :: "string \<Rightarrow> addr res" where
  "parse_addr s =
     (let octets = split_on (CHR ''.'') s
      in if length octets \<noteq> 4 then Inl ValueError
         else bindE (mapE parse_octet octets) (\<lambda>bs. Inr (word_of_int (foldl (\<lambda>n b. 256 * n + int b) 0 bs))))"

definition octets :: "addr \<Rightarrow> nat list" where
  "octets a = map (\<lambda>k. nat (uint a div 256 ^ k mod 256)) [3, 2, 1, 0]"

definition show_addr :: "addr \<Rightarrow> string" where
  "show_addr a = join ''.'' (map show_nat (octets a))"

lemma digits_value_snoc: "digits_value (s @ [c]) = 10 * digits_value s + (of_char c - 48)"
  by (simp add: digits_value_def)

lemma digits_value_show_nat: "digits_value (show_nat n) = n"
proof (induction n rule: show_nat.induct)
  case (1 n)
  show ?case
  proof (cases "n < 10")
    case True
    then show ?thesis by (subst show_nat.simps) (simp add: digits_value_def)
  next
    case False
    then show ?thesis using 1 by (subst show_nat.simps) (simp add: digits_value_snoc)
  qed
qed

lemma show_nat_hd: "n \<noteq> 0 \<Longrightarrow> hd (show_nat n) \<noteq> CHR ''0''"
proof (induction n rule: show_nat.induct)
  case (1 n)
  have zero: "digit_char m = CHR ''0'' \<Longrightarrow> m < 10 \<Longrightarrow> m = 0" for m
    using of_char_digit_char [of m] by fastforce
  show ?case
  proof (cases "n < 10")
    case True
    then show ?thesis using 1 zero [of n] by (subst show_nat.simps) auto
  next
    case False
    then show ?thesis using 1 by (subst show_nat.simps) simp
  qed
qed

lemma show_nat_length: "n < 1000 \<Longrightarrow> length (show_nat n) \<le> 3"
  by (subst show_nat.simps, subst show_nat.simps, subst show_nat.simps) auto

lemma show_nat_0: "show_nat 0 = ''0''"
  by code_simp

lemma ascii_digits_show_nat: "ascii_digits (show_nat n)"
  using show_nat_digits by (auto simp: ascii_digits_def list_all_iff)

lemma parse_octet_show: "n < 256 \<Longrightarrow> parse_octet (show_nat n) = Inr n"
  using show_nat_length [of n] show_nat_hd [of n] ascii_digits_show_nat [of n]
  by (cases "n = 0") (simp_all add: parse_octet_def digits_value_show_nat, simp add: show_nat_0)

lemma octets_less: "b \<in> set (octets a) \<Longrightarrow> b < 256"
  by (auto simp: octets_def nat_less_iff)

lemma octets_value: "foldl (\<lambda>n b. 256 * n + int b) 0 (octets a) = uint a"
proof -
  have step: "256 * (n div (k * 256)) + n div k mod 256 = n div k" if "k \<ge> 0" for n k :: int
    using that by (metis mult_div_mod_eq zdiv_zmult2_eq zero_le_numeral)
  have small: "uint a < 256 ^ 4" using uint_bounded [of a] by simp
  then have "uint a div 256 ^ 3 < 256" by simp
  moreover have "0 \<le> uint a div 256 ^ 3" by (simp add: pos_imp_zdiv_nonneg_iff)
  ultimately have "foldl (\<lambda>n b. 256 * n + int b) 0 (octets a)
      = 256 * (256 * (256 * (uint a div 256 ^ 3) + uint a div 256 ^ 2 mod 256) + uint a div 256 ^ 1 mod 256) + uint a mod 256"
    by (simp add: octets_def)
  also have "\<dots> = 256 * (256 * (256 * (uint a div 16777216) + uint a div 65536 mod 256) + uint a div 256 mod 256) + uint a mod 256"
    by simp
  also have "\<dots> = 256 * (uint a div 256) + uint a mod 256"
    using step [of 65536 "uint a"] step [of 256 "uint a"] by simp
  finally show ?thesis by simp
qed

lemma mapE_map: "list_all (\<lambda>x. f (g x) = Inr (h x)) xs \<Longrightarrow> mapE f (map g xs) = Inr (map h xs)"
  by (induction xs) simp_all

lemma parse_show_addr: "parse_addr (show_addr a) = Inr a"
proof -
  have "CHR ''.'' \<notin> set (show_nat n)" for n
    using show_nat_digits [of "CHR ''.''" n] by (auto simp: is_digit_def)
  then have "split_on (CHR ''.'') (show_addr a) = map show_nat (octets a)"
    unfolding show_addr_def by (intro split_on_join) (auto simp: octets_def)
  moreover have "mapE parse_octet (map show_nat (octets a)) = Inr (map id (octets a))"
    by (rule mapE_map) (simp add: list_all_iff parse_octet_show octets_less)
  moreover have "length (octets a) = 4" by (simp add: octets_def)
  ultimately show ?thesis by (simp add: parse_addr_def octets_value)
qed

lemma show_addr_inject [simp]: "show_addr a = show_addr b \<longleftrightarrow> a = b"
  by (metis parse_show_addr sum.inject(2))

section \<open>Arithmetic\<close>

text \<open>An address from an integer, and \<open>address + n\<close>: checked, nothing wraps around.\<close>

definition addr_of_int :: "int \<Rightarrow> addr res" where
  "addr_of_int n = (if 0 \<le> n \<and> n < 2 ^ 32 then Inr (word_of_int n) else Inl ValueError)"

definition addr_plus :: "addr \<Rightarrow> int \<Rightarrow> addr res" where
  "addr_plus a n = addr_of_int (uint a + n)"

lemma addr_of_int_Inr: "addr_of_int n = Inr a \<longleftrightarrow> n = uint a"
  by (auto simp: addr_of_int_def uint_word_of_int_eq take_bit_int_eq_self uint_bounded
      intro: order.strict_trans2 [OF uint_bounded])

lemma addr_plus_Inr: "addr_plus a n = Inr b \<longleftrightarrow> uint b = uint a + n"
  by (auto simp: addr_plus_def addr_of_int_Inr)

section \<open>Networks\<close>

text \<open>The mask of a prefix length, and the prefix length of a dotted mask.\<close>

definition prefix_mask :: "nat \<Rightarrow> addr" where
  "prefix_mask p = (- 1) XOR drop_bit p (- 1)"

primrec zero_bits :: "nat \<Rightarrow> int \<Rightarrow> nat" where
  "zero_bits 0 n = 0"
| "zero_bits (Suc k) n = (if odd n then 0 else Suc (zero_bits k (n div 2)))"

definition prefix_from_int :: "int \<Rightarrow> nat res" where
  "prefix_from_int n =
     (let zeros = zero_bits 32 n; prefixlen = 32 - zeros
      in if n div 2 ^ zeros \<noteq> 2 ^ prefixlen - 1 then Inl ValueError else Inr prefixlen)"

definition make_netmask :: "string \<Rightarrow> nat res" where
  "make_netmask arg =
     (if ascii_digits arg \<and> digits_value arg \<le> 32 then Inr (digits_value arg)
      else bindE (parse_addr arg) (\<lambda>a.
        case prefix_from_int (uint a) of Inr p \<Rightarrow> Inr p | Inl e \<Rightarrow> prefix_from_int (uint (NOT a))))"

text \<open>An interface: an address with the length of its network prefix.\<close>

definition ip_interface :: "string \<Rightarrow> string \<Rightarrow> (addr \<times> nat) res" where
  "ip_interface ip mask_arg = bindE (parse_addr ip) (\<lambda>a. bindE (make_netmask mask_arg) (\<lambda>p. Inr (a, p)))"

definition network_address :: "addr \<times> nat \<Rightarrow> addr" where
  "network_address i = fst i AND prefix_mask (snd i)"

definition in_network :: "addr \<Rightarrow> addr \<times> nat \<Rightarrow> bool" where
  "in_network a i \<longleftrightarrow> a AND prefix_mask (snd i) = network_address i"

definition network_size :: "nat \<Rightarrow> int" where
  "network_size p = 2 ^ (32 - p)"

lemma prefix_mask_mask: "prefix_mask p = NOT (mask (32 - p))"
  by (rule bit_word_eqI) (auto simp: prefix_mask_def bit_simps)

lemma masked: "uint (a AND prefix_mask p) = network_size p * (uint a div network_size p)"
proof -
  let ?k = "32 - p"
  have "a AND prefix_mask p = a - take_bit ?k a"
  proof -
    have "a AND NOT (mask ?k) = push_bit ?k (drop_bit ?k a)"
      by (rule bit_word_eqI) (auto simp: bit_simps)
    then show ?thesis using bits_ident [of ?k a] by (simp add: prefix_mask_mask algebra_simps)
  qed
  moreover have "uint (take_bit ?k a) = uint a mod network_size p"
    by (simp only: network_size_def unsigned_take_bit_eq take_bit_eq_mod [of _ "uint a"])
  moreover have "uint a mod network_size p \<le> uint a" by (simp add: zmod_le_nonneg_dividend)
  ultimately have "uint (a AND prefix_mask p) = uint a - uint a mod network_size p"
    using uint_minus_simple_alt [of "take_bit ?k a" a] by (simp add: word_le_def)
  then show ?thesis by (simp add: minus_mod_eq_mult_div)
qed

lemma network_size_pos [simp]: "0 < network_size p"
  by (simp add: network_size_def)

lemma uint_network: "uint (network_address i) = network_size (snd i) * (uint (fst i) div network_size (snd i))"
  by (simp add: network_address_def masked)

lemma in_network_div: "in_network a i \<longleftrightarrow> uint a div network_size (snd i) = uint (fst i) div network_size (snd i)"
proof -
  have "in_network a i \<longleftrightarrow> uint (a AND prefix_mask (snd i)) = uint (fst i AND prefix_mask (snd i))"
    by (simp add: in_network_def network_address_def word_uint_eq_iff)
  then show ?thesis using network_size_pos [of "snd i"] by (simp add: masked)
qed

text \<open>A network is an interval of addresses that starts at its address.\<close>

lemma in_network_interval:
  "in_network a i \<longleftrightarrow> uint (network_address i) \<le> uint a \<and> uint a < uint (network_address i) + network_size (snd i)"
proof -
  let ?s = "network_size (snd i)"
  have "uint a div ?s = q \<longleftrightarrow> ?s * q \<le> uint a \<and> uint a < ?s * q + ?s" for q
  proof -
    have "?s * (uint a div ?s) \<le> uint a \<and> uint a < ?s * (uint a div ?s) + ?s"
      using network_size_pos [of "snd i"] mult_div_mod_eq [of ?s "uint a"] pos_mod_bound [of ?s "uint a"] pos_mod_sign [of ?s "uint a"]
      by linarith
    moreover have "uint a div ?s = q" if "?s * q \<le> uint a" "uint a < ?s * q + ?s"
      using that by (intro int_div_pos_eq [where r = "uint a - ?s * q"]) auto
    ultimately show ?thesis by blast
  qed
  then show ?thesis by (simp add: in_network_div uint_network)
qed

lemma make_netmask_show: "p \<le> 32 \<Longrightarrow> make_netmask (show_nat p) = Inr p"
  by (simp add: make_netmask_def ascii_digits_show_nat digits_value_show_nat)

lemma ip_interface_show: "p \<le> 32 \<Longrightarrow> ip_interface (show_addr a) (show_nat p) = Inr (a, p)"
  by (simp add: ip_interface_def parse_show_addr make_netmask_show)

lemma ip_interface_Inr: "ip_interface ip m = Inr i \<longleftrightarrow> parse_addr ip = Inr (fst i) \<and> make_netmask m = Inr (snd i)"
  by (cases i) (auto simp: ip_interface_def bindE_Inr_iff)

text \<open>What is between two addresses of a network is in the network.\<close>

lemma in_network_between:
  "in_network a i \<Longrightarrow> in_network b i \<Longrightarrow> uint a \<le> uint c \<Longrightarrow> uint c \<le> uint b \<Longrightarrow> in_network c i"
  by (simp add: in_network_interval)

lemma in_network_same: "network_address i = network_address j \<Longrightarrow> snd i = snd j \<Longrightarrow> in_network a i \<longleftrightarrow> in_network a j"
  by (simp add: in_network_def)

lemma network_address_idem: "network_address (network_address i, snd i) = network_address i"
  by (simp add: network_address_def and.assoc)

end
