(* ===== verification/NetConfig.thy ===== *)
theory NetConfig
  imports NetAddr
begin

text \<open>
  Model of \<open>VMNetconfig\<close> in \<open>virttest/vmnet/netconfig.py\<close> and of \<open>VMInterface\<close> in
  \<open>virttest/vmnet/interface.py\<close>: a network configuration with its table of interfaces, the
  allocation and translation of addresses and the validation. Interfaces and configurations are
  objects with identity: they are kept in lists and referred to by their position.
\<close>

section \<open>State\<close>

record iface =
  if_name :: string
  if_params :: params
  if_node :: "string option"
  if_netconfig :: "nat option"
  if_mac :: string
  if_ip :: string

record netconfig =
  nc_interfaces :: "(string, nat) dict"
  nc_netdst :: "string option"
  nc_netmask :: "string option"
  nc_gateway :: "string option"
  nc_net_ip :: "string option"
  nc_host_ip :: "string option"
  nc_range :: "(int, bool) dict"
  nc_domain :: "string option"
  nc_forwarder :: "string option"
  nc_rev :: "string option"
  nc_view :: "string option"
  nc_ext_netdst :: "string option"

definition new_netconfig :: netconfig where
  "new_netconfig = \<lparr>nc_interfaces = [], nc_netdst = None, nc_netmask = None, nc_gateway = None, nc_net_ip = None,
     nc_host_ip = None, nc_range = [], nc_domain = None, nc_forwarder = None, nc_rev = None, nc_view = None,
     nc_ext_netdst = None\<rparr>"

definition new_interface :: "string \<Rightarrow> params \<Rightarrow> iface res" where
  "new_interface name p =
     bindE (p_getitem p ''mac'') (\<lambda>mac. bindE (p_getitem p ''ip'') (\<lambda>ip.
       Inr \<lparr>if_name = name, if_params = p, if_node = None, if_netconfig = None, if_mac = mac, if_ip = ip\<rparr>))"

text \<open>
  The setters of the properties are also their getters: they read when the value is \<open>None\<close>,
  so that assigning \<open>None\<close> changes nothing.
\<close>

definition assigned :: "'a option \<Rightarrow> 'a option \<Rightarrow> 'a option" where
  "assigned v old = (case v of None \<Rightarrow> old | Some x \<Rightarrow> Some x)"

text \<open>\<open>str\<close> of a property that may be \<open>None\<close>.\<close>

definition str_of :: "string option \<Rightarrow> string" where
  "str_of v = (case v of None \<Rightarrow> ''None'' | Some s \<Rightarrow> s)"

section \<open>Masks and addresses\<close>

text \<open>\<open>bin(n)[2:].zfill(8)\<close>.\<close>

function binary :: "int \<Rightarrow> string" where
  "binary n = (if n < 2 then [digit_char (nat n)] else binary (n div 2) @ [digit_char (nat (n mod 2))])"
  by pat_completeness auto
termination
  by (relation "measure nat") (auto simp: nat_less_iff)

declare binary.simps [simp del]

definition bin_octet :: "int \<Rightarrow> string" where
  "bin_octet n =
     (let ds = (if n < 0 then CHR ''b'' # binary (- n) else binary n)
      in replicate (8 - length ds) (CHR ''0'') @ ds)"

definition mask_bits :: "string \<Rightarrow> string res" where
  "mask_bits netmask =
     bindE (mapE py_int (split_on (CHR ''.'') netmask)) (\<lambda>octets.
       Inr (show_nat (length (dropWhile (\<lambda>c. c = CHR ''0'') (rev (concat (map bin_octet octets)))))))"

definition mask_bit :: "netconfig \<Rightarrow> string option res" where
  "mask_bit nc = (case nc_netmask nc of None \<Rightarrow> Inr None | Some m \<Rightarrow> bindE (mask_bits m) (\<lambda>b. Inr (Some b)))"

definition set_mask_bit :: "string \<Rightarrow> netconfig \<Rightarrow> netconfig res" where
  "set_mask_bit v nc =
     bindE (ip_interface (str_of (nc_net_ip nc)) v) (\<lambda>i.
       Inr (nc\<lparr>nc_netmask := Some (show_addr (prefix_mask (snd i)))\<rparr>))"

text \<open>\<open>ip_interface\<close> with the mask of the configuration.\<close>

definition with_mask :: "netconfig \<Rightarrow> string \<Rightarrow> (addr \<times> nat) res" where
  "with_mask nc ip = bindE (mask_bit nc) (\<lambda>b. ip_interface ip (str_of b))"

definition get_network_ip :: "netconfig \<Rightarrow> string \<Rightarrow> string res" where
  "get_network_ip nc ip = bindE (with_mask nc ip) (\<lambda>i. Inr (show_addr (network_address i)))"

definition range_min :: "netconfig \<Rightarrow> int" where
  "range_min nc = (if nc_range nc = [] then 0 else Min (set (dict_keys (nc_range nc))))"

definition range_max :: "netconfig \<Rightarrow> int" where
  "range_max nc = (if nc_range nc = [] then 0 else Max (set (dict_keys (nc_range nc))))"

definition net_plus :: "netconfig \<Rightarrow> int \<Rightarrow> string res" where
  "net_plus nc n = bindE (parse_addr (str_of (nc_net_ip nc))) (\<lambda>a. bindE (addr_plus a n) (\<lambda>b. Inr (show_addr b)))"

definition ip_start :: "netconfig \<Rightarrow> string res" where
  "ip_start nc = net_plus nc (range_min nc)"

definition ip_end :: "netconfig \<Rightarrow> string res" where
  "ip_end nc = net_plus nc (range_max nc)"

section \<open>Operations\<close>

text \<open>The parameters of an interface decide the configuration; an error keeps what was set before.\<close>

definition set_main :: "params \<Rightarrow> string \<Rightarrow> (netconfig, unit) io" where
  "set_main p ip =
     bindM (modifyM (\<lambda>nc. nc\<lparr>nc_netdst := assigned (p_get p ''netdst'') (nc_netdst nc)\<rparr>)) (\<lambda>_.
     bindM (liftM (p_getitem p ''netmask'')) (\<lambda>netmask.
     bindM (modifyM (\<lambda>nc. nc\<lparr>nc_netmask := Some netmask, nc_gateway := Some (p_get_or p ''ip_provider'' ''0.0.0.0'')\<rparr>)) (\<lambda>_.
     bindM (getM id) (\<lambda>nc.
     bindM (liftM (get_network_ip nc ip)) (\<lambda>net_ip.
       modifyM (\<lambda>nc. nc\<lparr>nc_net_ip := Some net_ip, nc_host_ip := assigned (p_get p ''host'') (nc_host_ip nc)\<rparr>))))))"

definition set_range :: "params \<Rightarrow> (netconfig, unit) io" where
  "set_range p =
     (let pool_range = split_on (CHR ''-'') (p_get_or p ''range'' ''100-200'')
      in bindM (liftM (bindE (index_nth pool_range 0) py_int)) (\<lambda>lo.
         bindM (liftM (bindE (index_nth pool_range 1) py_int)) (\<lambda>hi.
           modifyM (\<lambda>nc. nc\<lparr>nc_range := map (\<lambda>i. (i, False)) [lo..hi]\<rparr>))))"

definition set_services :: "params \<Rightarrow> netconfig \<Rightarrow> netconfig" where
  "set_services p nc =
     (let domain = assigned (p_get p ''domain_provider'') (nc_domain nc); net_ip = str_of (nc_net_ip nc)
      in nc\<lparr>nc_domain := domain, nc_forwarder := assigned (p_get p ''default_dns_forwarder'') (nc_forwarder nc),
           nc_rev := Some (join ''.'' (rev (butlast (split_on (CHR ''.'') net_ip)))),
           nc_view := (case domain of None \<Rightarrow> nc_view nc | Some d \<Rightarrow> Some (d @ ''-'' @ net_ip)),
           nc_ext_netdst := assigned (p_get p ''postrouting_netdst'') (nc_ext_netdst nc)\<rparr>)"

definition from_interface :: "params \<Rightarrow> string \<Rightarrow> (netconfig, unit) io" where
  "from_interface p ip =
     bindM (set_main p ip) (\<lambda>_. bindM (set_range p) (\<lambda>_. modifyM (set_services p)))"

definition has_interface :: "netconfig \<Rightarrow> nat \<Rightarrow> iface \<Rightarrow> bool" where
  "has_interface nc i f \<longleftrightarrow> map_of (nc_interfaces nc) (if_ip f) = Some i"

definition can_add_interface :: "netconfig \<Rightarrow> nat \<Rightarrow> iface \<Rightarrow> bool res" where
  "can_add_interface nc i f =
     (if has_interface nc i f then Inl IndexError
      else bindE (get_network_ip nc (if_ip f)) (\<lambda>interface_net_ip.
        if Some interface_net_ip = nc_net_ip nc then
          bindE (p_getitem (if_params f) ''netmask'') (\<lambda>m. if Some m \<noteq> nc_netmask nc then Inl IndexError else Inr True)
        else Inr False))"

text \<open>The first address that is not taken, in the order of the range.\<close>

fun first_free :: "(int, bool) dict \<Rightarrow> int option" where
  "first_free [] = None"
| "first_free ((v, taken) # r) = (if taken then first_free r else Some v)"

definition get_allocatable_address :: "(netconfig, string) io" where
  "get_allocatable_address =
     bindM (getM (\<lambda>nc. first_free (nc_range nc))) (\<lambda>v.
     case v of
       None \<Rightarrow> raiseM IndexError
     | Some new_address \<Rightarrow>
         bindM (modifyM (\<lambda>nc. nc\<lparr>nc_range := dict_set new_address True (nc_range nc)\<rparr>)) (\<lambda>_.
         bindM (getM (\<lambda>nc. net_plus nc new_address)) liftM))"

definition translate_address :: "netconfig \<Rightarrow> string \<Rightarrow> string \<Rightarrow> string res" where
  "translate_address nc ip nat_ip =
     bindE (parse_addr ip) (\<lambda>source_ip.
     bindE (parse_addr (str_of (nc_net_ip nc))) (\<lambda>net.
     bindE (with_mask nc nat_ip) (\<lambda>target.
     bindE (addr_of_int (uint source_ip - uint net + uint (network_address target))) (\<lambda>a. Inr (show_addr a)))))"

section \<open>Validation\<close>

text \<open>The interfaces of the table are given with what they are; \<open>c\<close> is the configuration itself.\<close>

definition check_inside :: "addr \<times> nat \<Rightarrow> addr \<times> nat \<Rightarrow> unit res" where
  "check_inside own i = (if in_network (fst i) own then Inr () else Inl TestError)"

definition check_interface :: "nat \<Rightarrow> netconfig \<Rightarrow> addr \<times> nat \<Rightarrow> nat \<Rightarrow> iface \<Rightarrow> unit res" where
  "check_interface c nc own i f =
     (if if_netconfig f \<noteq> Some c then Inl AssertionError
      else case map_of (nc_interfaces nc) (if_ip f) of
          None \<Rightarrow> Inl KeyError
        | Some j \<Rightarrow> if j \<noteq> i then Inl AssertionError else bindE (with_mask nc (if_ip f)) (check_inside own))"

primrec check_all :: "('a \<Rightarrow> unit res) \<Rightarrow> 'a list \<Rightarrow> unit res" where
  "check_all f [] = Inr ()"
| "check_all f (x # xs) = bindE (f x) (\<lambda>_. check_all f xs)"

definition host_address :: "netconfig \<Rightarrow> (addr \<times> nat) list res" where
  "host_address nc =
     (case nc_host_ip nc of
        None \<Rightarrow> Inr []
      | Some h \<Rightarrow> if h = [] then Inr [] else bindE (with_mask nc h) (\<lambda>i. Inr [i]))"

definition validate :: "(nat \<Rightarrow> iface) \<Rightarrow> nat \<Rightarrow> netconfig \<Rightarrow> unit res" where
  "validate ifaces c nc =
     bindE (host_address nc) (\<lambda>host.
     bindE (ip_start nc) (\<lambda>_. bindE (ip_end nc) (\<lambda>_.
     bindE (bindE (ip_start nc) (with_mask nc)) (\<lambda>first.
     bindE (bindE (ip_end nc) (with_mask nc)) (\<lambda>last_one.
     bindE (with_mask nc (str_of (nc_net_ip nc))) (\<lambda>own.
     bindE (check_all (check_inside own) (host @ [first, last_one])) (\<lambda>_.
       check_all (\<lambda>i. check_interface c nc own i (ifaces i)) (map snd (nc_interfaces nc)))))))))"


section \<open>The mask\<close>

lemma zero_bits_le: "zero_bits k n \<le> k"
  by (induction k arbitrary: n) auto

lemma prefix_from_int_le: "prefix_from_int n = Inr p \<Longrightarrow> p \<le> 32"
  by (auto simp: prefix_from_int_def Let_def split: if_splits)

lemma either_prefix_le: "(case prefix_from_int n of Inr p \<Rightarrow> Inr p | Inl e \<Rightarrow> prefix_from_int m) = Inr p \<Longrightarrow> p \<le> 32"
  by (auto dest: prefix_from_int_le split: sum.splits)

lemma make_netmask_le: "make_netmask v = Inr p \<Longrightarrow> p \<le> 32"
  unfolding make_netmask_def bindE_Inr_iff if_distrib [where f = "\<lambda>r. r = Inr p"]
  by (cases "ascii_digits v \<and> digits_value v \<le> 32") (auto simp only: if_True if_False sum.inject bindE_Inr_iff dest!: either_prefix_le)

text \<open>The octets of a mask, and their bits.\<close>

definition mask_octets :: "nat \<Rightarrow> nat list" where
  "mask_octets p = map (\<lambda>k. [0, 128, 192, 224, 240, 248, 252, 254, 255] ! min 8 (p - 8 * k)) [0, 1, 2, 3]"

lemma octets_mask: "p \<le> 32 \<Longrightarrow> octets (prefix_mask p) = mask_octets p"
proof -
  have "list_all (\<lambda>p. octets (prefix_mask p) = mask_octets p) [0..<33]" by code_simp
  then show "p \<le> 32 \<Longrightarrow> octets (prefix_mask p) = mask_octets p" unfolding list_all_iff by simp
qed

lemma bin_octet_mask: "n \<le> 8 \<Longrightarrow> bin_octet (int ([0, 128, 192, 224, 240, 248, 252, 254, 255] ! n))
    = replicate n (CHR ''1'') @ replicate (8 - n) (CHR ''0'')"
proof -
  have "list_all (\<lambda>n. bin_octet (int ([0, 128, 192, 224, 240, 248, 252, 254, 255] ! n))
      = replicate n (CHR ''1'') @ replicate (8 - n) (CHR ''0'')) [0..<9]"
    by code_simp
  then show "n \<le> 8 \<Longrightarrow> ?thesis" unfolding list_all_iff by simp
qed

lemma dropWhile_replicate: "x \<noteq> y \<Longrightarrow> dropWhile (\<lambda>c. c = x) (replicate m x @ replicate n y) = replicate n y"
  by (induction m; cases n) auto

lemma mask_octets_bits:
  assumes "p \<le> 32"
  shows "concat (map (\<lambda>n. bin_octet (int n)) (mask_octets p)) = replicate p (CHR ''1'') @ replicate (32 - p) (CHR ''0'')"
proof -
  have "list_all (\<lambda>p. concat (map (\<lambda>k. replicate (min 8 (p - 8 * k)) (CHR ''1'') @ replicate (8 - min 8 (p - 8 * k)) (CHR ''0'')) [0, 1, 2, 3])
      = replicate p (CHR ''1'') @ replicate (32 - p) (CHR ''0'')) [0..<33]"
    by code_simp
  then have "concat (map (\<lambda>k. replicate (min 8 (p - 8 * k)) (CHR ''1'') @ replicate (8 - min 8 (p - 8 * k)) (CHR ''0'')) [0, 1, 2, 3])
      = replicate p (CHR ''1'') @ replicate (32 - p) (CHR ''0'')"
    using assms unfolding list_all_iff by simp
  then show ?thesis unfolding mask_octets_def list.map bin_octet_mask [OF min.cobounded1] .
qed

lemma mask_bits_prefix:
  assumes "p \<le> 32"
  shows "mask_bits (show_addr (prefix_mask p)) = Inr (show_nat p)"
proof -
  have "CHR ''.'' \<notin> set (show_nat n)" for n
    using show_nat_digits [of "CHR ''.''" n] by (auto simp: is_digit_def)
  then have "split_on (CHR ''.'') (show_addr (prefix_mask p)) = map show_nat (mask_octets p)"
    unfolding show_addr_def octets_mask [OF assms] by (intro split_on_join) (auto simp: mask_octets_def)
  moreover have "mapE py_int (map show_nat ns) = Inr (map int ns)" for ns
    by (rule mapE_map) (simp add: list_all_iff py_int_show_nat)
  moreover have "concat (map bin_octet (map int (mask_octets p))) = replicate p (CHR ''1'') @ replicate (32 - p) (CHR ''0'')"
    using mask_octets_bits [OF assms] by (simp add: comp_def)
  ultimately show ?thesis by (simp add: mask_bits_def dropWhile_replicate)
qed

text \<open>C25:
  The length of the mask that is read is the one that was set, for every way to write it (a
  length, a mask, a mask of the host part) that is accepted.
\<close>

theorem mask_bit_roundtrip:
  assumes "set_mask_bit v nc = Inr nc'"
  shows "\<exists>p \<le> 32. make_netmask v = Inr p \<and> mask_bit nc' = Inr (Some (show_nat p))
    \<and> (\<forall>ip a. parse_addr ip = Inr a \<longrightarrow> with_mask nc' ip = Inr (a, p))"
proof -
  obtain a p where p: "make_netmask v = Inr p" and nc': "nc' = nc\<lparr>nc_netmask := Some (show_addr (prefix_mask p))\<rparr>"
    using assms by (auto simp: set_mask_bit_def ip_interface_Inr bindE_Inr_iff)
  have b: "mask_bit nc' = Inr (Some (show_nat p))" by (simp add: mask_bit_def nc' mask_bits_prefix make_netmask_le [OF p])
  then have "parse_addr ip = Inr a \<Longrightarrow> with_mask nc' ip = Inr (a, p)" for ip a
    by (simp add: with_mask_def str_of_def ip_interface_def make_netmask_show make_netmask_le [OF p])
  with b p show ?thesis using make_netmask_le [OF p] by blast
qed

lemma mask_bit_roundtrip_witness:
  "\<exists>p \<le> 32. make_netmask ''0.0.0.255'' = Inr p
    \<and> mask_bit (new_netconfig\<lparr>nc_net_ip := Some ''10.1.2.0'', nc_netmask := Some ''255.255.255.0''\<rparr>) = Inr (Some (show_nat p))"
proof -
  have "set_mask_bit ''0.0.0.255'' (new_netconfig\<lparr>nc_net_ip := Some ''10.1.2.0''\<rparr>)
      = Inr (new_netconfig\<lparr>nc_net_ip := Some ''10.1.2.0'', nc_netmask := Some ''255.255.255.0''\<rparr>)"
    by code_simp
  from mask_bit_roundtrip [OF this] show ?thesis by blast
qed

text \<open>A mask with a gap is taken for a shorter host part.\<close>

lemma mask_with_gap: "mask_bits ''255.0.255.0'' = Inr ''24''"
  by code_simp


section \<open>Translation\<close>

lemma with_mask_Inr:
  "with_mask nc ip = Inr i \<longleftrightarrow> parse_addr ip = Inr (fst i) \<and> (\<exists>b. mask_bit nc = Inr b \<and> make_netmask (str_of b) = Inr (snd i))"
  by (auto simp: with_mask_def ip_interface_Inr bindE_Inr_iff)

lemma with_mask_le: "with_mask nc ip = Inr i \<Longrightarrow> snd i \<le> 32"
  by (auto simp: with_mask_Inr make_netmask_le)

lemma with_mask_same: "with_mask nc ip = Inr i \<Longrightarrow> with_mask nc ip' = Inr j \<Longrightarrow> snd j = snd i"
  by (auto simp: with_mask_Inr)

lemma with_mask_other: "with_mask nc ip = Inr i \<Longrightarrow> parse_addr ip' = Inr a \<Longrightarrow> with_mask nc ip' = Inr (a, snd i)"
  by (auto simp: with_mask_Inr)

lemma network_end:
  assumes "snd i \<le> 32"
  shows "uint (network_address i) + network_size (snd i) \<le> 2 ^ 32"
proof -
  let ?s = "network_size (snd i)"
  have s: "?s * 2 ^ snd i = 2 ^ 32"
    unfolding network_size_def using assms by (simp flip: power_add)
  have "?s * (uint (fst i) div ?s) < ?s * 2 ^ snd i"
    using s uint_bounded [of "fst i"] uint_network [of i] uint_bounded [of "network_address i"] by simp
  then have "uint (fst i) div ?s < 2 ^ snd i" by simp
  then have "?s * (uint (fst i) div ?s + 1) \<le> ?s * 2 ^ snd i" by (intro mult_left_mono) (simp_all add: less_imp_le)
  then show ?thesis using s by (simp add: uint_network algebra_simps)
qed

lemma network_position:
  assumes "snd i \<le> 32" and "0 \<le> n" and "n < network_size (snd i)"
  obtains b where "addr_of_int (uint (network_address i) + n) = Inr b" and "uint b = uint (network_address i) + n" and "in_network b i"
proof -
  have "0 \<le> uint (network_address i) + n" "uint (network_address i) + n < 2 ^ 32"
    using network_end [OF assms(1)] assms(2,3) by simp_all
  then have b: "addr_of_int (uint (network_address i) + n) = Inr (word_of_int (uint (network_address i) + n))"
    by (simp add: addr_of_int_def)
  then have "uint (network_address i) + n = uint (word_of_int (uint (network_address i) + n) :: addr)"
    by (simp only: addr_of_int_Inr)
  then show thesis using that [OF b] assms(2,3) by (simp add: in_network_interval)
qed

text \<open>C24:
  The translation keeps the host part of an address: the result has the same position in the
  network of the reference address, and the configuration of that network translates it back.
\<close>

theorem translation_keeps_host_part:
  assumes own: "with_mask nc (str_of (nc_net_ip nc)) = Inr own" "network_address own = fst own"
    and ip: "parse_addr ip = Inr a" "in_network a own" and target: "with_mask nc nat_ip = Inr target"
  shows "\<exists>b. translate_address nc ip nat_ip = Inr (show_addr b) \<and> in_network b target
    \<and> uint b - uint (network_address target) = uint a - uint (fst own)
    \<and> translate_address (nc\<lparr>nc_net_ip := Some (show_addr (network_address target))\<rparr>) (show_addr b) (str_of (nc_net_ip nc))
      = Inr (show_addr a)"
proof -
  let ?n = "uint a - uint (fst own)" and ?t = "uint (network_address target)"
  let ?nc' = "nc\<lparr>nc_net_ip := Some (show_addr (network_address target))\<rparr>"
  have net: "parse_addr (str_of (nc_net_ip nc)) = Inr (fst own)" and same: "snd target = snd own"
    using own(1) target by (auto simp: with_mask_Inr)
  have n: "0 \<le> ?n" "?n < network_size (snd target)"
    using ip(2) own(2) same by (simp_all add: in_network_interval)
  obtain b where b: "addr_of_int (?t + ?n) = Inr b" "uint b = ?t + ?n" "in_network b target"
    using network_position [OF with_mask_le [OF target] n] .
  have there: "translate_address nc ip nat_ip = Inr (show_addr b)"
    using b(1) by (simp add: translate_address_def ip(1) net target algebra_simps)
  have "with_mask ?nc' (str_of (nc_net_ip nc)) = Inr own"
    using own(1) by (simp add: with_mask_def mask_bit_def)
  moreover have "addr_of_int (uint b - ?t + uint (fst own)) = Inr a" using b(2) by (simp add: addr_of_int_Inr)
  ultimately have "translate_address ?nc' (show_addr b) (str_of (nc_net_ip nc)) = Inr (show_addr a)"
    by (simp add: translate_address_def parse_show_addr str_of_def own(2) with_mask_def)
  with there b show ?thesis by (metis add_diff_cancel_left')
qed


section \<open>Allocation\<close>

text \<open>The addresses that are not taken, and \<open>n\<close> allocations in a row.\<close>

definition free_values :: "netconfig \<Rightarrow> int list" where
  "free_values nc = map fst (filter (\<lambda>(v, taken). \<not> taken) (nc_range nc))"

primrec allocate :: "nat \<Rightarrow> (netconfig, string list) io" where
  "allocate 0 = retM []"
| "allocate (Suc n) = bindM get_allocatable_address (\<lambda>a. bindM (allocate n) (\<lambda>as. retM (a # as)))"

definition nth_address :: "addr \<Rightarrow> int \<Rightarrow> addr" where
  "nth_address net v = word_of_int (uint net + v)"

definition range_fits :: "addr \<Rightarrow> netconfig \<Rightarrow> bool" where
  "range_fits net nc \<longleftrightarrow> parse_addr (str_of (nc_net_ip nc)) = Inr net \<and> distinct (dict_keys (nc_range nc))
     \<and> list_all (\<lambda>v. 0 \<le> uint net + v \<and> uint net + v < 2 ^ 32) (dict_keys (nc_range nc))"

lemma first_free_values: "first_free r = (case map fst (filter (\<lambda>(v, taken). \<not> taken) r) of [] \<Rightarrow> None | v # _ \<Rightarrow> Some v)"
  by (induction r rule: first_free.induct) auto

lemma take_free:
  "distinct (map fst r) \<Longrightarrow> map fst (filter (\<lambda>(v, taken). \<not> taken) r) = v # vs \<Longrightarrow>
   map fst (filter (\<lambda>(v, taken). \<not> taken) (AList.update v True r)) = vs"
proof (induction r)
  case (Cons x r)
  then show ?case
    by (cases x) (auto split: if_splits dest!: filter_eq_ConsD)
qed simp

lemma addr_plus_nth: "0 \<le> uint net + v \<Longrightarrow> uint net + v < 2 ^ 32 \<Longrightarrow> addr_plus net v = Inr (nth_address net v)"
  by (simp add: addr_plus_def addr_of_int_def nth_address_def)

lemma uint_nth_address: "0 \<le> uint net + v \<Longrightarrow> uint net + v < 2 ^ 32 \<Longrightarrow> uint (nth_address net v) = uint net + v"
  using addr_plus_nth addr_plus_Inr by blast

lemma allocate_step:
  assumes "range_fits net nc" and "free_values nc = v # vs"
  obtains nc' where "get_allocatable_address nc = (Inr (show_addr (nth_address net v)), nc')"
    and "range_fits net nc'" and "free_values nc' = vs"
proof -
  let ?nc' = "nc\<lparr>nc_range := dict_set v True (nc_range nc)\<rparr>"
  have v: "v \<in> set (dict_keys (nc_range nc))"
    using arg_cong [OF assms(2), of set] by (auto simp: free_values_def dict_keys_def)
  have d: "distinct (map fst (nc_range nc))" using assms(1) by (simp add: range_fits_def dict_keys_def)
  have "get_allocatable_address nc = (Inr (show_addr (nth_address net v)), ?nc')"
    using assms v by (simp add: get_allocatable_address_def first_free_values flip: free_values_def)
      (simp add: bindM_def io_run net_plus_def range_fits_def list_all_iff addr_plus_nth)
  moreover have "range_fits net ?nc'" using assms(1) v by (simp add: range_fits_def dict_set_keys dict_has_iff)
  moreover have "free_values ?nc' = vs" using take_free [OF d] assms(2) by (simp add: free_values_def dict_set_def)
  ultimately show thesis using that by blast
qed

lemma allocate_run:
  "range_fits net nc \<Longrightarrow> fst (allocate n nc)
    = (if n \<le> length (free_values nc) then Inr (map (\<lambda>v. show_addr (nth_address net v)) (take n (free_values nc)))
       else Inl IndexError)"
proof (induction n arbitrary: nc)
  case 0
  then show ?case by (simp add: io_run)
next
  case (Suc n)
  show ?case
  proof (cases "free_values nc")
    case Nil
    then show ?thesis by (simp add: get_allocatable_address_def first_free_values bindM_def io_run flip: free_values_def)
  next
    case (Cons v vs)
    obtain nc' where step: "get_allocatable_address nc = (Inr (show_addr (nth_address net v)), nc')"
      and nc': "range_fits net nc'" "free_values nc' = vs"
      using allocate_step [OF Suc.prems Cons] .
    show ?thesis using Suc.IH [OF nc'(1)] Cons nc'(2)
      by (cases "allocate n nc'") (auto simp: bindM_def step io_run split: if_splits)
  qed
qed

lemma keys_between: "v \<in> set (dict_keys (nc_range nc)) \<Longrightarrow> range_min nc \<le> v \<and> v \<le> range_max nc"
  by (auto simp: range_min_def range_max_def dict_keys_def)

lemma check_all_Inr: "check_all f xs = Inr () \<longleftrightarrow> list_all (\<lambda>x. f x = Inr ()) xs"
  by (induction xs) (auto simp: bindE_Inr_iff)

lemma net_plus_Inr: "net_plus nc n = Inr s \<longleftrightarrow> (\<exists>a b. parse_addr (str_of (nc_net_ip nc)) = Inr a \<and> uint b = uint a + n \<and> s = show_addr b)"
  by (auto simp: net_plus_def bindE_Inr_iff addr_plus_Inr)

text \<open>What a successful validation says about the range.\<close>

lemma validate_range:
  assumes "validate ifaces c nc = Inr ()"
  obtains own where "with_mask nc (str_of (nc_net_ip nc)) = Inr own"
    and "\<forall>v \<in> set (dict_keys (nc_range nc)).
      0 \<le> uint (fst own) + v \<and> uint (fst own) + v < 2 ^ 32 \<and> in_network (nth_address (fst own) v) own"
proof -
  obtain own first l s1 s2 where own: "with_mask nc (str_of (nc_net_ip nc)) = Inr own"
    and s: "ip_start nc = Inr s1" "with_mask nc s1 = Inr first" "ip_end nc = Inr s2" "with_mask nc s2 = Inr l"
    and inside: "check_inside own first = Inr ()" "check_inside own l = Inr ()"
    using assms by (auto simp: validate_def bindE_Inr_iff check_all_Inr)
  have net: "parse_addr (str_of (nc_net_ip nc)) = Inr (fst own)" using own by (simp add: with_mask_Inr)
  have ends: "uint (fst first) = uint (fst own) + range_min nc" "uint (fst l) = uint (fst own) + range_max nc"
    using s net by (auto simp: ip_start_def ip_end_def net_plus_Inr with_mask_Inr parse_show_addr)
  have "0 \<le> uint (fst own) + v \<and> uint (fst own) + v < 2 ^ 32 \<and> in_network (nth_address (fst own) v) own"
    if "v \<in> set (dict_keys (nc_range nc))" for v
  proof -
    have v: "uint (fst first) \<le> uint (fst own) + v" "uint (fst own) + v \<le> uint (fst l)"
      using keys_between [OF that] ends by simp_all
    then have r: "0 \<le> uint (fst own) + v" "uint (fst own) + v < 2 ^ 32"
      using uint_bounded [of "fst l"] order.trans [OF uint_nonnegative v(1)] by simp_all
    then have "uint (nth_address (fst own) v) = uint (fst own) + v"
      by (rule uint_nth_address)
    moreover have "in_network (fst first) own" "in_network (fst l) own" using inside by (simp_all add: check_inside_def split: if_splits)
    ultimately have "in_network (nth_address (fst own) v) own" using in_network_between v by metis
    with r show ?thesis by simp
  qed
  then show thesis by (intro that [OF own] ballI)
qed

text \<open>C23:
  A validated configuration hands out every free address of its range once, in the order of the
  range and within its network, and refuses when none is left.
\<close>

theorem allocation_is_exact:
  assumes "validate ifaces c nc = Inr ()" and "distinct (dict_keys (nc_range nc))"
  shows "\<exists>own. with_mask nc (str_of (nc_net_ip nc)) = Inr own
    \<and> (let free = map (nth_address (fst own)) (free_values nc)
       in distinct free \<and> list_all (\<lambda>a. in_network a own) free
          \<and> (\<forall>n. fst (allocate n nc) = (if n \<le> length free then Inr (map show_addr (take n free)) else Inl IndexError)))"
proof -
  obtain own where own: "with_mask nc (str_of (nc_net_ip nc)) = Inr own"
    and r: "\<forall>v \<in> set (dict_keys (nc_range nc)).
      0 \<le> uint (fst own) + v \<and> uint (fst own) + v < 2 ^ 32 \<and> in_network (nth_address (fst own) v) own"
    using validate_range [OF assms(1)] .
  let ?free = "map (nth_address (fst own)) (free_values nc)"
  have sub: "set (free_values nc) \<subseteq> set (dict_keys (nc_range nc))" by (auto simp: free_values_def dict_keys_def)
  have fits: "range_fits (fst own) nc"
    using own assms(2) r by (simp add: range_fits_def with_mask_Inr list_all_iff)
  have "inj_on (nth_address (fst own)) (set (free_values nc))"
  proof (rule inj_onI)
    fix v w assume vw: "v \<in> set (free_values nc)" "w \<in> set (free_values nc)" "nth_address (fst own) v = nth_address (fst own) w"
    have "uint (nth_address (fst own) x) = uint (fst own) + x" if "x \<in> set (free_values nc)" for x
      using that sub r by (intro uint_nth_address) auto
    from this [OF vw(1)] this [OF vw(2)] arg_cong [OF vw(3), of uint] show "v = w" by linarith
  qed
  moreover have "distinct (free_values nc)"
    using assms(2) by (simp add: free_values_def dict_keys_def distinct_map_filter)
  ultimately have "distinct ?free" by (simp add: distinct_map)
  moreover have "list_all (\<lambda>a. in_network a own) ?free" using sub r by (auto simp: list_all_iff)
  ultimately show ?thesis using own allocate_run [OF fits] by (auto simp: take_map comp_def)
qed


definition example_netconfig :: netconfig where
  "example_netconfig = new_netconfig\<lparr>nc_net_ip := Some ''10.1.2.0'', nc_netmask := Some ''255.255.255.0'',
     nc_gateway := Some ''0.0.0.0'', nc_range := [(100, False), (101, True), (102, False)]\<rparr>"

lemma example_mask: "mask_bits ''255.255.255.0'' = Inr ''24''" "make_netmask ''24'' = Inr 24"
  by code_simp+

lemma example_addresses: "parse_addr ''10.1.2.0'' = Inr 167838208" "parse_addr ''10.1.2.77'' = Inr 167838285"
  "parse_addr ''172.17.3.1'' = Inr 2886796033" "parse_addr ''10.1.2.1'' = Inr 167838209"
  "parse_addr ''10.1.2.100'' = Inr 167838308" "parse_addr ''10.1.2.102'' = Inr 167838310"
  by code_simp+

lemma example_shown: "show_addr 167838285 = ''10.1.2.77''" "show_addr 2886796032 = ''172.17.3.0''" "show_addr 2886796109 = ''172.17.3.77''"
  "show_addr 167838308 = ''10.1.2.100''" "show_addr 167838310 = ''10.1.2.102''"
  by code_simp+

lemma example_networks:
  "network_address (2886796033, 24) = 2886796032" "network_address (167838208, 24) = 167838208"
  "in_network 167838285 (167838208, 24)"
  by code_simp+

lemma example_with_mask: "nc_netmask nc = Some ''255.255.255.0'' \<Longrightarrow> with_mask nc ip = bindE (parse_addr ip) (\<lambda>a. Inr (a, 24))"
  by (simp add: with_mask_def mask_bit_def example_mask str_of_def ip_interface_def)

lemma translation_keeps_host_part_witness:
  "translate_address example_netconfig ''10.1.2.77'' ''172.17.3.1'' = Inr ''172.17.3.77''
   \<and> (\<exists>b. Inr ''172.17.3.77'' = Inr (show_addr b)
      \<and> translate_address (example_netconfig\<lparr>nc_net_ip := Some ''172.17.3.0''\<rparr>) (show_addr b) ''10.1.2.0'' = Inr ''10.1.2.77'')"
proof -
  have nc: "nc_netmask example_netconfig = Some ''255.255.255.0''" "str_of (nc_net_ip example_netconfig) = ''10.1.2.0''"
    by (simp_all add: example_netconfig_def str_of_def)
  have own: "with_mask example_netconfig (str_of (nc_net_ip example_netconfig)) = Inr (167838208, 24)"
    "network_address (167838208, 24) = fst (167838208 :: addr, 24 :: nat)"
    and target: "with_mask example_netconfig ''172.17.3.1'' = Inr (2886796033, 24)"
    by (simp_all add: example_with_mask nc example_addresses example_networks)
  have res: "translate_address example_netconfig ''10.1.2.77'' ''172.17.3.1'' = Inr ''172.17.3.77''"
    by (simp add: translate_address_def example_with_mask nc example_addresses example_networks addr_of_int_def example_shown)
  note shown = example_networks(1) example_shown(1,2) nc(2)
  from translation_keeps_host_part [OF own example_addresses(2) example_networks(3) target] show ?thesis unfolding shown res by blast
qed

text \<open>The default gateway has no place in the network, so that its translation can fail.\<close>

lemma default_gateway_not_translated: "translate_address example_netconfig ''0.0.0.0'' ''10.1.1.0'' = Inl ValueError"
proof -
  have "parse_addr ''0.0.0.0'' = Inr 0" "parse_addr ''10.1.1.0'' = Inr 167837952" "network_address (167837952, 24) = 167837952" by code_simp+
  then show ?thesis
    by (simp add: translate_address_def example_with_mask example_netconfig_def str_of_def example_addresses addr_of_int_def)
qed

definition example_iface :: iface where
  "example_iface = \<lparr>if_name = ''b1'', if_params = [], if_node = Some ''vm1'', if_netconfig = Some 0, if_mac = ''52:54:00:00:00:01'',
     if_ip = ''10.1.2.1''\<rparr>"

lemma allocation_is_exact_witness:
  "fst (allocate 2 (example_netconfig\<lparr>nc_interfaces := [(''10.1.2.1'', 0)]\<rparr>)) = Inr [''10.1.2.100'', ''10.1.2.102'']"
proof -
  let ?nc = "example_netconfig\<lparr>nc_interfaces := [(''10.1.2.1'', 0)]\<rparr>"
  have nc: "nc_netmask ?nc = Some ''255.255.255.0''" by (simp add: example_netconfig_def)
  have own: "with_mask ?nc (str_of (nc_net_ip ?nc)) = Inr (167838208, 24)"
    by (simp only: example_with_mask [OF nc]) (simp add: example_netconfig_def str_of_def example_addresses)
  have inside: "in_network 167838308 (167838208, 24)" "in_network 167838310 (167838208, 24)" "in_network 167838209 (167838208, 24)"
    by code_simp+
  have ends: "ip_start ?nc = Inr ''10.1.2.100''" "ip_end ?nc = Inr ''10.1.2.102''"
    by (simp_all add: ip_start_def ip_end_def net_plus_def range_min_def range_max_def dict_keys_def example_netconfig_def
        new_netconfig_def str_of_def example_addresses addr_plus_def addr_of_int_def example_shown)
  have host: "host_address ?nc = Inr []" by (simp add: host_address_def example_netconfig_def new_netconfig_def)
  have at: "with_mask ?nc ''10.1.2.1'' = Inr (167838209, 24)" "with_mask ?nc ''10.1.2.100'' = Inr (167838308, 24)"
    "with_mask ?nc ''10.1.2.102'' = Inr (167838310, 24)"
    by (simp_all only: example_with_mask [OF nc] example_addresses bindE_simps)
  have iface: "check_interface 0 ?nc (167838208, 24) 0 example_iface = Inr ()"
    by (simp add: check_interface_def example_iface_def at check_inside_def inside)
  have v: "validate (\<lambda>_. example_iface) 0 ?nc = Inr ()"
    by (simp add: validate_def own [simplified] host ends at check_inside_def inside iface del: netconfig.update_convs)
  have d: "distinct (dict_keys (nc_range ?nc))" by (simp add: example_netconfig_def dict_keys_def)
  have free: "map show_addr (take 2 (map (nth_address 167838208) (free_values ?nc))) = [''10.1.2.100'', ''10.1.2.102'']"
    "length (free_values ?nc) = 2"
    by (simp_all add: free_values_def example_netconfig_def nth_address_def example_shown)
  show ?thesis using allocation_is_exact [OF v d] unfolding own
    by (simp only: sum.inject simp_thms ex_simps fst_conv Let_def length_map free) (use free in auto)
qed

end
