(* ===== verification/Network.thy ===== *)
theory Network
  imports NetConfig
begin

text \<open>
  Model of the structure of \<open>VMNetwork\<close> in \<open>virttest/vmnet/network.py\<close> with the nodes of
  \<open>virttest/vmnet/node.py\<close>: the integration of nodes, the reattachment of interfaces, the change
  of a network address and the parameters of spawned clients. Virtual machines are known by
  their names and parameters; the commands that reconfigure a card inside a running machine are
  a parameter.
\<close>

section \<open>State\<close>

record vnode =
  vd_params :: params
  vd_interfaces :: "(string, nat) dict"
  vd_ephemeral :: bool

record vnet =
  vn_params :: params
  vn_nodes :: "(string, vnode) dict"
  vn_interfaces :: "(string, nat) dict"
  vn_netconfigs :: "(string, nat) dict"
  vn_ifaces :: "iface list"
  vn_confs :: "netconfig list"

definition run_conf :: "nat \<Rightarrow> (netconfig, 'a) io \<Rightarrow> (vnet, 'a) io" where
  "run_conf c m w = (case m (vn_confs w ! c) of (r, nc) \<Rightarrow> (r, w\<lparr>vn_confs := (vn_confs w)[c := nc]\<rparr>))"

definition upd_iface :: "nat \<Rightarrow> (iface \<Rightarrow> iface) \<Rightarrow> (vnet, unit) io" where
  "upd_iface i f = modifyM (\<lambda>w. w\<lparr>vn_ifaces := (vn_ifaces w)[i := f (vn_ifaces w ! i)]\<rparr>)"

definition the_iface :: "nat \<Rightarrow> (vnet, iface) io" where
  "the_iface i = getM (\<lambda>w. vn_ifaces w ! i)"

definition the_conf :: "nat \<Rightarrow> (vnet, netconfig) io" where
  "the_conf c = getM (\<lambda>w. vn_confs w ! c)"

definition the_node :: "string \<Rightarrow> (vnet, vnode) io" where
  "the_node name = bindM (getM (\<lambda>w. of_option KeyError (map_of (vn_nodes w) name))) liftM"

definition named_interface :: "string \<Rightarrow> string \<Rightarrow> (vnet, nat) io" where
  "named_interface vm nic = bindM (getM (\<lambda>w. of_option KeyError (map_of (vn_interfaces w) (vm @ ''.'' @ nic)))) liftM"

definition validate_conf :: "nat \<Rightarrow> (vnet, unit) io" where
  "validate_conf c = bindM (getM (\<lambda>w. validate (\<lambda>j. vn_ifaces w ! j) c (vn_confs w ! c))) liftM"

section \<open>Integration of nodes\<close>

text \<open>\<open>VMNetconfig.add_interface\<close>.\<close>

definition add_interface :: "nat \<Rightarrow> nat \<Rightarrow> (vnet, unit) io" where
  "add_interface c i =
     bindM (the_iface i) (\<lambda>f.
     bindM (run_conf c (modifyM (\<lambda>nc. nc\<lparr>nc_interfaces := dict_set (if_ip f) i (nc_interfaces nc)\<rparr>))) (\<lambda>_.
     bindM (upd_iface i (\<lambda>f. f\<lparr>if_netconfig := Some c\<rparr>)) (\<lambda>_. validate_conf c)))"

definition add_nic :: "string \<Rightarrow> params \<Rightarrow> string \<Rightarrow> (vnet, unit) io" where
  "add_nic name p nic =
     bindM (liftM (new_interface nic (object_params p nic))) (\<lambda>f.
     bindM (getM (\<lambda>w. length (vn_ifaces w))) (\<lambda>i.
     bindM (the_node name) (\<lambda>node.
       modifyM (\<lambda>w. w\<lparr>vn_ifaces := vn_ifaces w @ [f\<lparr>if_node := Some name\<rparr>],
         vn_interfaces := dict_set (name @ ''.'' @ nic) i (vn_interfaces w),
         vn_nodes := dict_set name (node\<lparr>vd_interfaces := dict_set nic i (vd_interfaces node)\<rparr>) (vn_nodes w)\<rparr>))))"

definition store_conf :: "nat \<Rightarrow> (vnet, unit) io" where
  "store_conf c = modifyM (\<lambda>w. w\<lparr>vn_netconfigs := dict_set (str_of (nc_net_ip (vn_confs w ! c))) c (vn_netconfigs w)\<rparr>)"

definition own_conf :: "nat \<Rightarrow> (vnet, unit) io" where
  "own_conf i =
     bindM (the_iface i) (\<lambda>f.
     bindM (getM (\<lambda>w. length (vn_confs w))) (\<lambda>c.
     bindM (modifyM (\<lambda>w. w\<lparr>vn_confs := vn_confs w @ [new_netconfig]\<rparr>)) (\<lambda>_.
     bindM (run_conf c (from_interface (if_params f) (if_ip f))) (\<lambda>_.
     bindM (add_interface c i) (\<lambda>_. store_conf c)))))"

text \<open>The first configuration that can take the interface, or a new one.\<close>

primrec place_interface :: "nat \<Rightarrow> nat list \<Rightarrow> (vnet, unit) io" where
  "place_interface i [] = own_conf i"
| "place_interface i (c # cs) =
     bindM (the_iface i) (\<lambda>f. bindM (the_conf c) (\<lambda>nc.
     bindM (liftM (can_add_interface nc i f)) (\<lambda>ok.
       if ok then add_interface c i else place_interface i cs)))"

definition place_any :: "nat \<Rightarrow> (vnet, unit) io" where
  "place_any i = bindM (getM (\<lambda>w. map snd (vn_netconfigs w))) (place_interface i)"

text \<open>
  The first check of the code asks whether the node object is among the names of the nodes,
  which no object is; it never raises.
\<close>

definition integrate_node :: "string \<Rightarrow> (vnet, unit) io" where
  "integrate_node name =
     bindM (the_node name) (\<lambda>node.
     if vd_interfaces node \<noteq> [] then raiseM AssertionError
     else bindM (forM (add_nic name (vd_params node)) (objects (vd_params node) ''nics'')) (\<lambda>_.
          bindM (the_node name) (\<lambda>node.
            forM place_any (map snd (vd_interfaces node)))))"

definition add_node :: "string \<Rightarrow> params \<Rightarrow> bool \<Rightarrow> (vnet, unit) io" where
  "add_node name p ephemeral =
     bindM (modifyM (\<lambda>w. w\<lparr>vn_nodes := dict_set name \<lparr>vd_params = p, vd_interfaces = [], vd_ephemeral = ephemeral\<rparr> (vn_nodes w)\<rparr>)) (\<lambda>_.
       integrate_node name)"

definition empty_network :: "params \<Rightarrow> vnet" where
  "empty_network p = \<lparr>vn_params = p, vn_nodes = [], vn_interfaces = [], vn_netconfigs = [], vn_ifaces = [], vn_confs = []\<rparr>"

definition new_network :: "params \<Rightarrow> unit res \<times> vnet" where
  "new_network p = forM (\<lambda>vm. add_node vm (object_params p vm) False) (objects p ''vms'') (empty_network p)"

section \<open>Reattachment\<close>

text \<open>\<open>del netconfig.interfaces[ip]\<close>.\<close>

definition detach_ip :: "nat \<Rightarrow> string \<Rightarrow> (vnet, unit) io" where
  "detach_ip c ip =
     bindM (the_conf c) (\<lambda>nc.
     if dict_has (nc_interfaces nc) ip then run_conf c (modifyM (\<lambda>nc. nc\<lparr>nc_interfaces := dict_del ip (nc_interfaces nc)\<rparr>))
     else raiseM KeyError)"

definition conf_of :: "nat \<Rightarrow> (vnet, nat) io" where
  "conf_of i = bindM (the_iface i) (\<lambda>f. liftM (of_option AttributeError (if_netconfig f)))"

text \<open>A new address from a configuration becomes the address of the interface.\<close>

definition allocate_ip :: "nat \<Rightarrow> nat \<Rightarrow> (vnet, unit) io" where
  "allocate_ip c i = bindM (run_conf c get_allocatable_address) (\<lambda>ip. upd_iface i (\<lambda>f. f\<lparr>if_ip := ip\<rparr>))"

text \<open>Parameters that are set to \<open>None\<close> are absent in the model.\<close>

definition p_assign :: "string \<Rightarrow> string option \<Rightarrow> params \<Rightarrow> params" where
  "p_assign key v p = (case v of None \<Rightarrow> dict_del key p | Some s \<Rightarrow> p_set key s p)"

definition move_interface :: "nat \<Rightarrow> nat \<Rightarrow> (vnet, nat) io" where
  "move_interface i ref_iface =
     bindM (conf_of i) (\<lambda>old_conf.
     bindM (the_iface i) (\<lambda>f.
     bindM (detach_ip old_conf (if_ip f)) (\<lambda>_.
     bindM (conf_of ref_iface) (\<lambda>c.
     bindM (allocate_ip c i) (\<lambda>_.
     bindM (add_interface c i) (\<lambda>_. retM c))))))"

definition move_to_proxy :: "nat \<Rightarrow> nat \<Rightarrow> nat \<Rightarrow> nat \<Rightarrow> (vnet, unit) io" where
  "move_to_proxy c i ref_iface proxy =
     bindM (the_iface i) (\<lambda>f.
     bindM (detach_ip c (if_ip f)) (\<lambda>_.
     bindM (the_iface proxy) (\<lambda>p.
     bindM (upd_iface ref_iface (\<lambda>f. f\<lparr>if_ip := if_ip p\<rparr>)) (\<lambda>_.
     bindM (conf_of proxy) (\<lambda>pc.
     bindM (allocate_ip pc i) (\<lambda>_.
       upd_iface i (\<lambda>f. f\<lparr>if_netconfig := Some pc\<rparr>)))))))"

definition reattach_interface :: "string \<Rightarrow> string \<Rightarrow> string \<Rightarrow> string \<Rightarrow> string \<Rightarrow> (vnet, unit) io" where
  "reattach_interface client server client_role server_role proxy_nic =
     bindM (the_node client) (\<lambda>cn. bindM (liftM (p_getitem (vd_params cn) client_role)) (\<lambda>client_nic.
     bindM (the_node server) (\<lambda>sn. bindM (liftM (p_getitem (vd_params sn) server_role)) (\<lambda>server_nic.
     bindM (named_interface client client_nic) (\<lambda>i.
     bindM (named_interface server server_nic) (\<lambda>ref_iface.
     bindM (if proxy_nic \<in> {[], server_nic} then retM None
            else bindM (named_interface server proxy_nic) (\<lambda>p. retM (Some p))) (\<lambda>proxy.
     bindM (move_interface i ref_iface) (\<lambda>c.
     bindM (case proxy of None \<Rightarrow> retM () | Some p \<Rightarrow> move_to_proxy c i ref_iface p) (\<lambda>_.
     bindM (the_conf c) (\<lambda>nc. bindM (the_iface i) (\<lambda>f.
     let suffix = client_nic @ ''_'' @ client
     in modifyM (\<lambda>w. w\<lparr>vn_params := p_assign (''netmask_'' @ suffix) (nc_netmask nc)
          (p_set (''ip_'' @ suffix) (if_ip f) (p_assign (''netdst_'' @ suffix) (nc_netdst nc) (vn_params w)))\<rparr>))))))))))))"

section \<open>Change of a network address\<close>

definition translate_interface :: "nat \<Rightarrow> string \<Rightarrow> nat \<Rightarrow> (vnet, unit) io" where
  "translate_interface c new_ip i =
     bindM (the_iface i) (\<lambda>f.
     bindM (detach_ip c (if_ip f)) (\<lambda>_.
     bindM (the_conf c) (\<lambda>nc.
     bindM (liftM (translate_address nc (if_ip f) new_ip)) (\<lambda>ip.
     bindM (upd_iface i (\<lambda>f. f\<lparr>if_ip := ip\<rparr>)) (\<lambda>_.
       run_conf c (modifyM (\<lambda>nc. nc\<lparr>nc_interfaces := dict_set ip i (nc_interfaces nc)\<rparr>)))))))"

definition forget_conf :: "nat \<Rightarrow> (vnet, unit) io" where
  "forget_conf c =
     bindM (the_conf c) (\<lambda>nc. bindM (getM vn_netconfigs) (\<lambda>d.
     let ip = str_of (nc_net_ip nc)
     in if dict_has d ip then modifyM (\<lambda>w. w\<lparr>vn_netconfigs := dict_del ip (vn_netconfigs w)\<rparr>) else raiseM KeyError))"

definition record_address :: "(nat \<Rightarrow> unit res) \<Rightarrow> string option \<Rightarrow> nat \<Rightarrow> (vnet, unit) io" where
  "record_address reconfigure new_mask i =
     bindM (the_iface i) (\<lambda>f.
     bindM (liftM (of_option AttributeError (if_node f))) (\<lambda>name.
     bindM (liftM (reconfigure i)) (\<lambda>_.
     bindM (upd_iface i (\<lambda>f. f\<lparr>if_params := p_set ''ip'' (if_ip f) (p_assign ''netmask'' new_mask (if_params f))\<rparr>)) (\<lambda>_.
     bindM (the_node name) (\<lambda>node.
     let key = ''ip_'' @ if_name f
     in modifyM (\<lambda>w. w\<lparr>vn_nodes := dict_set name
          (node\<lparr>vd_params := p_set (key @ ''_'' @ name) (if_ip f) (p_set key (if_ip f) (vd_params node))\<rparr>) (vn_nodes w)\<rparr>))))))"

definition change_network_address :: "(nat \<Rightarrow> unit res) \<Rightarrow> nat \<Rightarrow> string \<Rightarrow> string option \<Rightarrow> (vnet, unit) io" where
  "change_network_address reconfigure c new_ip new_mask =
     bindM (the_conf c) (\<lambda>nc.
     bindM (forM (translate_interface c new_ip) (map snd (nc_interfaces nc))) (\<lambda>_.
     bindM (the_conf c) (\<lambda>nc.
     if nc_interfaces nc = [] then raiseM AssertionError
     else bindM (the_iface (snd (last (nc_interfaces nc)))) (\<lambda>f.
          bindM (liftM (translate_address nc (str_of (nc_gateway nc)) new_ip)) (\<lambda>gateway.
          let p = p_set ''ip_provider'' gateway (p_set ''ip'' new_ip (if_params f));
              p = (case new_mask of None \<Rightarrow> p | Some m \<Rightarrow> p_set ''netmask'' m p)
          in bindM (liftM (new_interface (if_name f) p)) (\<lambda>g.
             bindM (forget_conf c) (\<lambda>_.
             bindM (run_conf c (from_interface (if_params g) (if_ip g))) (\<lambda>_.
             bindM (validate_conf c) (\<lambda>_.
             bindM (store_conf c) (\<lambda>_.
             bindM (the_conf c) (\<lambda>nc.
               forM (record_address reconfigure new_mask) (map snd (nc_interfaces nc))))))))))))) "

section \<open>Spawned clients\<close>

definition client_mac :: "string \<Rightarrow> nat \<Rightarrow> string" where
  "client_mac mac i =
     (let sections = split_on (CHR '':'') mac; section = show_nat i
      in join '':'' (take 3 sections @ [if length section < 2 then CHR ''0'' # section else section]
           @ drop (length sections - 2) sections))"

definition client_params :: "params \<Rightarrow> string \<Rightarrow> string \<Rightarrow> nat \<Rightarrow> string \<Rightarrow> netconfig \<Rightarrow> params \<Rightarrow> params" where
  "client_params net_params server mac i ip nc d =
     (let client = server @ ''eph'' @ show_nat i; nic = client @ ''nic''; vms = ''vms_'' @ server;
          d = p_set vms (p_get_or d vms [] @ client @ '' '') d;
          d = fold (\<lambda>(k, v). p_set (k @ ''_'' @ client) v)
            [(''start_vm'', ''yes''), (''kill_vm'', p_get_or net_params ''kill_clients'' ''yes''), (''mem'', ''512''), (''images'', []),
             (''boot_order'', ''dcn''), (''cdroms'', ''cd_rip''), (''shell_prompt'', ''^['' @ [CHR 0x5C] @ ''#'' @ [CHR 0x5C] @ ''$]''),
             (''isa_serials'', ''serial1''), (''nics'', nic), (''nic_model'', ''e1000'')] d
      in p_assign (''netdst_'' @ nic) (nc_netdst nc) (p_assign (''netmask_'' @ nic) (nc_netmask nc)
           (p_set (''ip_'' @ nic) ip (p_set (''mac_'' @ nic) (client_mac mac i) d))))"

primrec generate_clients :: "params \<Rightarrow> string \<Rightarrow> string \<Rightarrow> nat list \<Rightarrow> params \<Rightarrow> (netconfig, params) io" where
  "generate_clients net_params server mac [] d = retM d"
| "generate_clients net_params server mac (i # is) d =
     bindM get_allocatable_address (\<lambda>ip.
     bindM (getM id) (\<lambda>nc.
       generate_clients net_params server mac is (client_params net_params server mac i ip nc d)))"

definition generate_clients_parameters :: "string \<Rightarrow> nat \<Rightarrow> string \<Rightarrow> (vnet, params) io" where
  "generate_clients_parameters server_name clients_num nic_role =
     bindM (the_node server_name) (\<lambda>node. bindM (liftM (p_getitem (vd_params node) nic_role)) (\<lambda>nic.
     bindM (liftM (of_option KeyError (map_of (vd_interfaces node) nic))) (\<lambda>i.
     bindM (the_iface i) (\<lambda>f.
     bindM (getM vn_params) (\<lambda>net_params.
     let start = p_set (''vms_'' @ server_name) [] []
     in if clients_num = 0 then retM start
        else bindM (conf_of i) (\<lambda>c. run_conf c (generate_clients net_params server_name (if_mac f) [1..<Suc clients_num] start)))))))"


section \<open>The tables and the interfaces\<close>

text \<open>
  The invariant of a network: the configurations are found by their addresses, an interface in
  the table of a configuration is there under its own address and belongs to that configuration,
  and every configuration would pass its validation again. Configurations that an operation is
  working on are left out.
\<close>

definition table_ids :: "netconfig \<Rightarrow> nat set" where
  "table_ids nc = snd ` set (nc_interfaces nc)"

definition entry_ok :: "iface list \<Rightarrow> nat \<Rightarrow> string \<times> nat \<Rightarrow> bool" where
  "entry_ok ifs c e \<longleftrightarrow> snd e < length ifs \<and> if_ip (ifs ! snd e) = fst e \<and> if_netconfig (ifs ! snd e) = Some c"

definition table_ok :: "iface list \<Rightarrow> nat \<Rightarrow> netconfig \<Rightarrow> bool" where
  "table_ok ifs c nc \<longleftrightarrow> distinct (map fst (nc_interfaces nc)) \<and> list_all (entry_ok ifs c) (nc_interfaces nc)"

definition conf_ok :: "iface list \<Rightarrow> nat \<Rightarrow> netconfig \<Rightarrow> bool" where
  "conf_ok ifs c nc \<longleftrightarrow> table_ok ifs c nc \<and> validate (\<lambda>j. ifs ! j) c nc = Inr ()"

definition net_ok_but :: "nat set \<Rightarrow> vnet \<Rightarrow> bool" where
  "net_ok_but S w \<longleftrightarrow> list_all (\<lambda>(k, c). c < length (vn_confs w)
     \<and> (c \<notin> S \<longrightarrow> nc_net_ip (vn_confs w ! c) = Some k \<and> conf_ok (vn_ifaces w) c (vn_confs w ! c))) (vn_netconfigs w)"

definition net_ok :: "vnet \<Rightarrow> bool" where
  "net_ok w \<longleftrightarrow> net_ok_but {} w"

lemma table_okD: "table_ok ifs c nc \<Longrightarrow> (ip, i) \<in> set (nc_interfaces nc) \<Longrightarrow> i < length ifs \<and> if_ip (ifs ! i) = ip \<and> if_netconfig (ifs ! i) = Some c"
  by (force simp: table_ok_def list_all_iff entry_ok_def)

lemma table_idsD: "table_ok ifs c nc \<Longrightarrow> i \<in> table_ids nc \<Longrightarrow> i < length ifs \<and> if_netconfig (ifs ! i) = Some c"
  by (auto simp: table_ids_def dest: table_okD)

lemma validate_cong:
  assumes "\<And>i. i \<in> table_ids nc \<Longrightarrow> f i = g i"
  shows "validate f c nc = validate g c nc"
proof -
  have "check_all (\<lambda>i. check_interface c nc own i (f i)) is = check_all (\<lambda>i. check_interface c nc own i (g i)) is"
    if "set is \<subseteq> table_ids nc" for own "is"
    using that by (induction "is") (simp_all add: assms)
  then show ?thesis by (simp add: validate_def table_ids_def)
qed

lemma entry_ok_upd: "snd e \<noteq> i \<Longrightarrow> entry_ok (ifs[i := f]) c e = entry_ok ifs c e"
  by (simp add: entry_ok_def nth_list_update_neq)

lemma table_ok_upd: "table_ok ifs c nc \<Longrightarrow> i \<notin> table_ids nc \<Longrightarrow> table_ok (ifs[i := f]) c nc"
  unfolding table_ok_def list_all_iff table_ids_def by (metis entry_ok_upd imageI)

lemma conf_ok_upd: "conf_ok ifs c nc \<Longrightarrow> i \<notin> table_ids nc \<Longrightarrow> conf_ok (ifs[i := f]) c nc"
proof -
  assume c: "conf_ok ifs c nc" and i: "i \<notin> table_ids nc"
  have "validate (\<lambda>j. ifs[i := f] ! j) c nc = validate (\<lambda>j. ifs ! j) c nc"
    using i by (intro validate_cong) (metis nth_list_update_neq)
  moreover have "table_ok (ifs[i := f]) c nc"
    using c i by (simp add: conf_ok_def table_ok_upd)
  ultimately show ?thesis using c by (simp add: conf_ok_def)
qed

lemma conf_ok_append: "conf_ok ifs c nc \<Longrightarrow> conf_ok (ifs @ fs) c nc"
proof -
  assume c: "conf_ok ifs c nc"
  then have "validate (\<lambda>j. (ifs @ fs) ! j) c nc = validate (\<lambda>j. ifs ! j) c nc"
    by (intro validate_cong) (auto simp: conf_ok_def nth_append dest: table_idsD)
  moreover have "table_ok (ifs @ fs) c nc"
    using c by (auto simp: conf_ok_def table_ok_def list_all_iff entry_ok_def nth_append)
  ultimately show ?thesis using c by (simp add: conf_ok_def)
qed

text \<open>An interface that no table but those being worked on can hold.\<close>

definition loose :: "nat set \<Rightarrow> nat \<Rightarrow> vnet \<Rightarrow> bool" where
  "loose S i w \<longleftrightarrow> list_all (\<lambda>(k, c). c \<notin> S \<longrightarrow> i \<notin> table_ids (vn_confs w ! c)) (vn_netconfigs w)"

lemma looseI: "net_ok_but S w \<Longrightarrow> case if_netconfig (vn_ifaces w ! i) of None \<Rightarrow> True | Some c \<Rightarrow> c \<in> S \<Longrightarrow> loose S i w"
  by (fastforce simp: net_ok_but_def loose_def list_all_iff conf_ok_def dest: table_idsD split: option.splits)

lemma net_ok_iface:
  "net_ok_but S w \<Longrightarrow> loose S i w \<Longrightarrow> net_ok_but S (w\<lparr>vn_ifaces := (vn_ifaces w)[i := f]\<rparr>)"
  unfolding net_ok_but_def loose_def list_all_iff by (auto intro: conf_ok_upd)

lemma net_ok_conf:
  assumes "net_ok_but S w" and "c \<in> S"
  shows "net_ok_but S (w\<lparr>vn_confs := (vn_confs w)[c := nc]\<rparr>)"
proof -
  have "(vn_confs w)[c := nc] ! x = vn_confs w ! x" if "x \<notin> S" for x
    using assms(2) that by (metis nth_list_update_neq)
  with assms(1) show ?thesis by (auto simp: net_ok_but_def list_all_iff)
qed

lemma net_ok_mono: "net_ok_but S w \<Longrightarrow> S \<subseteq> T \<Longrightarrow> net_ok_but T w"
  by (auto simp: net_ok_but_def list_all_iff)

lemma net_ok_frame:
  "vn_netconfigs v = vn_netconfigs w \<Longrightarrow> vn_confs v = vn_confs w \<Longrightarrow> vn_ifaces v = vn_ifaces w \<Longrightarrow> net_ok_but S v = net_ok_but S w"
  by (simp add: net_ok_but_def)

section \<open>Running the elementary steps\<close>

lemma io_steps:
  "bindM (the_iface i) f w = f (vn_ifaces w ! i) w"
  "bindM (the_conf c) g w = g (vn_confs w ! c) w"
  "bindM (upd_iface i h) k w = k () (w\<lparr>vn_ifaces := (vn_ifaces w)[i := h (vn_ifaces w ! i)]\<rparr>)"
  "bindM (run_conf c (modifyM m)) k w = k () (w\<lparr>vn_confs := (vn_confs w)[c := m (vn_confs w ! c)]\<rparr>)"
  "bindM (getM p) q w = q (p w) w"
  "bindM (modifyM r) k w = k () (r w)"
  by (simp_all add: bindM_def the_iface_def the_conf_def upd_iface_def run_conf_def io_run)

lemma lift_step: "bindM (liftM r) k w = (Inr y, v) \<longleftrightarrow> (\<exists>x. r = Inr x \<and> k x w = (Inr y, v))"
  by (cases r) (auto simp: raiseM_def)

lemma validate_conf_run: "validate_conf c w = (validate (\<lambda>j. vn_ifaces w ! j) c (vn_confs w ! c), w)"
  by (simp add: validate_conf_def bindM_def io_run)

lemma validated: "validate_conf c w = (Inr u, v) \<longleftrightarrow> validate (\<lambda>j. vn_ifaces w ! j) c (vn_confs w ! c) = Inr () \<and> v = w"
  by (auto simp: validate_conf_run)

text \<open>
  The table of a configuration that is worked on: all entries but those of one interface are in
  order.
\<close>

lemma set_dict_set: "distinct (map fst d) \<Longrightarrow> set (dict_set k v d) \<subseteq> insert (k, v) {e \<in> set d. fst e \<noteq> k}"
  by (induction d) (auto simp: dict_set_def split: if_splits intro: rev_image_eqI)


section \<open>The operations keep the invariant\<close>

lemma net_okD: "net_ok_but S w \<Longrightarrow> (k, c) \<in> set (vn_netconfigs w) \<Longrightarrow> c < length (vn_confs w)"
  "net_ok_but S w \<Longrightarrow> (k, c) \<in> set (vn_netconfigs w) \<Longrightarrow> c \<notin> S \<Longrightarrow>
    nc_net_ip (vn_confs w ! c) = Some k \<and> conf_ok (vn_ifaces w) c (vn_confs w ! c)"
  by (auto simp: net_ok_but_def list_all_iff)

lemma net_okI:
  assumes "\<And>k c. (k, c) \<in> set (vn_netconfigs w) \<Longrightarrow> c < length (vn_confs w)"
    and "\<And>k c. (k, c) \<in> set (vn_netconfigs w) \<Longrightarrow> c \<notin> S \<Longrightarrow>
      nc_net_ip (vn_confs w ! c) = Some k \<and> conf_ok (vn_ifaces w) c (vn_confs w ! c)"
  shows "net_ok_but S w"
  using assms by (auto simp: net_ok_but_def list_all_iff)

lemma net_ok_close:
  assumes "net_ok_but {c} w" and "\<And>k. (k, c) \<in> set (vn_netconfigs w) \<Longrightarrow>
      nc_net_ip (vn_confs w ! c) = Some k \<and> conf_ok (vn_ifaces w) c (vn_confs w ! c)"
  shows "net_ok w"
  unfolding net_ok_def
  by (rule net_okI) (use assms net_okD in \<open>metis singletonD\<close>)+

text \<open>What a step leaves alone: all interfaces but one, and the addresses of the networks.\<close>

definition only_iface :: "nat \<Rightarrow> vnet \<Rightarrow> vnet \<Rightarrow> bool" where
  "only_iface i w v \<longleftrightarrow> length (vn_ifaces v) = length (vn_ifaces w) \<and> (\<forall>j. j \<noteq> i \<longrightarrow> vn_ifaces v ! j = vn_ifaces w ! j)"

lemma only_iface_upd: "only_iface i w (w\<lparr>vn_ifaces := (vn_ifaces w)[i := f]\<rparr>)"
  by (simp add: only_iface_def nth_list_update_neq)

text \<open>Putting an interface that no other table holds under its address.\<close>

lemma table_ok_insert:
  assumes "table_ok ifs c nc" and "i \<notin> table_ids nc" and "i < length ifs" and "if_ip f = ip" and "if_netconfig f = Some c"
  shows "table_ok (ifs[i := f]) c (nc\<lparr>nc_interfaces := dict_set ip i (nc_interfaces nc)\<rparr>)"
proof -
  have d: "distinct (map fst (nc_interfaces nc))" and e: "\<And>e. e \<in> set (nc_interfaces nc) \<Longrightarrow> entry_ok ifs c e"
    using assms(1) by (auto simp: table_ok_def list_all_iff)
  have "distinct (map fst (dict_set ip i (nc_interfaces nc)))" using d by (simp add: dict_set_def distinct_update)
  moreover have "entry_ok (ifs[i := f]) c x" if x: "x \<in> set (dict_set ip i (nc_interfaces nc))" for x
  proof -
    consider "x = (ip, i)" | "x \<in> set (nc_interfaces nc)" using set_dict_set [OF d] x by blast
    then show ?thesis
    proof cases
      case 2
      then have "snd x \<noteq> i" using assms(2) by (auto simp: table_ids_def)
      then show ?thesis using e [OF 2] by (simp add: entry_ok_upd)
    qed (use assms in \<open>simp add: entry_ok_def\<close>)
  qed
  ultimately show ?thesis by (simp add: table_ok_def list_all_iff)
qed

lemma add_interface_ok:
  assumes run: "add_interface c i w = (Inr u, v)" and ok: "net_ok_but {c} w" and loose: "loose {c} i w"
  shows "net_ok_but {c} v" and "only_iface i w v" and "vn_netconfigs v = vn_netconfigs w"
    and "length (vn_confs v) = length (vn_confs w)" and "vn_nodes v = vn_nodes w"
    and "c < length (vn_confs w) \<Longrightarrow> nc_net_ip (vn_confs v ! c) = nc_net_ip (vn_confs w ! c)"
    and "c < length (vn_confs w) \<Longrightarrow> i < length (vn_ifaces w) \<Longrightarrow> table_ok (vn_ifaces w) c (vn_confs w ! c) \<Longrightarrow>
      i \<notin> table_ids (vn_confs w ! c) \<Longrightarrow> conf_ok (vn_ifaces v) c (vn_confs v ! c)"
proof -
  let ?f = "vn_ifaces w ! i"
  let ?nc = "(vn_confs w ! c)\<lparr>nc_interfaces := dict_set (if_ip ?f) i (nc_interfaces (vn_confs w ! c))\<rparr>"
  have v: "v = w\<lparr>vn_confs := (vn_confs w)[c := ?nc], vn_ifaces := (vn_ifaces w)[i := ?f\<lparr>if_netconfig := Some c\<rparr>]\<rparr>"
    and valid: "validate (\<lambda>j. vn_ifaces v ! j) c (vn_confs v ! c) = Inr ()"
    using run by (auto simp: add_interface_def io_steps validated)
  have "net_ok_but {c} (w\<lparr>vn_confs := (vn_confs w)[c := ?nc]\<rparr>)" using ok by (rule net_ok_conf) simp
  moreover have "loose {c} i (w\<lparr>vn_confs := (vn_confs w)[c := ?nc]\<rparr>)"
    using loose by (auto simp: loose_def list_all_iff nth_list_update_neq)
  ultimately show "net_ok_but {c} v" using net_ok_iface unfolding v by fastforce
  show "only_iface i w v" "vn_netconfigs v = vn_netconfigs w" "length (vn_confs v) = length (vn_confs w)" "vn_nodes v = vn_nodes w"
    by (simp_all add: v only_iface_def nth_list_update_neq)
  assume c: "c < length (vn_confs w)"
  then show "nc_net_ip (vn_confs v ! c) = nc_net_ip (vn_confs w ! c)" by (simp add: v)
  assume "i < length (vn_ifaces w)" "table_ok (vn_ifaces w) c (vn_confs w ! c)" "i \<notin> table_ids (vn_confs w ! c)"
  then show "conf_ok (vn_ifaces v) c (vn_confs v ! c)"
    using valid c table_ok_insert [of "vn_ifaces w" c "vn_confs w ! c" i "?f\<lparr>if_netconfig := Some c\<rparr>"]
    by (simp add: conf_ok_def v)
qed

lemma loose_mono: "loose S i w \<Longrightarrow> S \<subseteq> T \<Longrightarrow> loose T i w"
  by (auto simp: loose_def list_all_iff)

text \<open>Adding to a configuration of the network.\<close>

lemma add_interface_net_ok:
  assumes run: "add_interface c i w = (Inr u, v)" and ok: "net_ok w" and loose: "loose {} i w" and i: "i < length (vn_ifaces w)"
  shows "net_ok v" and "only_iface i w v" and "vn_nodes v = vn_nodes w"
proof -
  note eff = add_interface_ok [OF run net_ok_mono [OF ok [unfolded net_ok_def]] loose_mono [OF loose], simplified]
  show "net_ok v"
  proof (rule net_ok_close [OF eff(1)])
    fix k assume k: "(k, c) \<in> set (vn_netconfigs v)"
    then have k': "(k, c) \<in> set (vn_netconfigs w)" using eff(3) by simp
    have "c < length (vn_confs w)" "nc_net_ip (vn_confs w ! c) = Some k" "table_ok (vn_ifaces w) c (vn_confs w ! c)"
      using net_okD [OF ok [unfolded net_ok_def] k'] by (auto simp: conf_ok_def)
    moreover have "i \<notin> table_ids (vn_confs w ! c)" using loose k' by (auto simp: loose_def list_all_iff)
    ultimately show "nc_net_ip (vn_confs v ! c) = Some k \<and> conf_ok (vn_ifaces v) c (vn_confs v ! c)"
      using eff(6,7) i by simp
  qed
  show "only_iface i w v" "vn_nodes v = vn_nodes w" by (fact eff(2,5))+
qed


lemma set_dict_set_subset: "set (dict_set k v d) \<subseteq> insert (k, v) (set d)"
  by (induction d) (auto simp: dict_set_def split: if_splits)

lemma from_interface_effect:
  "from_interface p ip nc = (Inr u, nc') \<Longrightarrow> nc_interfaces nc' = nc_interfaces nc \<and> (\<exists>k. nc_net_ip nc' = Some k)"
  by (auto simp: from_interface_def set_main_def set_range_def set_services_def bindM_eq_Inr io_eq_Inr modifyM_def Let_def)

lemma run_conf_Inr:
  "bindM (run_conf c m) k w = (Inr y, v) \<longleftrightarrow>
   (\<exists>x nc. m (vn_confs w ! c) = (Inr x, nc) \<and> k x (w\<lparr>vn_confs := (vn_confs w)[c := nc]\<rparr>) = (Inr y, v))"
  by (auto simp: bindM_def run_conf_def split: prod.splits sum.splits)

lemma store_conf_run: "store_conf c w = (Inr (), w\<lparr>vn_netconfigs := dict_set (str_of (nc_net_ip (vn_confs w ! c))) c (vn_netconfigs w)\<rparr>)"
  by (simp add: store_conf_def modifyM_def)

lemma store_conf_ok:
  assumes "net_ok w" and "c < length (vn_confs w)" and "nc_net_ip (vn_confs w ! c) = Some k" and "conf_ok (vn_ifaces w) c (vn_confs w ! c)"
  shows "net_ok (snd (store_conf c w))"
  unfolding net_ok_def store_conf_run snd_conv
proof (rule net_okI, goal_cases)
  case (1 k' c')
  then show ?case using set_dict_set_subset [of k c "vn_netconfigs w"] assms net_okD(1) [of "{}" w]
    by (auto simp: net_ok_def str_of_def)
next
  case (2 k' c')
  then show ?case using set_dict_set_subset [of k c "vn_netconfigs w"] assms net_okD(2) [of "{}" w]
    by (auto simp: net_ok_def str_of_def)
qed

lemma own_conf_ok:
  assumes run: "own_conf i w = (Inr u, v)" and ok: "net_ok w" and loose: "loose {} i w" and i: "i < length (vn_ifaces w)"
  shows "net_ok v" and "only_iface i w v" and "vn_nodes v = vn_nodes w"
proof -
  let ?c = "length (vn_confs w)"
  obtain nc w2 where made: "from_interface (if_params (vn_ifaces w ! i)) (if_ip (vn_ifaces w ! i)) new_netconfig = (Inr (), nc)"
    and add: "add_interface ?c i (w\<lparr>vn_confs := vn_confs w @ [nc]\<rparr>) = (Inr (), w2)" and v: "v = snd (store_conf ?c w2)"
    using run by (auto simp: own_conf_def io_steps run_conf_Inr bindM_eq_Inr [of "add_interface _ _"] store_conf_run)
  let ?w1 = "w\<lparr>vn_confs := vn_confs w @ [nc]\<rparr>"
  have nc: "nc_interfaces nc = []" "\<exists>k. nc_net_ip nc = Some k"
    using from_interface_effect [OF made] by (simp_all add: new_netconfig_def)
  have keys: "c < ?c" if "(k, c) \<in> set (vn_netconfigs w)" for k c using net_okD(1) ok that unfolding net_ok_def by blast
  have ok1: "net_ok_but {?c} ?w1"
    by (rule net_okI) (use keys net_okD(2) [of "{}" w] ok in \<open>force simp: net_ok_def nth_append\<close>)+
  have loose1: "loose {?c} i ?w1" using loose keys by (auto simp: loose_def list_all_iff nth_append)
  note eff = add_interface_ok [OF add ok1 loose1, simplified]
  have c2: "?c < length (vn_confs w2)" using eff(4) by simp
  have conf: "conf_ok (vn_ifaces w2) ?c (vn_confs w2 ! ?c)"
    using eff(7) i nc(1) by (simp add: table_ok_def table_ids_def)
  have "net_ok w2"
    by (rule net_ok_close [OF eff(1)]) (use eff(3) keys in fastforce)
  then have "net_ok (snd (store_conf ?c w2))" using store_conf_ok c2 eff(6) nc(2) conf by auto
  then show "net_ok v" by (simp add: v)
  show "only_iface i w v" "vn_nodes v = vn_nodes w"
    using eff(2,5) by (simp_all add: v store_conf_run only_iface_def)
qed

lemma place_interface_ok:
  assumes "place_interface i cs w = (Inr u, v)" and "net_ok w" and "loose {} i w" and "i < length (vn_ifaces w)"
  shows "net_ok v" and "only_iface i w v" and "vn_nodes v = vn_nodes w"
proof -
  have "net_ok v \<and> only_iface i w v \<and> vn_nodes v = vn_nodes w"
    using assms(1)
  proof (induction cs)
    case Nil
    then show ?case using own_conf_ok [OF _ assms(2-4)] by simp
  next
    case (Cons c cs)
    then obtain ok where "can_add_interface (vn_confs w ! c) i (vn_ifaces w ! i) = Inr ok"
      and run: "(if ok then add_interface c i else place_interface i cs) w = (Inr u, v)"
      by (auto simp: io_steps lift_step)
    then show ?case using Cons.IH add_interface_net_ok [OF _ assms(2-4)] by (cases ok) simp_all
  qed
  then show "net_ok v" "only_iface i w v" "vn_nodes v = vn_nodes w" by simp_all
qed


text \<open>Interfaces that wait for a configuration.\<close>

definition waiting :: "nat list \<Rightarrow> vnet \<Rightarrow> bool" where
  "waiting ids w \<longleftrightarrow> distinct ids \<and> list_all (\<lambda>i. i < length (vn_ifaces w) \<and> if_netconfig (vn_ifaces w ! i) = None) ids"

definition node_waits :: "string \<Rightarrow> vnet \<Rightarrow> bool" where
  "node_waits name w \<longleftrightarrow> (\<exists>node. map_of (vn_nodes w) name = Some node \<and> waiting (map snd (vd_interfaces node)) w)"

lemma the_node_Inr: "the_node name w = (Inr node, v) \<longleftrightarrow> map_of (vn_nodes w) name = Some node \<and> v = w"
  by (auto simp: the_node_def bindM_def io_run of_option_def split: option.splits)

lemma distinct_dict_set_snd: "distinct (map snd d) \<Longrightarrow> i \<notin> snd ` set d \<Longrightarrow> distinct (map snd (dict_set k i d))"
proof (induction d)
  case (Cons x d)
  then show ?case using set_dict_set_subset [of k i d] by (cases x) (auto simp: dict_set_def)
qed (simp add: dict_set_def)

lemma add_nic_ok:
  assumes run: "add_nic name p nic w = (Inr u, v)" and ok: "net_ok w" and waits: "node_waits name w"
  shows "net_ok v" and "node_waits name v"
proof -
  obtain f node where f: "new_interface nic (object_params p nic) = Inr f" and node: "map_of (vn_nodes w) name = Some node"
    and v: "v = w\<lparr>vn_ifaces := vn_ifaces w @ [f\<lparr>if_node := Some name\<rparr>],
         vn_interfaces := dict_set (name @ ''.'' @ nic) (length (vn_ifaces w)) (vn_interfaces w),
         vn_nodes := dict_set name (node\<lparr>vd_interfaces := dict_set nic (length (vn_ifaces w)) (vd_interfaces node)\<rparr>) (vn_nodes w)\<rparr>"
    using run by (auto simp: add_nic_def lift_step io_steps bindM_eq_Inr [of "the_node _"] the_node_Inr modifyM_def)
  show "net_ok v"
    unfolding net_ok_def by (rule net_okI) (use net_okD [of "{}" w] ok in \<open>auto simp: net_ok_def v intro: conf_ok_append\<close>)
  have w: "waiting (map snd (vd_interfaces node)) w" using waits node by (simp add: node_waits_def)
  have "if_netconfig f = None" using f by (auto simp: new_interface_def bindE_Inr_iff)
  moreover have "length (vn_ifaces w) \<notin> snd ` set (vd_interfaces node)" using w by (auto simp: waiting_def list_all_iff)
  ultimately have "waiting (map snd (dict_set nic (length (vn_ifaces w)) (vd_interfaces node))) v"
    using w set_dict_set_subset [of nic "length (vn_ifaces w)" "vd_interfaces node"] distinct_dict_set_snd
    by (fastforce simp: waiting_def list_all_iff v nth_append)
  then show "node_waits name v" by (simp add: node_waits_def v)
qed

lemma place_any_run: "place_any i w = place_interface i (map snd (vn_netconfigs w)) w"
  by (simp add: place_any_def io_steps)

lemma place_all_ok:
  assumes "forM place_any ids w = (Inr u, v)"
    and "net_ok w" and "waiting ids w"
  shows "net_ok v"
  using assms
proof (induction ids arbitrary: w)
  case (Cons i ids)
  obtain w1 where "place_any i w = (Inr (), w1)" and rest: "forM place_any ids w1 = (Inr u, v)"
    using Cons.prems(1) by (auto simp: thenM_def bindM_eq_Inr)
  then have place: "place_interface i (map snd (vn_netconfigs w)) w = (Inr (), w1)" by (simp add: place_any_run)
  have i: "i < length (vn_ifaces w)" "if_netconfig (vn_ifaces w ! i) = None"
    using Cons.prems(3) by (simp_all add: waiting_def)
  have loose: "loose {} i w" using looseI Cons.prems(2) i(2) by (fastforce simp: net_ok_def)
  note eff = place_interface_ok [OF place Cons.prems(2) loose i(1)]
  have "waiting ids w1" using Cons.prems(3) eff(2) by (auto simp: waiting_def only_iface_def list_all_iff)
  then show ?case by (rule Cons.IH [OF rest eff(1)])
qed (simp add: io_run)

lemma integrate_node_ok:
  assumes run: "integrate_node name w = (Inr u, v)" and ok: "net_ok w"
  shows "net_ok v"
proof -
  obtain node w1 node1 where node: "map_of (vn_nodes w) name = Some node" "vd_interfaces node = []"
    and nics: "forM (add_nic name (vd_params node)) (objects (vd_params node) ''nics'') w = (Inr (), w1)"
    and node1: "map_of (vn_nodes w1) name = Some node1"
    and place: "forM place_any (map snd (vd_interfaces node1)) w1 = (Inr u, v)"
    using run by (auto simp: integrate_node_def bindM_eq_Inr the_node_Inr io_eq_Inr split: if_splits)
  have "wpM (add_nic name (vd_params node) nic) (\<lambda>_ _. True) (\<lambda>_ w. net_ok w \<and> node_waits name w) w'"
    if "net_ok w' \<and> node_waits name w'" for nic w'
    using add_nic_ok that by (auto simp: wpM_def split: prod.splits sum.splits)
  then have "wpM (forM (add_nic name (vd_params node)) (objects (vd_params node) ''nics'')) (\<lambda>_ _. True)
      (\<lambda>_ w. net_ok w \<and> node_waits name w) w"
    using ok node by (intro wpM_forM) (simp_all add: node_waits_def waiting_def)
  then have "net_ok w1" "node_waits name w1" using nics by (simp_all add: wpM_def)
  then show ?thesis using place_all_ok [OF place] node1 by (simp add: node_waits_def)
qed


section \<open>Detaching and allocating\<close>

text \<open>What a validation depends on, beside the interfaces.\<close>

definition same_net :: "netconfig \<Rightarrow> netconfig \<Rightarrow> bool" where
  "same_net nc nc' \<longleftrightarrow> nc_netmask nc' = nc_netmask nc \<and> nc_net_ip nc' = nc_net_ip nc \<and> nc_host_ip nc' = nc_host_ip nc
     \<and> dict_keys (nc_range nc') = dict_keys (nc_range nc)"

lemma same_net_simps:
  assumes "same_net nc nc'"
  shows "with_mask nc' = with_mask nc" and "host_address nc' = host_address nc" and "ip_start nc' = ip_start nc" and "ip_end nc' = ip_end nc"
proof -
  show m: "with_mask nc' = with_mask nc" using assms by (simp add: same_net_def with_mask_def mask_bit_def fun_eq_iff)
  show "host_address nc' = host_address nc" using assms by (simp add: same_net_def host_address_def m split: option.split)
  have "nc_range nc' = [] \<longleftrightarrow> nc_range nc = []" using assms by (metis dict_keys_def map_is_Nil_conv same_net_def)
  then show "ip_start nc' = ip_start nc" "ip_end nc' = ip_end nc"
    using assms by (simp_all add: same_net_def ip_start_def ip_end_def net_plus_def range_min_def range_max_def)
qed

lemma validate_shrink:
  assumes valid: "validate f c nc = Inr ()" and same: "same_net nc nc'"
    and sub: "set (nc_interfaces nc') \<subseteq> set (nc_interfaces nc)"
    and kept: "\<And>i. i \<in> table_ids nc' \<Longrightarrow> map_of (nc_interfaces nc') (if_ip (f i)) = map_of (nc_interfaces nc) (if_ip (f i))"
  shows "validate f c nc' = Inr ()"
proof -
  obtain own where own: "with_mask nc (str_of (nc_net_ip nc)) = Inr own"
    and checks: "list_all (\<lambda>i. check_interface c nc own i (f i) = Inr ()) (map snd (nc_interfaces nc))"
    using valid by (auto simp: validate_def bindE_Inr_iff check_all_Inr)
  have "check_interface c nc' own i (f i) = check_interface c nc own i (f i)" if "i \<in> table_ids nc'" for i
    using kept [OF that] by (simp add: check_interface_def same_net_simps [OF same] split: option.split)
  then have "list_all (\<lambda>i. check_interface c nc' own i (f i) = Inr ()) (map snd (nc_interfaces nc'))"
    using checks sub by (auto simp: list_all_iff table_ids_def)
  moreover have "nc_net_ip nc' = nc_net_ip nc" using same by (simp add: same_net_def)
  ultimately show ?thesis
    using valid own by (auto simp: validate_def bindE_Inr_iff check_all_Inr same_net_simps [OF same])
qed

lemma set_dict_del: "set (dict_del k d) = {e \<in> set d. fst e \<noteq> k}"
  by (induction d) (auto simp: dict_del_def)

lemma conf_ok_del: "conf_ok ifs c nc \<Longrightarrow> conf_ok ifs c (nc\<lparr>nc_interfaces := dict_del ip (nc_interfaces nc)\<rparr>)"
proof -
  assume ok: "conf_ok ifs c nc"
  let ?nc' = "nc\<lparr>nc_interfaces := dict_del ip (nc_interfaces nc)\<rparr>"
  have t: "table_ok ifs c ?nc'"
    using ok distinct_delete [of "nc_interfaces nc" ip]
    by (simp add: conf_ok_def table_ok_def list_all_iff set_dict_del) (simp add: dict_del_def)
  have "map_of (dict_del ip (nc_interfaces nc)) (if_ip (ifs ! i)) = map_of (nc_interfaces nc) (if_ip (ifs ! i))"
    if i: "i \<in> table_ids ?nc'" for i
  proof -
    obtain k where k: "(k, i) \<in> set (nc_interfaces ?nc')" using i by (auto simp: table_ids_def)
    then have "if_ip (ifs ! i) = k" "k \<noteq> ip" using table_okD [OF t k] by (auto simp: set_dict_del)
    then show ?thesis by simp
  qed
  then have kept: "map_of (nc_interfaces ?nc') (if_ip (ifs ! i)) = map_of (nc_interfaces nc) (if_ip (ifs ! i))" if "i \<in> table_ids ?nc'" for i
    using that by simp
  have "validate (\<lambda>j. ifs ! j) c ?nc' = Inr ()"
  proof (rule validate_shrink)
    show "validate (\<lambda>j. ifs ! j) c nc = Inr ()" using ok by (simp add: conf_ok_def)
    show "same_net nc ?nc'" by (simp add: same_net_def)
    show "set (nc_interfaces ?nc') \<subseteq> set (nc_interfaces nc)" by (auto simp: set_dict_del)
  qed (rule kept)
  with t show ?thesis by (simp add: conf_ok_def)
qed

lemma net_ok_conf_at:
  assumes ok: "net_ok_but S w"
    and nc: "conf_ok (vn_ifaces w) c (vn_confs w ! c) \<Longrightarrow> conf_ok (vn_ifaces w) c nc \<and> nc_net_ip nc = nc_net_ip (vn_confs w ! c)"
  shows "net_ok_but S (w\<lparr>vn_confs := (vn_confs w)[c := nc]\<rparr>)"
proof (rule net_okI, goal_cases)
  case (1 k c')
  then show ?case using net_okD(1) [OF ok] by simp
next
  case (2 k c')
  then have "c' < length (vn_confs w)" "nc_net_ip (vn_confs w ! c') = Some k" "conf_ok (vn_ifaces w) c' (vn_confs w ! c')"
    using net_okD [OF ok, of k c'] by simp_all
  then show ?case using nc by (cases "c' = c") simp_all
qed

lemma detach_ip_Inr: "bindM (detach_ip c ip) k w = (Inr y, v) \<longleftrightarrow> dict_has (nc_interfaces (vn_confs w ! c)) ip
    \<and> k () (w\<lparr>vn_confs := (vn_confs w)[c := (vn_confs w ! c)\<lparr>nc_interfaces := dict_del ip (nc_interfaces (vn_confs w ! c))\<rparr>]\<rparr>) = (Inr y, v)"
  by (simp add: detach_ip_def bindM_assoc io_steps raiseM_def)

lemma first_free_key: "first_free r = Some v \<Longrightarrow> v \<in> set (dict_keys r)"
  by (induction r rule: first_free.induct) (auto simp: dict_keys_def split: if_splits)

lemma allocated:
  assumes "get_allocatable_address nc = (Inr ip, nc')"
  shows "same_net nc nc'" and "nc_interfaces nc' = nc_interfaces nc"
proof -
  obtain v where v: "first_free (nc_range nc) = Some v" and nc': "nc' = nc\<lparr>nc_range := dict_set v True (nc_range nc)\<rparr>"
    using assms by (auto simp: get_allocatable_address_def bindM_def io_run split: option.splits)
  have "v \<in> set (dict_keys (nc_range nc))" using first_free_key [OF v] .
  then show "same_net nc nc'" "nc_interfaces nc' = nc_interfaces nc"
    by (simp_all add: nc' same_net_def dict_set_keys dict_has_iff)
qed

lemma conf_ok_same: "conf_ok ifs c nc \<Longrightarrow> same_net nc nc' \<Longrightarrow> nc_interfaces nc' = nc_interfaces nc \<Longrightarrow> conf_ok ifs c nc'"
  using validate_shrink [of "\<lambda>j. ifs ! j" c nc nc'] by (auto simp: conf_ok_def table_ok_def)

lemma conf_of_Inr: "bindM (conf_of i) k w = (Inr y, v) \<longleftrightarrow> (\<exists>c. if_netconfig (vn_ifaces w ! i) = Some c \<and> k c w = (Inr y, v))"
  by (auto simp: conf_of_def bindM_assoc io_steps lift_step of_option_def split: option.splits)

lemma allocate_ip_Inr: "bindM (allocate_ip c i) k w = (Inr y, v) \<longleftrightarrow>
  (\<exists>ip nc. get_allocatable_address (vn_confs w ! c) = (Inr ip, nc)
    \<and> k () (w\<lparr>vn_confs := (vn_confs w)[c := nc], vn_ifaces := (vn_ifaces w)[i := (vn_ifaces w ! i)\<lparr>if_ip := ip\<rparr>]\<rparr>) = (Inr y, v))"
  by (simp add: allocate_ip_def bindM_assoc run_conf_Inr io_steps)

lemma detached_ok:
  assumes "net_ok w"
  shows "net_ok (w\<lparr>vn_confs := (vn_confs w)[c := (vn_confs w ! c)\<lparr>nc_interfaces := dict_del ip (nc_interfaces (vn_confs w ! c))\<rparr>]\<rparr>)"
  using assms unfolding net_ok_def by (rule net_ok_conf_at) (simp add: conf_ok_del)

lemma detached_loose:
  assumes ok: "net_ok w" and c: "if_netconfig (vn_ifaces w ! i) = Some c"
  shows "loose {} i (w\<lparr>vn_confs := (vn_confs w)[c := (vn_confs w ! c)\<lparr>nc_interfaces := dict_del (if_ip (vn_ifaces w ! i)) (nc_interfaces (vn_confs w ! c))\<rparr>]\<rparr>)"
    (is "loose {} i ?v")
proof -
  have "i \<notin> table_ids (vn_confs ?v ! c')" if k: "(k, c') \<in> set (vn_netconfigs w)" for k c'
  proof
    assume i: "i \<in> table_ids (vn_confs ?v ! c')"
    have t: "table_ok (vn_ifaces w) c' (vn_confs w ! c')" and c': "c' < length (vn_confs w)"
      using net_okD [OF ok [unfolded net_ok_def] k] by (simp_all add: conf_ok_def)
    show False
    proof (cases "c' = c")
      case True
      then obtain ip where "(ip, i) \<in> set (nc_interfaces (vn_confs w ! c'))" "ip \<noteq> if_ip (vn_ifaces w ! i)"
        using i c' by (auto simp: table_ids_def set_dict_del)
      then show False using table_okD [OF t] by blast
    next
      case False
      then show False using i c' c table_idsD [OF t, of i] by (simp add: nth_list_update_neq)
    qed
  qed
  then show ?thesis by (auto simp: loose_def list_all_iff)
qed

lemma same_table: "nc_interfaces nc = nc_interfaces (cs ! c) \<Longrightarrow> nc_interfaces (cs[c := nc] ! x) = nc_interfaces (cs ! x)"
  by (cases "c < length cs"; cases "x = c") (simp_all add: list_update_beyond)

lemma allocated_ok:
  assumes ok: "net_ok w" and loose: "loose {} i w" and nc: "get_allocatable_address (vn_confs w ! c) = (Inr ip, nc)"
  defines "v \<equiv> w\<lparr>vn_confs := (vn_confs w)[c := nc], vn_ifaces := (vn_ifaces w)[i := (vn_ifaces w ! i)\<lparr>if_ip := ip\<rparr>]\<rparr>"
  shows "net_ok v" and "loose {} i v"
proof -
  let ?v1 = "w\<lparr>vn_confs := (vn_confs w)[c := nc]\<rparr>"
  have "net_ok_but {} ?v1"
    using ok unfolding net_ok_def
    by (rule net_ok_conf_at) (use allocated [OF nc] conf_ok_same in \<open>auto simp: same_net_def\<close>)
  moreover have l1: "loose {} i ?v1"
    using loose by (simp add: loose_def table_ids_def same_table allocated(2) [OF nc])
  ultimately show "net_ok v" using net_ok_iface by (fastforce simp: net_ok_def v_def)
  show "loose {} i v" using l1 by (simp add: loose_def v_def)
qed

lemma move_interface_ok:
  assumes run: "move_interface i r w = (Inr c, v)" and ok: "net_ok w" and i: "i < length (vn_ifaces w)"
  shows "net_ok v"
proof -
  let ?f = "vn_ifaces w ! i"
  obtain c0 w1 c1 ip nc w2 where c0: "if_netconfig ?f = Some c0"
    and w1: "w1 = w\<lparr>vn_confs := (vn_confs w)[c0 := (vn_confs w ! c0)\<lparr>nc_interfaces := dict_del (if_ip ?f) (nc_interfaces (vn_confs w ! c0))\<rparr>]\<rparr>"
    and nc: "get_allocatable_address (vn_confs w1 ! c1) = (Inr ip, nc)"
    and w2: "w2 = w1\<lparr>vn_confs := (vn_confs w1)[c1 := nc], vn_ifaces := (vn_ifaces w1)[i := (vn_ifaces w1 ! i)\<lparr>if_ip := ip\<rparr>]\<rparr>"
    and add: "add_interface c1 i w2 = (Inr (), v)"
    using run unfolding move_interface_def conf_of_Inr io_steps detach_ip_Inr allocate_ip_Inr bindM_eq_Inr [of "add_interface _ _"]
    by (auto simp: io_eq_Inr)
  have "net_ok w1" "loose {} i w1" using detached_ok [OF ok] detached_loose [OF ok c0] by (simp_all add: w1)
  from allocated_ok [OF this nc] have "net_ok w2" "loose {} i w2" by (simp_all add: w2)
  then show ?thesis using add_interface_net_ok(1) [OF add] i by (simp add: w1 w2)
qed

text \<open>The named interfaces exist.\<close>

definition named_ok :: "vnet \<Rightarrow> bool" where
  "named_ok w \<longleftrightarrow> list_all (\<lambda>(k, i). i < length (vn_ifaces w)) (vn_interfaces w)"

lemma named_steps [keeps_intros]:
  "keeps named_ok (run_conf c m)" "keeps named_ok (upd_iface i f)" "keeps named_ok (the_iface i)" "keeps named_ok (the_conf c)"
  "keeps named_ok (store_conf c)"
  by (simp_all add: keeps_def named_ok_def run_conf_def upd_iface_def the_iface_def the_conf_def store_conf_def modifyM_def getM_def
      split: prod.split)

lemma named_reads [keeps_intros]:
  "keeps named_ok (the_node n)" "keeps named_ok (named_interface vm nic)" "keeps named_ok (validate_conf c)" "keeps named_ok (conf_of i)"
  unfolding the_node_def named_interface_def validate_conf_def conf_of_def by (intro keeps_intros)+

lemma named_modify [keeps_intros]:
  "(\<And>w. vn_interfaces (h w) = vn_interfaces w \<and> length (vn_ifaces (h w)) = length (vn_ifaces w)) \<Longrightarrow> keeps named_ok (modifyM h)"
  by (simp add: keeps_def named_ok_def modifyM_def)

lemma named_parts [keeps_intros]:
  "keeps named_ok (add_interface c i)" "keeps named_ok (detach_ip c ip)" "keeps named_ok (allocate_ip c i)"
  unfolding add_interface_def detach_ip_def allocate_ip_def by (intro keeps_intros)+

lemma named_proxy [keeps_intros]: "keeps named_ok (move_to_proxy c i r p)"
  unfolding move_to_proxy_def by (intro keeps_intros)

lemma named_add_nic [keeps_intros]: "keeps named_ok (add_nic name p nic)"
proof -
  have "named_ok (snd (add_nic name p nic w))" if "named_ok w" for w
    using that set_dict_set_subset [of "name @ ''.'' @ nic" "length (vn_ifaces w)" "vn_interfaces w"]
    by (fastforce simp: add_nic_def bindM_def io_run the_node_def of_option_def named_ok_def list_all_iff split: sum.splits option.splits)
  then show ?thesis by (simp add: keeps_def)
qed

lemma named_own_conf [keeps_intros]: "keeps named_ok (own_conf i)"
  unfolding own_conf_def by (intro keeps_intros) simp

lemma named_place [keeps_intros]: "keeps named_ok (place_interface i cs)" "keeps named_ok (place_any i)"
proof -
  show "keeps named_ok (place_interface i cs)" for cs by (induction cs) (simp_all add: keeps_intros)
  then show "keeps named_ok (place_any i)" unfolding place_any_def by (intro keeps_intros)
qed

lemma named_integrate: "keeps named_ok (integrate_node name)"
  unfolding integrate_node_def by (intro keeps_intros keeps_forM)

lemma named_reattach: "keeps named_ok (reattach_interface client server client_role server_role proxy)"
  unfolding reattach_interface_def move_interface_def Let_def by (intro keeps_intros) (auto intro!: keeps_intros split: option.split)

text \<open>The operations of a network, without the proxies whose use makes configurations invalid.\<close>

lemma named_interface_Inr: "named_interface vm nic w = (Inr i, v) \<longleftrightarrow> map_of (vn_interfaces w) (vm @ ''.'' @ nic) = Some i \<and> v = w"
  by (auto simp: named_interface_def io_steps liftM_def of_option_def split: option.splits)

lemma reattach_interface_ok:
  assumes run: "reattach_interface client server client_role server_role [] w = (Inr u, v)" and ok: "net_ok w" and named: "named_ok w"
  shows "net_ok v"
proof -
  obtain nic i r c w1 p where i: "map_of (vn_interfaces w) (client @ ''.'' @ nic) = Some i"
    and move: "move_interface i r w = (Inr c, w1)" and v: "v = w1\<lparr>vn_params := p\<rparr>"
    using run by (auto simp: reattach_interface_def bindM_eq_Inr the_node_Inr named_interface_Inr io_eq_Inr the_conf_def the_iface_def
        modifyM_def Let_def)
  have "i < length (vn_ifaces w)" using map_of_SomeD [OF i] named by (auto simp: named_ok_def list_all_iff)
  from move_interface_ok [OF move ok this] show ?thesis by (simp add: v net_ok_def net_ok_but_def)
qed


section \<open>The change of an address\<close>

text \<open>What the parameters of an interface are does not matter for the invariant.\<close>

lemma conf_ok_params:
  assumes "conf_ok ifs c nc" and "if_ip f = if_ip (ifs ! i)" and "if_netconfig f = if_netconfig (ifs ! i)"
  shows "conf_ok (ifs[i := f]) c nc"
proof -
  have same: "if_ip (ifs[i := f] ! j) = if_ip (ifs ! j)" "if_netconfig (ifs[i := f] ! j) = if_netconfig (ifs ! j)" for j
    using assms(2,3) by (cases "i < length ifs"; cases "j = i"; simp add: list_update_beyond)+
  have check: "check_interface c nc own j (ifs[i := f] ! j) = check_interface c nc own j (ifs ! j)" for own j
    by (simp add: check_interface_def same split: option.split)
  have "check_all (\<lambda>j. check_interface c nc own j (ifs[i := f] ! j)) js = check_all (\<lambda>j. check_interface c nc own j (ifs ! j)) js" for own js
    by (induction js) (simp_all add: check)
  then have "validate (\<lambda>j. ifs[i := f] ! j) c nc = validate (\<lambda>j. ifs ! j) c nc" by (simp add: validate_def)
  then show ?thesis using assms(1) by (simp add: conf_ok_def table_ok_def entry_ok_def list_all_iff same)
qed

lemma record_address_ok:
  assumes "net_ok w" and "record_address reconfigure m i w = (Inr u, v)"
  shows "net_ok v"
proof -
  let ?f = "vn_ifaces w ! i"
  obtain ns where v: "v = w\<lparr>vn_ifaces := (vn_ifaces w)[i := ?f\<lparr>if_params := p_set ''ip'' (if_ip ?f) (p_assign ''netmask'' m (if_params ?f))\<rparr>], vn_nodes := ns\<rparr>"
    using assms(2) by (auto simp: record_address_def io_steps lift_step bindM_eq_Inr [of "the_node _"] the_node_Inr modifyM_def Let_def)
  show ?thesis
    unfolding net_ok_def
    by (rule net_okI) (use net_okD [OF assms(1) [unfolded net_ok_def]] in \<open>auto simp: v intro!: conf_ok_params\<close>)
qed

text \<open>A configuration while its interfaces are translated.\<close>

definition changing :: "nat \<Rightarrow> string \<Rightarrow> nat list \<Rightarrow> vnet \<Rightarrow> bool" where
  "changing c k ids w \<longleftrightarrow> net_ok_but {c} w \<and> c < length (vn_confs w) \<and> nc_net_ip (vn_confs w ! c) = Some k
     \<and> table_ok (vn_ifaces w) c (vn_confs w ! c)
     \<and> list_all (\<lambda>i. i < length (vn_ifaces w) \<and> if_netconfig (vn_ifaces w ! i) = Some c) ids"

lemma translate_interface_ok:
  assumes run: "translate_interface c new_ip i w = (Inr u, v)" and ch: "changing c k ids w" and i: "i \<in> set ids"
  shows "changing c k ids v" and "vn_netconfigs v = vn_netconfigs w"
proof -
  let ?f = "vn_ifaces w ! i"
  let ?nc = "vn_confs w ! c"
  let ?t = "dict_del (if_ip ?f) (nc_interfaces ?nc)"
  obtain ip where v: "v = w\<lparr>vn_ifaces := (vn_ifaces w)[i := ?f\<lparr>if_ip := ip\<rparr>],
      vn_confs := (vn_confs w)[c := ?nc\<lparr>nc_interfaces := dict_set ip i ?t\<rparr>]\<rparr>"
    using run ch unfolding translate_interface_def io_steps detach_ip_Inr lift_step
    by (auto simp: run_conf_def modifyM_def changing_def)
  have f: "i < length (vn_ifaces w)" "if_netconfig ?f = Some c" and c: "c < length (vn_confs w)"
    and t: "table_ok (vn_ifaces w) c ?nc"
    using ch i by (auto simp: changing_def list_all_iff)
  have d: "table_ok (vn_ifaces w) c (?nc\<lparr>nc_interfaces := ?t\<rparr>)"
    using t distinct_delete [of "nc_interfaces ?nc" "if_ip ?f"]
    by (simp add: table_ok_def list_all_iff set_dict_del) (simp add: dict_del_def)
  have "i \<notin> table_ids (?nc\<lparr>nc_interfaces := ?t\<rparr>)"
    using table_okD [OF t] by (auto simp: table_ids_def set_dict_del)
  from table_ok_insert [OF d this f(1), of "?f\<lparr>if_ip := ip\<rparr>" ip] f(2)
  have "table_ok (vn_ifaces v) c (vn_confs v ! c)" by (simp add: v c)
  moreover have "net_ok_but {c} v"
  proof -
    have "loose {c} i w" using ch f(2) by (intro looseI) (auto simp: changing_def)
    then have "net_ok_but {c} (w\<lparr>vn_ifaces := (vn_ifaces w)[i := ?f\<lparr>if_ip := ip\<rparr>]\<rparr>)" using ch net_ok_iface by (simp add: changing_def)
    from net_ok_conf [OF this, of c] show ?thesis by (simp add: v)
  qed
  moreover have "if_netconfig (vn_ifaces v ! j) = if_netconfig (vn_ifaces w ! j)" for j
    using f(1) by (cases "j = i") (simp_all add: v)
  moreover have "length (vn_ifaces v) = length (vn_ifaces w)" "c < length (vn_confs v)" "nc_net_ip (vn_confs v ! c) = Some k"
    using ch c by (simp_all add: v changing_def)
  ultimately show "changing c k ids v" using ch by (simp add: changing_def list_all_iff)
  show "vn_netconfigs v = vn_netconfigs w" by (simp add: v)
qed

lemma translate_all_ok:
  assumes "forM (translate_interface c new_ip) js w = (Inr u, v)" and "changing c k ids w" and "set js \<subseteq> set ids"
  shows "changing c k ids v \<and> vn_netconfigs v = vn_netconfigs w"
  using assms
proof (induction js arbitrary: w)
  case (Cons i js)
  obtain w1 where one: "translate_interface c new_ip i w = (Inr (), w1)" and rest: "forM (translate_interface c new_ip) js w1 = (Inr u, v)"
    using Cons.prems(1) by (auto simp: thenM_def bindM_eq_Inr)
  note eff = translate_interface_ok [OF one Cons.prems(2)]
  show ?case using Cons.IH [OF rest] eff Cons.prems(3) by simp
qed (simp add: io_run)

lemma forget_conf_Inr: "bindM (forget_conf c) k w = (Inr y, v) \<longleftrightarrow>
  dict_has (vn_netconfigs w) (str_of (nc_net_ip (vn_confs w ! c)))
  \<and> k () (w\<lparr>vn_netconfigs := dict_del (str_of (nc_net_ip (vn_confs w ! c))) (vn_netconfigs w)\<rparr>) = (Inr y, v)"
  by (simp add: forget_conf_def bindM_assoc io_steps Let_def raiseM_def)

lemma change_network_address_ok:
  assumes run: "change_network_address reconfigure c new_ip m w = (Inr u, v)" and ok: "net_ok w" and k: "(k, c) \<in> set (vn_netconfigs w)"
  shows "net_ok v"
proof -
  let ?ids = "map snd (nc_interfaces (vn_confs w ! c))"
  obtain w1 p ip nc w4 where w1: "forM (translate_interface c new_ip) ?ids w = (Inr (), w1)"
    and nc: "from_interface p ip (vn_confs w1 ! c) = (Inr (), nc)"
    and valid: "validate (\<lambda>j. vn_ifaces w1 ! j) c ((vn_confs w1)[c := nc] ! c) = Inr ()"
    and w4: "w4 = snd (store_conf c (w1\<lparr>vn_netconfigs := dict_del (str_of (nc_net_ip (vn_confs w1 ! c))) (vn_netconfigs w1), vn_confs := (vn_confs w1)[c := nc]\<rparr>))"
    and rec: "forM (record_address reconfigure m) (map snd (nc_interfaces (vn_confs w4 ! c))) w4 = (Inr u, v)"
    using run unfolding change_network_address_def io_steps bindM_eq_Inr [of "forM (translate_interface _ _) _"] Let_def
    by (auto simp: io_steps lift_step forget_conf_Inr run_conf_Inr bindM_eq_Inr [of "validate_conf _"] validated
        bindM_eq_Inr [of "store_conf _"] store_conf_run raiseM_def split: if_splits)
  have at: "c < length (vn_confs w)" "nc_net_ip (vn_confs w ! c) = Some k" "conf_ok (vn_ifaces w) c (vn_confs w ! c)"
    using net_okD [OF ok [unfolded net_ok_def] k] by simp_all
  have "changing c k ?ids w"
    using at net_ok_mono [OF ok [unfolded net_ok_def]] by (auto simp: changing_def conf_ok_def list_all_iff dest: table_okD)
  from translate_all_ok [OF w1 this] have ch: "changing c k ?ids w1" and same: "vn_netconfigs w1 = vn_netconfigs w" by simp_all
  let ?w3 = "w1\<lparr>vn_netconfigs := dict_del (str_of (nc_net_ip (vn_confs w1 ! c))) (vn_netconfigs w1), vn_confs := (vn_confs w1)[c := nc]\<rparr>"
  have gone: "(k', c) \<notin> set (vn_netconfigs ?w3)" for k'
    using net_okD(2) [OF ok [unfolded net_ok_def], of k' c] at(2) ch same
    by (auto simp: set_dict_del changing_def str_of_def)
  have "net_ok_but {c} ?w3"
    by (rule net_okI) (use ch net_okD [of "{c}" w1] in \<open>auto simp: changing_def set_dict_del nth_list_update_neq\<close>)
  then have "net_ok ?w3" using gone by (intro net_ok_close [of c]) blast+
  moreover have "conf_ok (vn_ifaces ?w3) c (vn_confs ?w3 ! c)" "c < length (vn_confs ?w3)" "\<exists>k. nc_net_ip (vn_confs ?w3 ! c) = Some k"
    using ch valid from_interface_effect [OF nc] by (auto simp: changing_def conf_ok_def table_ok_def)
  ultimately have "net_ok w4" unfolding w4 using store_conf_ok by blast
  moreover have "net_ok v" if "forM (record_address reconfigure m) js w = (Inr u, v)" "net_ok w" for js w
    using that by (induction js arbitrary: w) (auto simp: io_run thenM_def bindM_eq_Inr dest: record_address_ok)
  ultimately show ?thesis using rec by blast
qed


section \<open>Networks under any operations\<close>

datatype net_op = AddNode string params bool | Reattach string string string string | ChangeAddress string string "string option"

fun run_op :: "(nat \<Rightarrow> unit res) \<Rightarrow> net_op \<Rightarrow> (vnet, unit) io" where
  "run_op reconfigure (AddNode name p ephemeral) = add_node name p ephemeral"
| "run_op reconfigure (Reattach client server client_role server_role) = reattach_interface client server client_role server_role []"
| "run_op reconfigure (ChangeAddress net_ip new_ip new_mask) =
     bindM (getM (\<lambda>w. of_option KeyError (map_of (vn_netconfigs w) net_ip))) (\<lambda>c.
     bindM (liftM c) (\<lambda>c. change_network_address reconfigure c new_ip new_mask))"

lemma add_node_ok: "add_node name p e w = (Inr u, v) \<Longrightarrow> net_ok w \<Longrightarrow> net_ok v"
proof -
  assume run: "add_node name p e w = (Inr u, v)" and ok: "net_ok w"
  let ?w = "w\<lparr>vn_nodes := dict_set name \<lparr>vd_params = p, vd_interfaces = [], vd_ephemeral = e\<rparr> (vn_nodes w)\<rparr>"
  have "integrate_node name ?w = (Inr u, v)" using run by (simp add: add_node_def io_steps)
  then show ?thesis by (rule integrate_node_ok) (use ok in \<open>simp add: net_ok_def net_ok_but_def\<close>)
qed

lemma run_op_ok:
  assumes "run_op reconfigure x w = (Inr u, v)" and "net_ok w" and "named_ok w"
  shows "net_ok v"
proof (cases x)
  case (ChangeAddress ip new_ip m)
  then obtain c where "map_of (vn_netconfigs w) ip = Some c" "change_network_address reconfigure c new_ip m w = (Inr u, v)"
    using assms(1) by (auto simp: io_steps lift_step of_option_def split: option.splits)
  then show ?thesis using change_network_address_ok [OF _ assms(2) map_of_SomeD] by simp
qed (use assms add_node_ok reattach_interface_ok in auto)

lemma named_run_op: "keeps named_ok (run_op reconfigure x)"
proof -
  have "keeps named_ok (translate_interface c new_ip i)" "keeps named_ok (forget_conf c)" "keeps named_ok (record_address reconfigure m i)"
    for c new_ip i m
    unfolding translate_interface_def forget_conf_def record_address_def Let_def by (intro keeps_intros; simp)+
  then have "keeps named_ok (change_network_address reconfigure c new_ip m)" for c new_ip m
    unfolding change_network_address_def Let_def by (intro keeps_intros keeps_forM)
  moreover have "keeps named_ok (add_node name p e)" for name p e
    unfolding add_node_def by (intro keeps_intros named_integrate) simp
  ultimately show ?thesis by (cases x) (auto intro!: keeps_intros named_reattach)
qed


definition nic_params :: "string \<Rightarrow> string \<Rightarrow> params" where
  "nic_params ip netmask = [(''nics'', ''b1''), (''lan_nic'', ''b1''), (''mac'', ''52:54:00:00:00:01''), (''ip'', ip),
     (''netmask'', netmask), (''range'', ''3-4'')]"

lemma example_runs: "fst (forM (run_op (\<lambda>_. Inr ()))
    [AddNode ''vm1'' (nic_params ''0.0.0.1'' ''128.0.0.0'') False, Reattach ''vm1'' ''vm1'' ''lan_nic'' ''lan_nic''] (empty_network [])) = Inr ()"
  by code_simp


text \<open>
  A network is found only by its address: when a network with the same address and another mask
  is made, the earlier configuration is no longer found, though its interfaces still belong to it.
\<close>

theorem wider_network_replaces_narrower:
  "map_prod id (\<lambda>w. (map (\<lambda>(k, c). (k, c, nc_netmask (vn_confs w ! c))) (vn_netconfigs w), map if_netconfig (vn_ifaces w)))
     (forM (run_op (\<lambda>_. Inr ())) [AddNode ''vm1'' (nic_params ''0.0.0.1'' ''192.0.0.0'') False,
        AddNode ''vm2'' (nic_params ''64.0.0.1'' ''128.0.0.0'') False] (empty_network []))
   = (Inr (), [(''0.0.0.0'', 1, Some ''128.0.0.0'')], [Some 0, Some 1])"
  by code_simp

end
